(* ===== verification/TS_Prelude.thy ===== *)
theory TS_Prelude
  imports Main "HOL-Library.Word" "HOL-Library.Char_ord" "HOL-Library.List_Lexorder"
begin

text \<open>
  Shared vocabulary of the TupleStone development: names for the machine types of
  \<^verbatim>\<open>src/common/types.h\<close>, the reading of a \<^verbatim>\<open>char\<close> as a byte, the
  \<^verbatim>\<open>cctype\<close> classification functions in the C locale, little- and big-endian byte
  runs of a word, and the generic lemmas on them that every codec of the program uses.
\<close>

unbundle bit_operations_syntax

named_theorems byte_simps \<open>rewriting of byte runs: lengths, elements, reading back\<close>
named_theorems codec_simps \<open>reading back what an encoder wrote\<close>
named_theorems frame_simps \<open>parts of a state an operation leaves alone\<close>

section \<open>Machine types\<close>

type_synonym byte = "8 word"
type_synonym bytes = "byte list"
type_synonym u16 = "16 word"
type_synonym u32 = "32 word"
type_synonym u64 = "64 word"

type_synonym page_id_t = u32
type_synonym slot_id_t = u16
type_synonym lsn_t = u64
type_synonym txn_id_t = u64
type_synonym table_id_t = u32
type_synonym index_id_t = u32

definition kInvalidPageId :: page_id_t where
  "kInvalidPageId = 0xFFFFFFFF"

definition kInvalidLsn :: lsn_t where
  "kInvalidLsn = 0"

definition kInvalidTxnId :: txn_id_t where
  "kInvalidTxnId = 0"

definition kPageSize :: nat where
  "kPageSize = 4096"

definition kPageSizeLog2 :: byte where
  "kPageSizeLog2 = 12"

definition kHeaderPageId :: page_id_t where
  "kHeaderPageId = 0"

datatype RID = RID (page_id: page_id_t) (slot_id: slot_id_t)

definition RID_valid :: "RID \<Rightarrow> bool" where
  "RID_valid r \<longleftrightarrow> page_id r \<noteq> kInvalidPageId"

definition default_RID :: RID where
  "default_RID = RID kInvalidPageId 0"

text \<open>The order \<^verbatim>\<open>operator<\<close> gives the record addresses: page first, then slot.\<close>

instantiation RID :: linorder
begin

definition less_RID :: "RID \<Rightarrow> RID \<Rightarrow> bool" where
  "less_RID a b \<longleftrightarrow>
     (if page_id a \<noteq> page_id b then page_id a < page_id b else slot_id a < slot_id b)"

definition less_eq_RID :: "RID \<Rightarrow> RID \<Rightarrow> bool" where
  "less_eq_RID a b \<longleftrightarrow> a = b \<or> a < b"

instance
  by standard (auto simp: less_RID_def less_eq_RID_def RID.expand split: if_splits)

end

lemma kPageSize_log2: "kPageSize = 2 ^ unat kPageSizeLog2"
  by (simp add: kPageSize_def kPageSizeLog2_def)

section \<open>Characters and bytes\<close>

text \<open>A C++ \<^verbatim>\<open>char\<close> and an \<^verbatim>\<open>uint8_t\<close> hold the same eight bits.\<close>

definition byte_of_char :: "char \<Rightarrow> byte" where
  "byte_of_char c = of_nat (of_char c)"

definition char_of_byte :: "byte \<Rightarrow> char" where
  "char_of_byte b = char_of (unat b)"

abbreviation bytes_of_string :: "string \<Rightarrow> bytes" where
  "bytes_of_string \<equiv> map byte_of_char"

abbreviation string_of_bytes :: "bytes \<Rightarrow> string" where
  "string_of_bytes \<equiv> map char_of_byte"

lemma unat_byte_of_char: "unat (byte_of_char c) = of_char c"
  by (simp add: byte_of_char_def unat_of_nat)

lemma char_of_byte_of_char [simp]: "char_of_byte (byte_of_char c) = c"
  by (simp add: char_of_byte_def unat_byte_of_char)

lemma byte_of_char_of_byte [simp]: "byte_of_char (char_of_byte b) = b"
proof -
  have "unat b < 256" using unsigned_less [of b, where 'a = nat] by simp
  then have "of_char (char_of (unat b)) = unat b" by simp
  then show ?thesis by (simp add: byte_of_char_def char_of_byte_def)
qed

lemma string_of_bytes_of_string [simp]: "string_of_bytes (bytes_of_string s) = s"
  by (induction s) auto

lemma bytes_of_string_of_bytes [simp]: "bytes_of_string (string_of_bytes s) = s"
  by (induction s) auto

lemma byte_of_char_eq_iff [simp]: "byte_of_char c = byte_of_char d \<longleftrightarrow> c = d"
  by (metis char_of_byte_of_char)

lemma byte_of_char_less_iff: "byte_of_char c < byte_of_char d \<longleftrightarrow> c < d"
  by (simp add: word_less_nat_alt unat_byte_of_char less_char_def)

lemma bytes_of_string_less_iff: "bytes_of_string s < bytes_of_string t \<longleftrightarrow> s < t"
proof (induction s arbitrary: t)
  case Nil
  then show ?case by (cases t) auto
next
  case (Cons c s)
  then show ?case by (cases t) (auto simp: byte_of_char_less_iff)
qed

section \<open>Character classes of the C locale\<close>

abbreviation code_of :: "char \<Rightarrow> nat" where
  "code_of c \<equiv> of_char c"

definition isspace :: "char \<Rightarrow> bool" where
  "isspace c \<longleftrightarrow> code_of c = 32 \<or> (9 \<le> code_of c \<and> code_of c \<le> 13)"

definition isdigit :: "char \<Rightarrow> bool" where
  "isdigit c \<longleftrightarrow> 48 \<le> code_of c \<and> code_of c \<le> 57"

definition isupper :: "char \<Rightarrow> bool" where
  "isupper c \<longleftrightarrow> 65 \<le> code_of c \<and> code_of c \<le> 90"

definition islower :: "char \<Rightarrow> bool" where
  "islower c \<longleftrightarrow> 97 \<le> code_of c \<and> code_of c \<le> 122"

definition isalpha :: "char \<Rightarrow> bool" where
  "isalpha c \<longleftrightarrow> isupper c \<or> islower c"

definition isalnum :: "char \<Rightarrow> bool" where
  "isalnum c \<longleftrightarrow> isalpha c \<or> isdigit c"

definition tolower :: "char \<Rightarrow> char" where
  "tolower c = (if isupper c then char_of (code_of c + 32 :: nat) else c)"

definition toupper :: "char \<Rightarrow> char" where
  "toupper c = (if islower c then char_of (code_of c - 32 :: nat) else c)"

definition Lower :: "string \<Rightarrow> string" where
  "Lower text = map tolower text"

lemma tolower_idem [simp]: "tolower (tolower c) = tolower c"
  by (auto simp: tolower_def isupper_def)

lemma Lower_idem [simp]: "Lower (Lower s) = Lower s"
  by (simp add: Lower_def comp_def)

lemma length_Lower [simp]: "length (Lower s) = length s"
  by (simp add: Lower_def)

section \<open>Decimal numerals\<close>

fun nat_to_string :: "nat \<Rightarrow> string" where
  "nat_to_string n =
     (if n < 10 then [char_of (48 + n)]
      else nat_to_string (n div 10) @ [char_of (48 + n mod 10)])"

declare nat_to_string.simps [simp del]

definition int_to_string :: "int \<Rightarrow> string" where
  "int_to_string i =
     (if i < 0 then CHR ''-'' # nat_to_string (nat (- i)) else nat_to_string (nat i))"

section \<open>Two's complement\<close>

abbreviation int64 :: "int \<Rightarrow> bool" where
  "int64 v \<equiv> - (2 ^ 63) \<le> v \<and> v < 2 ^ 63"

abbreviation int32 :: "int \<Rightarrow> bool" where
  "int32 v \<equiv> - (2 ^ 31) \<le> v \<and> v < 2 ^ 31"

lemma sint_int64 [simp]: "int64 v \<Longrightarrow> sint (word_of_int v :: u64) = v"
  by (simp add: signed_of_int signed_take_bit_int_eq_self)

lemma sint_int32 [simp]: "int32 v \<Longrightarrow> sint (word_of_int v :: u32) = v"
  by (simp add: signed_of_int signed_take_bit_int_eq_self)

lemma int64_sint: "int64 (sint (w :: u64))"
  using sint_greater_eq [of w] sint_less [of w] by simp

section \<open>Little-endian byte runs\<close>

text \<open>
  Byte \<open>i\<close> of a run is \<open>value >> (8 * i)\<close>; reading ors the bytes back, each shifted to its
  place, as the loops of \<^verbatim>\<open>endian.h\<close>, of the table serializer and of the WAL do.
\<close>

definition le_store :: "nat \<Rightarrow> 'a::len word \<Rightarrow> bytes" where
  "le_store n w = map (\<lambda>i. ucast (drop_bit (8 * i) w)) [0..<n]"

fun le_load_from :: "nat \<Rightarrow> bytes \<Rightarrow> 'a::len word" where
  "le_load_from i [] = 0"
| "le_load_from i (b # bs) = push_bit (8 * i) (ucast b) OR le_load_from (Suc i) bs"

abbreviation le_load :: "bytes \<Rightarrow> 'a::len word" where
  "le_load \<equiv> le_load_from 0"

lemma length_le_store [simp, byte_simps]: "length (le_store n w) = n"
  by (simp add: le_store_def)

lemma le_store_nth [byte_simps]: "i < n \<Longrightarrow> le_store n w ! i = ucast (drop_bit (8 * i) w)"
  by (simp add: le_store_def)

lemma bit_placed_byte:
  "bit (push_bit m (ucast (b :: byte)) :: 'a::len word) k \<longleftrightarrow>
     k < LENGTH('a) \<and> m \<le> k \<and> bit b (k - m)"
  by (auto simp: bit_simps)

lemma bit_le_load_from:
  "bit (le_load_from i bs :: 'a::len word) k \<longleftrightarrow>
     k < LENGTH('a) \<and> 8 * i \<le> k \<and> k div 8 - i < length bs \<and> bit (bs ! (k div 8 - i)) (k mod 8)"
proof (induction bs arbitrary: i)
  case Nil
  then show ?case by simp
next
  case (Cons b bs)
  consider "k < 8 * i" | "8 * i \<le> k" "k < 8 * i + 8" | "8 * Suc i \<le> k" by (metis mult_Suc_right add.commute not_le)
  then show ?case
  proof cases
    case 1
    then show ?thesis by (simp add: bit_or_iff bit_placed_byte Cons.IH)
  next
    case 2
    then have "k div 8 = i" "k mod 8 = k - 8 * i"
      by (simp_all add: div_nat_eqI modulo_nat_def)
    with 2 show ?thesis by (simp add: bit_or_iff bit_placed_byte Cons.IH)
  next
    case 3
    then have "Suc i \<le> k div 8" by (simp add: less_eq_div_iff_mult_less_eq)
    then have "k div 8 - i = Suc (k div 8 - Suc i)" by simp
    moreover have "\<not> bit b (k - 8 * i)"
      using 3 bit_imp_le_length [of b "k - 8 * i"] by auto
    ultimately show ?thesis using 3 by (simp add: bit_or_iff bit_placed_byte Cons.IH)
  qed
qed

lemma bit_le_store:
  "i < n \<Longrightarrow> bit (le_store n w ! i) j \<longleftrightarrow> j < 8 \<and> bit w (8 * i + j)"
  by (simp add: le_store_nth bit_simps)

lemma le_load_store [simp, codec_simps]:
  "LENGTH('a) = 8 * n \<Longrightarrow> le_load (le_store n (w :: 'a::len word)) = w"
  by (rule bit_word_eqI) (auto simp: bit_le_load_from bit_le_store mult_div_mod_eq)

lemma le_store_load [codec_simps]:
  assumes "length bs = n" "LENGTH('a) = 8 * n"
  shows "le_store n (le_load bs :: 'a::len word) = bs"
proof (rule nth_equalityI)
  fix i assume "i < length (le_store n (le_load bs :: 'a word))"
  then have i: "i < n" by simp
  show "le_store n (le_load bs :: 'a word) ! i = bs ! i"
  proof (rule bit_word_eqI)
    fix j assume "j < LENGTH(8)"
    then have j: "j < 8" by simp
    then have "(8 * i + j) div 8 = i" "(8 * i + j) mod 8 = j" "8 * i + j < 8 * n" using i by auto
    then show "bit (le_store n (le_load bs :: 'a word) ! i) j \<longleftrightarrow> bit (bs ! i) j"
      using i j assms by (simp add: bit_le_store bit_le_load_from)
  qed
qed (use assms in simp)

lemma le_load_inj:
  assumes len: "length bs = length cs" "8 * length bs \<le> LENGTH('a)"
    and eq: "(le_load bs :: 'a::len word) = le_load cs"
  shows "bs = cs"
proof (intro nth_equalityI bit_word_eqI)
  fix i j assume i: "i < length bs" and "j < LENGTH(8)"
  then have j: "j < 8" by simp
  have *: "(8 * i + j) div 8 = i" "(8 * i + j) mod 8 = j" "8 * i + j < LENGTH('a)"
    using i j len by auto
  have "bit (le_load bs :: 'a word) (8 * i + j) = bit (le_load cs :: 'a word) (8 * i + j)"
    using eq by simp
  then show "bit (bs ! i) j = bit (cs ! i) j"
    using i len * by (simp add: bit_le_load_from)
qed (use len in simp)

section \<open>Big-endian byte runs\<close>

definition be_store :: "nat \<Rightarrow> 'a::len word \<Rightarrow> bytes" where
  "be_store n w = rev (le_store n w)"

definition be_load :: "bytes \<Rightarrow> 'a::len word" where
  "be_load bs = le_load (rev bs)"

lemma length_be_store [simp, byte_simps]: "length (be_store n w) = n"
  by (simp add: be_store_def)

lemma be_load_store [simp, codec_simps]:
  "LENGTH('a) = 8 * n \<Longrightarrow> be_load (be_store n (w :: 'a::len word)) = w"
  by (simp add: be_store_def be_load_def)

text \<open>The number a big-endian run stands for, and its agreement with the byte order.\<close>

fun be_val :: "bytes \<Rightarrow> nat" where
  "be_val [] = 0"
| "be_val (b # bs) = unat b * 256 ^ length bs + be_val bs"

lemma be_val_less: "be_val bs < 256 ^ length bs"
proof (induction bs)
  case (Cons b bs)
  have "unat b + 1 \<le> 256" using unsigned_less [of b, where 'a = nat] by simp
  then have "(unat b + 1) * 256 ^ length bs \<le> 256 * 256 ^ length bs" by (rule mult_le_mono1)
  then have "unat b * 256 ^ length bs + 256 ^ length bs \<le> 256 ^ length (b # bs)"
    by (simp only: add_mult_distrib mult_1 length_Cons power_Suc)
  with Cons.IH show ?case by (simp only: be_val.simps)
qed simp

lemma be_val_less_iff:
  "length bs = length cs \<Longrightarrow> bs < cs \<longleftrightarrow> be_val bs < be_val cs"
proof (induction bs cs rule: list_induct2)
  case (Cons b bs c cs)
  let ?p = "256 ^ length cs :: nat"
  have low: "be_val bs < ?p" "be_val cs < ?p" using be_val_less Cons.hyps by metis+
  consider "b < c" | "b = c" | "c < b" by (rule linorder_cases)
  then show ?case
  proof cases
    case 1
    then have "(unat b + 1) * ?p \<le> unat c * ?p" by (simp add: word_less_nat_alt del: mult_Suc)
    with 1 low Cons.hyps show ?thesis by (simp add: algebra_simps)
  next
    case 2
    with Cons show ?thesis by simp
  next
    case 3
    then have "(unat c + 1) * ?p \<le> unat b * ?p" by (simp add: word_less_nat_alt del: mult_Suc)
    with 3 low Cons.hyps show ?thesis by (auto simp: algebra_simps)
  qed
qed simp

lemma be_val_snoc: "be_val (bs @ [b]) = be_val bs * 256 + unat b"
  by (induction bs) (auto simp: algebra_simps)

lemma be_val_be_store: "be_val (be_store n w) = unat w mod 256 ^ n"
proof (induction n arbitrary: w)
  case 0
  then show ?case by (simp add: be_store_def le_store_def)
next
  case (Suc n)
  have split: "be_store (Suc n) w = be_store n (drop_bit 8 w) @ [ucast w]"
    by (simp add: be_store_def le_store_def upt_conv_Cons map_Suc_upt [symmetric] comp_def
          add.commute del: upt_Suc)
  have high: "unat (drop_bit 8 w) = unat w div 256"
    unfolding unat_drop_bit_eq by (simp add: drop_bit_eq_div)
  have "be_val (be_store (Suc n) w) = unat w div 256 mod 256 ^ n * 256 + unat w mod 256"
    by (simp add: split be_val_snoc Suc.IH high unsigned_ucast_eq take_bit_eq_mod)
  also have "\<dots> = unat w mod 256 ^ Suc n"
    by (simp add: mod_mult2_eq)
  finally show ?case .
qed

lemma be_store_less_iff:
  assumes "LENGTH('a) = 8 * n"
  shows "be_store n (v :: 'a::len word) < be_store n w \<longleftrightarrow> v < w"
proof -
  have "(256 :: nat) ^ n = 2 ^ LENGTH('a)" by (simp add: assms power_mult)
  then have "unat v mod 256 ^ n = unat v" "unat w mod 256 ^ n = unat w"
    by (simp_all add: unsigned_less)
  then show ?thesis
    by (simp add: be_val_less_iff be_val_be_store word_less_nat_alt)
qed

section \<open>Exclusive or\<close>

lemma word_xor_left_cancel [simp]: "a XOR b = a XOR c \<longleftrightarrow> b = (c :: 'a::len word)"
proof
  assume "a XOR b = a XOR c"
  then have "a XOR (a XOR b) = a XOR (a XOR c)" by simp
  then show "b = c" by (simp add: xor.assoc [symmetric])
qed simp

lemma word_xor_right_cancel [simp]: "b XOR a = c XOR a \<longleftrightarrow> b = (c :: 'a::len word)"
  using word_xor_left_cancel [of a b c] by (simp only: xor.commute)

section \<open>Complement\<close>

lemma uint_not_word: "uint (NOT w :: 'a::len word) = 2 ^ LENGTH('a) - 1 - uint w"
proof -
  have top: "uint (- 1 :: 'a word) = 2 ^ LENGTH('a) - 1"
    by (simp add: unsigned_minus_1_eq_mask mask_eq_exp_minus_1)
  have "uint w \<le> uint (- 1 :: 'a word)" using unsigned_less [of w, where 'a = int] by (simp add: top)
  then have "uint (- 1 - w) = uint (- 1 :: 'a word) - uint w" by (simp only: uint_sub_lem)
  moreover have "NOT w = - 1 - w" by (simp add: not_eq_complement)
  ultimately show ?thesis by (simp only: top)
qed

lemma word_not_less_iff: "NOT a < NOT b \<longleftrightarrow> b < (a :: 'a::len word)"
  by (simp add: word_less_alt uint_not_word)

section \<open>Byte order of equally prefixed runs\<close>

lemma append_less_append_iff [simp]: "(xs @ ys < xs @ zs) = (ys < (zs :: 'a::linorder list))"
  by (induction xs) auto

lemma append_less_same_length:
  "length xs = length ys \<Longrightarrow> xs < ys \<Longrightarrow> xs @ zs < ys @ (us :: 'a::linorder list)"
  by (induction xs ys rule: list_induct2) auto

lemma word_less_succ: "w + 1 \<noteq> 0 \<Longrightarrow> w < w + (1 :: 'a::len word)"
  by (simp add: word_less_nat_alt unatSuc add.commute)

end
