(* ===== verification/Endian.thy ===== *)
theory Endian
  imports TS_Prelude
begin

text \<open>
  \<^verbatim>\<open>src/common/endian.h\<close>: integer fields inside a byte buffer. A buffer is a byte list
  and a pointer into it an offset; the C++ helpers do not check bounds, their callers
  do, so every law below asks for the field to lie inside the buffer. The locale
  \<open>buffer_field\<close> is what callers rely on: a store is read back, changes nothing outside its
  field and keeps the buffer's size.
\<close>

section \<open>The helpers\<close>

definition StoreU8 :: "bytes \<Rightarrow> nat \<Rightarrow> byte \<Rightarrow> bytes" where
  "StoreU8 dst off v = dst[off := v]"

definition LoadU8 :: "bytes \<Rightarrow> nat \<Rightarrow> byte" where
  "LoadU8 src off = src ! off"

definition StoreU16LE :: "bytes \<Rightarrow> nat \<Rightarrow> u16 \<Rightarrow> bytes" where
  "StoreU16LE dst off v = dst[off := ucast v, off + 1 := ucast (drop_bit 8 v)]"

definition LoadU16LE :: "bytes \<Rightarrow> nat \<Rightarrow> u16" where
  "LoadU16LE src off = ucast (src ! off) OR push_bit 8 (ucast (src ! (off + 1)))"

definition StoreU32LE :: "bytes \<Rightarrow> nat \<Rightarrow> u32 \<Rightarrow> bytes" where
  "StoreU32LE dst off v =
     dst[off := ucast v, off + 1 := ucast (drop_bit 8 v), off + 2 := ucast (drop_bit 16 v),
         off + 3 := ucast (drop_bit 24 v)]"

definition LoadU32LE :: "bytes \<Rightarrow> nat \<Rightarrow> u32" where
  "LoadU32LE src off =
     ucast (src ! off) OR push_bit 8 (ucast (src ! (off + 1))) OR
     push_bit 16 (ucast (src ! (off + 2))) OR push_bit 24 (ucast (src ! (off + 3)))"

definition StoreU64LE :: "bytes \<Rightarrow> nat \<Rightarrow> u64 \<Rightarrow> bytes" where
  "StoreU64LE dst off v =
     StoreU32LE (StoreU32LE dst off (ucast v)) (off + 4) (ucast (drop_bit 32 v))"

definition LoadU64LE :: "bytes \<Rightarrow> nat \<Rightarrow> u64" where
  "LoadU64LE src off = ucast (LoadU32LE src off) OR push_bit 32 (ucast (LoadU32LE src (off + 4)))"

text \<open>Signed stores go through the unsigned path; the value is read in two's complement.\<close>

definition StoreI64LE :: "bytes \<Rightarrow> nat \<Rightarrow> int \<Rightarrow> bytes" where
  "StoreI64LE dst off v = StoreU64LE dst off (word_of_int v)"

definition LoadI64LE :: "bytes \<Rightarrow> nat \<Rightarrow> int" where
  "LoadI64LE src off = sint (LoadU64LE src off)"

definition StoreI32LE :: "bytes \<Rightarrow> nat \<Rightarrow> int \<Rightarrow> bytes" where
  "StoreI32LE dst off v = StoreU32LE dst off (word_of_int v)"

definition LoadI32LE :: "bytes \<Rightarrow> nat \<Rightarrow> int" where
  "LoadI32LE src off = sint (LoadU32LE src off)"

definition StoreU16BE :: "bytes \<Rightarrow> nat \<Rightarrow> u16 \<Rightarrow> bytes" where
  "StoreU16BE dst off v = dst[off := ucast (drop_bit 8 v), off + 1 := ucast v]"

definition LoadU16BE :: "bytes \<Rightarrow> nat \<Rightarrow> u16" where
  "LoadU16BE src off = push_bit 8 (ucast (src ! off)) OR ucast (src ! (off + 1))"

definition StoreU32BE :: "bytes \<Rightarrow> nat \<Rightarrow> u32 \<Rightarrow> bytes" where
  "StoreU32BE dst off v =
     dst[off := ucast (drop_bit 24 v), off + 1 := ucast (drop_bit 16 v),
         off + 2 := ucast (drop_bit 8 v), off + 3 := ucast v]"

definition LoadU32BE :: "bytes \<Rightarrow> nat \<Rightarrow> u32" where
  "LoadU32BE src off =
     push_bit 24 (ucast (src ! off)) OR push_bit 16 (ucast (src ! (off + 1))) OR
     push_bit 8 (ucast (src ! (off + 2))) OR ucast (src ! (off + 3))"

definition StoreU64BE :: "bytes \<Rightarrow> nat \<Rightarrow> u64 \<Rightarrow> bytes" where
  "StoreU64BE dst off v =
     StoreU32BE (StoreU32BE dst off (ucast (drop_bit 32 v))) (off + 4) (ucast v)"

definition LoadU64BE :: "bytes \<Rightarrow> nat \<Rightarrow> u64" where
  "LoadU64BE src off = push_bit 32 (ucast (LoadU32BE src off)) OR ucast (LoadU32BE src (off + 4))"

section \<open>The contract of a field\<close>

locale buffer_field =
  fixes width :: nat
    and store :: "bytes \<Rightarrow> nat \<Rightarrow> 'v \<Rightarrow> bytes"
    and load :: "bytes \<Rightarrow> nat \<Rightarrow> 'v"
    and fits :: "'v \<Rightarrow> bool"
  assumes store_length [simp]: "length (store buf off v) = length buf"
    and load_store: "off + width \<le> length buf \<Longrightarrow> fits v \<Longrightarrow> load (store buf off v) off = v"
    and store_elsewhere: "i < off \<or> off + width \<le> i \<Longrightarrow> store buf off v ! i = buf ! i"
    and load_local:
      "(\<And>i. off \<le> i \<Longrightarrow> i < off + width \<Longrightarrow> buf ! i = buf' ! i) \<Longrightarrow> load buf off = load buf' off"
begin

text \<open>A load sees through every change made outside its field.\<close>

lemma load_skip_update:
  "i < off \<or> off + width \<le> i \<Longrightarrow> load (buf[i := b]) off = load buf off"
  by (rule load_local) (auto simp: nth_list_update)

lemma load_skip_store:
  "off' + width \<le> off \<or> off + width \<le> off' \<Longrightarrow> load (store buf off' v) off = load buf off"
  by (rule load_local) (auto simp: store_elsewhere)

lemma take_store: "n \<le> off \<Longrightarrow> take n (store buf off v) = take n buf"
  by (rule nth_equalityI) (auto simp: store_elsewhere)

lemma drop_store: "off + width \<le> n \<Longrightarrow> drop n (store buf off v) = drop n buf"
  by (rule nth_equalityI) (auto simp: store_elsewhere)

end

section \<open>The helpers keep the contract\<close>

lemma length_StoreU32LE [simp]: "length (StoreU32LE dst off v) = length dst"
  by (simp add: StoreU32LE_def)

lemma length_StoreU64LE [simp]: "length (StoreU64LE dst off v) = length dst"
  by (simp add: StoreU64LE_def)

lemma length_StoreU32BE [simp]: "length (StoreU32BE dst off v) = length dst"
  by (simp add: StoreU32BE_def)

lemma join_u16: "ucast (ucast v :: byte) OR push_bit 8 (ucast (ucast (drop_bit 8 v) :: byte)) = (v :: u16)"
  by (rule bit_word_eqI) (auto simp: bit_simps)

lemma join_u32:
  "ucast (ucast v :: byte) OR push_bit 8 (ucast (ucast (drop_bit 8 v) :: byte)) OR
   push_bit 16 (ucast (ucast (drop_bit 16 v) :: byte)) OR
   push_bit 24 (ucast (ucast (drop_bit 24 v) :: byte)) = (v :: u32)" (is "?l = v")
proof (rule bit_word_eqI)
  fix n assume "n < LENGTH(32)"
  then consider "n < 8" | "8 \<le> n" "n < 16" | "16 \<le> n" "n < 24" | "24 \<le> n" "n < 32" by fastforce
  then show "bit ?l n = bit v n" by cases (auto simp: bit_simps)
qed

lemma join_u32_be:
  "push_bit 24 (ucast (ucast (drop_bit 24 v) :: byte)) OR
   push_bit 16 (ucast (ucast (drop_bit 16 v) :: byte)) OR
   push_bit 8 (ucast (ucast (drop_bit 8 v) :: byte)) OR ucast (ucast v :: byte) = (v :: u32)"
  (is "?l = v")
proof (rule bit_word_eqI)
  fix n assume "n < LENGTH(32)"
  then consider "n < 8" | "8 \<le> n" "n < 16" | "16 \<le> n" "n < 24" | "24 \<le> n" "n < 32" by fastforce
  then show "bit ?l n = bit v n" by cases (auto simp: bit_simps)
qed

lemma join_u64:
  "ucast (ucast v :: u32) OR push_bit 32 (ucast (ucast (drop_bit 32 v) :: u32)) = (v :: u64)"
  by (rule bit_word_eqI) (auto simp: bit_simps)

lemma join_u64_be:
  "push_bit 32 (ucast (ucast (drop_bit 32 v) :: u32)) OR ucast (ucast v :: u32) = (v :: u64)"
  by (simp only: or.commute join_u64)

interpretation u8_field: buffer_field 1 StoreU8 LoadU8 "\<lambda>_. True"
  by unfold_locales (auto simp: StoreU8_def LoadU8_def)

interpretation u16le: buffer_field 2 StoreU16LE LoadU16LE "\<lambda>_. True"
  by unfold_locales (auto simp: StoreU16LE_def LoadU16LE_def nth_list_update join_u16)

interpretation u32le: buffer_field 4 StoreU32LE LoadU32LE "\<lambda>_. True"
  by unfold_locales (auto simp: StoreU32LE_def LoadU32LE_def nth_list_update join_u32)

lemma LoadU64LE_local:
  "(\<And>i. off \<le> i \<Longrightarrow> i < off + 8 \<Longrightarrow> buf ! i = buf' ! i) \<Longrightarrow> LoadU64LE buf off = LoadU64LE buf' off"
  unfolding LoadU64LE_def by (intro arg_cong2 [where f = "(OR)"] arg_cong [where f = "push_bit 32"]
      arg_cong [where f = ucast] u32le.load_local) auto

interpretation u64le: buffer_field 8 StoreU64LE LoadU64LE "\<lambda>_. True"
  by unfold_locales
    (auto simp: StoreU64LE_def LoadU64LE_def u32le.load_store u32le.load_skip_store
      u32le.store_elsewhere join_u64 intro: LoadU64LE_local [unfolded LoadU64LE_def])

interpretation i64le: buffer_field 8 StoreI64LE LoadI64LE int64
  by unfold_locales
    (auto simp: StoreI64LE_def LoadI64LE_def u64le.load_store u64le.store_elsewhere sint_int64
      intro: arg_cong [where f = sint] u64le.load_local)

interpretation i32le: buffer_field 4 StoreI32LE LoadI32LE int32
  by unfold_locales
    (auto simp: StoreI32LE_def LoadI32LE_def u32le.load_store u32le.store_elsewhere
      intro: arg_cong [where f = sint] u32le.load_local)

interpretation u16be: buffer_field 2 StoreU16BE LoadU16BE "\<lambda>_. True"
  by unfold_locales
    (auto simp: StoreU16BE_def LoadU16BE_def nth_list_update join_u16 or.commute)

interpretation u32be: buffer_field 4 StoreU32BE LoadU32BE "\<lambda>_. True"
  by unfold_locales
    (auto simp: StoreU32BE_def LoadU32BE_def nth_list_update join_u32_be)

lemma LoadU64BE_local:
  "(\<And>i. off \<le> i \<Longrightarrow> i < off + 8 \<Longrightarrow> buf ! i = buf' ! i) \<Longrightarrow> LoadU64BE buf off = LoadU64BE buf' off"
  unfolding LoadU64BE_def by (intro arg_cong2 [where f = "(OR)"] arg_cong [where f = "push_bit 32"]
      arg_cong [where f = ucast] u32be.load_local) auto

interpretation u64be: buffer_field 8 StoreU64BE LoadU64BE "\<lambda>_. True"
  by unfold_locales
    (auto simp: StoreU64BE_def LoadU64BE_def u32be.load_store u32be.load_skip_store
      u32be.store_elsewhere join_u64_be intro: LoadU64BE_local [unfolded LoadU64BE_def])

end
