(* ===== verification/Status.thy ===== *)
theory Status
  imports TS_Prelude
begin

text \<open>
  The error values of \<^verbatim>\<open>include/tuplestone/status.h\<close> and
  \<^verbatim>\<open>src/common/status.cpp\<close>. A \<^verbatim>\<open>Status\<close> is its payload pointer, so
  \<open>None\<close> is Ok; a \<^verbatim>\<open>StatusOr<T>\<close> is \<open>Inl\<close> of the payload or \<open>Inr\<close> of the
  value, and building one from an Ok status leaves a value-initialised \<open>T\<close>.
\<close>

section \<open>Codes, positions, payloads\<close>

datatype status_code =
    kOk | kNotFound | kAlreadyExists | kInvalidArgument | kSyntaxError | kTypeError | kIoError
  | kCorruption | kIncompatible | kOutOfMemory | kOutOfRange | kSerializationFailure
  | kNotSupported | kInternal

fun StatusCodeName :: "status_code \<Rightarrow> string" where
  "StatusCodeName kOk = ''Ok''"
| "StatusCodeName kNotFound = ''NotFound''"
| "StatusCodeName kAlreadyExists = ''AlreadyExists''"
| "StatusCodeName kInvalidArgument = ''InvalidArgument''"
| "StatusCodeName kSyntaxError = ''SyntaxError''"
| "StatusCodeName kTypeError = ''TypeError''"
| "StatusCodeName kIoError = ''IoError''"
| "StatusCodeName kCorruption = ''Corruption''"
| "StatusCodeName kIncompatible = ''Incompatible''"
| "StatusCodeName kOutOfMemory = ''OutOfMemory''"
| "StatusCodeName kOutOfRange = ''OutOfRange''"
| "StatusCodeName kSerializationFailure = ''SerializationFailure''"
| "StatusCodeName kNotSupported = ''NotSupported''"
| "StatusCodeName kInternal = ''Internal''"

record SourcePos =
  pos_line :: u32
  pos_column :: u32

definition no_pos :: SourcePos where
  "no_pos = \<lparr>pos_line = 0, pos_column = 0\<rparr>"

definition SourcePos_valid :: "SourcePos \<Rightarrow> bool" where
  "SourcePos_valid p \<longleftrightarrow> pos_line p \<noteq> 0"

record payload =
  pl_code :: status_code
  pl_pos :: SourcePos
  pl_message :: string

type_synonym status = "payload option"

section \<open>Status\<close>

definition make_status_at :: "status_code \<Rightarrow> string \<Rightarrow> SourcePos \<Rightarrow> status" where
  "make_status_at code message pos =
     (if code = kOk then None
      else Some \<lparr>pl_code = code, pl_pos = pos, pl_message = message\<rparr>)"

definition make_status :: "status_code \<Rightarrow> string \<Rightarrow> status" where
  "make_status code message = make_status_at code message no_pos"

definition status_ok :: "status \<Rightarrow> bool" where
  "status_ok s \<longleftrightarrow> s = None"

definition status_code_of :: "status \<Rightarrow> status_code" where
  "status_code_of s = (case s of None \<Rightarrow> kOk | Some p \<Rightarrow> pl_code p)"

definition status_message :: "status \<Rightarrow> string" where
  "status_message s = (case s of None \<Rightarrow> [] | Some p \<Rightarrow> pl_message p)"

definition status_pos :: "status \<Rightarrow> SourcePos" where
  "status_pos s = (case s of None \<Rightarrow> no_pos | Some p \<Rightarrow> pl_pos p)"

definition status_equal :: "status \<Rightarrow> status \<Rightarrow> bool" where
  "status_equal a b =
     (case (a, b) of
        (Some p, Some q) \<Rightarrow>
          pl_code p = pl_code q \<and> pl_message p = pl_message q \<and>
          pos_line (pl_pos p) = pos_line (pl_pos q) \<and>
          pos_column (pl_pos p) = pos_column (pl_pos q)
      | (None, None) \<Rightarrow> True
      | _ \<Rightarrow> False)"

text \<open>\<open>position_text\<close> is what \<^verbatim>\<open>snprintf\<close> formats into the 48-byte buffer.\<close>

definition position_text :: "SourcePos \<Rightarrow> string" where
  "position_text p =
     ''line '' @ nat_to_string (unat (pos_line p)) @ '':'' @
     nat_to_string (unat (pos_column p)) @ '': ''"

definition status_ToString :: "status \<Rightarrow> string" where
  "status_ToString s =
     (case s of
        None \<Rightarrow> ''Ok''
      | Some p \<Rightarrow>
          StatusCodeName (pl_code p) @ '': '' @
          (if SourcePos_valid (pl_pos p) then position_text (pl_pos p) else []) @ pl_message p)"

section \<open>Named constructors\<close>

definition error_at :: "status_code \<Rightarrow> string \<Rightarrow> SourcePos \<Rightarrow> payload" where
  "error_at code message pos = \<lparr>pl_code = code, pl_pos = pos, pl_message = message\<rparr>"

definition NotFound :: "string \<Rightarrow> payload" where
  "NotFound message = error_at kNotFound message no_pos"
definition AlreadyExists :: "string \<Rightarrow> payload" where
  "AlreadyExists message = error_at kAlreadyExists message no_pos"
definition InvalidArgument :: "string \<Rightarrow> payload" where
  "InvalidArgument message = error_at kInvalidArgument message no_pos"
definition SyntaxError :: "string \<Rightarrow> payload" where
  "SyntaxError message = error_at kSyntaxError message no_pos"
definition SyntaxErrorAt :: "string \<Rightarrow> SourcePos \<Rightarrow> payload" where
  "SyntaxErrorAt message pos = error_at kSyntaxError message pos"
definition TypeError :: "string \<Rightarrow> payload" where
  "TypeError message = error_at kTypeError message no_pos"
definition IoError :: "string \<Rightarrow> payload" where
  "IoError message = error_at kIoError message no_pos"
definition Corruption :: "string \<Rightarrow> payload" where
  "Corruption message = error_at kCorruption message no_pos"
definition Incompatible :: "string \<Rightarrow> payload" where
  "Incompatible message = error_at kIncompatible message no_pos"
definition OutOfMemory :: "string \<Rightarrow> payload" where
  "OutOfMemory message = error_at kOutOfMemory message no_pos"
definition OutOfRange :: "string \<Rightarrow> payload" where
  "OutOfRange message = error_at kOutOfRange message no_pos"
definition SerializationFailure :: "string \<Rightarrow> payload" where
  "SerializationFailure message = error_at kSerializationFailure message no_pos"
definition NotSupported :: "string \<Rightarrow> payload" where
  "NotSupported message = error_at kNotSupported message no_pos"
definition Internal :: "string \<Rightarrow> payload" where
  "Internal message = error_at kInternal message no_pos"

lemmas error_defs =
  NotFound_def AlreadyExists_def InvalidArgument_def SyntaxError_def SyntaxErrorAt_def
  TypeError_def IoError_def Corruption_def Incompatible_def OutOfMemory_def OutOfRange_def
  SerializationFailure_def NotSupported_def Internal_def

section \<open>StatusOr\<close>

type_synonym 'a status_or = "payload + 'a"

text \<open>\<open>status_or_of_status dflt s\<close> is \<^verbatim>\<open>StatusOr<T>(status)\<close> with \<open>dflt = T{}\<close>.\<close>

definition status_or_of_status :: "'a \<Rightarrow> status \<Rightarrow> 'a status_or" where
  "status_or_of_status dflt s = (case s of None \<Rightarrow> Inr dflt | Some p \<Rightarrow> Inl p)"

definition status_of :: "'a status_or \<Rightarrow> status" where
  "status_of r = (case r of Inl p \<Rightarrow> Some p | Inr _ \<Rightarrow> None)"

section \<open>Lemmas\<close>

lemma error_at_code [simp]: "pl_code (error_at c m p) = c"
  by (simp add: error_at_def)

lemma make_status_error: "c \<noteq> kOk \<Longrightarrow> make_status c m = Some (error_at c m no_pos)"
  by (simp add: make_status_def make_status_at_def error_at_def)

lemma status_ok_make_iff [simp]: "status_ok (make_status_at c m p) \<longleftrightarrow> c = kOk"
  by (simp add: status_ok_def make_status_at_def)

lemma status_equal_iff: "status_equal a b \<longleftrightarrow> a = b"
  by (auto simp: status_equal_def split: option.splits)

lemma StatusCodeName_inject: "StatusCodeName a = StatusCodeName b \<longleftrightarrow> a = b"
  by (cases a; cases b) simp_all

lemma status_of_status_or [simp]: "status_of (status_or_of_status d s) = s"
  by (cases s) (simp_all add: status_of_def status_or_of_status_def)

lemma status_of_simps [simp]: "status_of (Inl p) = Some p" "status_of (Inr x) = None"
  by (simp_all add: status_of_def)

lemma length_nat_to_string: "n < 10 ^ k \<Longrightarrow> 0 < k \<Longrightarrow> length (nat_to_string n) \<le> k"
proof (induction n arbitrary: k rule: nat_to_string.induct)
  case (1 n)
  show ?case
  proof (cases "n < 10")
    case True
    then show ?thesis using "1.prems" by (subst nat_to_string.simps) simp
  next
    case False
    then obtain j where k: "k = Suc j" "0 < j"
      using "1.prems" by (cases k; cases "k - 1") auto
    then have "n div 10 < 10 ^ j" using "1.prems"(1) by (simp add: less_mult_imp_div_less mult.commute)
    then have "length (nat_to_string (n div 10)) \<le> j" using "1.IH" False k by blast
    then show ?thesis using False k by (subst nat_to_string.simps) simp
  qed
qed

text \<open>The formatted position always fits the 48-byte buffer, its terminator included.\<close>

lemma position_text_fits: "length (position_text p) < 48"
proof -
  have "unat (pos_line p) < 10 ^ 10" "unat (pos_column p) < 10 ^ 10"
    using unsigned_less [of "pos_line p", where 'a = nat]
      unsigned_less [of "pos_column p", where 'a = nat] by auto
  then have "length (nat_to_string (unat (pos_line p))) \<le> 10"
    "length (nat_to_string (unat (pos_column p))) \<le> 10"
    by (simp_all add: length_nat_to_string)
  then show ?thesis by (simp add: position_text_def)
qed

section \<open>Properties\<close>

text \<open>the position text \<^verbatim>\<open>ToString\<close> formats always fits its 48-byte buffer, so
  \<^verbatim>\<open>snprintf\<close> never cuts it short and the string is exactly code, position and
  message.\<close>

theorem status_position_fits_buffer: "length (position_text pos) + 1 \<le> 48"
  using position_text_fits [of pos] by simp

end
