(* ===== verification/Ieee_Double.thy ===== *)
theory Ieee_Double
  imports TS_Prelude
begin

text \<open>
  The C++ type \<^verbatim>\<open>double\<close> as IEEE-754 binary64, which the key encoding and the
  serializer of the program rely on. A double is its 64 bits. Every finite double is an
  integer multiple of \<open>2 ^ -1074\<close>; \<open>dbl_scaled\<close> is that integer, so arithmetic is exact
  integer arithmetic followed by one rounding (to nearest, ties to even). Which NaN an operation
  returns is left open by C++; the model follows x86-64, where an invalid operation gives the
  quiet NaN with its sign set and a NaN operand is passed on, made quiet, the first of two.
\<close>

datatype double = Double (dbl_bits: u64)

definition dbl_sign :: "double \<Rightarrow> bool" where
  "dbl_sign d \<longleftrightarrow> bit (dbl_bits d) 63"

definition dbl_mag :: "double \<Rightarrow> nat" where
  "dbl_mag d = unat (take_bit 63 (dbl_bits d))"

definition inf_mag :: nat where
  "inf_mag = 2047 * 2 ^ 52"

definition make_double :: "bool \<Rightarrow> nat \<Rightarrow> double" where
  "make_double s m = Double (of_nat (m + (if s then 2 ^ 63 else 0)))"

definition dbl_is_nan :: "double \<Rightarrow> bool" where
  "dbl_is_nan d \<longleftrightarrow> inf_mag < dbl_mag d"

definition dbl_is_inf :: "double \<Rightarrow> bool" where
  "dbl_is_inf d \<longleftrightarrow> dbl_mag d = inf_mag"

definition dbl_nan :: double where
  "dbl_nan = Double 0xFFF8000000000000"

definition dbl_quiet :: "double \<Rightarrow> double" where
  "dbl_quiet d = Double (dbl_bits d OR push_bit 51 1)"

section \<open>Values and order\<close>

definition scaled_mag :: "nat \<Rightarrow> nat" where
  "scaled_mag m = (if m < 2 ^ 52 then m else (2 ^ 52 + m mod 2 ^ 52) * 2 ^ (m div 2 ^ 52 - 1))"

definition dbl_scaled :: "double \<Rightarrow> int" where
  "dbl_scaled d = (if dbl_sign d then - int (scaled_mag (dbl_mag d)) else int (scaled_mag (dbl_mag d)))"

definition dbl_ord :: "double \<Rightarrow> int" where
  "dbl_ord d = (if dbl_sign d then - int (dbl_mag d) else int (dbl_mag d))"

definition dbl_less :: "double \<Rightarrow> double \<Rightarrow> bool" where
  "dbl_less a b \<longleftrightarrow> \<not> dbl_is_nan a \<and> \<not> dbl_is_nan b \<and> dbl_ord a < dbl_ord b"

definition dbl_eq :: "double \<Rightarrow> double \<Rightarrow> bool" where
  "dbl_eq a b \<longleftrightarrow> \<not> dbl_is_nan a \<and> \<not> dbl_is_nan b \<and> dbl_ord a = dbl_ord b"

section \<open>Rounding\<close>

fun flog2 :: "nat \<Rightarrow> nat" where
  "flog2 n = (if n < 2 then 0 else Suc (flog2 (n div 2)))"

declare flog2.simps [simp del]

definition round_half_even :: "nat \<Rightarrow> nat \<Rightarrow> nat" where
  "round_half_even n d =
     (let q = n div d; r = n mod d
      in if 2 * r < d \<or> (2 * r = d \<and> even q) then q else q + 1)"

text \<open>\<open>flog2_ratio n d\<close> is the largest \<open>k\<close> with \<open>2 ^ k \<le> n / d\<close>.\<close>

definition flog2_ratio :: "nat \<Rightarrow> nat \<Rightarrow> int" where
  "flog2_ratio n d =
     (let k = int (flog2 n) - int (flog2 d)
      in if (if 0 \<le> k then d * 2 ^ nat k \<le> n else d \<le> n * 2 ^ nat (- k)) then k else k - 1)"

definition dbl_round :: "bool \<Rightarrow> nat \<Rightarrow> nat \<Rightarrow> double" where
  "dbl_round s n d =
     (if n = 0 then make_double s 0
      else
        let e = max (- 1074) (flog2_ratio n d - 52);
            q = (if 0 \<le> e then round_half_even n (d * 2 ^ nat e)
                 else round_half_even (n * 2 ^ nat (- e)) d);
            m = nat (e + 1074) * 2 ^ 52 + q
        in make_double s (min m inf_mag))"

definition dbl_of_int :: "int \<Rightarrow> double" where
  "dbl_of_int i = dbl_round (i < 0) (nat \<bar>i\<bar>) 1"

section \<open>Arithmetic\<close>

definition dbl_neg :: "double \<Rightarrow> double" where
  "dbl_neg d = Double (dbl_bits d XOR push_bit 63 1)"

definition dbl_fabs :: "double \<Rightarrow> double" where
  "dbl_fabs d = Double (take_bit 63 (dbl_bits d))"

definition dbl_add :: "double \<Rightarrow> double \<Rightarrow> double" where
  "dbl_add a b =
     (if dbl_is_nan a then dbl_quiet a
      else if dbl_is_nan b then dbl_quiet b
      else if dbl_is_inf a then (if dbl_is_inf b \<and> dbl_sign a \<noteq> dbl_sign b then dbl_nan else a)
      else if dbl_is_inf b then b
      else
        let s = dbl_scaled a + dbl_scaled b
        in if s = 0 then make_double (dbl_sign a \<and> dbl_sign b) 0
           else dbl_round (s < 0) (nat \<bar>s\<bar>) (2 ^ 1074))"

definition dbl_sub :: "double \<Rightarrow> double \<Rightarrow> double" where
  "dbl_sub a b = (if dbl_is_nan b \<and> \<not> dbl_is_nan a then dbl_quiet b else dbl_add a (dbl_neg b))"

definition dbl_mul :: "double \<Rightarrow> double \<Rightarrow> double" where
  "dbl_mul a b =
     (let s = (dbl_sign a \<noteq> dbl_sign b)
      in if dbl_is_nan a then dbl_quiet a
         else if dbl_is_nan b then dbl_quiet b
         else if dbl_is_inf a \<or> dbl_is_inf b then
           (if dbl_mag a = 0 \<or> dbl_mag b = 0 then dbl_nan else make_double s inf_mag)
         else dbl_round s (scaled_mag (dbl_mag a) * scaled_mag (dbl_mag b)) (2 ^ 2148))"

definition dbl_div :: "double \<Rightarrow> double \<Rightarrow> double" where
  "dbl_div a b =
     (let s = (dbl_sign a \<noteq> dbl_sign b)
      in if dbl_is_nan a then dbl_quiet a
         else if dbl_is_nan b then dbl_quiet b
         else if dbl_is_inf a then (if dbl_is_inf b then dbl_nan else make_double s inf_mag)
         else if dbl_is_inf b then make_double s 0
         else if dbl_mag b = 0 then (if dbl_mag a = 0 then dbl_nan else make_double s inf_mag)
         else dbl_round s (scaled_mag (dbl_mag a)) (scaled_mag (dbl_mag b)))"

section \<open>Output with 17 significant digits\<close>

text \<open>
  \<^verbatim>\<open>out << std::setprecision(17) << d\<close> prints as \<^verbatim>\<open>%.17g\<close> does: the exact
  value rounded to 17 digits, in fixed notation when its decimal exponent lies in
  \<open>[-4, 17)\<close> and in scientific notation otherwise, with trailing zeros dropped.
\<close>

function dec_up :: "nat \<Rightarrow> nat \<Rightarrow> nat" where
  "dec_up n d = (if 0 < d \<and> 10 * d \<le> n then Suc (dec_up n (10 * d)) else 0)"
  by pat_completeness auto
termination by (relation "measure (\<lambda>(n, d). n - d)") auto

function dec_down :: "nat \<Rightarrow> nat \<Rightarrow> nat" where
  "dec_down n d = (if 0 < n \<and> n < d then Suc (dec_down (10 * n) d) else 0)"
  by pat_completeness auto
termination by (relation "measure (\<lambda>(n, d). d - n)") auto

declare dec_up.simps [simp del] dec_down.simps [simp del]

definition strip_zeros :: "string \<Rightarrow> string" where
  "strip_zeros s = rev (dropWhile (\<lambda>c. c = CHR ''0'') (rev s))"

definition with_point :: "string \<Rightarrow> string \<Rightarrow> string" where
  "with_point a b = (let f = strip_zeros b in if f = [] then a else a @ ''.'' @ f)"

definition format_digits :: "nat \<Rightarrow> int \<Rightarrow> string" where
  "format_digits m x =
     (let ds = nat_to_string m
      in if - 4 \<le> x \<and> x < 17 then
           (if 0 \<le> x then with_point (take (nat x + 1) ds) (drop (nat x + 1) ds)
            else with_point ''0'' (replicate (nat (- x) - 1) (CHR ''0'') @ ds))
         else
           with_point (take 1 ds) (drop 1 ds) @ ''e'' @ (if x < 0 then ''-'' else ''+'') @
           (if \<bar>x\<bar> < 10 then ''0'' else []) @ nat_to_string (nat \<bar>x\<bar>))"

definition format_ratio :: "nat \<Rightarrow> nat \<Rightarrow> string" where
  "format_ratio n d =
     (let x = (if d \<le> n then int (dec_up n d) else - int (dec_down n d));
          m = (if x \<le> 16 then round_half_even (n * 10 ^ nat (16 - x)) d
               else round_half_even n (d * 10 ^ nat (x - 16)))
      in if m = 10 ^ 17 then format_digits (10 ^ 16) (x + 1) else format_digits m x)"

definition dbl_to_string :: "double \<Rightarrow> string" where
  "dbl_to_string d =
     (if dbl_sign d then ''-'' else []) @
     (if dbl_is_nan d then ''nan''
      else if dbl_is_inf d then ''inf''
      else if dbl_mag d = 0 then ''0''
      else format_ratio (scaled_mag (dbl_mag d)) (2 ^ 1074))"

section \<open>Sign and magnitude\<close>

lemma dbl_mag_less: "dbl_mag d < 2 ^ 63"
proof -
  have "dbl_mag d = take_bit 63 (unat (dbl_bits d))"
    by (simp add: dbl_mag_def unsigned_take_bit_eq)
  also have "\<dots> < 2 ^ 63" by (rule take_bit_nat_less_exp)
  finally show ?thesis .
qed

lemma unat_dbl_bits: "unat (dbl_bits d) = dbl_mag d + (if dbl_sign d then 2 ^ 63 else 0)"
proof -
  let ?u = "unat (dbl_bits d)"
  have u: "?u < 2 ^ 64" using unsigned_less [of "dbl_bits d", where 'a = nat] by simp
  have m: "dbl_mag d = ?u mod 2 ^ 63"
    unfolding dbl_mag_def unsigned_take_bit_eq by (simp only: take_bit_eq_mod)
  have "bit (dbl_bits d) 63 = odd (?u div 2 ^ 63)"
    using bit_unsigned_iff [where 'a = nat, of "dbl_bits d" 63] by (simp add: bit_iff_odd [of ?u])
  moreover have "?u div 2 ^ 63 < 2" using u by (simp add: less_mult_imp_div_less)
  ultimately have "?u div 2 ^ 63 = (if dbl_sign d then 1 else 0)"
    by (auto simp: dbl_sign_def less_2_cases_iff)
  then show ?thesis using m div_mult_mod_eq [of ?u "2 ^ 63"] by (simp split: if_splits)
qed

lemma dbl_eqI: "dbl_sign a = dbl_sign b \<Longrightarrow> dbl_mag a = dbl_mag b \<Longrightarrow> a = b"
  using unat_dbl_bits [of a] unat_dbl_bits [of b]
  by (simp add: double.expand word_unat_eq_iff)

lemma make_double_mag: "m < 2 ^ 63 \<Longrightarrow> dbl_mag (make_double s m) = m"
  and make_double_sign: "m < 2 ^ 63 \<Longrightarrow> dbl_sign (make_double s m) = s"
proof -
  assume m: "m < 2 ^ 63"
  let ?d = "make_double s m"
  have u: "unat (dbl_bits ?d) = m + (if s then 2 ^ 63 else 0)"
    using m by (simp add: make_double_def unat_of_nat del: of_nat_add)
  have bound: "dbl_mag ?d < 2 ^ 63" by (rule dbl_mag_less)
  show "dbl_sign ?d = s" using unat_dbl_bits [of ?d] u m bound by (auto split: if_splits)
  then show "dbl_mag ?d = m" using unat_dbl_bits [of ?d] u by simp
qed

section \<open>The order of bit patterns is the order of values\<close>

lemma scaled_mag_step: "scaled_mag m < scaled_mag (Suc m)"
proof -
  let ?b = "2 ^ 52 :: nat"
  consider "Suc m < ?b" | "Suc m = ?b" | "?b \<le> m" "Suc (m mod ?b) < ?b" | "?b \<le> m" "Suc (m mod ?b) = ?b"
    using mod_less_divisor [of ?b m] by fastforce
  then show ?thesis
  proof cases
    case 1
    then show ?thesis by (simp add: scaled_mag_def)
  next
    case 2
    then have "m < ?b" "Suc m div ?b = 1" "Suc m mod ?b = 0" by auto
    then show ?thesis using 2 by (simp add: scaled_mag_def)
  next
    case 3
    then have "Suc m div ?b = m div ?b" "Suc m mod ?b = Suc (m mod ?b)"
      by (simp_all add: div_Suc mod_Suc)
    with 3 show ?thesis by (simp add: scaled_mag_def)
  next
    case 4
    then have q: "Suc m div ?b = Suc (m div ?b)" "Suc m mod ?b = 0"
      by (simp_all add: div_Suc mod_Suc)
    moreover have "0 < m div ?b" using 4 by (simp add: div_greater_zero_iff)
    then obtain j where "m div ?b = Suc j" by (auto simp: gr0_conv_Suc)
    ultimately show ?thesis
      using 4 by (simp add: scaled_mag_def)
  qed
qed

lemma scaled_mag_strict_mono: "strict_mono scaled_mag"
  by (simp add: strict_mono_Suc_iff scaled_mag_step)

lemma dbl_scaled_less_iff: "dbl_scaled a < dbl_scaled b \<longleftrightarrow> dbl_ord a < dbl_ord b"
proof -
  have less: "scaled_mag m < scaled_mag n \<longleftrightarrow> m < n" for m n
    by (rule strict_mono_less [OF scaled_mag_strict_mono])
  have zero: "scaled_mag 0 = 0" by (simp add: scaled_mag_def)
  have pos: "0 < scaled_mag m \<longleftrightarrow> 0 < m" for m
    using less [of 0 m] by (simp only: zero)
  show ?thesis
  proof (cases "dbl_sign a"; cases "dbl_sign b")
    assume "dbl_sign a" "\<not> dbl_sign b"
    moreover have "- int x < int y \<longleftrightarrow> 0 < x \<or> 0 < y" for x y by auto
    ultimately show ?thesis by (simp add: dbl_scaled_def dbl_ord_def pos)
  next
    assume "\<not> dbl_sign a" "dbl_sign b"
    moreover have "\<not> int x < - int y" for x y by auto
    ultimately show ?thesis by (simp add: dbl_scaled_def dbl_ord_def)
  qed (simp_all add: dbl_scaled_def dbl_ord_def less)
qed

section \<open>Integers as doubles\<close>

lemma flog2_bounds: "0 < n \<Longrightarrow> 2 ^ flog2 n \<le> n \<and> n < 2 ^ Suc (flog2 n)"
proof (induction n rule: flog2.induct)
  case (1 n)
  show ?case
  proof (cases "n < 2")
    case True
    with 1 have "n = 1" by simp
    then show ?thesis by (simp add: flog2.simps)
  next
    case False
    with 1 have "2 ^ flog2 (n div 2) \<le> n div 2 \<and> n div 2 < 2 ^ Suc (flog2 (n div 2))" by simp
    with False show ?thesis by (simp add: flog2.simps [of n]) linarith
  qed
qed

lemma flog2_mono: "0 < m \<Longrightarrow> m \<le> n \<Longrightarrow> flog2 m \<le> flog2 n"
proof (rule ccontr)
  assume "0 < m" "m \<le> n" "\<not> flog2 m \<le> flog2 n"
  then have "(2 :: nat) ^ Suc (flog2 n) \<le> 2 ^ flog2 m" by (intro power_increasing) auto
  with \<open>0 < m\<close> \<open>m \<le> n\<close> flog2_bounds [of m] flog2_bounds [of n] show False by linarith
qed

lemma round_half_even_1 [simp]: "round_half_even n (Suc 0) = n"
  by (simp add: round_half_even_def)

lemma round_half_even_mono: "m \<le> n \<Longrightarrow> round_half_even m d \<le> round_half_even n d"
proof -
  assume "m \<le> n"
  then have "m div d \<le> n div d" by (rule div_le_mono)
  moreover have "m mod d \<le> n mod d" if "m div d = n div d"
    using that \<open>m \<le> n\<close> by (metis add_le_cancel_left div_mult_mod_eq)
  ultimately show ?thesis
    by (cases "m div d = n div d") (auto simp: round_half_even_def Let_def)
qed

lemma round_half_even_mult [simp]: "0 < d \<Longrightarrow> round_half_even (k * d) d = k"
  by (simp add: round_half_even_def)

text \<open>The significand of a rounded integer, between \<open>2 ^ 52\<close> and \<open>2 ^ 53\<close> inclusive.\<close>

definition int_significand :: "nat \<Rightarrow> nat" where
  "int_significand n =
     (if flog2 n \<le> 52 then n * 2 ^ (52 - flog2 n) else round_half_even n (2 ^ (flog2 n - 52)))"

definition int_mag :: "nat \<Rightarrow> nat" where
  "int_mag n = (if n = 0 then 0 else (flog2 n + 1022) * 2 ^ 52 + int_significand n)"

lemma int_mag_0 [simp]: "int_mag 0 = 0"
  by (simp add: int_mag_def)

lemma int_significand_bounds:
  assumes "0 < n"
  shows "2 ^ 52 \<le> int_significand n" "int_significand n \<le> 2 ^ 53"
proof -
  let ?k = "flog2 n"
  have b: "2 ^ ?k \<le> n" "n \<le> 2 ^ Suc ?k" using flog2_bounds [OF assms] by auto
  show "2 ^ 52 \<le> int_significand n"
  proof (cases "?k \<le> 52")
    case True
    then have "(2 :: nat) ^ 52 = 2 ^ ?k * 2 ^ (52 - ?k)" by (simp flip: power_add)
    also have "\<dots> \<le> n * 2 ^ (52 - ?k)" using b(1) by (rule mult_le_mono1)
    finally show ?thesis using True by (simp add: int_significand_def)
  next
    case False
    then have "(2 :: nat) ^ ?k = 2 ^ 52 * 2 ^ (?k - 52)"
      by (simp only: power_add [symmetric]) simp
    then have "round_half_even (2 ^ ?k) (2 ^ (?k - 52)) = (2 :: nat) ^ 52" by (simp del: power_Suc)
    then show ?thesis using round_half_even_mono [OF b(1), of "2 ^ (?k - 52)"] False
      by (simp add: int_significand_def)
  qed
  show "int_significand n \<le> 2 ^ 53"
  proof (cases "?k \<le> 52")
    case True
    have "n * 2 ^ (52 - ?k) \<le> 2 ^ Suc ?k * 2 ^ (52 - ?k)" using b(2) by (rule mult_le_mono1)
    also have "\<dots> = 2 ^ 53" using True by (simp only: power_add [symmetric]) simp
    finally show ?thesis using True by (simp add: int_significand_def)
  next
    case False
    then have "(2 :: nat) ^ Suc ?k = 2 ^ 53 * 2 ^ (?k - 52)"
      by (simp only: power_add [symmetric]) simp
    then have "round_half_even (2 ^ Suc ?k) (2 ^ (?k - 52)) = (2 :: nat) ^ 53" by (simp del: power_Suc)
    then show ?thesis using round_half_even_mono [OF b(2), of "2 ^ (?k - 52)"] False
      by (simp add: int_significand_def)
  qed
qed

lemma int_mag_mono: "m \<le> n \<Longrightarrow> int_mag m \<le> int_mag n"
proof (cases "m = 0")
  case False
  assume mn: "m \<le> n"
  with False have pos: "0 < m" "0 < n" by auto
  show ?thesis
  proof (cases "flog2 m = flog2 n")
    case True
    have "int_significand m \<le> int_significand n"
      using mn True by (auto simp: int_significand_def round_half_even_mono)
    with True pos show ?thesis by (simp add: int_mag_def)
  next
    case False
    with mn pos flog2_mono [of m n] have "Suc (flog2 m) \<le> flog2 n" by auto
    then have "(Suc (flog2 m) + 1022) * 2 ^ 52 \<le> (flog2 n + 1022) * 2 ^ 52" by (intro mult_le_mono1) simp
    with int_significand_bounds [OF pos(1)] int_significand_bounds [OF pos(2)] pos
    show ?thesis by (simp add: int_mag_def)
  qed
qed (simp add: int_mag_def)

text \<open>Integers up to \<open>2 ^ 53\<close> in magnitude are not rounded at all.\<close>

lemma int_mag_strict: "m < n \<Longrightarrow> n \<le> 2 ^ 53 \<Longrightarrow> int_mag m < int_mag n"
proof (cases "m = 0")
  case True
  assume "m < n"
  with True int_significand_bounds [of n] show ?thesis by (simp add: int_mag_def)
next
  case False
  assume mn: "m < n" "n \<le> 2 ^ 53"
  with False have pos: "0 < m" "0 < n" by auto
  have small: "flog2 m \<le> 52"
    using flog2_bounds [OF pos(1)] mn power_increasing [of 53 "flog2 m" "2 :: nat"] by linarith
  show ?thesis
  proof (cases "flog2 m = flog2 n")
    case True
    with mn small pos show ?thesis by (simp add: int_mag_def int_significand_def)
  next
    case False
    with mn pos flog2_mono [of m n] have step: "Suc (flog2 m) \<le> flog2 n" by auto
    have "m * 2 ^ (52 - flog2 m) < 2 ^ Suc (flog2 m) * 2 ^ (52 - flog2 m)"
      using flog2_bounds [OF pos(1)] by (intro mult_strict_right_mono) auto
    also have "\<dots> = 2 ^ 53" using small by (simp only: power_add [symmetric]) simp
    finally have "int_significand m < 2 ^ 53" using small by (simp add: int_significand_def)
    moreover have "(Suc (flog2 m) + 1022) * 2 ^ 52 \<le> (flog2 n + 1022) * 2 ^ 52"
      using step by (intro mult_le_mono1) simp
    ultimately show ?thesis
      using int_significand_bounds [OF pos(2)] pos by (simp add: int_mag_def)
  qed
qed

lemma int_mag_finite: "n < 2 ^ 64 \<Longrightarrow> int_mag n < inf_mag"
proof (cases "n = 0")
  case False
  assume n: "n < 2 ^ 64"
  have "flog2 n < 64"
  proof (rule ccontr)
    assume "\<not> flog2 n < 64"
    then have "(2 :: nat) ^ 64 \<le> 2 ^ flog2 n" by (intro power_increasing) auto
    with n flog2_bounds [of n] False show False by simp
  qed
  then have "(flog2 n + 1022) * 2 ^ 52 \<le> 1085 * 2 ^ (52 :: nat)" by (intro mult_le_mono1) simp
  with int_significand_bounds [of n] False show ?thesis by (simp add: int_mag_def inf_mag_def)
qed (simp add: int_mag_def inf_mag_def)

lemma dbl_of_int_eq:
  assumes "\<bar>i\<bar> < 2 ^ 64"
  shows "dbl_of_int i = make_double (i < 0) (int_mag (nat \<bar>i\<bar>))"
proof (cases "i = 0")
  case False
  let ?n = "nat \<bar>i\<bar>"
  have pos: "0 < ?n" using False by simp
  have "flog2 (Suc 0) = 0" by (simp add: flog2.simps)
  then have k: "flog2_ratio ?n 1 = int (flog2 ?n)"
    using flog2_bounds [OF pos] by (simp add: flog2_ratio_def)
  have "?n < 2 ^ 64" using assms by (simp add: nat_less_iff)
  then have fin: "int_mag ?n < inf_mag" by (rule int_mag_finite)
  have e: "max (- 1074) (int (flog2 ?n) - 52) = int (flog2 ?n) - 52" by simp
  have m: "nat (int (flog2 ?n) - 52 + 1074) * 2 ^ 52 +
      (if 0 \<le> int (flog2 ?n) - 52 then round_half_even ?n (1 * 2 ^ nat (int (flog2 ?n) - 52))
       else round_half_even (?n * 2 ^ nat (- (int (flog2 ?n) - 52))) 1) = int_mag ?n"
    using pos by (auto simp: int_mag_def int_significand_def nat_diff_distrib nat_add_distrib
        algebra_simps not_le simp flip: of_nat_diff)
  show ?thesis
    unfolding dbl_of_int_def dbl_round_def Let_def k e m using pos fin by simp
qed (simp add: dbl_of_int_def dbl_round_def int_mag_def)

lemma dbl_ord_of_int:
  assumes "\<bar>i\<bar> < 2 ^ 64"
  shows "dbl_ord (dbl_of_int i) = sgn i * int (int_mag (nat \<bar>i\<bar>))"
proof -
  have "int_mag (nat \<bar>i\<bar>) < 2 ^ 63"
    using int_mag_finite [of "nat \<bar>i\<bar>"] assms by (simp add: inf_mag_def nat_less_iff)
  then show ?thesis
    using assms by (auto simp: dbl_of_int_eq dbl_ord_def make_double_mag make_double_sign sgn_if int_mag_def)
qed

lemma dbl_of_int_not_nan: "\<bar>i\<bar> < 2 ^ 64 \<Longrightarrow> \<not> dbl_is_nan (dbl_of_int i)"
  using int_mag_finite [of "nat \<bar>i\<bar>"]
  by (simp add: dbl_is_nan_def dbl_of_int_eq make_double_mag inf_mag_def nat_less_iff)

lemma dbl_ord_of_int_mono:
  assumes "i \<le> j" "\<bar>i\<bar> < 2 ^ 64" "\<bar>j\<bar> < 2 ^ 64"
  shows "dbl_ord (dbl_of_int i) \<le> dbl_ord (dbl_of_int j)"
  using assms int_mag_mono [of "nat \<bar>i\<bar>" "nat \<bar>j\<bar>"] int_mag_mono [of "nat \<bar>j\<bar>" "nat \<bar>i\<bar>"]
  by (auto simp: dbl_ord_of_int sgn_if)

lemma dbl_ord_of_int_strict:
  assumes "i < j" "\<bar>i\<bar> \<le> 2 ^ 53" "\<bar>j\<bar> \<le> 2 ^ 53"
  shows "dbl_ord (dbl_of_int i) < dbl_ord (dbl_of_int j)"
  using assms int_mag_strict [of "nat \<bar>i\<bar>" "nat \<bar>j\<bar>"] int_mag_strict [of "nat \<bar>j\<bar>" "nat \<bar>i\<bar>"]
    int_mag_strict [of 0 "nat \<bar>i\<bar>"] int_mag_strict [of 0 "nat \<bar>j\<bar>"]
  by (auto simp: dbl_ord_of_int sgn_if int_mag_0 nat_le_iff)

end
