(* ===== verification/Sql_Value.thy ===== *)
theory Sql_Value
  imports Status Ieee_Double
begin

text \<open>
  The SQL value model of \<^verbatim>\<open>include/tuplestone/value.h\<close> and
  \<^verbatim>\<open>src/common/value.cpp\<close>: the variant, its comparison with numeric promotion,
  printing, columns and schemas. An \<^verbatim>\<open>int64_t\<close> is a 64-bit word read in two's
  complement by \<open>sint\<close>.
\<close>

section \<open>Types and values\<close>

datatype TypeId = TNull | TBoolean | TInteger | TReal | TText | TBlob

fun type_code :: "TypeId \<Rightarrow> byte" where
  "type_code TNull = 0"
| "type_code TBoolean = 1"
| "type_code TInteger = 2"
| "type_code TReal = 3"
| "type_code TText = 4"
| "type_code TBlob = 5"

fun TypeIdName :: "TypeId \<Rightarrow> string" where
  "TypeIdName TNull = ''NULL''"
| "TypeIdName TBoolean = ''BOOLEAN''"
| "TypeIdName TInteger = ''INTEGER''"
| "TypeIdName TReal = ''REAL''"
| "TypeIdName TText = ''TEXT''"
| "TypeIdName TBlob = ''BLOB''"

datatype sqlvalue =
    VNull
  | VBoolean bool
  | VInteger u64
  | VReal double
  | VText string
  | VBlob bytes

fun value_type :: "sqlvalue \<Rightarrow> TypeId" where
  "value_type VNull = TNull"
| "value_type (VBoolean b) = TBoolean"
| "value_type (VInteger i) = TInteger"
| "value_type (VReal d) = TReal"
| "value_type (VText s) = TText"
| "value_type (VBlob b) = TBlob"

definition IsNull :: "sqlvalue \<Rightarrow> bool" where
  "IsNull v \<longleftrightarrow> v = VNull"

definition is_number :: "sqlvalue \<Rightarrow> bool" where
  "is_number v \<longleftrightarrow> value_type v = TInteger \<or> value_type v = TReal"

text \<open>\<open>as_double\<close> is the promotion \<^verbatim>\<open>static_cast<double>(AsInteger())\<close> or \<^verbatim>\<open>AsReal()\<close>.\<close>

fun as_double :: "sqlvalue \<Rightarrow> double" where
  "as_double (VInteger i) = dbl_of_int (sint i)"
| "as_double (VReal d) = d"
| "as_double _ = Double 0"

section \<open>Accessors and copies\<close>

text \<open>Each accessor is \<^verbatim>\<open>std::get\<close> on the variant: none is the exception it throws on another alternative.\<close>

fun AsBoolean :: "sqlvalue \<Rightarrow> bool option" where
  "AsBoolean (VBoolean b) = Some b"
| "AsBoolean _ = None"

fun AsInteger :: "sqlvalue \<Rightarrow> u64 option" where
  "AsInteger (VInteger i) = Some i"
| "AsInteger _ = None"

fun AsText :: "sqlvalue \<Rightarrow> string option" where
  "AsText (VText s) = Some s"
| "AsText _ = None"

fun AsReal :: "sqlvalue \<Rightarrow> double option" where
  "AsReal (VReal d) = Some d"
| "AsReal _ = None"

fun AsBlob :: "sqlvalue \<Rightarrow> bytes option" where
  "AsBlob (VBlob b) = Some b"
| "AsBlob _ = None"

text \<open>
  The copy constructor and the copy assignment switch on the type of the source and emplace what the accessor
  of that type returns.
\<close>

definition value_copy :: "sqlvalue \<Rightarrow> sqlvalue option" where
  "value_copy other =
     (case value_type other of
        TNull \<Rightarrow> Some VNull
      | TBoolean \<Rightarrow> map_option VBoolean (AsBoolean other)
      | TInteger \<Rightarrow> map_option VInteger (AsInteger other)
      | TReal \<Rightarrow> map_option VReal (AsReal other)
      | TText \<Rightarrow> map_option VText (AsText other)
      | TBlob \<Rightarrow> map_option VBlob (AsBlob other))"

definition value_assign :: "bool \<Rightarrow> sqlvalue \<Rightarrow> sqlvalue \<Rightarrow> sqlvalue option" where
  "value_assign same_object this other =
     (if same_object then Some this
      else
        (case value_type other of
           TNull \<Rightarrow> Some VNull
         | TBoolean \<Rightarrow> map_option VBoolean (AsBoolean other)
         | TInteger \<Rightarrow> map_option VInteger (AsInteger other)
         | TReal \<Rightarrow> map_option VReal (AsReal other)
         | TText \<Rightarrow> map_option VText (AsText other)
         | TBlob \<Rightarrow> map_option VBlob (AsBlob other)))"

text \<open>No copy throws, and each gives the value copied; the other definitions pass values as they are.\<close>

lemma value_copy_same: "value_copy v = Some v"
  by (cases v) (simp_all add: value_copy_def)

lemma value_assign_copies: "(same_object \<longrightarrow> this = other) \<Longrightarrow> value_assign same_object this other = Some other"
  by (cases other) (simp_all add: value_assign_def)

section \<open>Printing\<close>

definition hex_digit :: "nat \<Rightarrow> char" where
  "hex_digit n = (if n < 10 then char_of (48 + n) else char_of (87 + n))"

definition hex_byte :: "byte \<Rightarrow> string" where
  "hex_byte b = [hex_digit (unat b div 16), hex_digit (unat b mod 16)]"

fun value_ToString :: "sqlvalue \<Rightarrow> string" where
  "value_ToString VNull = ''NULL''"
| "value_ToString (VBoolean b) = (if b then ''TRUE'' else ''FALSE'')"
| "value_ToString (VInteger i) = int_to_string (sint i)"
| "value_ToString (VReal d) = dbl_to_string d"
| "value_ToString (VText s) = s"
| "value_ToString (VBlob b) = ''X'' @ [char_of (39 :: nat)] @ concat (map hex_byte b) @ [char_of (39 :: nat)]"

section \<open>Comparison\<close>

definition cmp3 :: "bool \<Rightarrow> bool \<Rightarrow> int" where
  "cmp3 gt lt = (if gt then 1 else 0) - (if lt then 1 else 0)"

definition Compare :: "sqlvalue \<Rightarrow> sqlvalue \<Rightarrow> int option" where
  "Compare a b =
     (if IsNull a \<or> IsNull b then None
      else if is_number a \<and> is_number b then
        (let left = as_double a; right = as_double b
         in if dbl_is_nan left \<or> dbl_is_nan right then None
            else Some (cmp3 (dbl_less right left) (dbl_less left right)))
      else if value_type a \<noteq> value_type b then None
      else
        (case (a, b) of
           (VBoolean x, VBoolean y) \<Rightarrow> Some (cmp3 (y < x) (x < y))
         | (VText x, VText y) \<Rightarrow> Some (cmp3 (y < x) (x < y))
         | (VBlob x, VBlob y) \<Rightarrow> Some (cmp3 (y < x) (x < y))
         | (VInteger x, VInteger y) \<Rightarrow> Some (cmp3 (sint y < sint x) (sint x < sint y))
         | (VReal x, VReal y) \<Rightarrow> Some (cmp3 (dbl_less y x) (dbl_less x y))
         | _ \<Rightarrow> None))"

definition Equals :: "sqlvalue \<Rightarrow> sqlvalue \<Rightarrow> bool option" where
  "Equals a b = (case Compare a b of None \<Rightarrow> None | Some c \<Rightarrow> Some (c = 0))"

definition value_eq :: "sqlvalue \<Rightarrow> sqlvalue \<Rightarrow> bool" where
  "value_eq a b =
     (if IsNull a \<or> IsNull b then IsNull a \<and> IsNull b
      else case Equals a b of None \<Rightarrow> False | Some e \<Rightarrow> e)"

section \<open>Columns and schemas\<close>

record Column =
  col_name :: string
  col_type :: TypeId
  col_nullable :: bool
  col_primary_key :: bool
  col_unique :: bool

type_synonym Schema = "Column list"

definition names_equal :: "string \<Rightarrow> string \<Rightarrow> bool" where
  "names_equal a b \<longleftrightarrow>
     length a = length b \<and> list_all2 (\<lambda>l r. tolower l = tolower r) a b"

fun schema_find_from :: "nat \<Rightarrow> Schema \<Rightarrow> string \<Rightarrow> int" where
  "schema_find_from i [] name = - 1"
| "schema_find_from i (c # cs) name =
     (if names_equal (col_name c) name then int i else schema_find_from (Suc i) cs name)"

definition schema_Find :: "Schema \<Rightarrow> string \<Rightarrow> int" where
  "schema_Find s name = schema_find_from 0 s name"

section \<open>Lemmas on comparison\<close>

lemma cmp3_neg: "cmp3 l g = - cmp3 g l"
  by (simp add: cmp3_def)

lemma abs_sint_u64: "\<bar>sint (i :: u64)\<bar> < 2 ^ 64"
  using int64_sint [of i] by (auto simp: abs_if)

lemma dbl_of_int_sint [simp]: "\<not> dbl_is_nan (dbl_of_int (sint (i :: u64)))"
  by (rule dbl_of_int_not_nan) (rule abs_sint_u64)

lemma Compare_number:
  assumes "is_number a" "is_number b"
  shows "Compare a b =
    (if dbl_is_nan (as_double a) \<or> dbl_is_nan (as_double b) then None
     else Some (cmp3 (dbl_ord (as_double b) < dbl_ord (as_double a))
                     (dbl_ord (as_double a) < dbl_ord (as_double b))))"
  using assms by (cases a; cases b) (auto simp: Compare_def is_number_def IsNull_def dbl_less_def Let_def)

lemma Compare_antisym: "Compare b a = map_option uminus (Compare a b)"
  by (cases a; cases b)
    (auto simp: Compare_def IsNull_def is_number_def Let_def cmp3_def dbl_less_def)

lemma Compare_VInteger:
  "Compare (VInteger i) (VInteger j) =
     Some (cmp3 (dbl_ord (dbl_of_int (sint j)) < dbl_ord (dbl_of_int (sint i)))
                (dbl_ord (dbl_of_int (sint i)) < dbl_ord (dbl_of_int (sint j))))"
  by (simp add: Compare_number is_number_def)

text \<open>
  A key that orders the values of one comparison class: \<open>Compare\<close> of two values in the
  same class is the comparison of their keys, which makes it a total preorder there.
\<close>

datatype cmp_class = CNumber | CBoolean | CText | CBlob

fun value_class :: "sqlvalue \<Rightarrow> cmp_class option" where
  "value_class VNull = None"
| "value_class (VBoolean b) = Some CBoolean"
| "value_class (VInteger i) = Some CNumber"
| "value_class (VReal d) = (if dbl_is_nan d then None else Some CNumber)"
| "value_class (VText s) = Some CText"
| "value_class (VBlob b) = Some CBlob"

fun value_rank :: "sqlvalue \<Rightarrow> int list" where
  "value_rank VNull = []"
| "value_rank (VBoolean b) = [if b then 1 else 0]"
| "value_rank (VInteger i) = [dbl_ord (dbl_of_int (sint i))]"
| "value_rank (VReal d) = [dbl_ord d]"
| "value_rank (VText s) = map (int \<circ> of_char) s"
| "value_rank (VBlob b) = map uint b"

lemma map_less_iff:
  assumes "\<And>x y. x \<in> set xs \<Longrightarrow> y \<in> set ys \<Longrightarrow> f x < f y \<longleftrightarrow> x < y"
    and "\<And>x y. x \<in> set xs \<Longrightarrow> y \<in> set ys \<Longrightarrow> f x = f y \<longleftrightarrow> x = y"
  shows "(map f xs :: 'b::linorder list) < map f ys \<longleftrightarrow> (xs :: 'a::linorder list) < ys"
  using assms
proof (induction xs arbitrary: ys)
  case Nil
  then show ?case by (cases ys) auto
next
  case (Cons x xs)
  then show ?case by (cases ys) auto
qed

lemma value_rank_text: "value_rank (VText s) < value_rank (VText t) \<longleftrightarrow> s < t"
  unfolding value_rank.simps by (rule map_less_iff) (simp_all add: less_char_def)

lemma value_rank_blob: "value_rank (VBlob s) < value_rank (VBlob t) \<longleftrightarrow> s < t"
  unfolding value_rank.simps by (rule map_less_iff) (simp_all add: word_less_alt word_uint_eq_iff)

lemma Compare_rank:
  "Compare a b =
     (if value_class a \<noteq> None \<and> value_class a = value_class b
      then Some (cmp3 (value_rank b < value_rank a) (value_rank a < value_rank b)) else None)"
proof -
  note text_rank = value_rank_text [unfolded value_rank.simps]
  note blob_rank = value_rank_blob [unfolded value_rank.simps]
  show ?thesis
    by (cases a; cases b)
      (auto simp: Compare_def IsNull_def is_number_def Let_def dbl_less_def text_rank blob_rank
       )
qed

lemma cmp3_eq_iff:
  "cmp3 (y < x) (x < (y :: 'a::linorder)) = cmp3 (v < u) (u < (v :: 'b::linorder)) \<longleftrightarrow>
     (x < y \<longleftrightarrow> u < v) \<and> (y < x \<longleftrightarrow> v < u)"
  by (auto simp: cmp3_def)

lemma Compare_trans:
  assumes "Compare a b = Some c" "c \<le> 0" "Compare b d = Some e" "e \<le> 0"
  shows "\<exists>f. Compare a d = Some f \<and> f \<le> 0 \<and> (f = 0 \<longleftrightarrow> c = 0 \<and> e = 0)"
proof -
  have cls: "value_class a \<noteq> None" "value_class a = value_class b" "value_class b = value_class d"
    and c: "c = cmp3 (value_rank b < value_rank a) (value_rank a < value_rank b)"
    and e: "e = cmp3 (value_rank d < value_rank b) (value_rank b < value_rank d)"
    using assms by (simp_all add: Compare_rank split: if_splits) (metis not_None_eq)
  have "Compare a d = Some (cmp3 (value_rank d < value_rank a) (value_rank a < value_rank d))"
    using cls by (simp add: Compare_rank)
  moreover have "value_rank a \<le> value_rank b" "value_rank b \<le> value_rank d"
    using assms c e by (auto simp: cmp3_def split: if_splits)
  ultimately show ?thesis using c e by (auto simp: cmp3_def)
qed

lemma names_equal_iff: "names_equal a b \<longleftrightarrow> Lower a = Lower b"
  by (auto simp: names_equal_def Lower_def list_all2_conv_all_nth list_eq_iff_nth_eq)

lemma schema_find_from_cases:
  "(schema_find_from i s name = - 1 \<and> (\<forall>c \<in> set s. Lower (col_name c) \<noteq> Lower name)) \<or>
   (\<exists>k < length s. schema_find_from i s name = int (i + k) \<and>
      Lower (col_name (s ! k)) = Lower name \<and>
      (\<forall>j < k. Lower (col_name (s ! j)) \<noteq> Lower name))"
proof (induction s arbitrary: i)
  case (Cons c s)
  show ?case
  proof (cases "Lower (col_name c) = Lower name")
    case True
    then show ?thesis by (auto simp: names_equal_iff intro!: exI [of _ 0])
  next
    case False
    from Cons.IH [of "Suc i"] show ?thesis
    proof (elim disjE exE conjE)
      fix k assume "k < length s" "schema_find_from (Suc i) s name = int (Suc i + k)"
        "Lower (col_name (s ! k)) = Lower name"
        "\<forall>j < k. Lower (col_name (s ! j)) \<noteq> Lower name"
      with False show ?thesis
        by (intro disjI2 exI [of _ "Suc k"]) (auto simp: names_equal_iff less_Suc_eq_0_disj)
    qed (use False in \<open>auto simp: names_equal_iff\<close>)
  qed
qed simp

lemmas schema_Find_cases = schema_find_from_cases [of 0, folded schema_Find_def, simplified]

lemma schema_Find_range:
  "schema_Find s name = - 1 \<or> (0 \<le> schema_Find s name \<and> nat (schema_Find s name) < length s)"
  using schema_Find_cases [of s name] by auto

section \<open>Properties\<close>

text \<open>C28: on the values of one comparison class, \<^verbatim>\<open>Compare\<close> is a total preorder: it gives a
  result for any two of them, swapping the operands negates it, and it is transitive, strictly so
  when one of the steps is strict.\<close>

theorem Compare_total_preorder:
  assumes "value_class a \<noteq> None" "value_class b = value_class a" "value_class d = value_class a"
  shows "(\<exists>c. Compare a b = Some c \<and> Compare b a = Some (- c)) \<and>
    (the (Compare a b) \<le> 0 \<longrightarrow> the (Compare b d) \<le> 0 \<longrightarrow>
      the (Compare a d) \<le> 0 \<and>
      (the (Compare a d) = 0 \<longleftrightarrow> the (Compare a b) = 0 \<and> the (Compare b d) = 0))"
proof -
  obtain c e where "Compare a b = Some c" "Compare b d = Some e"
    using assms by (simp add: Compare_rank)
  then show ?thesis
    using Compare_antisym [of a b] Compare_trans [of a b c d e] by auto
qed

theorem Compare_total_preorder_witness:
  "Compare (VText ''a'') (VText ''b'') = Some (- 1) \<and> Compare (VText ''b'') (VText ''a'') = Some 1 \<and>
   the (Compare (VText ''a'') (VText ''c'')) < 0"
  using Compare_total_preorder [of "VText ''a''" "VText ''b''" "VText ''c''"]
  by (simp add: Compare_def IsNull_def is_number_def cmp3_def)

text \<open>C29: two INTEGER values of magnitude up to \<open>2 ^ 53\<close> compare as the integers they are, although
  the comparison goes through \<^verbatim>\<open>double\<close>.\<close>

theorem Compare_integers_exact:
  assumes "\<bar>sint i\<bar> \<le> 2 ^ 53" "\<bar>sint j\<bar> \<le> 2 ^ 53"
  shows "Compare (VInteger i) (VInteger j) = Some (cmp3 (sint j < sint i) (sint i < sint j))"
proof -
  have "dbl_ord (dbl_of_int (sint i)) < dbl_ord (dbl_of_int (sint j)) \<longleftrightarrow> sint i < sint j"
    if "\<bar>sint i\<bar> \<le> 2 ^ 53" "\<bar>sint j\<bar> \<le> 2 ^ 53" for i j :: u64
    using that dbl_ord_of_int_strict [of "sint i" "sint j"] dbl_ord_of_int_strict [of "sint j" "sint i"]
    by (cases "sint i" "sint j" rule: linorder_cases) auto
  then show ?thesis using assms by (simp add: Compare_VInteger)
qed

theorem Compare_integers_exact_witness: "Compare (VInteger 3) (VInteger 5) = Some (cmp3 (sint (5 :: u64) < sint (3 :: u64)) (sint (3 :: u64) < sint (5 :: u64)))"
  by (rule Compare_integers_exact) simp_all

text \<open>beyond that the promotion shows: \<open>2 ^ 53\<close> and \<open>2 ^ 53 + 1\<close> are different integers that
  compare, and count as duplicates, as equal.\<close>

theorem Compare_integers_collide:
  "Compare (VInteger 9007199254740992) (VInteger 9007199254740993) = Some 0 \<and>
   value_eq (VInteger 9007199254740992) (VInteger 9007199254740993)"
proof -
  have "int_mag 9007199254740993 = int_mag 9007199254740992"
    by (simp add: int_mag_def int_significand_def round_half_even_def flog2.simps)
  then have "Compare (VInteger 9007199254740992) (VInteger 9007199254740993) = Some 0"
    by (simp add: Compare_VInteger dbl_ord_of_int cmp3_def)
  then show ?thesis by (simp add: value_eq_def Equals_def IsNull_def)
qed

end
