(* ===== verification/Key_Codec.thy ===== *)
theory Key_Codec
  imports Sql_Value
begin

text \<open>
  \<^verbatim>\<open>Value::EncodeKey\<close> and \<^verbatim>\<open>Value::DecodeKey\<close> of
  \<^verbatim>\<open>src/common/value.cpp\<close>: the byte encoding whose \<^verbatim>\<open>memcmp\<close> order is meant
  to be the SQL order. Byte lists are compared lexicographically over unsigned bytes,
  which is what \<^verbatim>\<open>Slice::Compare\<close> and \<^verbatim>\<open>std::string\<close> do.
\<close>

section \<open>The code\<close>

definition sign_bit :: u64 where
  "sign_bit = 0x8000000000000000"

definition AppendBigEndian :: "bytes \<Rightarrow> u64 \<Rightarrow> bytes" where
  "AppendBigEndian out value =
     out @ map (\<lambda>shift. ucast (drop_bit shift value AND 0xFF)) [56, 48, 40, 32, 24, 16, 8, 0]"

definition ReadBigEndian :: "bytes \<Rightarrow> u64" where
  "ReadBigEndian bs = foldl (\<lambda>result b. push_bit 8 result OR ucast b) 0 bs"

text \<open>The loop of \<^verbatim>\<open>AppendEscaped\<close> over the text from the current offset on.\<close>

function escape_groups :: "bytes \<Rightarrow> bytes" where
  "escape_groups text =
     (if text = [] then []
      else
        let count = min 8 (length text)
        in take count text @ replicate (8 - count) 0 @
           [if count = 8 \<and> count < length text then 0xFF else of_nat count] @
           escape_groups (drop 8 text))"
  by pat_completeness auto
termination by (relation "measure length") auto

declare escape_groups.simps [simp del]

definition AppendEscaped :: "bytes \<Rightarrow> bytes \<Rightarrow> bytes" where
  "AppendEscaped out text = out @ escape_groups text @ (if text = [] then [0] else [])"

definition real_key :: "u64 \<Rightarrow> u64" where
  "real_key b = (if b AND sign_bit \<noteq> 0 then NOT b else b XOR sign_bit)"

definition real_unkey :: "u64 \<Rightarrow> u64" where
  "real_unkey b = (if b AND sign_bit \<noteq> 0 then b XOR sign_bit else NOT b)"

fun key_payload :: "sqlvalue \<Rightarrow> bytes" where
  "key_payload VNull = []"
| "key_payload (VBoolean b) = [if b then 1 else 0]"
| "key_payload (VInteger i) = AppendBigEndian [] (i XOR sign_bit)"
| "key_payload (VReal d) = AppendBigEndian [] (real_key (dbl_bits d))"
| "key_payload (VText s) = AppendEscaped [] (bytes_of_string s)"
| "key_payload (VBlob b) = AppendEscaped [] b"

definition EncodeKey :: "sqlvalue \<Rightarrow> bool \<Rightarrow> bytes" where
  "EncodeKey v descending =
     (let result =
        (if IsNull v then [0] else [1, type_code (value_type v)] @ key_payload v)
      in if descending then map NOT result else result)"

text \<open>The loop over the 9-byte groups; \<open>None\<close> is a malformed payload.\<close>

function decode_groups :: "bytes \<Rightarrow> bytes \<Rightarrow> bytes option" where
  "decode_groups acc rest =
     (if 9 \<le> length rest then
        let count = rest ! 8
        in if 8 < count then
             (if count \<noteq> 0xFF then None else decode_groups (acc @ take 8 rest) (drop 9 rest))
           else if drop 9 rest \<noteq> [] then None
           else Some (acc @ take (unat count) rest)
      else None)"
  by pat_completeness auto
termination by (relation "measure (length \<circ> snd)") auto

declare decode_groups.simps [simp del]

definition DecodeKey :: "bytes \<Rightarrow> sqlvalue option" where
  "DecodeKey encoded =
     (case encoded of
        [] \<Rightarrow> None
      | marker # _ \<Rightarrow>
          if marker = 0 then Some VNull
          else if marker \<noteq> 1 \<or> length encoded < 3 then None
          else
            let tag = encoded ! 1; payload = drop 2 encoded
            in if tag = 1 then
                 (if length payload = 1 \<and> (payload ! 0 = 0 \<or> payload ! 0 = 1)
                  then Some (VBoolean (payload ! 0 \<noteq> 0)) else None)
               else if tag = 2 then
                 (if length payload \<noteq> 8 then None
                  else Some (VInteger (ReadBigEndian payload XOR sign_bit)))
               else if tag = 3 then
                 (if length payload \<noteq> 8 then None
                  else Some (VReal (Double (real_unkey (ReadBigEndian payload)))))
               else if tag = 4 then map_option (VText \<circ> string_of_bytes) (decode_groups [] payload)
               else if tag = 5 then map_option VBlob (decode_groups [] payload)
               else None)"

section \<open>Big-endian runs\<close>

lemma AppendBigEndian_eq: "AppendBigEndian out w = out @ be_store 8 w"
proof -
  have "ucast (v AND 0xFF) = (ucast v :: byte)" for v :: u64
  proof (rule bit_word_eqI)
    fix n assume "n < LENGTH(8)"
    moreover have "bit (0xFF :: u64) n = (n < 8)"
      using bit_mask_iff [where 'a = u64, of 8 n] by (auto simp: mask_eq_exp_minus_1)
    ultimately show "bit (ucast (v AND 0xFF) :: byte) n = bit (ucast v :: byte) n"
      by (simp add: bit_simps)
  qed
  moreover have "rev [0..<8 :: nat] = [7, 6, 5, 4, 3, 2, 1, 0]" by (simp add: upt_rec numeral_eq_Suc)
  ultimately show ?thesis
    by (simp add: AppendBigEndian_def be_store_def le_store_def rev_map)
qed

lemma ReadBigEndian_foldl:
  "foldl (\<lambda>r b. push_bit 8 r OR ucast b) acc bs =
     push_bit (8 * length bs) acc OR (be_load bs :: u64)"
proof (induction bs rule: rev_induct)
  case Nil
  then show ?case by (simp add: be_load_def)
next
  case (snoc b bs)
  have shift: "le_load_from (Suc 0) xs = push_bit 8 (le_load xs :: u64)" for xs :: bytes
    by (rule bit_word_eqI) (auto simp: bit_le_load_from bit_push_bit_iff less_eq_div_iff_mult_less_eq
        le_div_geq le_mod_geq)
  show ?case
    by (simp add: snoc.IH be_load_def shift push_bit_or push_bit_push_bit algebra_simps)
      (simp only: ac_simps)
qed

lemma ReadBigEndian_eq: "ReadBigEndian bs = be_load bs"
  by (simp add: ReadBigEndian_def ReadBigEndian_foldl)

section \<open>Sign transforms\<close>

lemma bit_sign_bit: "bit sign_bit n \<longleftrightarrow> n = 63"
proof -
  have *: "sign_bit = push_bit 63 1" by (simp add: sign_bit_def)
  show ?thesis unfolding * by (auto simp only: bit_push_bit_iff bit_1_iff) simp_all
qed

lemma and_sign_bit: "b AND sign_bit \<noteq> 0 \<longleftrightarrow> bit b 63"
proof
  assume "bit b 63"
  then have "bit (b AND sign_bit) 63" by (simp add: bit_and_iff bit_sign_bit)
  then show "b AND sign_bit \<noteq> 0" by auto
next
  assume "b AND sign_bit \<noteq> 0"
  then obtain n where "bit (b AND sign_bit) n" by (metis bit_eqI bit_0_eq bot_apply bot_bool_def)
  then show "bit b 63" by (auto simp: bit_and_iff bit_sign_bit)
qed

lemma real_unkey_key [simp]: "real_unkey (real_key b) = b"
  by (auto simp: real_unkey_def real_key_def and_sign_bit bit_xor_iff bit_not_iff bit_sign_bit
      xor.assoc)

lemma uint_set_sign: "\<not> bit w 63 \<Longrightarrow> uint (w XOR sign_bit) = uint w + 2 ^ 63"
proof -
  assume w: "\<not> bit w 63"
  have s: "uint sign_bit = 2 ^ 63" by (simp add: sign_bit_def)
  have "w AND sign_bit = 0" using w and_sign_bit by blast
  then have "uint w AND uint sign_bit = 0" by (metis unsigned_0 unsigned_and_eq)
  then show ?thesis
    by (simp add: unsigned_xor_eq disjunctive_add_eq_xor [symmetric] s)
qed

lemma sint_sign: "sint (i :: u64) = uint i - (if bit i 63 then 2 ^ 64 else 0)"
proof -
  have "uint i < 2 ^ 64" using unsigned_less [of i, where 'a = int] by simp
  then have "take_bit 64 (uint i) = uint i" by (intro take_bit_int_eq_self) simp_all
  then show ?thesis by (simp add: sint_uint signed_take_bit_eq_take_bit_minus bit_uint_iff)
qed

lemma uint_sign_flip: "uint (i XOR sign_bit) = sint i + 2 ^ 63"
proof (cases "bit i 63")
  case True
  then have "\<not> bit (i XOR sign_bit) 63" by (simp add: bit_xor_iff bit_sign_bit)
  from uint_set_sign [OF this] have "uint i = uint (i XOR sign_bit) + 2 ^ 63"
    by (simp add: xor.assoc)
  with True show ?thesis by (simp add: sint_sign)
next
  case False
  then show ?thesis by (simp add: sint_sign uint_set_sign)
qed

lemma int_key_less_iff: "i XOR sign_bit < j XOR sign_bit \<longleftrightarrow> sint i < sint j"
  by (simp add: word_less_alt uint_sign_flip)

text \<open>The key of a real is \<open>2 ^ 63\<close> plus its signed magnitude, less one below zero.\<close>

lemma unat_real_key:
  "int (unat (real_key (dbl_bits d))) =
     (if dbl_sign d then 2 ^ 63 - 1 - int (dbl_mag d) else 2 ^ 63 + int (dbl_mag d))"
proof (cases "dbl_sign d")
  case True
  then have "int (unat (real_key (dbl_bits d))) = 2 ^ 64 - 1 - uint (dbl_bits d)"
    by (simp add: real_key_def and_sign_bit dbl_sign_def uint_not_word)
  also have "uint (dbl_bits d) = int (dbl_mag d) + 2 ^ 63"
    using unat_dbl_bits [of d] True by (simp add: uint_nat del: of_nat_unat)
  finally show ?thesis using True by simp
next
  case False
  then have "uint (real_key (dbl_bits d)) = uint (dbl_bits d) + 2 ^ 63"
    by (simp add: real_key_def and_sign_bit dbl_sign_def uint_set_sign)
  also have "uint (dbl_bits d) = int (dbl_mag d)"
    using unat_dbl_bits [of d] False by (simp add: uint_nat del: of_nat_unat)
  finally show ?thesis using False by simp
qed

lemma real_key_less: "dbl_ord a < dbl_ord b \<Longrightarrow> real_key (dbl_bits a) < real_key (dbl_bits b)"
proof -
  assume "dbl_ord a < dbl_ord b"
  then have "int (unat (real_key (dbl_bits a))) < int (unat (real_key (dbl_bits b)))"
    unfolding unat_real_key by (auto simp: dbl_ord_def split: if_splits)
  then show ?thesis by (simp only: of_nat_less_iff word_less_nat_alt)
qed

section \<open>Escaped groups\<close>

definition pad :: "nat \<Rightarrow> bytes \<Rightarrow> bytes" where
  "pad k bs = bs @ replicate (k - length bs) 0"

definition group_mark :: "bytes \<Rightarrow> byte" where
  "group_mark text = (if 8 < length text then 0xFF else of_nat (length text))"

lemma length_pad [simp]: "length bs \<le> k \<Longrightarrow> length (pad k bs) = k"
  by (simp add: pad_def)

lemma escape_groups_Nil [simp]: "escape_groups [] = []"
  by (simp add: escape_groups.simps)

lemma escape_groups_step:
  "text \<noteq> [] \<Longrightarrow> escape_groups text = pad 8 (take 8 text) @ [group_mark text] @ escape_groups (drop 8 text)"
  by (subst escape_groups.simps) (auto simp: pad_def group_mark_def Let_def min_def)

lemma unat_small_mark: "n \<le> 8 \<Longrightarrow> unat (of_nat n :: byte) = n"
  by (simp add: unat_of_nat)

text \<open>The groups delimit themselves: anything after the last group makes the run malformed.\<close>

lemma decode_escape_groups_append:
  "bs \<noteq> [] \<Longrightarrow>
     decode_groups acc (escape_groups bs @ extra) = (if extra = [] then Some (acc @ bs) else None)"
proof (induction bs arbitrary: acc rule: escape_groups.induct)
  case (1 bs)
  let ?p = "pad 8 (take 8 bs)" and ?rest = "escape_groups (drop 8 bs) @ extra"
  define run where "run = escape_groups bs @ extra"
  have len: "length ?p = 8" by simp
  have enc: "run = ?p @ [group_mark bs] @ ?rest"
    using escape_groups_step [OF "1.prems"] by (simp add: run_def)
  have at: "run ! 8 = group_mark bs" "take 8 run = ?p" "drop 9 run = ?rest" "9 \<le> length run"
    unfolding enc using len by (simp_all add: nth_append)
  show ?case
  proof (cases "8 < length bs")
    case True
    then have "?p = take 8 bs" "group_mark bs = 0xFF" by (simp_all add: pad_def group_mark_def)
    moreover have "decode_groups (acc @ take 8 bs) ?rest =
        (if extra = [] then Some ((acc @ take 8 bs) @ drop 8 bs) else None)"
      using True "1.prems" by (intro "1.IH") auto
    ultimately show ?thesis
      unfolding run_def [symmetric] using at by (subst decode_groups.simps) (simp split: if_splits)
  next
    case False
    then have mark: "group_mark bs = of_nat (length bs)" "unat (group_mark bs) = length bs"
      by (simp_all add: group_mark_def unat_small_mark)
    then have "\<not> 8 < group_mark bs" using False by (simp add: word_less_nat_alt)
    moreover have "take (length bs) run = bs"
      unfolding enc using False by (simp add: pad_def)
    moreover have "?rest = extra" using False by simp
    ultimately show ?thesis
      unfolding run_def [symmetric] using at mark by (subst decode_groups.simps) simp
  qed
qed

lemma decode_escape_groups: "bs \<noteq> [] \<Longrightarrow> decode_groups acc (escape_groups bs) = Some (acc @ bs)"
  using decode_escape_groups_append [of bs acc "[]"] by simp

text \<open>Zero padding orders like the unpadded run, up to a tie that the length settles.\<close>

lemma pad_Nil_le: "length t \<le> k \<Longrightarrow> pad k [] \<le> pad k t"
proof (induction t arbitrary: k)
  case (Cons b t)
  then obtain j where k: "k = Suc j" by (cases k) auto
  have "pad j [] \<le> pad j t" using Cons k by (intro Cons.IH) simp
  then show ?case using k by (auto simp: pad_def word_gt_0)
qed simp

lemma pad_less:
  "s < t \<Longrightarrow> length s \<le> k \<Longrightarrow> length t \<le> k \<Longrightarrow>
     pad k s < pad k t \<or> (pad k s = pad k t \<and> length s < length t)"
proof (induction s arbitrary: t k)
  case Nil
  then have "0 < length t" by (cases t) auto
  then show ?case using pad_Nil_le [OF Nil.prems(3)] by auto
next
  case (Cons a s)
  then obtain b t' j where t: "t = b # t'" and k: "k = Suc j" by (cases t; cases k) auto
  show ?case
  proof (cases "a = b")
    case True
    with Cons t k have "pad j s < pad j t' \<or> (pad j s = pad j t' \<and> length s < length t')"
      by (intro Cons.IH) auto
    with True t k show ?thesis by (auto simp: pad_def)
  next
    case False
    with Cons.prems t k show ?thesis by (auto simp: pad_def)
  qed
qed

lemma take_le_take: "s < (t :: 'a::linorder list) \<Longrightarrow> take k s \<le> take k t"
proof (induction k arbitrary: s t)
  case (Suc k)
  then show ?case by (cases s; cases t) (auto simp: less_imp_le)
qed simp

lemma take_eq_drop_less:
  "s < (t :: 'a::linorder list) \<Longrightarrow> take k s = take k t \<Longrightarrow> drop k s < drop k t"
  by (metis append_less_append_iff append_take_drop_id)

lemma group_mark_less: "length s < length t \<Longrightarrow> length s \<le> 8 \<Longrightarrow> group_mark s < group_mark t"
  by (auto simp: group_mark_def word_less_nat_alt unat_small_mark)

lemma escape_groups_mono:
  "s < t \<Longrightarrow> s \<noteq> [] \<Longrightarrow> t \<noteq> [] \<Longrightarrow> escape_groups s < escape_groups t"
proof (induction s arbitrary: t rule: escape_groups.induct)
  case (1 s)
  let ?p = "pad 8 (take 8 s)" and ?q = "pad 8 (take 8 t)"
  note enc = escape_groups_step [OF "1.prems"(2)] escape_groups_step [OF "1.prems"(3)]
  have len: "length ?p = 8" "length ?q = 8" by simp_all
  have le: "take 8 s \<le> take 8 t" using "1.prems"(1) by (rule take_le_take)
  show ?case
  proof (cases "take 8 s = take 8 t")
    case True
    have rest: "drop 8 s < drop 8 t" using "1.prems"(1) True by (rule take_eq_drop_less)
    then have "drop 8 t \<noteq> []" by (cases "drop 8 t") auto
    then have t: "8 < length t" by simp
    then have l8: "8 \<le> length s" using True by (metis length_take min.absorb2 min.absorb_iff2 less_imp_le)
    show ?thesis
    proof (cases "8 < length s")
      case more: True
      have "escape_groups (drop 8 s) < escape_groups (drop 8 t)"
        using rest more t "1.prems" by (intro "1.IH") auto
      with more t True show ?thesis unfolding enc by (simp add: group_mark_def)
    next
      case False
      then have "group_mark s < group_mark t" using t l8 by (intro group_mark_less) auto
      with True show ?thesis unfolding enc by simp
    qed
  next
    case False
    with le have "take 8 s < take 8 t" by simp
    then consider "?p < ?q" | "?p = ?q" "length (take 8 s) < length (take 8 t)"
      using pad_less [of "take 8 s" "take 8 t" 8] by auto
    then show ?thesis
    proof cases
      case 1
      then show ?thesis unfolding enc using len by (intro append_less_same_length) simp_all
    next
      case 2
      then have "group_mark s < group_mark t" by (intro group_mark_less) auto
      with 2 show ?thesis unfolding enc by simp
    qed
  qed
qed

lemma escaped_mono: "s < t \<Longrightarrow> AppendEscaped [] s < AppendEscaped [] t"
proof (cases "s = []")
  case True
  assume "s < t"
  then have "t \<noteq> []" by auto
  then have enc: "escape_groups t = pad 8 (take 8 t) @ [group_mark t] @ escape_groups (drop 8 t)"
    by (rule escape_groups_step)
  then obtain b r where r: "escape_groups t = b # r" "r \<noteq> []"
    using \<open>t \<noteq> []\<close> by (cases t) (auto simp: pad_def)
  have "[0] < b # r" using r(2) by (cases r; cases "b = 0") (auto simp: word_gt_0)
  with True r \<open>t \<noteq> []\<close> show ?thesis by (simp add: AppendEscaped_def)
next
  case False
  assume "s < t"
  with False have "t \<noteq> []" by (cases t) auto
  with False \<open>s < t\<close> show ?thesis by (simp add: AppendEscaped_def escape_groups_mono)
qed

section \<open>Encoding and decoding a value\<close>

definition empty_run :: "sqlvalue \<Rightarrow> bool" where
  "empty_run v \<longleftrightarrow> v = VText [] \<or> v = VBlob []"

lemma type_code_inject: "type_code s = type_code t \<longleftrightarrow> s = t"
  by (cases s; cases t) simp_all

lemma EncodeKey_asc:
  "EncodeKey v False = (if v = VNull then [0] else 1 # type_code (value_type v) # key_payload v)"
  by (simp add: EncodeKey_def IsNull_def)

lemma length_key_payload: "v \<noteq> VNull \<Longrightarrow> 0 < length (key_payload v)"
  by (cases v) (auto simp: AppendBigEndian_eq AppendEscaped_def escape_groups_step)

lemma DecodeKey_EncodeKey: "\<not> empty_run v \<Longrightarrow> DecodeKey (EncodeKey v False) = Some v"
proof (cases "v = VNull")
  case False
  assume ne: "\<not> empty_run v"
  have len: "\<not> length (EncodeKey v False) < 3"
    using length_key_payload [OF False] False by (simp add: EncodeKey_asc)
  show ?thesis
    using False ne len
    by (cases v)
      (auto simp: EncodeKey_asc DecodeKey_def AppendBigEndian_eq ReadBigEndian_eq AppendEscaped_def
        decode_escape_groups empty_run_def xor.assoc map_idI)
qed (simp add: EncodeKey_asc DecodeKey_def)

lemma DecodeKey_empty_run: "empty_run v \<Longrightarrow> DecodeKey (EncodeKey v False) = None"
  by (auto simp: empty_run_def EncodeKey_asc DecodeKey_def AppendEscaped_def decode_groups.simps)

lemma EncodeKey_mono:
  assumes "value_type a = value_type b" "Compare a b = Some c" "c < 0"
  shows "EncodeKey a False < EncodeKey b False"
proof -
  have cls: "value_class a = value_class b" "value_class a \<noteq> None" and rank: "value_rank a < value_rank b"
    using assms(2,3) by (simp_all add: Compare_rank cmp3_def split: if_splits) (metis not_None_eq)
  have "key_payload a < key_payload b"
    using assms(1) cls rank
  proof (cases a; cases b)
    fix i j assume ab: "a = VInteger i" "b = VInteger j"
    then have "dbl_ord (dbl_of_int (sint i)) < dbl_ord (dbl_of_int (sint j))" using rank by simp
    then have "sint i < sint j"
      using dbl_ord_of_int_mono [OF _ abs_sint_u64 abs_sint_u64, of j i] by linarith
    then show ?thesis using ab by (simp add: AppendBigEndian_eq be_store_less_iff int_key_less_iff)
  next
    fix d e assume ab: "a = VReal d" "b = VReal e"
    then show ?thesis using rank by (simp add: AppendBigEndian_eq be_store_less_iff real_key_less)
  next
    fix s t assume ab: "a = VText s" "b = VText t"
    then have "s < t" using rank by (simp only: value_rank_text)
    then show ?thesis using ab by (simp add: escaped_mono bytes_of_string_less_iff)
  next
    fix s t assume ab: "a = VBlob s" "b = VBlob t"
    then have "s < t" using rank by (simp only: value_rank_blob)
    then show ?thesis using ab by (simp add: escaped_mono)
  qed (auto split: if_splits)
  then show ?thesis using assms cls by (cases a; cases b) (simp_all add: EncodeKey_asc)
qed

text \<open>Different values of one type have different keys.\<close>

lemma EncodeKey_inject:
  assumes "value_type a = value_type b" "EncodeKey a False = EncodeKey b False"
  shows "a = b"
proof (cases "empty_run a \<or> empty_run b")
  case True
  then have "empty_run a \<and> empty_run b"
    using assms(2) DecodeKey_EncodeKey DecodeKey_empty_run by (metis option.distinct(1))
  then show ?thesis using assms(1) by (auto simp: empty_run_def)
next
  case False
  then show ?thesis using assms(2) DecodeKey_EncodeKey by (metis option.inject)
qed

text \<open>Values of one type that compare as equal are the same, but for two numbers that one double stands for.\<close>

lemma Compare_zero:
  assumes "value_type a = value_type b" "Compare a b = Some 0" "a \<noteq> b"
  shows "(\<exists>i j. a = VInteger i \<and> b = VInteger j \<and> (2 ^ 53 < \<bar>sint i\<bar> \<or> 2 ^ 53 < \<bar>sint j\<bar>)) \<or>
    (\<exists>d e. a = VReal d \<and> b = VReal e \<and> dbl_mag d = 0 \<and> dbl_mag e = 0)"
proof -
  have rank: "value_rank a = value_rank b"
    using assms(2) by (auto simp: Compare_rank cmp3_def split: if_splits)
  show ?thesis
  proof (cases a; cases b)
    fix i j assume ab: "a = VInteger i" "b = VInteger j"
    then have "sint i \<noteq> sint j" "dbl_ord (dbl_of_int (sint i)) = dbl_ord (dbl_of_int (sint j))"
      using assms(3) rank by (auto dest: signed_word_eqI)
    then have "\<not> (\<bar>sint i\<bar> \<le> 2 ^ 53 \<and> \<bar>sint j\<bar> \<le> 2 ^ 53)"
      using dbl_ord_of_int_strict [of "sint i" "sint j"] dbl_ord_of_int_strict [of "sint j" "sint i"] by linarith
    then show ?thesis using ab by auto
  next
    fix d e assume ab: "a = VReal d" "b = VReal e"
    then have "dbl_ord d = dbl_ord e" "d \<noteq> e" using assms(3) rank by simp_all
    then show ?thesis using ab dbl_eqI [of d e] by (auto simp: dbl_ord_def split: if_splits)
  next
    fix s t assume "a = VText s" "b = VText t"
    then show ?thesis using assms(3) rank value_rank_text [of s t] value_rank_text [of t s] by auto
  next
    fix s t assume "a = VBlob s" "b = VBlob t"
    then show ?thesis using assms(3) rank value_rank_blob [of s t] value_rank_blob [of t s] by auto
  qed (use assms rank in \<open>auto split: if_splits\<close>)
qed

section \<open>Prefix freedom and descending keys\<close>

lemma AppendEscaped_prefix_free:
  "s \<noteq> [] \<Longrightarrow> t \<noteq> [] \<Longrightarrow> AppendEscaped [] t = AppendEscaped [] s @ extra \<Longrightarrow> extra = []"
  using decode_escape_groups_append [of s "[]" extra] decode_escape_groups [of t "[]"]
  by (auto simp: AppendEscaped_def split: if_splits)

lemma EncodeKey_prefix_free:
  assumes "\<not> empty_run a" "\<not> empty_run b" "EncodeKey b False = EncodeKey a False @ extra"
  shows "extra = []"
proof (cases "a = VNull \<or> b = VNull")
  case True
  with assms(3) show ?thesis by (auto simp: EncodeKey_asc split: if_splits)
next
  case False
  then have ty: "value_type b = value_type a" and pl: "key_payload b = key_payload a @ extra"
    using assms(3) by (simp_all add: EncodeKey_asc type_code_inject)
  have "length (be_store 8 w) = 8" for w :: u64 by simp
  with False ty pl assms(1,2) show ?thesis
    by (cases a; cases b)
      (auto simp: AppendBigEndian_eq empty_run_def dest: arg_cong [where f = length]
        dest!: AppendEscaped_prefix_free [rotated 2])
qed

lemma map_not_less:
  assumes "\<And>extra. xs \<noteq> ys @ extra" "\<And>extra. ys \<noteq> xs @ extra"
  shows "map NOT xs < map NOT ys \<longleftrightarrow> ys < (xs :: bytes)"
  using assms
proof (induction xs arbitrary: ys)
  case (Cons x xs)
  show ?case
  proof (cases ys)
    case Nil
    with Cons.prems(1) [of "x # xs"] show ?thesis by simp
  next
    case (Cons y zs)
    have "map NOT xs < map NOT zs \<longleftrightarrow> zs < xs" if "x = y"
      using that Cons.prems Cons by (intro Cons.IH) auto
    then show ?thesis using Cons by (auto simp: word_not_less_iff)
  qed
qed (metis append_Nil)

lemma EncodeKey_descending:
  assumes "\<not> empty_run a" "\<not> empty_run b"
  shows "EncodeKey a True < EncodeKey b True \<longleftrightarrow> EncodeKey b False < EncodeKey a False"
proof (cases "EncodeKey a False = EncodeKey b False")
  case True
  then show ?thesis by (simp add: EncodeKey_def)
next
  case False
  have "EncodeKey v True = map NOT (EncodeKey v False)" for v
    by (simp add: EncodeKey_def)
  moreover have "map NOT (EncodeKey a False) < map NOT (EncodeKey b False) \<longleftrightarrow>
      EncodeKey b False < EncodeKey a False"
    using False EncodeKey_prefix_free [OF assms] EncodeKey_prefix_free [OF assms(2,1)]
    by (intro map_not_less) (metis append_Nil2)+
  ultimately show ?thesis by simp
qed

section \<open>Properties\<close>

text \<open>C15: for values of one type that SQL comparison orders, the sign of \<^verbatim>\<open>memcmp\<close> on their
  keys is the sign of the comparison, except for different values that compare as equal: these have
  different keys. Such values are two integers of which one is beyond \<open>2 ^ 53\<close>, or the two zeros.\<close>

theorem EncodeKey_order:
  assumes "value_type a = value_type b" "Compare a b = Some c"
  shows "(cmp3 (EncodeKey b False < EncodeKey a False) (EncodeKey a False < EncodeKey b False) = c \<longleftrightarrow>
      \<not> (c = 0 \<and> a \<noteq> b)) \<and>
    (c = 0 \<and> a \<noteq> b \<longrightarrow>
      (\<exists>i j. a = VInteger i \<and> b = VInteger j \<and> (2 ^ 53 < \<bar>sint i\<bar> \<or> 2 ^ 53 < \<bar>sint j\<bar>)) \<or>
      (\<exists>d e. a = VReal d \<and> b = VReal e \<and> dbl_mag d = 0 \<and> dbl_mag e = 0))"
proof -
  have c: "c = - 1 \<or> c = 0 \<or> c = 1" using assms(2) by (auto simp: Compare_rank cmp3_def split: if_splits)
  have "Compare b a = Some (- c)" using assms(2) Compare_antisym [of b a] by simp
  then have "EncodeKey b False < EncodeKey a False" if "0 < c"
    using that EncodeKey_mono [OF assms(1) [symmetric]] by simp
  moreover have "EncodeKey a False < EncodeKey b False" if "c < 0"
    using that assms by (intro EncodeKey_mono)
  ultimately have "cmp3 (EncodeKey b False < EncodeKey a False) (EncodeKey a False < EncodeKey b False) = c \<longleftrightarrow>
      \<not> (c = 0 \<and> a \<noteq> b)"
    using c
  proof (elim disjE)
    assume "c = - 1"
    with \<open>c < 0 \<Longrightarrow> EncodeKey a False < EncodeKey b False\<close> show ?thesis by (simp add: cmp3_def not_less_iff_gr_or_eq)
  next
    assume "c = 1"
    with \<open>0 < c \<Longrightarrow> EncodeKey b False < EncodeKey a False\<close> show ?thesis by (simp add: cmp3_def not_less_iff_gr_or_eq)
  next
    assume "c = 0"
    moreover have "a = b" if "EncodeKey a False = EncodeKey b False" using EncodeKey_inject [OF assms(1) that] .
    ultimately show ?thesis by (cases "EncodeKey a False" "EncodeKey b False" rule: linorder_cases) (auto simp: cmp3_def)
  qed
  with Compare_zero [OF assms(1)] assms(2) show ?thesis by blast
qed

theorem EncodeKey_order_witness: "EncodeKey (VText ''ab'') False < EncodeKey (VText ''b'') False"
  using EncodeKey_order [of "VText ''ab''" "VText ''b''" "- 1"]
  by (simp add: Compare_def IsNull_def is_number_def cmp3_def split: if_splits)

text \<open>C16: a key decodes to the value it was made from, unless that value is the empty TEXT or BLOB;
  that one's key does not decode at all.\<close>

theorem DecodeKey_roundtrip:
  "DecodeKey (EncodeKey v False) = (if v = VText [] \<or> v = VBlob [] then None else Some v)"
  using DecodeKey_EncodeKey [of v] DecodeKey_empty_run [of v] by (auto simp: empty_run_def)

text \<open>with the empty TEXT and BLOB set aside no key is a proper prefix of another, so complementing
  the bytes for a descending column exactly reverses the order.\<close>

theorem EncodeKey_descending_reverses:
  assumes "a \<notin> {VText [], VBlob []}" "b \<notin> {VText [], VBlob []}"
  shows "(EncodeKey a True < EncodeKey b True \<longleftrightarrow> EncodeKey b False < EncodeKey a False) \<and>
    (EncodeKey b False = EncodeKey a False @ extra \<longrightarrow> extra = [])"
  using assms EncodeKey_descending [of a b] EncodeKey_prefix_free [of a b extra] by (auto simp: empty_run_def)

theorem EncodeKey_descending_reverses_witness:
  "(EncodeKey (VText ''a'') True < EncodeKey VNull True \<longleftrightarrow> EncodeKey VNull False < EncodeKey (VText ''a'') False) \<and>
   EncodeKey VNull False \<noteq> EncodeKey (VText ''a'') False @ [0]"
  using EncodeKey_descending_reverses [of "VText ''a''" VNull "[0]"] by simp

end
