(* ===== verification/Io_Env.thy ===== *)
theory Io_Env
  imports TS_Prelude
begin

text \<open>
  The file operations the program calls, over an explicit environment: the contents of the
  files by path, and a tape with the outcome of each call in the order the calls are made.
  A call that finds the tape empty succeeds. \<open>IoOk n\<close> lets a stream write succeed with \<open>n\<close>
  of the pending bytes passed on to the file and the rest kept in the stream's buffer;
  \<open>IoFail n m\<close> lets a call fail after \<open>n\<close> pending bytes reached the file, with the pending
  bytes from \<open>m\<close> on left in the buffer. A crash is the loss of every buffer: what a later
  run finds is \<open>fs\<close>.
\<close>

datatype io_outcome = IoOk nat | IoFail nat nat

record env =
  fs :: "string \<Rightarrow> bytes option"
  tape :: "io_outcome list"
  errtext :: string

text \<open>\<open>errtext\<close> is the text \<^verbatim>\<open>error_code::message()\<close> gives for a failed call.\<close>

definition next_io :: "env \<Rightarrow> io_outcome \<times> env" where
  "next_io e = (case tape e of [] \<Rightarrow> (IoOk 0, e) | r # rs \<Rightarrow> (r, e\<lparr>tape := rs\<rparr>))"

fun io_succeeds :: "io_outcome \<Rightarrow> bool" where
  "io_succeeds (IoOk n) = True"
| "io_succeeds (IoFail n m) = False"

text \<open>A call with no effect of its own that may fail (\<^verbatim>\<open>fsync\<close>, \<^verbatim>\<open>file_size\<close>).\<close>

definition io_try :: "env \<Rightarrow> bool \<times> env" where
  "io_try e = (case next_io e of (r, e') \<Rightarrow> (io_succeeds r, e'))"

definition put_file :: "string \<Rightarrow> bytes \<Rightarrow> env \<Rightarrow> env" where
  "put_file path bs e = e\<lparr>fs := (fs e)(path \<mapsto> bs)\<rparr>"

text \<open>The contents of a file, empty when there is none.\<close>

definition contents :: "env \<Rightarrow> string \<Rightarrow> bytes" where
  "contents e path = (case fs e path of None \<Rightarrow> [] | Some bs \<Rightarrow> bs)"

text \<open>\<^verbatim>\<open>ifstream(path)\<close>: fails when there is no file.\<close>

definition open_read :: "string \<Rightarrow> env \<Rightarrow> bool \<times> env" where
  "open_read path e = (case io_try e of (ok, e') \<Rightarrow> (ok \<and> fs e' path \<noteq> None, e'))"

text \<open>\<^verbatim>\<open>fstream::open(path, in | out | app)\<close>: creates a missing file.\<close>

definition open_append :: "string \<Rightarrow> env \<Rightarrow> bool \<times> env" where
  "open_append path e =
     (case io_try e of (ok, e') \<Rightarrow> (ok, if ok then put_file path (contents e' path) e' else e'))"

text \<open>\<^verbatim>\<open>ofstream(path, trunc)\<close>: the file is empty once it is open.\<close>

definition open_trunc :: "string \<Rightarrow> env \<Rightarrow> bool \<times> env" where
  "open_trunc path e =
     (case io_try e of (ok, e') \<Rightarrow> (ok, if ok then put_file path [] e' else e'))"

text \<open>A write to a stream whose buffer holds \<open>pending\<close>.\<close>

definition stream_write :: "string \<Rightarrow> bytes \<Rightarrow> bytes \<Rightarrow> env \<Rightarrow> bool \<times> bytes \<times> env" where
  "stream_write path pending data e =
     (let all = pending @ data in
      case next_io e of
        (IoOk n, e') \<Rightarrow> (True, drop n all, put_file path (contents e' path @ take n all) e')
      | (IoFail n m, e') \<Rightarrow> (False, drop m all, put_file path (contents e' path @ take n all) e'))"

definition stream_flush :: "string \<Rightarrow> bytes \<Rightarrow> env \<Rightarrow> bool \<times> bytes \<times> env" where
  "stream_flush path pending e =
     (case next_io e of
        (IoOk n, e') \<Rightarrow> (True, [], put_file path (contents e' path @ pending) e')
      | (IoFail n m, e') \<Rightarrow>
          (False, drop m pending, put_file path (contents e' path @ take n pending) e'))"

text \<open>Closing flushes; the buffer is gone whatever the outcome.\<close>

definition stream_close :: "string \<Rightarrow> bytes \<Rightarrow> env \<Rightarrow> env" where
  "stream_close path pending e = snd (snd (stream_flush path pending e))"

text \<open>\<^verbatim>\<open>filesystem::resize_file\<close>, to a smaller size in this program.\<close>

definition resize_file :: "string \<Rightarrow> nat \<Rightarrow> env \<Rightarrow> bool \<times> env" where
  "resize_file path n e =
     (case io_try e of (ok, e') \<Rightarrow>
        (ok, if ok then put_file path (take n (contents e' path)) e' else e'))"

text \<open>\<^verbatim>\<open>filesystem::rename\<close> replaces its target in one step.\<close>

definition rename_file :: "string \<Rightarrow> string \<Rightarrow> env \<Rightarrow> bool \<times> env" where
  "rename_file src dst e =
     (case io_try e of (ok, e') \<Rightarrow>
        (case fs e' src of
           None \<Rightarrow> (False, e')
         | Some bs \<Rightarrow>
             (ok, if ok then e'\<lparr>fs := ((fs e')(src := None))(dst \<mapsto> bs)\<rparr> else e')))"

definition remove_file :: "string \<Rightarrow> env \<Rightarrow> bool \<times> env" where
  "remove_file path e =
     (case io_try e of (ok, e') \<Rightarrow> (ok, if ok then e'\<lparr>fs := (fs e')(path := None)\<rparr> else e'))"

section \<open>Lemmas\<close>

named_theorems io_defs

lemmas io_prims [io_defs] =
  io_try_def open_read_def open_append_def open_trunc_def stream_write_def stream_flush_def
  resize_file_def rename_file_def remove_file_def put_file_def contents_def

lemma next_io_empty [simp]: "tape e = [] \<Longrightarrow> next_io e = (IoOk 0, e)"
  by (simp add: next_io_def)

lemma fs_next_io [simp]: "next_io e = (r, e') \<Longrightarrow> fs e' = fs e"
  by (auto simp: next_io_def split: list.splits)

lemma fs_put_file [simp]: "fs (put_file path bs e) = (fs e)(path \<mapsto> bs)"
  by (simp add: put_file_def)

lemma tape_put_file [simp]: "tape (put_file path bs e) = tape e"
  by (simp add: put_file_def)

lemma contents_put_file [simp]:
  "contents (put_file path bs e) path' = (if path' = path then bs else contents e path')"
  by (simp add: contents_def)

lemma io_try_empty [simp]: "tape e = [] \<Longrightarrow> io_try e = (True, e)"
  by (simp add: io_try_def)

lemma io_try_fs: "io_try e = (ok, e') \<Longrightarrow> fs e' = fs e"
  by (auto simp: io_try_def split: prod.splits)

lemma contents_io_try: "io_try e = (ok, e') \<Longrightarrow> contents e' = contents e"
  by (rule ext) (simp add: contents_def io_try_fs)

lemma contents_next_io: "next_io e = (r, e') \<Longrightarrow> contents e' = contents e"
  by (auto simp: contents_def)

text \<open>The stream's image: what is in the file and what is still to reach it.\<close>

lemma stream_write_ok:
  "stream_write path pending data e = (True, pending', e') \<Longrightarrow>
   contents e' path @ pending' = contents e path @ pending @ data"
  by (auto simp: stream_write_def Let_def contents_next_io append_take_drop_id
      simp del: drop_append take_append split: prod.splits io_outcome.splits)

lemma stream_write_prefix:
  "stream_write path pending data e = (ok, pending', e') \<Longrightarrow>
   \<exists>n. contents e' path = contents e path @ take n (pending @ data)"
  by (auto simp: stream_write_def Let_def contents_next_io simp del: take_append
      split: prod.splits io_outcome.splits)

lemma stream_flush_ok:
  "stream_flush path pending e = (True, pending', e') \<Longrightarrow>
   pending' = [] \<and> contents e' path = contents e path @ pending"
  by (auto simp: stream_flush_def contents_next_io split: prod.splits io_outcome.splits)

lemma stream_flush_prefix:
  "stream_flush path pending e = (ok, pending', e') \<Longrightarrow>
   \<exists>n. contents e' path = contents e path @ take n pending"
  by (auto simp: stream_flush_def contents_next_io split: prod.splits io_outcome.splits)
    (metis order_refl take_all)

lemma stream_write_other:
  "stream_write path pending data e = (ok, pending', e') \<Longrightarrow> path' \<noteq> path \<Longrightarrow> fs e' path' = fs e path'"
  by (auto simp: stream_write_def Let_def split: prod.splits io_outcome.splits)

lemma stream_flush_other:
  "stream_flush path pending e = (ok, pending', e') \<Longrightarrow> path' \<noteq> path \<Longrightarrow> fs e' path' = fs e path'"
  by (auto simp: stream_flush_def split: prod.splits io_outcome.splits)

lemma stream_close_other [simp]: "path' \<noteq> path \<Longrightarrow> fs (stream_close path pending e) path' = fs e path'"
  unfolding stream_close_def by (metis prod.collapse stream_flush_other)

lemma open_trunc_other: "open_trunc path e = (ok, e') \<Longrightarrow> path' \<noteq> path \<Longrightarrow> fs e' path' = fs e path'"
  by (auto simp: open_trunc_def split: prod.splits if_splits dest: io_try_fs)

lemma rename_file_other:
  "rename_file src dst e = (ok, e') \<Longrightarrow> path' \<noteq> src \<Longrightarrow> path' \<noteq> dst \<Longrightarrow> fs e' path' = fs e path'"
  by (auto simp: rename_file_def split: prod.splits if_splits option.splits dest: io_try_fs)

lemma remove_file_other: "remove_file path e = (ok, e') \<Longrightarrow> path' \<noteq> path \<Longrightarrow> fs e' path' = fs e path'"
  by (auto simp: remove_file_def split: prod.splits if_splits dest: io_try_fs)

text \<open>A call on one file leaves the others alone.\<close>

lemmas io_other =
  stream_write_other stream_flush_other open_trunc_other rename_file_other remove_file_other

end
