(* ===== verification/Crc32c.thy ===== *)
theory Crc32c
  imports TS_Prelude
begin

text \<open>
  \<^verbatim>\<open>src/common/crc32c.cpp\<close>: the table-driven CRC32C that protects pages and WAL
  records. The table version is shown equal to the bitwise shift register, extending a
  checksum is shown to continue it, and corruption confined to four consecutive bytes is
  shown to change the checksum.
\<close>

section \<open>The code\<close>

definition kReflectedPoly :: u32 where
  "kReflectedPoly = 0x82F63B78"

text \<open>One turn of the inner loop of \<^verbatim>\<open>MakeTable\<close>.\<close>

definition crc_bit :: "u32 \<Rightarrow> u32" where
  "crc_bit crc = (if crc AND 1 \<noteq> 0 then drop_bit 1 crc XOR kReflectedPoly else drop_bit 1 crc)"

definition MakeTable :: "u32 list" where
  "MakeTable = map (\<lambda>i. (crc_bit ^^ 8) (of_nat i)) [0..<256]"

definition kTable :: "u32 list" where
  "kTable = MakeTable"

definition crc_table_step :: "byte \<Rightarrow> u32 \<Rightarrow> u32" where
  "crc_table_step b crc = kTable ! unat ((crc XOR ucast b) AND 0xFF) XOR drop_bit 8 crc"

definition Crc32cExtend :: "u32 \<Rightarrow> bytes \<Rightarrow> u32" where
  "Crc32cExtend prior_crc data = NOT (fold crc_table_step data (NOT prior_crc))"

definition Crc32c :: "bytes \<Rightarrow> u32" where
  "Crc32c data = Crc32cExtend 0 data"

section \<open>The reference: a shift register fed bit by bit\<close>

definition crc_ref_step :: "byte \<Rightarrow> u32 \<Rightarrow> u32" where
  "crc_ref_step b crc = (crc_bit ^^ 8) (crc XOR ucast b)"

definition crc_reference :: "bytes \<Rightarrow> u32" where
  "crc_reference data = NOT (fold crc_ref_step data (NOT 0))"

section \<open>The register is linear and invertible\<close>

lemma and_one_ne_zero: "(w :: u32) AND 1 \<noteq> 0 \<longleftrightarrow> bit w 0"
  by (simp add: and_one_eq bit_0 mod_2_eq_odd)

lemma crc_bit_alt: "crc_bit w = drop_bit 1 w XOR (if bit w 0 then kReflectedPoly else 0)"
  by (simp add: crc_bit_def and_one_ne_zero)

lemma drop_bit_xor_word: "drop_bit n (a XOR b) = drop_bit n a XOR drop_bit n (b :: 'a::len word)"
  by (rule bit_word_eqI) (auto simp: bit_simps)

lemma crc_bit_xor: "crc_bit (a XOR b) = crc_bit a XOR crc_bit b"
  by (cases "bit a 0"; cases "bit b 0")
    (simp_all add: crc_bit_alt bit_xor_iff drop_bit_xor_word ac_simps)

lemma crc_bits_xor: "(crc_bit ^^ n) (a XOR b) = (crc_bit ^^ n) a XOR (crc_bit ^^ n) b"
  by (induction n) (simp_all add: crc_bit_xor)

lemma crc_bits_shift: "(\<And>i. i < n \<Longrightarrow> \<not> bit w i) \<Longrightarrow> (crc_bit ^^ n) w = drop_bit n w"
proof (induction n arbitrary: w)
  case (Suc n)
  have "crc_bit w = drop_bit 1 w" using Suc.prems [of 0] by (simp add: crc_bit_alt)
  moreover have "(crc_bit ^^ n) (drop_bit 1 w) = drop_bit n (drop_bit 1 w)"
    using Suc.prems by (intro Suc.IH) (simp add: bit_drop_bit_eq)
  ultimately show ?case by (simp add: funpow_Suc_right del: funpow.simps)
qed simp

lemma bit_31_poly: "bit kReflectedPoly 31"
  by (simp add: kReflectedPoly_def bit_iff_odd)

lemma bit_31_crc_bit: "bit (crc_bit w) 31 = bit w 0"
proof -
  have "\<not> bit (drop_bit 1 w) 31"
    using bit_imp_le_length [of w 32] by (auto simp: bit_drop_bit_eq)
  then show ?thesis by (simp add: crc_bit_alt bit_xor_iff bit_31_poly)
qed

lemma crc_bit_inj: "crc_bit a = crc_bit b \<Longrightarrow> a = b"
proof (rule bit_word_eqI)
  fix n assume eq: "crc_bit a = crc_bit b"
  then have low: "bit a 0 = bit b 0" by (metis bit_31_crc_bit)
  with eq have "drop_bit 1 a = drop_bit 1 b"
    by (simp add: crc_bit_alt)
  then have "bit a (Suc n) = bit b (Suc n)" for n
    by (metis bit_drop_bit_eq comp_apply plus_1_eq_Suc)
  with low show "bit a n = bit b n" by (cases n) auto
qed

lemma crc_bits_inj: "(crc_bit ^^ n) a = (crc_bit ^^ n) b \<Longrightarrow> a = b"
  by (induction n) (auto dest: crc_bit_inj)

section \<open>Table-driven and bitwise steps agree\<close>

lemma kTable_nth: "i < 256 \<Longrightarrow> kTable ! i = (crc_bit ^^ 8) (of_nat i)"
  by (simp add: kTable_def MakeTable_def del: funpow.simps)

lemma crc_byte_split: "(crc_bit ^^ 8) w = (crc_bit ^^ 8) (w AND 0xFF) XOR drop_bit 8 w"
proof -
  have low: "w AND 0xFF = take_bit 8 w"
    by (simp add: take_bit_eq_mask mask_eq_exp_minus_1)
  have "w = take_bit 8 w XOR push_bit 8 (drop_bit 8 w)"
    by (rule bit_word_eqI) (auto simp: bit_simps)
  moreover have "(crc_bit ^^ 8) (push_bit 8 (drop_bit 8 w)) = drop_bit 8 (push_bit 8 (drop_bit 8 w))"
    by (rule crc_bits_shift) (simp add: bit_push_bit_iff)
  moreover have "drop_bit 8 (push_bit 8 (drop_bit 8 w)) = drop_bit 8 w"
    by (rule bit_word_eqI) (auto simp: bit_simps dest: bit_imp_le_length)
  ultimately show ?thesis unfolding low by (metis crc_bits_xor)
qed

lemma crc_table_step_eq: "crc_table_step b crc = crc_ref_step b crc"
proof -
  let ?i = "(crc XOR ucast b) AND 0xFF"
  have "?i \<le> 0xFF" by (rule word_and_le1)
  then have "unat ?i < 256" by (simp add: word_le_nat_alt)
  then have table: "kTable ! unat ?i = (crc_bit ^^ 8) ?i" by (simp add: kTable_nth del: funpow.simps)
  have "drop_bit 8 (ucast b :: u32) = 0"
    by (rule bit_word_eqI) (auto simp: bit_simps dest: bit_imp_le_length)
  then have "drop_bit 8 (crc XOR ucast b) = drop_bit 8 crc" by (simp add: drop_bit_xor_word)
  with table show ?thesis
    by (simp add: crc_table_step_def crc_ref_step_def crc_byte_split [of "crc XOR ucast b"]
        del: funpow.simps)
qed

lemma fold_crc_table_step: "fold crc_table_step = fold crc_ref_step"
  by (intro ext fold_cong) (simp_all add: crc_table_step_eq)

section \<open>Four-byte bursts\<close>

lemma crc_ref_step_inj: "crc_ref_step b s = crc_ref_step b t \<Longrightarrow> s = t"
  by (auto simp: crc_ref_step_def simp del: funpow.simps dest!: crc_bits_inj)

lemma fold_crc_ref_step_inj: "fold crc_ref_step bs s = fold crc_ref_step bs t \<Longrightarrow> s = t"
  by (induction bs arbitrary: s t) (auto dest: crc_ref_step_inj)

lemma le_load_from_Suc: "le_load_from (Suc i) bs = push_bit 8 (le_load_from i bs)"
  by (induction bs arbitrary: i) (simp_all add: push_bit_or push_bit_push_bit)

lemma le_load_Cons_xor: "(le_load (b # bs) :: u32) = ucast b XOR push_bit 8 (le_load bs)"
  by (rule bit_word_eqI)
    (auto simp: le_load_from_Suc bit_simps dest: bit_imp_le_length)

lemma crc_bits_push:
  assumes "length bs < 4"
  shows "(crc_bit ^^ 8) (push_bit 8 (le_load bs)) = le_load bs"
proof -
  have "(crc_bit ^^ 8) (push_bit 8 (le_load bs)) = drop_bit 8 (push_bit 8 (le_load bs))"
    by (rule crc_bits_shift) (simp add: bit_push_bit_iff)
  also have "\<dots> = le_load bs"
    using assms by (intro bit_word_eqI) (auto simp: bit_simps bit_le_load_from)
  finally show ?thesis .
qed

lemma fold_crc_short:
  "length bs \<le> 4 \<Longrightarrow> fold crc_ref_step bs s = (crc_bit ^^ (8 * length bs)) (s XOR le_load bs)"
proof (induction bs arbitrary: s)
  case (Cons b bs)
  let ?n = "8 * length bs"
  have "crc_ref_step b s XOR le_load bs = (crc_bit ^^ 8) (s XOR le_load (b # bs))"
    using Cons.prems
    by (simp add: crc_ref_step_def le_load_Cons_xor crc_bits_xor crc_bits_push ac_simps
        del: funpow.simps le_load_from.simps)
  then have "fold crc_ref_step (b # bs) s = (crc_bit ^^ ?n) ((crc_bit ^^ 8) (s XOR le_load (b # bs)))"
    using Cons by (simp del: funpow.simps le_load_from.simps)
  also have "\<dots> = (crc_bit ^^ (?n + 8)) (s XOR le_load (b # bs))"
    by (simp only: funpow_add comp_apply)
  also have "?n + 8 = 8 * length (b # bs)" by simp
  finally show ?case .
qed simp

lemma Crc32c_eq_fold: "Crc32c data = NOT (fold crc_ref_step data (NOT 0))"
  by (simp add: Crc32c_def Crc32cExtend_def fold_crc_table_step)

lemma fold_crc_burst:
  assumes "length e = length e'" "length e \<le> 4"
    and "fold crc_ref_step (pre @ e @ post) s = fold crc_ref_step (pre @ e' @ post) s"
  shows "e = e'"
proof -
  let ?s = "fold crc_ref_step pre s"
  have "fold crc_ref_step e ?s = fold crc_ref_step e' ?s"
    using assms(3) by (auto dest: fold_crc_ref_step_inj)
  then have "?s XOR le_load e = ?s XOR le_load e'"
    using assms by (auto simp: fold_crc_short dest!: crc_bits_inj)
  then have "(le_load e :: u32) = le_load e'" by simp
  with assms show ?thesis by (intro le_load_inj) auto
qed

lemma Crc32c_burst:
  "length e = length e' \<Longrightarrow> length e \<le> 4 \<Longrightarrow> Crc32c (pre @ e @ post) = Crc32c (pre @ e' @ post) \<Longrightarrow> e = e'"
  by (rule fold_crc_burst [of e e' pre post "NOT 0"]) (simp_all add: Crc32c_eq_fold)

text \<open>A run followed by its checksum always leaves the same register, and only its checksum does that.\<close>

lemma Crc32c_residue:
  assumes "length crc = 4"
  shows "Crc32c data = le_load crc \<longleftrightarrow> fold crc_ref_step (data @ crc) (NOT 0) = (crc_bit ^^ 32) (NOT 0)"
proof -
  let ?s = "fold crc_ref_step data (NOT 0) :: u32"
  have "fold crc_ref_step (data @ crc) (NOT 0) = (crc_bit ^^ 32) (?s XOR le_load crc)"
    using assms by (simp add: fold_crc_short del: funpow.simps)
  moreover have "?s XOR le_load crc = NOT 0 \<longleftrightarrow> NOT ?s = le_load crc"
    by (auto simp: bit_eq_iff bit_simps)
  ultimately show ?thesis using crc_bits_inj by (metis Crc32c_eq_fold)
qed

lemma Crc32cExtend_append: "Crc32cExtend (Crc32cExtend c a) b = Crc32cExtend c (a @ b)"
  by (simp add: Crc32cExtend_def)

section \<open>Properties\<close>

text \<open>C26: the table-driven checksum is the bitwise CRC-32C of the polynomial 0x82F63B78: initial
  register all ones, eight shift steps per byte, final inversion.\<close>

theorem Crc32c_is_bitwise: "Crc32c data = crc_reference data"
  by (simp add: Crc32c_eq_fold crc_reference_def)

text \<open>damage confined to four consecutive bytes of a checksummed run always changes its
  CRC-32C.\<close>

theorem Crc32c_detects_burst:
  assumes "length e = length e'" "length e \<le> 4" "e \<noteq> e'"
  shows "Crc32c (pre @ e @ post) \<noteq> Crc32c (pre @ e' @ post)"
  using assms Crc32c_burst by blast

theorem Crc32c_detects_burst_witness:
  "Crc32c ([1, 2] @ [3, 4, 5, 6] @ [7]) \<noteq> Crc32c ([1, 2] @ [3, 0, 5, 7] @ [7])"
  using Crc32c_detects_burst [of "[3, 4, 5, 6]" "[3, 0, 5, 7]" "[1, 2]" "[7]"] by simp

end
