(* ===== verification/Log_Manager.thy ===== *)
theory Log_Manager
  imports Io_Env Crc32c Status
begin

text \<open>
  The write-ahead log of \<^verbatim>\<open>src/wal/log_manager.{h,cpp}\<close>. A record is framed as
  a 32-bit little-endian length, the body (lsn, transaction id, previous lsn, type byte,
  payload) and the CRC-32C of length and body. \<open>ReadRecords\<close> is the scan that stops at the
  first frame that is incomplete or damaged. The manager is its path, the state of its file
  stream and its two counters; every operation runs in an environment of files and outcomes
  (\<open>Io_Env\<close>).
\<close>

section \<open>Records\<close>

text \<open>\<^verbatim>\<open>LogRecordType\<close> is an enum over \<^verbatim>\<open>uint8_t\<close>; the reader casts any byte to it.\<close>

type_synonym LogRecordType = byte

definition kBegin :: LogRecordType where "kBegin = 1"
definition kCommit :: LogRecordType where "kCommit = 2"
definition kAbort :: LogRecordType where "kAbort = 3"
definition kInsert :: LogRecordType where "kInsert = 4"
definition kUpdate :: LogRecordType where "kUpdate = 5"
definition kDelete :: LogRecordType where "kDelete = 6"

record LogRecord =
  lr_lsn :: u64
  lr_txn_id :: u64
  lr_prev_lsn :: u64
  lr_type :: LogRecordType
  lr_payload :: bytes

definition record_body :: "LogRecord \<Rightarrow> bytes" where
  "record_body r =
     le_store 8 (lr_lsn r) @ le_store 8 (lr_txn_id r) @ le_store 8 (lr_prev_lsn r) @
     [lr_type r] @ lr_payload r"

definition record_frame :: "LogRecord \<Rightarrow> bytes" where
  "record_frame r = le_store 4 (of_nat (25 + length (lr_payload r)) :: u32) @ record_body r"

text \<open>The bytes \<^verbatim>\<open>Append\<close> builds in \<^verbatim>\<open>data\<close>.\<close>

definition encode_record :: "LogRecord \<Rightarrow> bytes" where
  "encode_record r = record_frame r @ le_store 4 (Crc32c (record_frame r))"

definition max_length :: nat where
  "max_length = 2 ^ 30"

section \<open>ReadRecords\<close>

text \<open>One turn of the loop: \<open>None\<close> where the code breaks.\<close>

definition read_record :: "bytes \<Rightarrow> (LogRecord \<times> bytes) option" where
  "read_record bs =
     (let length_bytes = take 4 bs; rest = drop 4 bs in
      if length length_bytes \<noteq> 4 then None else
      let len = unat (le_load length_bytes :: u32) in
      if len < 25 \<or> max_length < len then None else
      let body = take (len + 4) rest in
      if length body \<noteq> len + 4 then None else
      let expected = (le_load (take 4 (drop len body)) :: u32);
          full = length_bytes @ take len body in
      if Crc32c full \<noteq> expected then None else
      Some (\<lparr>lr_lsn = le_load (take 8 body), lr_txn_id = le_load (take 8 (drop 8 body)),
             lr_prev_lsn = le_load (take 8 (drop 16 body)), lr_type = body ! 24,
             lr_payload = take (len - 25) (drop 25 body)\<rparr>, drop (len + 4) rest))"

lemma read_record_shrinks: "read_record bs = Some (r, rest) \<Longrightarrow> length rest < length bs"
  by (auto simp: read_record_def Let_def split: if_splits)

function ReadRecords :: "bytes \<Rightarrow> LogRecord list" where
  "ReadRecords bs = (case read_record bs of None \<Rightarrow> [] | Some (r, rest) \<Rightarrow> r # ReadRecords rest)"
  by pat_completeness auto
termination
  by (relation "measure length") (auto dest: read_record_shrinks)

declare ReadRecords.simps [simp del]

section \<open>The log manager\<close>

record LogManager =
  lm_path :: string
  lm_open :: bool
  lm_pending :: bytes
  lm_next_lsn :: u64
  lm_durable_lsn :: u64

definition new_LogManager :: LogManager where
  "new_LogManager = \<lparr>lm_path = [], lm_open = False, lm_pending = [], lm_next_lsn = 1, lm_durable_lsn = 0\<rparr>"

definition SyncFile :: "string \<Rightarrow> env \<Rightarrow> status \<times> env" where
  "SyncFile path e =
     (case open_read path e of (opened, e1) \<Rightarrow>
        if \<not> opened then (Some (IoError ''cannot open WAL for sync''), e1) else
      case io_try e1 of (synced, e2) \<Rightarrow>
        if \<not> synced then (Some (IoError ''cannot sync WAL''), e2) else (None, e2))"

definition ReadRecords_file :: "string \<Rightarrow> env \<Rightarrow> LogRecord list status_or \<times> env" where
  "ReadRecords_file path e =
     (case open_read path e of (opened, e1) \<Rightarrow>
        if \<not> opened then (Inl (IoError ''cannot read WAL''), e1)
        else (Inr (ReadRecords (contents e1 path)), e1))"

definition valid_bytes :: "LogRecord list \<Rightarrow> nat" where
  "valid_bytes records = sum_list (map (\<lambda>r. 33 + length (lr_payload r)) records)"

text \<open>The part of \<^verbatim>\<open>Open\<close> that drops a torn tail and takes over the counters.\<close>

definition lm_open_tail ::
    "LogManager \<Rightarrow> LogRecord list \<Rightarrow> env \<Rightarrow> status \<times> LogManager \<times> env" where
  "lm_open_tail lm existing e =
     (let path = lm_path lm;
          finish = (\<lambda>lm. if existing = [] then lm
             else lm\<lparr>lm_next_lsn := lr_lsn (last existing) + 1, lm_durable_lsn := lr_lsn (last existing)\<rparr>)
      in case io_try e of (sized, e1) \<Rightarrow>
        if sized \<and> valid_bytes existing < length (contents e1 path) then
          (let e2 = stream_close path (lm_pending lm) e1;
               lm2 = lm\<lparr>lm_open := False, lm_pending := []\<rparr> in
           case resize_file path (valid_bytes existing) e2 of (resized, e3) \<Rightarrow>
             if \<not> resized then (Some (IoError ''cannot discard torn WAL tail''), lm2, e3) else
           case open_append path e3 of (opened, e4) \<Rightarrow>
             if \<not> opened then (Some (IoError ''cannot reopen WAL after tail recovery''), lm2, e4)
             else (None, finish (lm2\<lparr>lm_open := True\<rparr>), e4))
        else (None, finish lm, e1))"

definition lm_Open :: "LogManager \<Rightarrow> string \<Rightarrow> env \<Rightarrow> status \<times> LogManager \<times> env" where
  "lm_Open lm path e =
     (if lm_open lm then (Some (AlreadyExists ''WAL is already open''), lm, e) else
      let lm1 = lm\<lparr>lm_path := path\<rparr>;
          opened = (case open_append path e of (ok, e1) \<Rightarrow>
            if ok then Inr e1 else
            case open_trunc path e1 of (created, e2) \<Rightarrow>
              if \<not> created then Inl (IoError ''cannot create WAL'', e2) else
            case open_append path e2 of (ok2, e3) \<Rightarrow>
              if ok2 then Inr e3 else Inl (IoError ''cannot open WAL'', e3))
      in case opened of
        Inl (err, e') \<Rightarrow> (Some err, lm1, e')
      | Inr e' \<Rightarrow>
          let lm2 = lm1\<lparr>lm_open := True, lm_pending := []\<rparr> in
          case ReadRecords_file path e' of
            (Inl err, e'') \<Rightarrow> (Some err, lm2, e'')
          | (Inr existing, e'') \<Rightarrow> lm_open_tail lm2 existing e'')"

definition lm_Close :: "LogManager \<Rightarrow> env \<Rightarrow> status \<times> LogManager \<times> env" where
  "lm_Close lm e =
     (if \<not> lm_open lm then (None, lm, e) else
      case stream_flush (lm_path lm) (lm_pending lm) e of (_, pending, e1) \<Rightarrow>
        (None, lm\<lparr>lm_open := False, lm_pending := []\<rparr>, stream_close (lm_path lm) pending e1))"

definition lm_Append ::
    "LogManager \<Rightarrow> u64 \<Rightarrow> u64 \<Rightarrow> LogRecordType \<Rightarrow> bytes \<Rightarrow> env \<Rightarrow> u64 status_or \<times> LogManager \<times> env" where
  "lm_Append lm txn_id prev_lsn type payload e =
     (if \<not> lm_open lm then (Inl (IoError ''WAL is not open''), lm, e) else
      if max_length - 25 < length payload then (Inl (OutOfRange ''WAL payload is too large''), lm, e) else
      let lsn = lm_next_lsn lm;
          lm1 = lm\<lparr>lm_next_lsn := lsn + 1\<rparr>;
          data = encode_record \<lparr>lr_lsn = lsn, lr_txn_id = txn_id, lr_prev_lsn = prev_lsn,
                   lr_type = type, lr_payload = payload\<rparr>
      in case stream_write (lm_path lm) (lm_pending lm) data e of (ok, pending, e1) \<Rightarrow>
        (if ok then Inr lsn else Inl (IoError ''cannot append WAL record''),
         lm1\<lparr>lm_pending := pending\<rparr>, e1))"

definition lm_Flush :: "LogManager \<Rightarrow> u64 \<Rightarrow> env \<Rightarrow> status \<times> LogManager \<times> env" where
  "lm_Flush lm through e =
     (if \<not> lm_open lm then (Some (IoError ''WAL is not open''), lm, e) else
      case stream_flush (lm_path lm) (lm_pending lm) e of (ok, pending, e1) \<Rightarrow>
        if \<not> ok then (Some (IoError ''cannot flush WAL''), lm\<lparr>lm_pending := pending\<rparr>, e1)
        else
          let lm1 = lm\<lparr>lm_pending := pending,
                lm_durable_lsn := if through = kInvalidLsn then lm_next_lsn lm - 1 else through\<rparr>
          in case SyncFile (lm_path lm) e1 of (status, e2) \<Rightarrow> (status, lm1, e2))"

definition lm_ReadAll :: "LogManager \<Rightarrow> env \<Rightarrow> LogRecord list status_or \<times> env" where
  "lm_ReadAll lm e =
     (if lm_path lm = [] then (Inl (IoError ''WAL has not been opened''), e)
      else ReadRecords_file (lm_path lm) e)"

definition lm_Truncate :: "LogManager \<Rightarrow> env \<Rightarrow> status \<times> LogManager \<times> env" where
  "lm_Truncate lm e =
     (if \<not> lm_open lm then (Some (IoError ''WAL is not open''), lm, e) else
      case stream_flush (lm_path lm) (lm_pending lm) e of (_, pending, e1) \<Rightarrow>
      let e2 = stream_close (lm_path lm) pending e1;
          lm1 = lm\<lparr>lm_open := False, lm_pending := []\<rparr> in
      case open_trunc (lm_path lm) e2 of (truncated, e3) \<Rightarrow>
        if \<not> truncated then (Some (IoError ''cannot truncate WAL''), lm1, e3) else
      case open_append (lm_path lm) e3 of (opened, e4) \<Rightarrow>
        if \<not> opened then (Some (IoError ''cannot reopen WAL after truncate''), lm1, e4) else
      case SyncFile (lm_path lm) e4 of (status, e5) \<Rightarrow>
        (status, lm1\<lparr>lm_open := True, lm_next_lsn := 1, lm_durable_lsn := 0\<rparr>, e5))"

section \<open>Framing\<close>

definition record_fits :: "LogRecord \<Rightarrow> bool" where
  "record_fits r \<longleftrightarrow> length (lr_payload r) + 25 \<le> max_length"

lemma length_record_body [simp]: "length (record_body r) = 25 + length (lr_payload r)"
  by (simp add: record_body_def)

lemma length_record_frame [simp]: "length (record_frame r) = 29 + length (lr_payload r)"
  by (simp add: record_frame_def)

lemma length_encode_record [simp]: "length (encode_record r) = 33 + length (lr_payload r)"
  by (simp add: encode_record_def)

lemma unat_record_length:
  "record_fits r \<Longrightarrow> unat (of_nat (25 + length (lr_payload r)) :: u32) = 25 + length (lr_payload r)"
  by (simp add: record_fits_def max_length_def unat_of_nat del: of_nat_add)

text \<open>What the loop reads when a frame's length field announces \<open>n\<close> bytes.\<close>

lemma read_record_frame:
  assumes "25 \<le> n" "n \<le> max_length" "length body = n" "length crc = 4"
  shows "read_record (le_store 4 (of_nat n :: u32) @ body @ crc @ rest) =
    (if Crc32c (le_store 4 (of_nat n :: u32) @ body) = le_load crc then
       Some (\<lparr>lr_lsn = le_load (take 8 body), lr_txn_id = le_load (take 8 (drop 8 body)),
         lr_prev_lsn = le_load (take 8 (drop 16 body)), lr_type = body ! 24,
         lr_payload = drop 25 body\<rparr>, rest)
     else None)"
proof -
  have n: "unat (of_nat n :: u32) = n"
    using assms by (simp add: max_length_def unat_of_nat)
  show ?thesis
    using assms by (simp add: read_record_def Let_def n nth_append)
qed

lemma read_record_encode:
  assumes "record_fits r"
  shows "read_record (encode_record r @ rest) = Some (r, rest)"
proof -
  have "read_record (le_store 4 (of_nat (25 + length (lr_payload r)) :: u32) @ record_body r @
      le_store 4 (Crc32c (record_frame r)) @ rest) = Some (r, rest)"
    using assms
    by (subst read_record_frame)
      (simp_all add: record_fits_def record_frame_def record_body_def nth_append LogRecord.equality)
  then show ?thesis by (simp add: encode_record_def record_frame_def)
qed

lemma read_record_torn:
  assumes "record_fits r" "n < length (encode_record r)"
  shows "read_record (take n (encode_record r)) = None"
proof (cases "n < 4")
  case True
  then show ?thesis by (simp add: read_record_def)
next
  case False
  let ?bs = "take n (encode_record r)"
  have "take 4 ?bs = le_store 4 (of_nat (25 + length (lr_payload r)) :: u32)"
    using False by (simp add: encode_record_def record_frame_def)
  then have "unat (le_load (take 4 ?bs) :: u32) = 25 + length (lr_payload r)"
    using unat_record_length [OF assms(1)] by (simp del: of_nat_add)
  then show ?thesis
    using assms(2) False by (auto simp: read_record_def Let_def)
qed

text \<open>The other direction: what was read is what stands in the file.\<close>

lemma record_body_split:
  assumes "25 \<le> length body"
  shows "body = take 8 body @ take 8 (drop 8 body) @ take 8 (drop 16 body) @ [body ! 24] @ drop 25 body"
proof -
  have "drop 24 body = body ! 24 # drop 25 body"
    using assms Cons_nth_drop_Suc [of 24 body] by simp
  moreover have "drop 8 body = take 8 (drop 8 body) @ drop 16 body"
    "drop 16 body = take 8 (drop 16 body) @ drop 24 body"
    using append_take_drop_id [of 8 "drop 8 body"] append_take_drop_id [of 8 "drop 16 body"] by simp_all
  ultimately show ?thesis by (metis append_Cons append_Nil append_take_drop_id)
qed

lemma read_record_SomeD:
  assumes "read_record bs = Some (r, rest)"
  shows "bs = encode_record r @ rest" and "record_fits r"
proof -
  define len where "len = unat (le_load (take 4 bs) :: u32)"
  define body where "body = take len (drop 4 bs)"
  define crc where "crc = take 4 (drop len (drop 4 bs))"
  have len: "4 \<le> length bs" "25 \<le> len" "len \<le> max_length" "len + 4 \<le> length (drop 4 bs)"
    and rest: "rest = drop (len + 4) (drop 4 bs)"
    using assms by (auto simp: read_record_def Let_def len_def split: if_splits)
  have L: "take 4 bs = le_store 4 (of_nat len :: u32)"
    using len(1) by (simp add: len_def le_store_load)
  have bs: "bs = le_store 4 (of_nat len :: u32) @ body @ crc @ rest"
  proof -
    have "drop 4 bs = body @ crc @ rest"
      using len(4) by (simp add: body_def crc_def rest flip: drop_drop)
        (metis add.commute append_take_drop_id drop_drop)
    with L show ?thesis by (metis append_take_drop_id)
  qed
  have lens: "length body = len" "length crc = 4" using len by (simp_all add: body_def crc_def)
  have read: "read_record bs = (if Crc32c (le_store 4 (of_nat len :: u32) @ body) = le_load crc then
       Some (\<lparr>lr_lsn = le_load (take 8 body), lr_txn_id = le_load (take 8 (drop 8 body)),
         lr_prev_lsn = le_load (take 8 (drop 16 body)), lr_type = body ! 24,
         lr_payload = drop 25 body\<rparr>, rest) else None)"
    unfolding bs using len lens by (intro read_record_frame) simp_all
  then have r: "r = \<lparr>lr_lsn = le_load (take 8 body), lr_txn_id = le_load (take 8 (drop 8 body)),
      lr_prev_lsn = le_load (take 8 (drop 16 body)), lr_type = body ! 24, lr_payload = drop 25 body\<rparr>"
    and crc: "Crc32c (le_store 4 (of_nat len :: u32) @ body) = le_load crc"
    using assms by (simp_all split: if_splits)
  have "record_body r = body"
    using record_body_split [of body] len(2) lens
    by (simp add: r record_body_def le_store_load)
  moreover have "25 + length (lr_payload r) = len" using len(2) lens by (simp add: r)
  ultimately have "record_frame r = le_store 4 (of_nat len :: u32) @ body"
    by (simp add: record_frame_def)
  with crc lens show "bs = encode_record r @ rest"
    by (subst bs) (simp add: encode_record_def le_store_load)
  show "record_fits r" using len(2,3) lens by (simp add: r record_fits_def)
qed

section \<open>Scanning a log\<close>

definition encode_log :: "LogRecord list \<Rightarrow> bytes" where
  "encode_log rs = concat (map encode_record rs)"

lemma encode_log_simps [simp]:
  "encode_log [] = []"
  "encode_log (r # rs) = encode_record r @ encode_log rs"
  "encode_log (rs @ ss) = encode_log rs @ encode_log ss"
  by (simp_all add: encode_log_def)

lemma length_encode_log: "length (encode_log rs) = valid_bytes rs"
  by (induction rs) (simp_all add: valid_bytes_def)

lemma ReadRecords_append:
  "list_all record_fits rs \<Longrightarrow> ReadRecords (encode_log rs @ tail) = rs @ ReadRecords tail"
  by (induction rs) (simp_all add: ReadRecords.simps [of "encode_record _ @ _"] read_record_encode)

lemma ReadRecords_break: "read_record bs = None \<Longrightarrow> ReadRecords bs = []"
  by (simp add: ReadRecords.simps)

lemma ReadRecords_Nil [simp]: "ReadRecords [] = []"
  by (simp add: ReadRecords_break read_record_def)

lemma ReadRecords_encode_log: "list_all record_fits rs \<Longrightarrow> ReadRecords (encode_log rs) = rs"
  using ReadRecords_append [of rs "[]"] by simp

text \<open>The records that end within the first \<open>n\<close> bytes.\<close>

fun whole_records :: "nat \<Rightarrow> LogRecord list \<Rightarrow> LogRecord list" where
  "whole_records n [] = []"
| "whole_records n (r # rs) =
     (if 33 + length (lr_payload r) \<le> n then r # whole_records (n - (33 + length (lr_payload r))) rs else [])"

lemma whole_records_all: "valid_bytes rs \<le> n \<Longrightarrow> whole_records n rs = rs"
  by (induction rs arbitrary: n) (auto simp: valid_bytes_def)

lemma whole_records_append:
  "whole_records n (rs @ ss) =
   (if valid_bytes rs \<le> n then rs @ whole_records (n - valid_bytes rs) ss else whole_records n rs)"
  by (induction rs arbitrary: n) (auto simp: valid_bytes_def)

lemma ReadRecords_take:
  "list_all record_fits rs \<Longrightarrow> ReadRecords (take n (encode_log rs)) = whole_records n rs"
proof (induction rs arbitrary: n)
  case (Cons r rs)
  show ?case
  proof (cases "length (encode_record r) \<le> n")
    case True
    then have "take n (encode_log (r # rs)) =
        encode_log [r] @ take (n - length (encode_record r)) (encode_log rs)" by simp
    then show ?thesis using Cons True ReadRecords_append [of "[r]"] by simp
  next
    case False
    then have "take n (encode_log (r # rs)) = take n (encode_record r)" by simp
    then show ?thesis
      using Cons.prems False by (simp add: ReadRecords_break read_record_torn)
  qed
qed simp

text \<open>Every log splits into what the scan accepts and a rest that it rejects.\<close>

lemma ReadRecords_split:
  "\<exists>tail. bs = encode_log (ReadRecords bs) @ tail \<and> read_record tail = None \<and>
     list_all record_fits (ReadRecords bs)"
proof (induction bs rule: ReadRecords.induct)
  case (1 bs)
  show ?case
  proof (cases "read_record bs")
    case None
    then show ?thesis by (auto simp: ReadRecords_break)
  next
    case (Some p)
    then obtain r rest where p: "read_record bs = Some (r, rest)" by (cases p) auto
    with "1.IH" obtain tail where "rest = encode_log (ReadRecords rest) @ tail"
      "read_record tail = None" "list_all record_fits (ReadRecords rest)"
      by (metis Some)
    moreover have "ReadRecords bs = r # ReadRecords rest" by (simp add: ReadRecords.simps [of bs] p)
    ultimately show ?thesis using read_record_SomeD [OF p] by auto
  qed
qed

lemma take_valid_bytes: "take (valid_bytes (ReadRecords bs)) bs = encode_log (ReadRecords bs)"
  using ReadRecords_split [of bs] by (metis append_eq_conv_conj length_encode_log)

lemma ReadRecords_take_valid: "ReadRecords (take (valid_bytes (ReadRecords bs)) bs) = ReadRecords bs"
  using ReadRecords_split [of bs] by (auto simp: take_valid_bytes ReadRecords_encode_log)

section \<open>Damage to a record\<close>

lemma read_record_damaged:
  assumes r: "record_fits r" and split: "encode_record r = pre @ e @ post"
    and e: "length e' = length e" "length e \<le> 4" "e' \<noteq> e" and pre: "4 \<le> length pre"
  shows "read_record (pre @ e' @ post @ rest) = None"
proof -
  let ?n = "25 + length (lr_payload r)"
  let ?L = "le_store 4 (of_nat ?n :: u32)" and ?tail = "drop 4 pre @ e' @ post"
  have "take 4 (encode_record r) = take 4 pre" using split pre by simp
  then have "?L = take 4 pre" by (simp add: encode_record_def record_frame_def del: of_nat_add)
  then have L: "pre = ?L @ drop 4 pre" by (metis append_take_drop_id)
  have "length ?tail = ?n + 4"
    using arg_cong [OF split, of length] pre e(1) by simp
  moreover define body where "body = take ?n ?tail"
  moreover define crc where "crc = drop ?n ?tail"
  ultimately have len: "length body = ?n" "length crc = 4" and tail: "body @ crc = ?tail"
    by (simp_all only: length_take length_drop append_take_drop_id min_def, simp)
  have whole: "?L @ body @ crc = pre @ e' @ post"
    unfolding tail using L by (metis append.assoc)
  have "fold crc_ref_step (encode_record r) (NOT 0) = (crc_bit ^^ 32) (NOT 0)"
    using Crc32c_residue [of "le_store 4 (Crc32c (record_frame r))" "record_frame r"] by (simp add: encode_record_def)
  then have "fold crc_ref_step (pre @ e' @ post) (NOT 0) \<noteq> (crc_bit ^^ 32) (NOT 0)"
    using fold_crc_burst [of e' e pre post "NOT 0"] split e by metis
  then have "Crc32c (?L @ body) \<noteq> le_load crc"
    using Crc32c_residue [OF len(2), of "?L @ body"] whole by (metis append.assoc)
  then have "read_record (?L @ body @ crc @ rest) = None"
    using len r by (subst read_record_frame) (simp_all add: record_fits_def del: of_nat_add)
  moreover have "?L @ body @ crc @ rest = pre @ e' @ post @ rest"
    using whole by (metis append.assoc)
  ultimately show ?thesis by (simp only:)
qed

section \<open>The manager's operations\<close>

text \<open>The log as it will stand once the buffer has reached the file.\<close>

definition log_image :: "LogManager \<Rightarrow> env \<Rightarrow> bytes" where
  "log_image lm e = contents e (lm_path lm) @ lm_pending lm"

text \<open>An open log whose image is exactly the records \<open>rs\<close>.\<close>

definition lm_holds :: "LogManager \<Rightarrow> env \<Rightarrow> LogRecord list \<Rightarrow> bool" where
  "lm_holds lm e rs \<longleftrightarrow> lm_open lm \<and> log_image lm e = encode_log rs \<and> list_all record_fits rs"

lemma lm_Append_cases:
  assumes "lm_Append lm txn prev ty p e = (res, lm', e')"
  obtains (closed) "\<not> lm_open lm" "res = Inl (IoError ''WAL is not open'')" "lm' = lm" "e' = e"
  | (large) "lm_open lm" "max_length - 25 < length p"
      "res = Inl (OutOfRange ''WAL payload is too large'')" "lm' = lm" "e' = e"
  | (written) ok pending where "lm_open lm" "length p \<le> max_length - 25"
      "stream_write (lm_path lm) (lm_pending lm) (encode_record \<lparr>lr_lsn = lm_next_lsn lm,
         lr_txn_id = txn, lr_prev_lsn = prev, lr_type = ty, lr_payload = p\<rparr>) e = (ok, pending, e')"
      "res = (if ok then Inr (lm_next_lsn lm) else Inl (IoError ''cannot append WAL record''))"
      "lm' = lm\<lparr>lm_next_lsn := lm_next_lsn lm + 1, lm_pending := pending\<rparr>"
  using assms by (auto simp: lm_Append_def Let_def not_less split: if_splits prod.splits)

lemma lm_Append_ok:
  assumes "lm_Append lm txn prev ty p e = (Inr lsn, lm', e')" and "lm_holds lm e rs"
  shows "lsn = lm_next_lsn lm" and "lm_next_lsn lm' = lsn + 1" and "lm_path lm' = lm_path lm"
    and "lm_holds lm' e' (rs @ [\<lparr>lr_lsn = lsn, lr_txn_id = txn, lr_prev_lsn = prev, lr_type = ty, lr_payload = p\<rparr>])"
proof -
  from assms(1) show "lsn = lm_next_lsn lm" "lm_next_lsn lm' = lsn + 1" "lm_path lm' = lm_path lm"
    by (auto elim!: lm_Append_cases split: if_splits)
  from assms show "lm_holds lm' e' (rs @ [\<lparr>lr_lsn = lsn, lr_txn_id = txn, lr_prev_lsn = prev,
      lr_type = ty, lr_payload = p\<rparr>])"
    by (auto elim!: lm_Append_cases split: if_splits dest!: stream_write_ok
        simp: lm_holds_def log_image_def record_fits_def max_length_def)
qed

text \<open>Whatever the outcome, the file grows by a prefix of what was pending and the new record.\<close>

lemma lm_Append_prefix:
  assumes "lm_Append lm txn prev ty p e = (res, lm', e')"
  shows "\<exists>n. contents e' (lm_path lm) = contents e (lm_path lm) @
    take n (lm_pending lm @ encode_record \<lparr>lr_lsn = lm_next_lsn lm, lr_txn_id = txn,
      lr_prev_lsn = prev, lr_type = ty, lr_payload = p\<rparr>)"
  using assms
proof (cases rule: lm_Append_cases)
  case written
  then show ?thesis using stream_write_prefix by blast
qed (auto intro: exI [where x = 0])

lemma lm_Append_other: "lm_Append lm txn prev ty p e = (res, lm', e') \<Longrightarrow> q \<noteq> lm_path lm \<Longrightarrow> fs e' q = fs e q"
  by (auto elim!: lm_Append_cases dest: stream_write_other)

lemma SyncFile_fs: "SyncFile path e = (st, e') \<Longrightarrow> fs e' = fs e"
  by (auto simp: SyncFile_def open_read_def split: prod.splits if_splits dest!: io_try_fs)

lemma contents_fs_eq: "fs e' = fs e \<Longrightarrow> contents e' = contents e"
  by (simp add: contents_def fun_eq_iff)

lemma lm_Flush_ok:
  assumes "lm_Flush lm through e = (None, lm', e')" "lm_holds lm e rs"
  shows "contents e' (lm_path lm) = encode_log rs" "lm_pending lm' = []" "lm_path lm' = lm_path lm"
    "lm_next_lsn lm' = lm_next_lsn lm" "lm_holds lm' e' rs"
  using assms
  by (auto simp: lm_Flush_def lm_holds_def log_image_def Let_def split: if_splits prod.splits
      dest!: stream_flush_ok SyncFile_fs contents_fs_eq)

lemma lm_Flush_prefix:
  assumes "lm_Flush lm through e = (st, lm', e')"
  shows "\<exists>n. contents e' (lm_path lm) = contents e (lm_path lm) @ take n (lm_pending lm)"
  using assms
  by (auto simp: lm_Flush_def Let_def split: if_splits prod.splits
      dest!: stream_flush_prefix SyncFile_fs contents_fs_eq intro: exI [where x = 0])

lemma lm_Flush_other: "lm_Flush lm through e = (st, lm', e') \<Longrightarrow> q \<noteq> lm_path lm \<Longrightarrow> fs e' q = fs e q"
  by (auto simp: lm_Flush_def Let_def split: if_splits prod.splits
      dest!: stream_flush_other SyncFile_fs)

lemma lm_ReadAll_ok:
  "lm_path lm \<noteq> [] \<Longrightarrow> lm_ReadAll lm e = (Inr rs, e') \<Longrightarrow>
   rs = ReadRecords (contents e (lm_path lm)) \<and> fs e' = fs e"
  by (auto simp: lm_ReadAll_def ReadRecords_file_def open_read_def contents_def
      split: prod.splits if_splits dest!: io_try_fs)

lemma lm_Truncate_ok:
  assumes "lm_Truncate lm e = (None, lm', e')"
  shows "lm_holds lm' e' []" "contents e' (lm_path lm) = []" "lm_path lm' = lm_path lm"
    "lm_next_lsn lm' = 1"
  using assms
  by (auto simp: lm_Truncate_def lm_holds_def log_image_def Let_def open_trunc_def open_append_def
      split: if_splits prod.splits dest!: SyncFile_fs contents_fs_eq contents_io_try)

text \<open>Opening without faults keeps exactly the records the scan accepts.\<close>

definition opened_log :: "LogManager \<Rightarrow> string \<Rightarrow> LogRecord list \<Rightarrow> LogManager" where
  "opened_log lm path rs =
     lm\<lparr>lm_path := path, lm_open := True, lm_pending := [],
        lm_next_lsn := (if rs = [] then lm_next_lsn lm else lr_lsn (last rs) + 1),
        lm_durable_lsn := (if rs = [] then lm_durable_lsn lm else lr_lsn (last rs))\<rparr>"

lemma contents_valid:
  "\<not> valid_bytes (ReadRecords bs) < length bs \<Longrightarrow> bs = encode_log (ReadRecords bs)"
  using take_valid_bytes [of bs] by simp

lemma put_file_put_file [simp]: "put_file p a (put_file p b e) = put_file p a e"
  by (simp add: put_file_def)

lemma lm_Open_faultless:
  assumes "tape e = []" "\<not> lm_open lm" and rs: "rs = ReadRecords (contents e path)"
  shows "lm_Open lm path e = (None, opened_log lm path rs, put_file path (encode_log rs) e)"
proof -
  have "lm_Open lm path e = lm_open_tail (lm\<lparr>lm_path := path, lm_open := True, lm_pending := []\<rparr>) rs
      (put_file path (contents e path) e)"
    using assms by (simp add: lm_Open_def open_append_def ReadRecords_file_def open_read_def)
  also have "\<dots> = (None, opened_log lm path rs, put_file path (encode_log rs) e)"
    using assms contents_valid [of "contents e path"]
    by (auto simp: lm_open_tail_def Let_def stream_close_def stream_flush_def resize_file_def
        open_append_def opened_log_def take_valid_bytes)
  finally show ?thesis .
qed

section \<open>Properties\<close>

text \<open>C11: a log cut at any byte is read up to the last record that is whole: the scan returns exactly
  the records that end within the cut, and nothing of the torn one.\<close>

theorem ReadRecords_torn_log:
  assumes "list_all record_fits rs"
  shows "ReadRecords (take n (encode_log rs)) = whole_records n rs"
  using assms by (rule ReadRecords_take)

theorem ReadRecords_torn_log_witness:
  "ReadRecords (take 40 (encode_log [\<lparr>lr_lsn = 1, lr_txn_id = 1, lr_prev_lsn = 0, lr_type = kBegin, lr_payload = [7]\<rparr>, \<lparr>lr_lsn = 1, lr_txn_id = 1, lr_prev_lsn = 0, lr_type = kBegin, lr_payload = [7]\<rparr>])) = [\<lparr>lr_lsn = 1, lr_txn_id = 1, lr_prev_lsn = 0, lr_type = kBegin, lr_payload = [7]\<rparr>]"
  using ReadRecords_torn_log [of "[\<lparr>lr_lsn = 1, lr_txn_id = 1, lr_prev_lsn = 0, lr_type = kBegin, lr_payload = [7]\<rparr>, \<lparr>lr_lsn = 1, lr_txn_id = 1, lr_prev_lsn = 0, lr_type = kBegin, lr_payload = [7]\<rparr>]" 40]
  by (simp add: record_fits_def max_length_def del: encode_log_simps)

text \<open>C12: a record damaged in up to four consecutive bytes behind its length field, in its body, in its
  checksum or across both, ends the scan: everything before it is returned, the record itself and what
  follows it is not. Of a damaged length field nothing is claimed; the scan then compares the checksum of
  another run of bytes.\<close>

theorem ReadRecords_stops_at_damage:
  assumes "list_all record_fits rs" "record_fits r" "encode_record r = pre @ e @ post"
    and "4 \<le> length pre" "length e' = length e" "length e \<le> 4" "e' \<noteq> e"
  shows "ReadRecords (encode_log rs @ pre @ e' @ post @ rest) = rs"
  using assms ReadRecords_append [OF assms(1)] read_record_damaged [of r pre e post e' rest]
  by (simp add: ReadRecords_break)

lemma map_NOT_neq: "(bs :: bytes) \<noteq> [] \<Longrightarrow> map NOT bs \<noteq> bs"
  by (cases bs) (auto simp: bit_eq_iff bit_not_iff intro: exI [of _ 0])

theorem ReadRecords_stops_at_damage_witness:
  "let r = \<lparr>lr_lsn = 1, lr_txn_id = 1, lr_prev_lsn = 0, lr_type = kBegin, lr_payload = [7]\<rparr> in
   ReadRecords (encode_log [r] @ take 28 (encode_record r) @ map NOT (take 4 (drop 28 (encode_record r))) @
     drop 32 (encode_record r) @ [9]) = [r]"
proof -
  let ?r = "\<lparr>lr_lsn = 1, lr_txn_id = 1, lr_prev_lsn = 0, lr_type = kBegin, lr_payload = [7]\<rparr>"
  let ?bs = "encode_record ?r"
  have split: "?bs = take 28 ?bs @ take 4 (drop 28 ?bs) @ drop 32 ?bs"
    using append_take_drop_id [of 4 "drop 28 ?bs"] by simp
  have "length (take 4 (drop 28 ?bs)) = 4" by simp
  then have "map NOT (take 4 (drop 28 ?bs)) \<noteq> take 4 (drop 28 ?bs)" by (intro map_NOT_neq) auto
  then show ?thesis
    using ReadRecords_stops_at_damage [OF _ _ split, where rs = "[?r]" and rest = "[9]"]
    by (simp add: record_fits_def max_length_def Let_def)
qed

text \<open>opening a log without faults succeeds and keeps exactly the records the scan accepts: the
  file is cut back to their encoding, and numbering goes on behind the last of them.\<close>

theorem lm_Open_recovers:
  assumes "tape e = []" "\<not> lm_open lm" "rs = ReadRecords (contents e path)"
  shows "\<exists>lm'. lm_Open lm path e = (None, lm', put_file path (encode_log rs) e) \<and>
    lm_holds lm' (put_file path (encode_log rs) e) rs \<and>
    (rs \<noteq> [] \<longrightarrow> lm_next_lsn lm' = lr_lsn (last rs) + 1 \<and> lm_durable_lsn lm' = lr_lsn (last rs))"
  using lm_Open_faultless [OF assms] ReadRecords_split [of "contents e path"] assms(3)
  by (auto simp: opened_log_def lm_holds_def log_image_def)

theorem lm_Open_recovers_witness:
  "\<exists>lm'. lm_Open new_LogManager ''w'' \<lparr>fs = [''w'' \<mapsto> [1, 2, 3]], tape = [], errtext = []\<rparr> =
     (None, lm', \<lparr>fs = [''w'' \<mapsto> []], tape = [], errtext = []\<rparr>)"
  using lm_Open_recovers [of "\<lparr>fs = [''w'' \<mapsto> [1, 2, 3]], tape = [], errtext = []\<rparr>" new_LogManager "[]" "''w''"]
  by (auto simp: new_LogManager_def ReadRecords_break read_record_def put_file_def contents_def)

text \<open>an appended record whose append and flush both report success is in the file, and a later
  read of the whole log returns it behind the records that were there.\<close>

theorem lm_Append_Flush_ReadAll:
  assumes "lm_holds lm e rs" "lm_path lm \<noteq> []"
    and "lm_Append lm txn prev ty p e = (Inr lsn, lm1, e1)"
    and "lm_Flush lm1 through e1 = (None, lm2, e2)"
    and "lm_ReadAll lm2 e2 = (Inr all, e3)"
  shows "lsn = lm_next_lsn lm \<and>
    all = rs @ [\<lparr>lr_lsn = lsn, lr_txn_id = txn, lr_prev_lsn = prev, lr_type = ty, lr_payload = p\<rparr>]"
proof -
  note a = lm_Append_ok [OF assms(3,1)]
  note f = lm_Flush_ok [OF assms(4) a(4)]
  from f(5) have "list_all record_fits (rs @ [\<lparr>lr_lsn = lsn, lr_txn_id = txn, lr_prev_lsn = prev,
      lr_type = ty, lr_payload = p\<rparr>])" by (simp add: lm_holds_def)
  then show ?thesis
    using lm_ReadAll_ok [of lm2 e2 all e3] assms(2,5) a(1,3) f(1,3) ReadRecords_encode_log
    by (simp del: encode_log_simps)
qed

theorem lm_Append_Flush_ReadAll_witness:
  "let lm = new_LogManager\<lparr>lm_path := ''w'', lm_open := True\<rparr>;
       e = \<lparr>fs = (\<lambda>_. None), tape = [], errtext = []\<rparr>;
       (lsn, lm1, e1) = lm_Append lm 1 0 kBegin [7] e;
       (st, lm2, e2) = lm_Flush lm1 1 e1
   in lm_ReadAll lm2 e2 =
        (Inr [\<lparr>lr_lsn = 1, lr_txn_id = 1, lr_prev_lsn = 0, lr_type = kBegin, lr_payload = [7]\<rparr>], e2)"
proof -
  let ?lm = "new_LogManager\<lparr>lm_path := ''w'', lm_open := True\<rparr>"
  let ?e = "\<lparr>fs = (\<lambda>_. None), tape = [], errtext = []\<rparr> :: env"
  have h: "lm_holds ?lm ?e []" by (simp add: lm_holds_def log_image_def new_LogManager_def contents_def)
  obtain lm1 e1 where a: "lm_Append ?lm 1 0 kBegin [7] ?e = (Inr 1, lm1, e1)"
    and 1: "lm_open lm1" "lm_path lm1 = ''w''" "tape e1 = []"
    by (simp add: lm_Append_def new_LogManager_def max_length_def stream_write_def)
  obtain lm2 e2 where f: "lm_Flush lm1 1 e1 = (None, lm2, e2)"
    and 2: "lm_path lm2 = ''w''" "tape e2 = []" "fs e2 ''w'' \<noteq> None"
    using 1 by (simp add: lm_Flush_def stream_flush_def SyncFile_def open_read_def)
  have r: "\<exists>all. lm_ReadAll lm2 e2 = (Inr all, e2)"
    using 2 by (simp add: lm_ReadAll_def ReadRecords_file_def open_read_def)
  show ?thesis
    using r a f lm_Append_Flush_ReadAll [OF h _ a f] by (auto simp: new_LogManager_def)
qed

end
