(* ===== verification/Ordered_Map.thy ===== *)
theory Ordered_Map
  imports TS_Prelude
begin

text \<open>
  \<^verbatim>\<open>std::map\<close> as the program uses it: an association list in strictly increasing key
  order, which is also the iteration order. \<open>om_put\<close> is \<^verbatim>\<open>m[k] = v\<close>,
  \<open>om_emplace\<close> is \<^verbatim>\<open>m.emplace(k, v)\<close> (an existing key keeps its value). The
  locale \<open>std_map\<close> states the contract the clients of a map rely on.
\<close>

type_synonym ('k, 'v) omap = "('k \<times> 'v) list"

definition om_find :: "('k, 'v) omap \<Rightarrow> 'k \<Rightarrow> 'v option" where
  "om_find m k = map_of m k"

fun om_put :: "'k::linorder \<Rightarrow> 'v \<Rightarrow> ('k, 'v) omap \<Rightarrow> ('k, 'v) omap" where
  "om_put k v [] = [(k, v)]"
| "om_put k v ((k', v') # m) =
     (if k < k' then (k, v) # (k', v') # m
      else if k = k' then (k, v) # m
      else (k', v') # om_put k v m)"

definition om_emplace :: "'k::linorder \<Rightarrow> 'v \<Rightarrow> ('k, 'v) omap \<Rightarrow> ('k, 'v) omap" where
  "om_emplace k v m = (case om_find m k of None \<Rightarrow> om_put k v m | Some _ \<Rightarrow> m)"

definition om_erase :: "'k \<Rightarrow> ('k, 'v) omap \<Rightarrow> ('k, 'v) omap" where
  "om_erase k m = filter (\<lambda>p. fst p \<noteq> k) m"

definition om_lower_bound :: "'k::linorder \<Rightarrow> ('k, 'v) omap \<Rightarrow> ('k, 'v) omap" where
  "om_lower_bound k m = dropWhile (\<lambda>p. fst p < k) m"

abbreviation om_keys :: "('k, 'v) omap \<Rightarrow> 'k list" where
  "om_keys m \<equiv> map fst m"

definition om_ok :: "('k::linorder, 'v) omap \<Rightarrow> bool" where
  "om_ok m \<longleftrightarrow> sorted_wrt (<) (om_keys m)"

section \<open>The contract of a map\<close>

locale std_map =
  fixes empty :: 'm
    and find :: "'m \<Rightarrow> 'k \<Rightarrow> 'v option"
    and put :: "'k \<Rightarrow> 'v \<Rightarrow> 'm \<Rightarrow> 'm"
    and emplace :: "'k \<Rightarrow> 'v \<Rightarrow> 'm \<Rightarrow> 'm"
    and erase :: "'k \<Rightarrow> 'm \<Rightarrow> 'm"
    and invar :: "'m \<Rightarrow> bool"
  assumes invar_empty: "invar empty"
    and invar_put: "invar m \<Longrightarrow> invar (put k v m)"
    and invar_emplace: "invar m \<Longrightarrow> invar (emplace k v m)"
    and invar_erase: "invar m \<Longrightarrow> invar (erase k m)"
    and find_empty: "find empty k = None"
    and find_put: "invar m \<Longrightarrow> find (put k v m) = (find m)(k \<mapsto> v)"
    and find_emplace: "invar m \<Longrightarrow> find (emplace k v m) k' =
      (if k' = k \<and> find m k = None then Some v else find m k')"
    and find_erase: "invar m \<Longrightarrow> find (erase k m) = (find m)(k := None)"
    and find_ext: "invar m \<Longrightarrow> invar m' \<Longrightarrow> find m = find m' \<Longrightarrow> m = m'"
begin

lemmas invars = invar_empty invar_put invar_emplace invar_erase
lemmas finds = find_empty find_put find_emplace find_erase

text \<open>A map is determined by its lookups, so these are equations between maps.\<close>

lemma put_same: "invar m \<Longrightarrow> find m k = Some v \<Longrightarrow> put k v m = m"
  by (rule find_ext) (auto simp: invars finds)

lemma put_put: "invar m \<Longrightarrow> put k v (put k w m) = put k v m"
  by (rule find_ext) (auto simp: invars finds)

lemma put_commute: "invar m \<Longrightarrow> k \<noteq> k' \<Longrightarrow> put k v (put k' w m) = put k' w (put k v m)"
  by (rule find_ext) (auto simp: invars finds fun_upd_twist)

lemma erase_put_new: "invar m \<Longrightarrow> find m k = None \<Longrightarrow> erase k (put k v m) = m"
  by (rule find_ext) (auto simp: invars finds)

lemma erase_absent: "invar m \<Longrightarrow> find m k = None \<Longrightarrow> erase k m = m"
  by (rule find_ext) (auto simp: invars finds)

lemma emplace_new: "invar m \<Longrightarrow> find m k = None \<Longrightarrow> emplace k v m = put k v m"
  by (rule find_ext) (auto simp: invars finds fun_eq_iff)

lemma emplace_present: "invar m \<Longrightarrow> find m k = Some w \<Longrightarrow> emplace k v m = m"
  by (rule find_ext) (auto simp: invars finds fun_eq_iff)

end

section \<open>The sorted association list keeps the contract\<close>

lemma om_ok_Nil [simp]: "om_ok []"
  by (simp add: om_ok_def)

lemma om_ok_Cons: "om_ok (p # m) \<longleftrightarrow> (\<forall>q \<in> set m. fst p < fst q) \<and> om_ok m"
  by (auto simp: om_ok_def)

lemma om_find_Cons: "om_find (p # m) k = (if k = fst p then Some (snd p) else om_find m k)"
  by (cases p) (simp add: om_find_def)

lemma om_find_Nil [simp]: "om_find [] k = None"
  by (simp add: om_find_def)

lemma om_find_None_iff: "om_find m k = None \<longleftrightarrow> k \<notin> set (om_keys m)"
  by (induction m) (auto simp: om_find_Cons)

lemma om_find_SomeD: "om_find m k = Some v \<Longrightarrow> (k, v) \<in> set m"
  by (simp add: om_find_def map_of_SomeD)

lemma set_om_put: "set (om_put k v m) \<subseteq> insert (k, v) (set m)"
  by (induction k v m rule: om_put.induct) auto

lemma om_put_ok [simp]: "om_ok m \<Longrightarrow> om_ok (om_put k v m)"
proof (induction m)
  case (Cons p m)
  then show ?case using set_om_put [of k v m] by (cases p) (fastforce simp: om_ok_Cons)
qed (simp add: om_ok_Cons)

lemma om_find_put: "om_find (om_put k v m) = (om_find m)(k \<mapsto> v)" if "om_ok m"
  using that by (induction m) (auto simp: om_find_Cons om_ok_Cons fun_eq_iff)

lemma om_erase_ok [simp]: "om_ok m \<Longrightarrow> om_ok (om_erase k m)"
  by (induction m) (auto simp: om_erase_def om_ok_Cons)

lemma om_find_erase: "om_find (om_erase k m) = (om_find m)(k := None)"
  by (induction m) (auto simp: om_erase_def om_find_Cons fun_eq_iff)

lemma om_find_ext: "om_ok m \<Longrightarrow> om_ok m' \<Longrightarrow> om_find m = om_find m' \<Longrightarrow> m = m'"
proof (induction m arbitrary: m')
  case Nil
  then show ?case by (cases m') (auto simp: om_find_Cons fun_eq_iff split: if_splits)
next
  case (Cons p m)
  obtain q n where m': "m' = q # n"
    using Cons.prems(3) by (cases m') (auto simp: om_find_Cons fun_eq_iff split: if_splits)
  have eq: "(if k = fst p then Some (snd p) else om_find m k) =
      (if k = fst q then Some (snd q) else om_find n k)" for k
    using Cons.prems(3) m' by (auto simp: om_find_Cons fun_eq_iff)
  have above: "om_find m k \<noteq> None \<Longrightarrow> fst p < k" "om_find n k \<noteq> None \<Longrightarrow> fst q < k" for k
    using Cons.prems(1,2) m' by (auto simp: om_ok_Cons dest!: om_find_SomeD)
  have "fst p = fst q"
    using eq [of "fst p"] eq [of "fst q"] above [of "fst p"] above [of "fst q"]
    by (metis less_asym' option.distinct(1))
  moreover from this have "snd p = snd q" using eq [of "fst p"] by simp
  moreover have "om_find m k = om_find n k" for k
    using eq [of k] above [of k] \<open>fst p = fst q\<close> by (metis less_irrefl)
  then have "m = n" using Cons.prems m' by (intro Cons.IH) (auto simp: om_ok_Cons)
  ultimately show ?case using m' by (simp add: prod_eq_iff)
qed

interpretation om: std_map "[]" om_find om_put om_emplace om_erase om_ok
  by unfold_locales
    (auto simp: om_find_put om_find_erase om_emplace_def intro: om_find_ext split: option.splits)

section \<open>Order of iteration\<close>

lemma om_lower_bound_eq:
  "om_ok m \<Longrightarrow> om_lower_bound k m = filter (\<lambda>p. k \<le> fst p) m"
proof (induction m)
  case (Cons p m)
  show ?case
  proof (cases "fst p < k")
    case True
    with Cons show ?thesis by (auto simp: om_lower_bound_def om_ok_Cons)
  next
    case False
    with Cons have "filter (\<lambda>p. k \<le> fst p) m = m"
      by (auto simp: om_ok_Cons filter_id_conv intro: order.trans less_imp_le)
    with False show ?thesis by (simp add: om_lower_bound_def)
  qed
qed (simp add: om_lower_bound_def)

lemma om_keys_put_set: "set (om_keys (om_put k v m)) = insert k (set (om_keys m))"
  by (induction k v m rule: om_put.induct) force+

lemma om_put_last: "om_ok m \<Longrightarrow> (\<And>p. p \<in> set m \<Longrightarrow> fst p < k) \<Longrightarrow> om_put k v m = m @ [(k, v)]"
proof (induction m)
  case (Cons p m)
  then have "fst p < k" by simp
  then have "\<not> k < fst p" "k \<noteq> fst p" by auto
  with Cons show ?case by (cases p) (auto simp: om_ok_Cons)
qed simp

lemma om_emplace_last:
  "om_ok m \<Longrightarrow> (\<And>p. p \<in> set m \<Longrightarrow> fst p < k) \<Longrightarrow> om_emplace k v m = m @ [(k, v)]"
  by (subst om.emplace_new) (auto simp: om_find_None_iff om_put_last)

lemma length_om_erase:
  "om_ok m \<Longrightarrow> om_find m k \<noteq> None \<Longrightarrow> Suc (length (om_erase k m)) = length m"
proof (induction m)
  case (Cons p m)
  show ?case
  proof (cases "fst p = k")
    case True
    with Cons.prems have "om_find m k = None"
      by (auto simp: om_ok_Cons om_find_None_iff)
    with Cons.prems True show ?thesis
      using om.erase_absent [of m k] by (simp add: om_erase_def om_ok_Cons)
  next
    case False
    with Cons show ?thesis by (auto simp: om_erase_def om_ok_Cons om_find_Cons)
  qed
qed simp

end
