(* ===== verification/Table_Codec.thy ===== *)
theory Table_Codec
  imports Sql_Value Ordered_Map
begin

text \<open>
  The snapshot format of \<^verbatim>\<open>src/api/db.cpp\<close>: the classes \<^verbatim>\<open>Writer\<close> and
  \<^verbatim>\<open>Reader\<close>, \<^verbatim>\<open>SerializeTables\<close> and \<^verbatim>\<open>LoadTablesBytes\<close>. A writer method
  is the run of bytes it appends to \<open>data_\<close>. A reader is its data and position; a reader
  method returns \<open>Inr\<close> of what it stored through its out parameter, or \<open>Inl\<close> where the
  code returns false (or an error status), with the reader moved on as the code moves it.

  The relation \<open>reads d bs x\<close> says that \<open>d\<close> reads \<open>x\<close> from exactly the bytes \<open>bs\<close> and
  rejects every input that ends inside \<open>bs\<close>; it composes along the reader's control flow,
  and the locale \<open>wire_codec\<close> is the contract of an encoder with its decoder.
\<close>

section \<open>Tables\<close>

type_synonym Row = "sqlvalue list"

record Table =
  tb_schema :: Schema
  tb_rows :: "Row list"

type_synonym Tables = "(string, Table) omap"

section \<open>Writer\<close>

definition wr_U8 :: "byte \<Rightarrow> bytes" where
  "wr_U8 value = [value]"

definition wr_U32 :: "u32 \<Rightarrow> bytes" where
  "wr_U32 value = map (\<lambda>i. ucast (drop_bit (8 * i) value)) [0..<4]"

definition wr_U64 :: "u64 \<Rightarrow> bytes" where
  "wr_U64 value = map (\<lambda>i. ucast (drop_bit (8 * i) value)) [0..<8]"

definition wr_String :: "string \<Rightarrow> bytes" where
  "wr_String value = wr_U32 (of_nat (length value)) @ bytes_of_string value"

definition wr_ValueData :: "sqlvalue \<Rightarrow> bytes" where
  "wr_ValueData value =
     wr_U8 (type_code (value_type value)) @
     (case value of
        VNull \<Rightarrow> []
      | VBoolean b \<Rightarrow> wr_U8 (if b then 1 else 0)
      | VInteger i \<Rightarrow> wr_U64 i
      | VReal d \<Rightarrow> wr_U64 (dbl_bits d)
      | VText s \<Rightarrow> wr_String s
      | VBlob b \<Rightarrow> wr_U32 (of_nat (length b)) @ b)"

definition wr_flag :: "bool \<Rightarrow> bytes" where
  "wr_flag b = wr_U8 (if b then 1 else 0)"

definition wr_Column :: "Column \<Rightarrow> bytes" where
  "wr_Column c =
     wr_String (col_name c) @ wr_U8 (type_code (col_type c)) @ wr_flag (col_nullable c) @
     wr_flag (col_primary_key c) @ wr_flag (col_unique c)"

definition wr_Row :: "Row \<Rightarrow> bytes" where
  "wr_Row row = wr_U32 (of_nat (length row)) @ concat (map wr_ValueData row)"

definition wr_Table :: "string \<times> Table \<Rightarrow> bytes" where
  "wr_Table entry =
     (case entry of (name, table) \<Rightarrow>
        wr_String name @
        wr_U32 (of_nat (length (tb_schema table))) @ concat (map wr_Column (tb_schema table)) @
        wr_U32 (of_nat (length (tb_rows table))) @ concat (map wr_Row (tb_rows table)))"

definition data_magic :: string where
  "data_magic = ''TUPLESTONE-DATA-2''"

definition SerializeTables :: "Tables \<Rightarrow> bytes" where
  "SerializeTables tables =
     wr_String data_magic @ wr_U32 (of_nat (length tables)) @ concat (map wr_Table tables)"

section \<open>Reader\<close>

record reader =
  rd_data :: bytes
  rd_pos :: nat

type_synonym ('e, 'a) rd = "reader \<Rightarrow> ('e + 'a) \<times> reader"

definition rd_return :: "'a \<Rightarrow> ('e, 'a) rd" where
  "rd_return x r = (Inr x, r)"

definition rd_fail :: "'e \<Rightarrow> ('e, 'a) rd" where
  "rd_fail e r = (Inl e, r)"

definition rd_bind :: "('e, 'a) rd \<Rightarrow> ('a \<Rightarrow> ('e, 'b) rd) \<Rightarrow> ('e, 'b) rd" where
  "rd_bind f g r = (case f r of (Inl e, r') \<Rightarrow> (Inl e, r') | (Inr x, r') \<Rightarrow> g x r')"

text \<open>\<^verbatim>\<open>if (!reader.Method(&x)) return error;\<close>\<close>

definition or_fail :: "'e \<Rightarrow> ('d, 'a) rd \<Rightarrow> ('e, 'a) rd" where
  "or_fail e f r = (case f r of (Inl _, r') \<Rightarrow> (Inl e, r') | (Inr x, r') \<Rightarrow> (Inr x, r'))"

definition guard_or :: "bool \<Rightarrow> 'e \<Rightarrow> ('e, 'a) rd \<Rightarrow> ('e, 'a) rd" where
  "guard_or b e f = (if b then f else rd_fail e)"

fun rd_times :: "nat \<Rightarrow> ('e, 'a) rd \<Rightarrow> ('e, 'a list) rd" where
  "rd_times 0 f = rd_return []"
| "rd_times (Suc n) f = rd_bind f (\<lambda>x. rd_bind (rd_times n f) (\<lambda>xs. rd_return (x # xs)))"

definition rd_U8 :: "(unit, byte) rd" where
  "rd_U8 r =
     (if length (rd_data r) \<le> rd_pos r then (Inl (), r)
      else (Inr (rd_data r ! rd_pos r), r\<lparr>rd_pos := rd_pos r + 1\<rparr>))"

text \<open>The loop \<^verbatim>\<open>value |= byte << (i * 8)\<close> from turn \<open>i\<close> on.\<close>

fun rd_le :: "nat \<Rightarrow> nat \<Rightarrow> 'w::len word \<Rightarrow> (unit, 'w word) rd" where
  "rd_le i 0 value = rd_return value"
| "rd_le i (Suc n) value =
     rd_bind rd_U8 (\<lambda>b. rd_le (Suc i) n (value OR push_bit (8 * i) (ucast b)))"

definition rd_U32 :: "(unit, u32) rd" where
  "rd_U32 = rd_le 0 4 0"

definition rd_U64 :: "(unit, u64) rd" where
  "rd_U64 = rd_le 0 8 0"

text \<open>The bytes from the position on, and their removal.\<close>

definition rd_take :: "nat \<Rightarrow> (unit, bytes) rd" where
  "rd_take n r =
     (if length (rd_data r) - rd_pos r < n then (Inl (), r)
      else (Inr (take n (drop (rd_pos r) (rd_data r))), r\<lparr>rd_pos := rd_pos r + n\<rparr>))"

definition rd_String :: "(unit, string) rd" where
  "rd_String = rd_bind rd_U32 (\<lambda>size. rd_bind (rd_take (unat size)) (\<lambda>bs. rd_return (string_of_bytes bs)))"

definition rd_ValueData :: "(unit, sqlvalue) rd" where
  "rd_ValueData =
     rd_bind rd_U8 (\<lambda>tag.
       if tag = 0 then rd_return VNull
       else if tag = 1 then
         rd_bind rd_U8 (\<lambda>b. if 1 < b then rd_fail () else rd_return (VBoolean (b \<noteq> 0)))
       else if tag = 2 then rd_bind rd_U64 (\<lambda>n. rd_return (VInteger n))
       else if tag = 3 then rd_bind rd_U64 (\<lambda>bits. rd_return (VReal (Double bits)))
       else if tag = 4 then rd_bind rd_String (\<lambda>s. rd_return (VText s))
       else if tag = 5 then
         rd_bind rd_U32 (\<lambda>size. rd_bind (rd_take (unat size)) (\<lambda>b. rd_return (VBlob b)))
       else rd_fail ())"

definition rd_Done :: "reader \<Rightarrow> bool" where
  "rd_Done r \<longleftrightarrow> rd_pos r = length (rd_data r)"

section \<open>LoadTablesBytes\<close>

fun type_of_code :: "byte \<Rightarrow> TypeId option" where
  "type_of_code tag =
     (if tag = 1 then Some TBoolean else if tag = 2 then Some TInteger
      else if tag = 3 then Some TReal else if tag = 4 then Some TText
      else if tag = 5 then Some TBlob else None)"

definition rd_Column :: "(payload, Column) rd" where
  "rd_Column =
     rd_bind
       (or_fail (Corruption ''truncated schema'')
         (rd_bind rd_String (\<lambda>name. rd_bind rd_U8 (\<lambda>tag. rd_bind rd_U8 (\<lambda>nullable.
          rd_bind rd_U8 (\<lambda>primary. rd_bind rd_U8 (\<lambda>unique.
            rd_return (name, tag, nullable, primary, unique))))))))
       (\<lambda>(name, tag, nullable, primary, unique).
          case type_of_code tag of
            None \<Rightarrow> rd_fail (Corruption ''invalid column type'')
          | Some ty \<Rightarrow>
              rd_return \<lparr>col_name = name, col_type = ty, col_nullable = nullable \<noteq> 0,
                col_primary_key = primary \<noteq> 0, col_unique = unique \<noteq> 0\<rparr>)"

definition rd_Row :: "nat \<Rightarrow> (payload, Row) rd" where
  "rd_Row schema_size =
     rd_bind (or_fail (Corruption ''invalid row width'') rd_U32) (\<lambda>width.
       guard_or (unat width = schema_size) (Corruption ''invalid row width'')
         (rd_times (unat width) (or_fail (Corruption ''truncated row'') rd_ValueData)))"

definition rd_Table :: "(payload, string \<times> Table) rd" where
  "rd_Table =
     rd_bind (or_fail (Corruption ''invalid schema'')
       (rd_bind rd_String (\<lambda>name. rd_bind rd_U32 (\<lambda>column_count. rd_return (name, column_count)))))
     (\<lambda>(name, column_count).
       guard_or (column_count \<le> 10000) (Corruption ''invalid schema'')
         (rd_bind (rd_times (unat column_count) rd_Column) (\<lambda>columns.
           rd_bind (or_fail (Corruption ''invalid row count'') rd_U32) (\<lambda>row_count.
             guard_or (row_count \<le> 100000000) (Corruption ''invalid row count'')
               (rd_bind (rd_times (unat row_count) (rd_Row (length columns))) (\<lambda>rows.
                 rd_return (name, \<lparr>tb_schema = columns, tb_rows = rows\<rparr>)))))))"

definition rd_Tables :: "(payload, (string \<times> Table) list) rd" where
  "rd_Tables =
     rd_bind (or_fail (Incompatible ''unsupported database format'') rd_String) (\<lambda>magic.
       guard_or (magic = data_magic) (Incompatible ''unsupported database format'')
         (rd_bind (or_fail (Corruption ''invalid table count'') rd_U32) (\<lambda>table_count.
           guard_or (table_count \<le> 100000) (Corruption ''invalid table count'')
             (rd_times (unat table_count) rd_Table))))"

definition emplace_tables :: "(string \<times> Table) list \<Rightarrow> Tables" where
  "emplace_tables entries = foldl (\<lambda>m (name, table). om_emplace (Lower name) table m) [] entries"

definition LoadTablesBytes :: "bytes \<Rightarrow> Tables status_or" where
  "LoadTablesBytes bs =
     (case rd_Tables \<lparr>rd_data = bs, rd_pos = 0\<rparr> of
        (Inl e, _) \<Rightarrow> Inl e
      | (Inr entries, r) \<Rightarrow>
          if rd_Done r then Inr (emplace_tables entries)
          else Inl (Corruption ''trailing database bytes''))"

section \<open>Exact readers\<close>

definition unread :: "reader \<Rightarrow> bytes" where
  "unread r = drop (rd_pos r) (rd_data r)"

definition advance :: "nat \<Rightarrow> reader \<Rightarrow> reader" where
  "advance n r = r\<lparr>rd_pos := rd_pos r + n\<rparr>"

definition reads :: "('e, 'a) rd \<Rightarrow> bytes \<Rightarrow> 'a \<Rightarrow> bool" where
  "reads d bs x \<longleftrightarrow>
     (\<forall>r rest. unread r = bs @ rest \<longrightarrow> d r = (Inr x, advance (length bs) r)) \<and>
     (\<forall>r c cs. unread r @ c # cs = bs \<longrightarrow> (\<exists>e r'. d r = (Inl e, r')))"

lemma unread_advance [simp]: "unread (advance n r) = drop n (unread r)"
  by (simp add: unread_def advance_def add.commute)

lemma advance_advance [simp]: "advance m (advance n r) = advance (n + m) r"
  by (simp add: advance_def add.assoc)

lemma advance_0 [simp]: "advance 0 r = r"
  by (simp add: advance_def)

lemma readsI:
  assumes "\<And>r rest. unread r = bs @ rest \<Longrightarrow> d r = (Inr x, advance (length bs) r)"
    and "\<And>r c cs. unread r @ c # cs = bs \<Longrightarrow> \<exists>e r'. d r = (Inl e, r')"
  shows "reads d bs x"
  using assms by (auto simp: reads_def)

lemma reads_exact: "reads d bs x \<Longrightarrow> unread r = bs @ rest \<Longrightarrow> d r = (Inr x, advance (length bs) r)"
  by (simp add: reads_def)

lemma reads_short: "reads d bs x \<Longrightarrow> unread r @ c # cs = bs \<Longrightarrow> \<exists>e r'. d r = (Inl e, r')"
  unfolding reads_def by blast

lemma reads_return [intro]: "reads (rd_return x) [] x"
  by (rule readsI) (simp_all add: rd_return_def)

lemma reads_bind [intro]:
  assumes f: "reads f bs x" and g: "reads (g x) cs y"
  shows "reads (rd_bind f g) (bs @ cs) y"
proof (rule readsI)
  fix r rest assume "unread r = (bs @ cs) @ rest"
  then have "f r = (Inr x, advance (length bs) r)" "unread (advance (length bs) r) = cs @ rest"
    using reads_exact [OF f, of r "cs @ rest"] by simp_all
  with reads_exact [OF g, of "advance (length bs) r" rest]
  show "rd_bind f g r = (Inr y, advance (length (bs @ cs)) r)" by (simp add: rd_bind_def)
next
  fix r c ds assume eq: "unread r @ c # ds = bs @ cs"
  then consider us where "bs = unread r @ us" "us \<noteq> []" | us where "unread r = bs @ us" "us @ c # ds = cs"
    by (auto simp: append_eq_append_conv2 append_eq_Cons_conv) (metis append_Nil2 list.distinct(1))+
  then show "\<exists>e r'. rd_bind f g r = (Inl e, r')"
  proof cases
    case 1
    then obtain d es where "us = d # es" by (auto simp: neq_Nil_conv)
    with 1 reads_short [OF f, of r d es] show ?thesis by (auto simp: rd_bind_def)
  next
    case 2
    then have "f r = (Inr x, advance (length bs) r)" "unread (advance (length bs) r) = us"
      using reads_exact [OF f, of r us] by simp_all
    with 2 reads_short [OF g, of "advance (length bs) r" c ds]
    show ?thesis by (auto simp: rd_bind_def)
  qed
qed

lemma reads_or_fail [intro]: "reads f bs x \<Longrightarrow> reads (or_fail e f) bs x"
  unfolding reads_def or_fail_def by (fastforce split: sum.splits prod.splits)

lemma reads_guard [intro]: "b \<Longrightarrow> reads f bs x \<Longrightarrow> reads (guard_or b e f) bs x"
  by (simp add: guard_or_def)

lemma reads_bind_return:
  "reads f bs x \<Longrightarrow> y = h x \<Longrightarrow> reads (rd_bind f (\<lambda>x. rd_return (h x))) bs y"
  using reads_bind [of f bs x "\<lambda>x. rd_return (h x)" "[]" y] by (simp add: reads_return)

section \<open>The contract of an encoder and its decoder\<close>

locale wire_codec =
  fixes enc :: "'a \<Rightarrow> bytes"
    and dec :: "('e, 'a) rd"
    and ok :: "'a \<Rightarrow> bool"
  assumes reads_enc: "ok x \<Longrightarrow> reads dec (enc x) x"
begin

text \<open>A counted run of encoded elements is read back whole.\<close>

lemma reads_times:
  "list_all ok xs \<Longrightarrow> reads (rd_times (length xs) dec) (concat (map enc xs)) xs"
proof (induction xs)
  case (Cons x xs)
  then have "reads dec (enc x) x" "reads (rd_times (length xs) dec) (concat (map enc xs)) xs"
    by (auto intro: reads_enc)
  then show ?case by (auto intro!: reads_bind reads_bind_return)
qed auto

lemma enc_inject: "ok x \<Longrightarrow> ok y \<Longrightarrow> enc x @ us = enc y @ vs \<Longrightarrow> x = y \<and> us = vs"
proof -
  assume "ok x" "ok y" "enc x @ us = enc y @ vs"
  let ?r = "\<lparr>rd_data = enc x @ us, rd_pos = 0\<rparr>"
  have "dec ?r = (Inr x, advance (length (enc x)) ?r)"
    using reads_exact [OF reads_enc [OF \<open>ok x\<close>], of ?r us] by (simp add: unread_def)
  moreover have "dec ?r = (Inr y, advance (length (enc y)) ?r)"
    using reads_exact [OF reads_enc [OF \<open>ok y\<close>], of ?r vs] \<open>enc x @ us = enc y @ vs\<close>
    by (simp add: unread_def)
  ultimately have "x = y" by simp
  with \<open>enc x @ us = enc y @ vs\<close> show ?thesis by simp
qed

end

section \<open>The codecs of the snapshot format\<close>

lemma reads_U8 [intro]: "reads rd_U8 [b] b"
proof (rule readsI)
  fix r rest assume "unread r = [b] @ rest"
  then have "rd_pos r < length (rd_data r)" "rd_data r ! rd_pos r = b"
    by (simp_all add: unread_def) (metis drop_all linorder_not_less list.discI,
        metis drop_all hd_drop_conv_nth linorder_not_less list.discI list.sel(1))
  then show "rd_U8 r = (Inr b, advance (length [b]) r)" by (simp add: rd_U8_def advance_def)
next
  fix r c cs assume "unread r @ c # cs = [b]"
  then have "unread r = []" by (cases "unread r") auto
  then show "\<exists>e r'. rd_U8 r = (Inl e, r')" by (simp add: rd_U8_def unread_def)
qed

lemma reads_le: "length bs = n \<Longrightarrow> reads (rd_le i n v) bs (v OR le_load_from i bs)"
proof (induction n arbitrary: i v bs)
  case 0
  then show ?case by (auto intro: reads_return)
next
  case (Suc n)
  then obtain b cs where bs: "bs = b # cs" "length cs = n" by (cases bs) auto
  have "reads (rd_le (Suc i) n (v OR push_bit (8 * i) (ucast b))) cs
      ((v OR push_bit (8 * i) (ucast b)) OR le_load_from (Suc i) cs)"
    using bs(2) by (rule Suc.IH)
  from reads_bind [OF reads_U8, of "\<lambda>b. rd_le (Suc i) n (v OR push_bit (8 * i) (ucast b))" b, OF this]
  show ?case using bs by (simp add: or.assoc)
qed

lemma wr_U32_eq: "wr_U32 v = le_store 4 v"
  by (simp add: wr_U32_def le_store_def)

lemma wr_U64_eq: "wr_U64 v = le_store 8 v"
  by (simp add: wr_U64_def le_store_def)

lemma reads_U32 [intro]: "reads rd_U32 (wr_U32 v) v"
  using reads_le [of "wr_U32 v" 4 0 "0 :: u32"] by (simp add: rd_U32_def wr_U32_eq)

lemma reads_U64 [intro]: "reads rd_U64 (wr_U64 v) v"
  using reads_le [of "wr_U64 v" 8 0 "0 :: u64"] by (simp add: rd_U64_def wr_U64_eq)

lemma reads_take [intro]: "reads (rd_take (length bs)) bs bs"
proof (rule readsI)
  fix r rest assume u: "unread r = bs @ rest"
  then have "length (rd_data r) - rd_pos r = length bs + length rest"
    by (metis length_append length_drop unread_def)
  with u show "rd_take (length bs) r = (Inr bs, advance (length bs) r)"
    by (simp add: rd_take_def unread_def advance_def)
next
  fix r c cs assume "unread r @ c # cs = bs"
  then have "length (rd_data r) - rd_pos r < length bs" by (auto simp: unread_def)
  then show "\<exists>e r'. rd_take (length bs) r = (Inl e, r')" by (simp add: rd_take_def)
qed

abbreviation fits32 :: "'a list \<Rightarrow> bool" where
  "fits32 xs \<equiv> length xs < 2 ^ 32"

lemma unat_u32_of_nat: "n < 2 ^ 32 \<Longrightarrow> unat (of_nat n :: u32) = n"
  by (simp add: unat_of_nat)

lemma reads_counted_take: "fits32 bs \<Longrightarrow> reads (rd_take (unat (of_nat (length bs) :: u32))) bs bs"
  by (simp only: unat_u32_of_nat) (rule reads_take)

lemma reads_String [intro]: "fits32 s \<Longrightarrow> reads rd_String (wr_String s) s"
  unfolding rd_String_def wr_String_def
  by (intro reads_bind [OF reads_U32] reads_bind_return [where x = "bytes_of_string s"])
    (use reads_counted_take [of "bytes_of_string s"] in \<open>simp_all add: map_idI\<close>)

interpretation u8_wire: wire_codec wr_U8 rd_U8 "\<lambda>_. True"
  by unfold_locales (auto simp: wr_U8_def)

interpretation u32_wire: wire_codec wr_U32 rd_U32 "\<lambda>_. True"
  by unfold_locales auto

interpretation u64_wire: wire_codec wr_U64 rd_U64 "\<lambda>_. True"
  by unfold_locales auto

interpretation string_wire: wire_codec wr_String rd_String fits32
  by unfold_locales auto

fun value_fits :: "sqlvalue \<Rightarrow> bool" where
  "value_fits (VText s) = fits32 s"
| "value_fits (VBlob b) = fits32 b"
| "value_fits _ = True"

lemma reads_ValueData: "value_fits v \<Longrightarrow> reads rd_ValueData (wr_ValueData v) v"
  unfolding rd_ValueData_def wr_ValueData_def wr_U8_def
  by (rule reads_bind [OF reads_U8])
    (cases v; auto intro!: reads_bind_return reads_bind [OF reads_U32] reads_counted_take
      reads_bind [OF reads_U8, where cs = "[]", simplified] simp: rd_return_def [symmetric])

interpretation value_wire: wire_codec wr_ValueData rd_ValueData value_fits
  by unfold_locales (rule reads_ValueData)

interpretation row_value_wire: wire_codec wr_ValueData "or_fail (Corruption ''truncated row'') rd_ValueData" value_fits
  by unfold_locales (auto intro: reads_ValueData)

definition column_fits :: "Column \<Rightarrow> bool" where
  "column_fits c \<longleftrightarrow> fits32 (col_name c) \<and> col_type c \<noteq> TNull"

lemma type_of_code_code: "ty \<noteq> TNull \<Longrightarrow> type_of_code (type_code ty) = Some ty"
  by (cases ty) simp_all

lemma reads_Column: "column_fits c \<Longrightarrow> reads rd_Column (wr_Column c) c"
proof -
  assume c: "column_fits c"
  let ?t = "(col_name c, type_code (col_type c), if col_nullable c then 1 else 0,
    if col_primary_key c then 1 else 0, if col_unique c then 1 else 0)"
  have "reads (rd_bind rd_String (\<lambda>name. rd_bind rd_U8 (\<lambda>tag. rd_bind rd_U8 (\<lambda>nullable.
          rd_bind rd_U8 (\<lambda>primary. rd_bind rd_U8 (\<lambda>unique.
            rd_return (name, tag, nullable, primary, unique))))))) (wr_Column c) ?t"
    unfolding wr_Column_def wr_flag_def wr_U8_def
    using c by (intro reads_bind [OF reads_String] reads_bind [OF reads_U8]
        reads_bind_return [OF reads_U8]) (simp_all add: column_fits_def)
  then have "reads rd_Column (wr_Column c @ []) c"
    unfolding rd_Column_def
    by (rule reads_bind [OF reads_or_fail])
      (use c in \<open>cases c; simp add: column_fits_def type_of_code_code reads_return del: type_of_code.simps\<close>)
  then show ?thesis by simp
qed

interpretation column_wire: wire_codec wr_Column rd_Column column_fits
  by unfold_locales (rule reads_Column)

definition row_fits :: "nat \<Rightarrow> Row \<Rightarrow> bool" where
  "row_fits w row \<longleftrightarrow> length row = w \<and> fits32 row \<and> list_all value_fits row"

lemma reads_Row: "row_fits w row \<Longrightarrow> reads (rd_Row w) (wr_Row row) row"
  unfolding rd_Row_def wr_Row_def
  using row_value_wire.reads_times [of row]
  by (intro reads_bind [OF reads_or_fail [OF reads_U32]] reads_guard)
    (simp_all add: row_fits_def unat_u32_of_nat)

interpretation row_wire: wire_codec wr_Row "rd_Row w" "row_fits w" for w
  by unfold_locales (rule reads_Row)

definition table_fits :: "string \<times> Table \<Rightarrow> bool" where
  "table_fits entry \<longleftrightarrow>
     (case entry of (name, t) \<Rightarrow>
        fits32 name \<and> length (tb_schema t) \<le> 10000 \<and> list_all column_fits (tb_schema t) \<and>
        length (tb_rows t) \<le> 100000000 \<and> list_all (row_fits (length (tb_schema t))) (tb_rows t))"

lemma u32_of_nat_le: "n \<le> m \<Longrightarrow> m < 2 ^ 32 \<Longrightarrow> (of_nat n :: u32) \<le> of_nat m"
  by (simp add: word_le_nat_alt unat_of_nat)

lemma reads_Table: "table_fits entry \<Longrightarrow> reads rd_Table (wr_Table entry) entry"
proof -
  assume fits: "table_fits entry"
  obtain name t where entry: "entry = (name, t)" by (cases entry)
  let ?n = "length (tb_schema t)" and ?m = "length (tb_rows t)"
  have bounds: "fits32 name" "?n \<le> 10000" "?m \<le> 100000000"
    and cols: "list_all column_fits (tb_schema t)"
    and rows: "list_all (row_fits ?n) (tb_rows t)"
    using fits entry by (simp_all add: table_fits_def)
  have counts: "unat (of_nat ?n :: u32) = ?n" "unat (of_nat ?m :: u32) = ?m"
    "(of_nat ?n :: u32) \<le> 10000" "(of_nat ?m :: u32) \<le> 100000000"
    using bounds u32_of_nat_le [of ?n 10000] u32_of_nat_le [of ?m 100000000]
    by (simp_all add: unat_of_nat)
  have head: "reads (rd_bind rd_String (\<lambda>name. rd_bind rd_U32 (\<lambda>column_count. rd_return (name, column_count))))
      (wr_String name @ wr_U32 (of_nat ?n)) (name, of_nat ?n)"
    using bounds by (intro reads_bind [OF reads_String] reads_bind_return [OF reads_U32]) simp_all
  have rowsr: "reads (rd_bind (rd_times ?m (rd_Row ?n)) (\<lambda>rows.
      rd_return (name, \<lparr>tb_schema = tb_schema t, tb_rows = rows\<rparr>))) (concat (map wr_Row (tb_rows t))) (name, t)"
    using row_wire.reads_times [OF rows] by (cases t) (auto intro!: reads_bind_return)
  have "reads rd_Table ((wr_String name @ wr_U32 (of_nat ?n)) @ concat (map wr_Column (tb_schema t)) @
      wr_U32 (of_nat ?m) @ concat (map wr_Row (tb_rows t))) (name, t)"
    unfolding rd_Table_def
    apply (rule reads_bind [OF reads_or_fail [OF head]])
    unfolding prod.case counts(1)
    apply (intro reads_guard counts reads_bind [OF column_wire.reads_times [OF cols]]
        reads_bind [OF reads_or_fail [OF reads_U32]])
    unfolding counts(2) by (rule rowsr)
  then show ?thesis by (simp add: entry wr_Table_def)
qed

interpretation table_wire: wire_codec wr_Table rd_Table table_fits
  by unfold_locales (rule reads_Table)

section \<open>Snapshots\<close>

definition tables_fit :: "Tables \<Rightarrow> bool" where
  "tables_fit tables \<longleftrightarrow>
     om_ok tables \<and> length tables \<le> 100000 \<and> list_all table_fits tables \<and>
     list_all (\<lambda>entry. Lower (fst entry) = fst entry) tables"

lemma fits32_data_magic [simp]: "length data_magic < 4294967296"
  by (simp add: data_magic_def)

lemma reads_Tables: "tables_fit ts \<Longrightarrow> reads rd_Tables (SerializeTables ts) ts"
proof -
  assume fit: "tables_fit ts"
  let ?n = "length ts"
  have n: "?n \<le> 100000" "list_all table_fits ts" using fit by (simp_all add: tables_fit_def)
  have counts: "unat (of_nat ?n :: u32) = ?n" "(of_nat ?n :: u32) \<le> 100000"
    using n u32_of_nat_le [of ?n 100000] by (simp_all add: unat_of_nat)
  show ?thesis
    unfolding rd_Tables_def SerializeTables_def
    using table_wire.reads_times [OF n(2)]
    by (intro reads_bind [OF reads_or_fail [OF reads_String]] reads_guard
        reads_bind [OF reads_or_fail [OF reads_U32]]) (simp_all add: counts)
qed

lemma emplace_tables_id: "om_ok ts \<Longrightarrow> list_all (\<lambda>e. Lower (fst e) = fst e) ts \<Longrightarrow> emplace_tables ts = ts"
proof (induction ts rule: rev_induct)
  case (snoc e ts)
  have "om_ok ts" "\<forall>p \<in> set ts. fst p < fst e"
    using snoc.prems by (auto simp: om_ok_def sorted_wrt_append)
  then show ?case
    using snoc by (cases e) (simp add: emplace_tables_def om_emplace_last)
qed (simp add: emplace_tables_def)

lemma LoadTablesBytes_append:
  assumes "tables_fit ts"
  shows "LoadTablesBytes (SerializeTables ts @ extra) =
    (if extra = [] then Inr ts else Inl (Corruption ''trailing database bytes''))"
proof -
  let ?r = "\<lparr>rd_data = SerializeTables ts @ extra, rd_pos = 0\<rparr>"
  have "rd_Tables ?r = (Inr ts, advance (length (SerializeTables ts)) ?r)"
    using reads_exact [OF reads_Tables [OF assms], of ?r extra] by (simp add: unread_def)
  then show ?thesis
    using assms by (simp add: LoadTablesBytes_def rd_Done_def advance_def emplace_tables_id tables_fit_def)
qed

lemma LoadTablesBytes_truncated:
  assumes "tables_fit ts" "n < length (SerializeTables ts)"
  shows "\<exists>e. LoadTablesBytes (take n (SerializeTables ts)) = Inl e"
proof -
  let ?r = "\<lparr>rd_data = take n (SerializeTables ts), rd_pos = 0\<rparr>"
  have "unread ?r @ SerializeTables ts ! n # drop (Suc n) (SerializeTables ts) = SerializeTables ts"
    using assms(2) by (simp add: unread_def id_take_nth_drop [symmetric])
  from reads_short [OF reads_Tables [OF assms(1)] this]
  show ?thesis by (auto simp: LoadTablesBytes_def)
qed

section \<open>What a reader can yield\<close>

definition yields :: "('e, 'a) rd \<Rightarrow> ('a \<Rightarrow> bool) \<Rightarrow> bool" where
  "yields d P \<longleftrightarrow> (\<forall>r x r'. d r = (Inr x, r') \<longrightarrow> P x)"

lemma yields_any [intro]: "yields d (\<lambda>_. True)"
  by (simp add: yields_def)

lemma yields_return [intro]: "P x \<Longrightarrow> yields (rd_return x) P"
  by (simp add: yields_def rd_return_def)

lemma yields_fail [intro]: "yields (rd_fail e) P"
  by (simp add: yields_def rd_fail_def)

lemma yields_bind:
  assumes "yields f P" "\<And>x. P x \<Longrightarrow> yields (g x) Q"
  shows "yields (rd_bind f g) Q"
  unfolding yields_def
proof (intro allI impI)
  fix r y r' assume "rd_bind f g r = (Inr y, r')"
  then obtain x r1 where "f r = (Inr x, r1)" "g x r1 = (Inr y, r')"
    by (auto simp: rd_bind_def split: prod.splits sum.splits)
  then show "Q y" using assms unfolding yields_def by blast
qed

lemma yields_mono: "yields d P \<Longrightarrow> (\<And>x. P x \<Longrightarrow> Q x) \<Longrightarrow> yields d Q"
  by (auto simp: yields_def)

lemmas yields_bind_any = yields_bind [OF yields_any]

lemma yields_or_fail [intro]: "yields f P \<Longrightarrow> yields (or_fail e f) P"
  unfolding yields_def or_fail_def by (auto split: prod.splits sum.splits)

lemma yields_guard [intro]: "(b \<Longrightarrow> yields f P) \<Longrightarrow> yields (guard_or b e f) P"
  by (auto simp: guard_or_def)

lemma yields_times: "yields f P \<Longrightarrow> yields (rd_times n f) (\<lambda>xs. length xs = n \<and> list_all P xs)"
proof (induction n)
  case (Suc n)
  then show ?case by (auto intro!: yields_bind [where f = f] yields_bind [where f = "rd_times n f"])
qed auto

text \<open>Tables the engine may hold: every row as wide as the schema, no column of type NULL.\<close>

definition table_ok :: "Table \<Rightarrow> bool" where
  "table_ok t \<longleftrightarrow>
     list_all (\<lambda>c. col_type c \<noteq> TNull) (tb_schema t) \<and>
     list_all (\<lambda>row. length row = length (tb_schema t)) (tb_rows t)"

definition tables_ok :: "Tables \<Rightarrow> bool" where
  "tables_ok ts \<longleftrightarrow> om_ok ts \<and> list_all (\<lambda>e. Lower (fst e) = fst e \<and> table_ok (snd e)) ts"

lemma yields_Column: "yields rd_Column (\<lambda>c. col_type c \<noteq> TNull)"
  unfolding rd_Column_def
  by (rule yields_bind_any)
    (auto simp: yields_def rd_return_def rd_fail_def split: option.splits if_splits)

lemma yields_Row: "yields (rd_Row w) (\<lambda>row. length row = w)"
  unfolding rd_Row_def
  by (intro yields_bind_any yields_guard yields_mono [OF yields_times [OF yields_any]]) simp

lemma yields_Table: "yields rd_Table (\<lambda>e. table_ok (snd e))"
  unfolding rd_Table_def
  apply (rule yields_bind_any)
  apply (simp split: prod.splits)
  apply (intro allI impI yields_guard)
  apply (rule yields_bind [OF yields_times [OF yields_Column]])
  apply (rule yields_bind_any)
  apply (rule yields_guard)
  apply (rule yields_bind [OF yields_times [OF yields_Row]])
  apply (simp add: table_ok_def yields_def rd_return_def)
  done

lemma yields_Tables: "yields rd_Tables (list_all (\<lambda>e. table_ok (snd e)))"
  unfolding rd_Tables_def
  by (intro yields_bind_any yields_guard yields_mono [OF yields_times [OF yields_Table]]) simp

lemma tables_ok_put: "tables_ok ts \<Longrightarrow> table_ok t \<Longrightarrow> tables_ok (om_put (Lower name) t ts)"
  using set_om_put [of "Lower name" t ts] by (auto simp: tables_ok_def list_all_iff)

lemma tables_ok_erase: "tables_ok ts \<Longrightarrow> tables_ok (om_erase name ts)"
  using om_erase_ok [of ts name] by (auto simp: tables_ok_def list_all_iff om_erase_def)

lemma tables_ok_emplace: "tables_ok ts \<Longrightarrow> table_ok t \<Longrightarrow> tables_ok (om_emplace (Lower name) t ts)"
  by (simp add: om_emplace_def tables_ok_put split: option.splits)

lemma tables_ok_emplace_tables: "list_all (\<lambda>e. table_ok (snd e)) es \<Longrightarrow> tables_ok (emplace_tables es)"
proof (induction es rule: rev_induct)
  case (snoc e es)
  then show ?case
    by (cases e) (simp add: emplace_tables_def tables_ok_emplace)
qed (simp add: emplace_tables_def tables_ok_def om_ok_def)

lemma LoadTablesBytes_ok: "LoadTablesBytes bs = Inr ts \<Longrightarrow> tables_ok ts"
  using yields_Tables unfolding yields_def
  by (fastforce simp: LoadTablesBytes_def intro: tables_ok_emplace_tables
      split: prod.splits sum.splits if_splits)

section \<open>The errors a reader can report\<close>

definition errors :: "('e, 'a) rd \<Rightarrow> ('e \<Rightarrow> bool) \<Rightarrow> bool" where
  "errors d P \<longleftrightarrow> (\<forall>r e r'. d r = (Inl e, r') \<longrightarrow> P e)"

lemma errors_return: "errors (rd_return x) P"
  by (simp add: errors_def rd_return_def)

lemma errors_fail: "P e \<Longrightarrow> errors (rd_fail e) P"
  by (simp add: errors_def rd_fail_def)

lemma errors_bind: "errors f P \<Longrightarrow> (\<And>x. errors (g x) P) \<Longrightarrow> errors (rd_bind f g) P"
  unfolding errors_def rd_bind_def by (auto split: prod.splits sum.splits)

lemma errors_or_fail: "P e \<Longrightarrow> errors (or_fail e f) P"
  by (auto simp: errors_def or_fail_def split: prod.splits sum.splits)

lemma errors_guard: "P e \<Longrightarrow> errors f P \<Longrightarrow> errors (guard_or b e f) P"
  by (simp add: guard_or_def errors_fail)

lemma errors_times: "errors f P \<Longrightarrow> errors (rd_times n f) P"
  by (induction n) (auto intro!: errors_return errors_bind)

lemmas errors_intros = errors_return errors_fail errors_bind errors_or_fail errors_guard errors_times

abbreviation format_error :: "payload \<Rightarrow> bool" where
  "format_error e \<equiv> pl_code e = kCorruption \<or> pl_code e = kIncompatible"

lemma errors_Column: "errors rd_Column format_error"
  unfolding rd_Column_def
  by (rule errors_bind)
    (auto intro!: errors_intros simp: error_defs split: option.splits prod.splits)

lemma errors_Row: "errors (rd_Row w) format_error"
  unfolding rd_Row_def by (intro errors_intros) (simp_all add: error_defs)

lemma errors_Table: "errors rd_Table format_error"
  unfolding rd_Table_def
  by (rule errors_bind)
    (auto intro!: errors_intros errors_Column errors_Row simp: error_defs split: prod.splits)

lemma errors_Tables: "errors rd_Tables format_error"
  unfolding rd_Tables_def
  by (intro errors_intros errors_Table) (simp_all add: error_defs)

lemma LoadTablesBytes_error: "LoadTablesBytes bs = Inl e \<Longrightarrow> format_error e"
  using errors_Tables
  by (auto simp: LoadTablesBytes_def errors_def error_defs split: prod.splits sum.splits if_splits)

definition sample_tables :: Tables where
  "sample_tables =
     [(''t'', \<lparr>tb_schema = [\<lparr>col_name = ''id'', col_type = TInteger, col_nullable = False,
          col_primary_key = True, col_unique = False\<rparr>],
        tb_rows = [[VInteger 7], [VNull]]\<rparr>)]"

lemma sample_tables_fit: "tables_fit sample_tables"
  by (simp add: sample_tables_def tables_fit_def om_ok_def table_fits_def column_fits_def row_fits_def
      Lower_def tolower_def isupper_def)

section \<open>Properties\<close>

text \<open>C13: a snapshot is read back exactly: \<^verbatim>\<open>LoadTablesBytes\<close> gives the serialized tables
  again, reports trailing bytes when anything follows, and reports an error for every proper
  prefix.\<close>

theorem LoadTablesBytes_SerializeTables:
  assumes "tables_fit ts"
  shows "LoadTablesBytes (SerializeTables ts) = Inr ts \<and>
    (extra \<noteq> [] \<longrightarrow> LoadTablesBytes (SerializeTables ts @ extra) = Inl (Corruption ''trailing database bytes'')) \<and>
    (n < length (SerializeTables ts) \<longrightarrow> (\<exists>e. LoadTablesBytes (take n (SerializeTables ts)) = Inl e))"
  using LoadTablesBytes_append [OF assms, of "[]"] LoadTablesBytes_append [OF assms, of extra]
    LoadTablesBytes_truncated [OF assms, of n] by auto

theorem LoadTablesBytes_SerializeTables_witness:
  "LoadTablesBytes (SerializeTables sample_tables) = Inr sample_tables \<and>
   LoadTablesBytes (SerializeTables sample_tables @ [0]) = Inl (Corruption ''trailing database bytes'') \<and>
   (\<exists>e. LoadTablesBytes (take 3 (SerializeTables sample_tables)) = Inl e)"
proof -
  have "3 < length (SerializeTables sample_tables)" by (simp add: SerializeTables_def wr_String_def wr_U32_def)
  then show ?thesis
    using LoadTablesBytes_SerializeTables [OF sample_tables_fit, of "[0]" 3] by simp
qed

text \<open>C14: whatever bytes are loaded, the tables that come out are well formed: table names in
  order, distinct and lower case, every row as wide as its schema and no column of type NULL;
  and a load that fails reports corruption or an incompatible format, never anything else.\<close>

theorem LoadTablesBytes_wellformed:
  "case LoadTablesBytes bs of
     Inr ts \<Rightarrow> tables_ok ts
   | Inl e \<Rightarrow> pl_code e = kCorruption \<or> pl_code e = kIncompatible"
  using LoadTablesBytes_ok [of bs] LoadTablesBytes_error [of bs] by (auto split: sum.split)

end
