(* ===== verification/Recovery.thy ===== *)
theory Recovery
  imports Log_Manager Table_Codec "HOL-Library.Sublist"
begin

text \<open>
  Durability in \<^verbatim>\<open>src/api/db.cpp\<close>: the data file (\<^verbatim>\<open>SaveTables\<close>,
  \<^verbatim>\<open>LoadTables\<close>), the commit protocol (\<^verbatim>\<open>PersistCommittedTables\<close>), replay
  (\<^verbatim>\<open>RecoverCommittedTables\<close>) and \<^verbatim>\<open>Database::Open\<close>,
  \<^verbatim>\<open>Checkpoint\<close> and \<^verbatim>\<open>Close\<close>. The lemmas show what a reopened database
  finds after any sequence of I/O outcomes during a commit.
\<close>

section \<open>State\<close>

record Options =
  buffer_pool_pages :: nat
  sort_memory_bytes :: nat
  create_if_missing :: bool
  sync_on_commit :: bool

definition default_Options :: Options where
  "default_Options = \<lparr>buffer_pool_pages = 4096, sort_memory_bytes = 64 * 2 ^ 20,
     create_if_missing = True, sync_on_commit = True\<rparr>"

text \<open>\<^verbatim>\<open>Database::Impl\<close>; the mutex is not state of a single-threaded run.\<close>

record Database =
  db_path :: string
  db_options :: Options
  db_tables :: Tables
  db_wal :: LogManager
  db_next_wal_txn :: u64
  db_generation :: u64
  db_closed :: bool

definition new_Database :: "string \<Rightarrow> Options \<Rightarrow> Database" where
  "new_Database path options =
     \<lparr>db_path = path, db_options = options, db_tables = [], db_wal = new_LogManager,
      db_next_wal_txn = 1, db_generation = 0, db_closed = False\<rparr>"

section \<open>The data file\<close>

definition SaveTables :: "string \<Rightarrow> Tables \<Rightarrow> env \<Rightarrow> status \<times> env" where
  "SaveTables path tables e =
     (let bs = SerializeTables tables; temp = path @ ''.tmp'' in
      case open_trunc temp e of (opened, e1) \<Rightarrow>
        if \<not> opened then (Some (IoError ''cannot create database file''), e1) else
      case stream_write temp [] bs e1 of (written, pending, e2) \<Rightarrow>
        if \<not> written then (Some (IoError ''cannot write database file''), stream_close temp pending e2) else
      case stream_flush temp pending e2 of (_, pending2, e3) \<Rightarrow>
      let e4 = stream_close temp pending2 e3 in
      case rename_file temp path e4 of (renamed, e5) \<Rightarrow>
        if renamed then (None, e5) else
      case remove_file path e5 of (_, e6) \<Rightarrow>
      case rename_file temp path e6 of (renamed2, e7) \<Rightarrow>
        if renamed2 then (None, e7)
        else (Some (IoError (''cannot replace database file: '' @ errtext e7)), e7))"

definition LoadTables :: "string \<Rightarrow> env \<Rightarrow> Tables status_or \<times> env" where
  "LoadTables path e =
     (case open_read path e of (opened, e1) \<Rightarrow>
        if \<not> opened then (Inl (NotFound ''database file does not exist''), e1)
        else (LoadTablesBytes (contents e1 path), e1))"

section \<open>Commit and replay\<close>

definition kSnapshotPrefix :: bytes where
  "kSnapshotPrefix = bytes_of_string (''TUPLESTONE-SNAPSHOT-1'' @ [CHR 0x0A])"

text \<open>The three appends of \<^verbatim>\<open>PersistCommittedTables\<close>, with the lsn of the last.\<close>

definition append_transaction :: "LogManager \<Rightarrow> u64 \<Rightarrow> bytes \<Rightarrow> env \<Rightarrow> u64 status_or \<times> LogManager \<times> env" where
  "append_transaction wal txn_id payload e =
     (case lm_Append wal txn_id kInvalidLsn kBegin [] e of
        (Inl err, wal1, e1) \<Rightarrow> (Inl err, wal1, e1)
      | (Inr begin_lsn, wal1, e1) \<Rightarrow>
      case lm_Append wal1 txn_id begin_lsn kUpdate payload e1 of
        (Inl err, wal2, e2) \<Rightarrow> (Inl err, wal2, e2)
      | (Inr update_lsn, wal2, e2) \<Rightarrow> lm_Append wal2 txn_id update_lsn kCommit [] e2)"

definition PersistCommittedTables :: "Database \<Rightarrow> Tables \<Rightarrow> env \<Rightarrow> status \<times> Database \<times> env" where
  "PersistCommittedTables db tables e =
     (let txn_id = db_next_wal_txn db;
          db0 = db\<lparr>db_next_wal_txn := txn_id + 1\<rparr>;
          payload = kSnapshotPrefix @ SerializeTables tables in
      case append_transaction (db_wal db0) txn_id payload e of
        (Inl err, wal3, e3) \<Rightarrow> (Some err, db0\<lparr>db_wal := wal3\<rparr>, e3)
      | (Inr commit_lsn, wal3, e3) \<Rightarrow>
      case (if sync_on_commit (db_options db) then lm_Flush wal3 commit_lsn e3 else (None, wal3, e3)) of
        (Some err, wal4, e4) \<Rightarrow> (Some err, db0\<lparr>db_wal := wal4\<rparr>, e4)
      | (None, wal4, e4) \<Rightarrow>
      case SaveTables (db_path db) tables e4 of
        (status, e5) \<Rightarrow> (status, db0\<lparr>db_wal := wal4\<rparr>, e5))"

record replay =
  rp_snapshots :: "(u64, bytes) omap"
  rp_largest :: u64
  rp_recovered :: bool
  rp_tables :: Tables

definition starts_with :: "'a list \<Rightarrow> 'a list \<Rightarrow> bool" where
  "starts_with xs ps \<longleftrightarrow> take (length ps) xs = ps"

text \<open>One turn of the replay loop, with the status it returns when it leaves the function.\<close>

definition replay_record :: "LogRecord \<Rightarrow> replay \<Rightarrow> status \<times> replay" where
  "replay_record r st =
     (let st1 = st\<lparr>rp_largest := max (rp_largest st) (lr_txn_id r)\<rparr> in
      if lr_type r = kUpdate \<and> starts_with (lr_payload r) kSnapshotPrefix then
        (None, st1\<lparr>rp_snapshots := om_put (lr_txn_id r)
           (drop (length kSnapshotPrefix) (lr_payload r)) (rp_snapshots st1)\<rparr>)
      else if lr_type r = kCommit then
        (case om_find (rp_snapshots st1) (lr_txn_id r) of
           None \<Rightarrow> (None, st1)
         | Some snapshot \<Rightarrow>
             (case LoadTablesBytes snapshot of
                Inl err \<Rightarrow>
                  (Some (Corruption (''committed WAL snapshot is invalid: '' @ pl_message err)), st1)
              | Inr committed \<Rightarrow>
                  (None, st1\<lparr>rp_tables := committed, rp_recovered := True,
                    rp_snapshots := om_erase (lr_txn_id r) (rp_snapshots st1)\<rparr>)))
      else (None, st1))"

fun replay_log :: "LogRecord list \<Rightarrow> replay \<Rightarrow> status \<times> replay" where
  "replay_log [] st = (None, st)"
| "replay_log (r # rs) st =
     (case replay_record r st of (Some err, st') \<Rightarrow> (Some err, st') | (None, st') \<Rightarrow> replay_log rs st')"

definition replay_start :: "Tables \<Rightarrow> replay" where
  "replay_start tables =
     \<lparr>rp_snapshots = [], rp_largest = 0, rp_recovered = False, rp_tables = tables\<rparr>"

definition RecoverCommittedTables :: "Database \<Rightarrow> env \<Rightarrow> status \<times> Database \<times> env" where
  "RecoverCommittedTables db e =
     (case lm_ReadAll (db_wal db) e of
        (Inl err, e1) \<Rightarrow> (Some err, db, e1)
      | (Inr records, e1) \<Rightarrow>
      case replay_log records (replay_start (db_tables db)) of
        (Some err, st) \<Rightarrow> (Some err, db\<lparr>db_tables := rp_tables st\<rparr>, e1)
      | (None, st) \<Rightarrow>
      let db1 = db\<lparr>db_tables := rp_tables st,
            db_next_wal_txn := max (db_next_wal_txn db) (rp_largest st + 1)\<rparr> in
      if \<not> rp_recovered st then (None, db1, e1) else
      case SaveTables (db_path db1) (db_tables db1) e1 of
        (Some err, e2) \<Rightarrow> (Some err, db1, e2)
      | (None, e2) \<Rightarrow> (None, db1\<lparr>db_generation := db_generation db1 + 1\<rparr>, e2))"

section \<open>Open, Checkpoint, Close\<close>

definition db_Close :: "Database \<Rightarrow> env \<Rightarrow> status \<times> Database \<times> env" where
  "db_Close db e =
     (if db_closed db then (None, db, e) else
      case SaveTables (db_path db) (db_tables db) e of (status, e1) \<Rightarrow>
      case lm_Close (db_wal db) e1 of (_, wal, e2) \<Rightarrow>
        (status, db\<lparr>db_wal := wal, db_closed := True\<rparr>, e2))"

text \<open>\<^verbatim>\<open>~Database\<close>: a database object that is dropped is closed first.\<close>

definition db_drop :: "Database \<Rightarrow> env \<Rightarrow> env" where
  "db_drop db e = snd (snd (db_Close db e))"

text \<open>
  Every error return after the object is made runs its destructor, which saves whatever the
  object's tables are at that point.
\<close>

definition db_Open_load :: "Database \<Rightarrow> env \<Rightarrow> status \<times> Database \<times> env" where
  "db_Open_load db e =
     (case LoadTables (db_path db) e of
        (Inr tables, e1) \<Rightarrow> (None, db\<lparr>db_tables := tables\<rparr>, e1)
      | (Inl err, e1) \<Rightarrow>
          if pl_code err = kNotFound \<and> create_if_missing (db_options db) then
            (case SaveTables (db_path db) (db_tables db) e1 of (status, e2) \<Rightarrow> (status, db, e2))
          else (Some err, db, e1))"

definition db_Open :: "string \<Rightarrow> Options \<Rightarrow> env \<Rightarrow> Database status_or \<times> env" where
  "db_Open path options e =
     (if path = [] then (Inl (InvalidArgument ''database path is empty''), e) else
      case db_Open_load (new_Database path options) e of
        (Some err, db, e1) \<Rightarrow> (Inl err, db_drop db e1)
      | (None, db, e1) \<Rightarrow>
      case lm_Open (db_wal db) (path @ ''.wal'') e1 of
        (Some err, wal, e2) \<Rightarrow> (Inl err, db_drop (db\<lparr>db_wal := wal\<rparr>) e2)
      | (None, wal, e2) \<Rightarrow>
      case RecoverCommittedTables (db\<lparr>db_wal := wal\<rparr>) e2 of
        (Some err, db2, e3) \<Rightarrow> (Inl err, db_drop db2 e3)
      | (None, db2, e3) \<Rightarrow> (Inr db2, e3))"

definition db_Checkpoint :: "Database \<Rightarrow> env \<Rightarrow> status \<times> Database \<times> env" where
  "db_Checkpoint db e =
     (if db_closed db then (Some (InvalidArgument ''database is closed''), db, e) else
      case SaveTables (db_path db) (db_tables db) e of
        (Some err, e1) \<Rightarrow> (Some err, db, e1)
      | (None, e1) \<Rightarrow>
      case lm_Truncate (db_wal db) e1 of (status, wal, e2) \<Rightarrow> (status, db\<lparr>db_wal := wal\<rparr>, e2))"

section \<open>Saving and loading\<close>

definition saved :: "string \<Rightarrow> Tables \<Rightarrow> env \<Rightarrow> env" where
  "saved path tables e =
     e\<lparr>fs := (fs e)(path @ ''.tmp'' := None, path \<mapsto> SerializeTables tables)\<rparr>"

lemma SaveTables_faultless: "tape e = [] \<Longrightarrow> SaveTables path ts e = (None, saved path ts e)"
  by (simp add: SaveTables_def Let_def io_defs stream_close_def saved_def fun_upd_twist)

lemma SaveTables_other:
  assumes "SaveTables path ts e = (st, e')" "q \<noteq> path" "q \<noteq> path @ ''.tmp''"
  shows "fs e' q = fs e q"
  using assms
  by (auto simp: SaveTables_def Let_def split: prod.splits if_splits
      dest!: io_other [where path' = q])

text \<open>
  \<^verbatim>\<open>SaveTables\<close> does not look at the outcome of the flush of the temporary file. Unless that flush
  fails, the data file afterwards is the new one, and the call has succeeded, or it is what it was or
  gone, and the call has failed.
\<close>

definition flush_fails :: "string \<Rightarrow> Tables \<Rightarrow> env \<Rightarrow> bool" where
  "flush_fails path tables e =
     (case open_trunc (path @ ''.tmp'') e of (_, e1) \<Rightarrow>
      case stream_write (path @ ''.tmp'') [] (SerializeTables tables) e1 of (_, pending, e2) \<Rightarrow>
        \<not> fst (stream_flush (path @ ''.tmp'') pending e2))"

lemma rename_file_cases:
  "rename_file src dst e = (ok, e') \<Longrightarrow> fs e src = Some bs \<Longrightarrow> src \<noteq> dst \<Longrightarrow>
   if ok then fs e' dst = Some bs else fs e' = fs e"
  by (auto simp: rename_file_def split: prod.splits if_splits option.splits dest: io_try_fs)

lemma remove_file_cases: "remove_file path e = (ok, e') \<Longrightarrow> fs e' \<in> {fs e, (fs e)(path := None)}"
  by (auto simp: remove_file_def split: prod.splits if_splits dest: io_try_fs)

lemma SaveTables_outcome:
  assumes "SaveTables path ts e = (st, e')" "\<not> flush_fails path ts e"
  shows "(st = None \<and> fs e' path = Some (SerializeTables ts)) \<or> (st \<noteq> None \<and> fs e' path \<in> {fs e path, None})"
proof -
  let ?t = "path @ ''.tmp''"
  obtain ok1 e1 where o: "open_trunc ?t e = (ok1, e1)" by fastforce
  obtain ok2 pending e2 where w: "stream_write ?t [] (SerializeTables ts) e1 = (ok2, pending, e2)" by (metis prod_cases3)
  obtain ok3 pending2 e3 where f: "stream_flush ?t pending e2 = (ok3, pending2, e3)" by (metis prod_cases3)
  have other: "fs e1 path = fs e path" "fs e2 path = fs e path" "fs e3 path = fs e path"
    using open_trunc_other [OF o, of path] stream_write_other [OF w, of path] stream_flush_other [OF f, of path] by simp_all
  have ok3 using assms(2) o w f by (simp add: flush_fails_def)
  show ?thesis
  proof (cases "ok1 \<and> ok2")
    case False
    with assms(1) o w other show ?thesis by (auto simp: SaveTables_def Let_def split: if_splits)
  next
    case True
    have "contents e1 ?t = []" using o True by (auto simp: open_trunc_def split: prod.splits if_splits)
    then have "contents e2 ?t @ pending = SerializeTables ts" using stream_write_ok [of ?t "[]"] w True by fastforce
    then have "pending2 = []" "contents e3 ?t = SerializeTables ts"
      using stream_flush_ok [of ?t pending e2 pending2 e3] f \<open>ok3\<close> by simp_all
    moreover have "fs (stream_close ?t [] e3) ?t = Some (contents e3 ?t)"
      by (auto simp: stream_close_def stream_flush_def contents_next_io split: prod.split io_outcome.split)
    ultimately have t: "fs (stream_close ?t pending2 e3) ?t = Some (SerializeTables ts)"
      "fs (stream_close ?t pending2 e3) path = fs e path"
      using other(3) by simp_all
    let ?e4 = "stream_close ?t pending2 e3"
    obtain r5 e5 where r5: "rename_file ?t path ?e4 = (r5, e5)" by fastforce
    obtain r6 e6 where r6: "remove_file path e5 = (r6, e6)" by fastforce
    obtain r7 e7 where r7: "rename_file ?t path e6 = (r7, e7)" by fastforce
    have save: "SaveTables path ts e =
      (if r5 then (None, e5) else if r7 then (None, e7)
       else (Some (IoError (''cannot replace database file: '' @ errtext e7)), e7))"
      using o w f True r5 r6 r7 by (simp add: SaveTables_def Let_def)
    note c5 = rename_file_cases [OF r5 t(1)]
    show ?thesis
    proof (cases r5)
      case True
      then show ?thesis using save c5 assms(1) by simp
    next
      case False
      then have e5: "fs e5 = fs ?e4" using c5 by simp
      then have e6: "fs e6 ?t = Some (SerializeTables ts)" "fs e6 path \<in> {fs e path, None}"
        using remove_file_cases [OF r6] t by auto
      then show ?thesis using save False rename_file_cases [OF r7 e6(1)] assms(1) by (cases r7) simp_all
    qed
  qed
qed

section \<open>Replay\<close>

lemma replay_log_append:
  "replay_log (rs @ ss) st =
   (case replay_log rs st of (Some err, st') \<Rightarrow> (Some err, st') | (None, st') \<Rightarrow> replay_log ss st')"
  by (induction rs arbitrary: st) (simp_all split: prod.splits option.splits)

lemma replay_record_ok: "om_ok (rp_snapshots st) \<Longrightarrow> om_ok (rp_snapshots (snd (replay_record r st)))"
  by (auto simp: replay_record_def Let_def split: option.splits sum.splits)

lemma replay_log_ok: "om_ok (rp_snapshots st) \<Longrightarrow> om_ok (rp_snapshots (snd (replay_log rs st)))"
proof (induction rs arbitrary: st)
  case (Cons r rs)
  then show ?case using replay_record_ok [of st r] by (auto split: prod.splits option.splits)
qed simp

lemma replay_tables_ok:
  "replay_log rs st = (None, st') \<Longrightarrow> tables_ok (rp_tables st) \<Longrightarrow> tables_ok (rp_tables st')"
proof (induction rs arbitrary: st)
  case (Cons r rs)
  then show ?case
    by (fastforce simp: replay_record_def Let_def dest: LoadTablesBytes_ok
        split: option.splits sum.splits if_splits)
qed simp

definition snapshot_payload :: "Tables \<Rightarrow> bytes" where
  "snapshot_payload ts = kSnapshotPrefix @ SerializeTables ts"

text \<open>The three records a commit appends.\<close>

definition commit_records :: "u64 \<Rightarrow> u64 \<Rightarrow> Tables \<Rightarrow> LogRecord list" where
  "commit_records txn lsn ts =
     [\<lparr>lr_lsn = lsn, lr_txn_id = txn, lr_prev_lsn = kInvalidLsn, lr_type = kBegin, lr_payload = []\<rparr>,
      \<lparr>lr_lsn = lsn + 1, lr_txn_id = txn, lr_prev_lsn = lsn, lr_type = kUpdate,
       lr_payload = snapshot_payload ts\<rparr>,
      \<lparr>lr_lsn = lsn + 1 + 1, lr_txn_id = txn, lr_prev_lsn = lsn + 1, lr_type = kCommit, lr_payload = []\<rparr>]"

text \<open>Snapshots the log can carry.\<close>

definition snapshot_fits :: "Tables \<Rightarrow> bool" where
  "snapshot_fits ts \<longleftrightarrow> tables_fit ts \<and> length (snapshot_payload ts) \<le> max_length - 25"

lemma commit_records_fit: "snapshot_fits ts \<Longrightarrow> list_all record_fits (commit_records txn lsn ts)"
  by (simp add: commit_records_def snapshot_fits_def record_fits_def max_length_def)

lemmas record_types = kBegin_def kUpdate_def kCommit_def

lemma starts_with_snapshot: "starts_with (snapshot_payload ts) kSnapshotPrefix"
  "drop (length kSnapshotPrefix) (snapshot_payload ts) = SerializeTables ts"
  by (simp_all add: starts_with_def snapshot_payload_def)

lemma replay_commit:
  assumes "om_ok (rp_snapshots st)" "tables_fit ts"
  shows "\<exists>st'. replay_log (commit_records txn lsn ts) st = (None, st') \<and>
    rp_tables st' = ts \<and> rp_recovered st'"
  using assms LoadTablesBytes_append [of ts "[]"]
  by (simp add: commit_records_def replay_record_def record_types starts_with_snapshot om_find_put)

text \<open>Without its commit record a transaction leaves the tables alone.\<close>

lemma replay_uncommitted:
  assumes "k < 3"
  shows "\<exists>st'. replay_log (take k (commit_records txn lsn ts)) st = (None, st') \<and>
    rp_tables st' = rp_tables st \<and> rp_recovered st' = rp_recovered st"
proof -
  have "k = 0 \<or> k = 1 \<or> k = 2" using assms by auto
  then show ?thesis
    by (auto simp: commit_records_def replay_record_def record_types starts_with_snapshot)
qed

section \<open>What reopening finds\<close>

abbreviation wal_path :: "string \<Rightarrow> string" where
  "wal_path path \<equiv> path @ ''.wal''"

text \<open>The abstract account of recovery, from the data file and the log alone.\<close>

definition data_tables :: "Options \<Rightarrow> bytes option \<Rightarrow> Tables status_or" where
  "data_tables options data =
     (case data of
        None \<Rightarrow> if create_if_missing options then Inr [] else Inl (NotFound ''database file does not exist'')
      | Some bs \<Rightarrow> LoadTablesBytes bs)"

definition recovered_tables :: "Options \<Rightarrow> bytes option \<Rightarrow> LogRecord list \<Rightarrow> Tables status_or" where
  "recovered_tables options data records =
     (case data_tables options data of
        Inl err \<Rightarrow> Inl err
      | Inr tables \<Rightarrow>
          (case replay_log records (replay_start tables) of
             (Some err, _) \<Rightarrow> Inl err
           | (None, st) \<Rightarrow> Inr (rp_tables st)))"

definition opened_tables :: "Database status_or \<Rightarrow> Tables status_or" where
  "opened_tables res = (case res of Inl err \<Rightarrow> Inl err | Inr db \<Rightarrow> Inr (db_tables db))"

lemma tape_saved [simp]: "tape (saved path ts e) = tape e"
  by (simp add: saved_def)

lemma saved_other [simp]:
  "q \<noteq> path \<Longrightarrow> q \<noteq> path @ ''.tmp'' \<Longrightarrow> contents (saved path ts e) q = contents e q"
  by (simp add: saved_def contents_def)

lemma db_Open_load_faultless:
  assumes "tape e = []"
  shows "db_Open_load (new_Database path opts) e =
    (case data_tables opts (fs e path) of
       Inl err \<Rightarrow> (Some err, new_Database path opts, e)
     | Inr ts \<Rightarrow> (None, (new_Database path opts)\<lparr>db_tables := ts\<rparr>,
         if fs e path = None then saved path [] e else e))"
  using assms LoadTablesBytes_error
  by (auto simp: db_Open_load_def LoadTables_def open_read_def contents_def new_Database_def
      data_tables_def SaveTables_faultless error_defs split: option.splits sum.splits) fastforce+

lemma lm_ReadAll_faultless:
  "tape e = [] \<Longrightarrow> lm_path lm \<noteq> [] \<Longrightarrow> fs e (lm_path lm) = Some bs \<Longrightarrow>
   lm_ReadAll lm e = (Inr (ReadRecords bs), e)"
  by (simp add: lm_ReadAll_def ReadRecords_file_def open_read_def contents_def)

text \<open>A database that is ready to run statements, over a log of the records \<open>rs\<close>.\<close>

definition db_ready :: "Database \<Rightarrow> env \<Rightarrow> LogRecord list \<Rightarrow> bool" where
  "db_ready db e rs \<longleftrightarrow>
     \<not> db_closed db \<and> db_path db \<noteq> [] \<and> lm_path (db_wal db) = wal_path (db_path db) \<and>
     lm_holds (db_wal db) e rs \<and> lm_pending (db_wal db) = []"

lemma Recover_faultless:
  assumes "tape e = []" "lm_path (db_wal db) \<noteq> []" "list_all record_fits rs"
    and "fs e (lm_path (db_wal db)) = Some (encode_log rs)"
  shows "RecoverCommittedTables db e =
    (case replay_log rs (replay_start (db_tables db)) of
       (Some err, st) \<Rightarrow> (Some err, db\<lparr>db_tables := rp_tables st\<rparr>, e)
     | (None, st) \<Rightarrow>
         (None, db\<lparr>db_tables := rp_tables st,
             db_next_wal_txn := max (db_next_wal_txn db) (rp_largest st + 1),
             db_generation := db_generation db + (if rp_recovered st then 1 else 0)\<rparr>,
          if rp_recovered st then saved (db_path db) (rp_tables st) e else e))"
  using assms lm_ReadAll_faultless [OF assms(1,2,4)]
  by (auto simp: RecoverCommittedTables_def ReadRecords_encode_log SaveTables_faultless Let_def
      split: prod.splits option.splits)

text \<open>The environment and the database right before replay.\<close>

lemma db_Open_unfold:
  assumes "tape e = []" "path \<noteq> []" and rs: "rs = ReadRecords (contents e (wal_path path))"
    and ts: "data_tables opts (fs e path) = Inr ts"
  obtains e1 where "tape e1 = []" "fs e1 (wal_path path) = Some (encode_log rs)"
    "db_Open path opts e =
      (case RecoverCommittedTables ((new_Database path opts)\<lparr>db_tables := ts,
          db_wal := opened_log new_LogManager (wal_path path) rs\<rparr>) e1 of
        (Some err, db2, e3) \<Rightarrow> (Inl err, db_drop db2 e3)
      | (None, db2, e3) \<Rightarrow> (Inr db2, e3))"
proof -
  let ?e1 = "if fs e path = None then saved path [] e else e"
  have e1: "tape ?e1 = []" "rs = ReadRecords (contents ?e1 (wal_path path))"
    using assms(1) rs by simp_all
  have "\<not> lm_open new_LogManager" "db_wal (new_Database path opts) = new_LogManager"
    by (simp_all add: new_LogManager_def new_Database_def)
  note wal = lm_Open_faultless [OF e1(1) this(1) e1(2)] and new = this(2)
  show thesis
  proof (rule that [of "put_file (wal_path path) (encode_log rs) ?e1"])
    show "db_Open path opts e =
      (case RecoverCommittedTables ((new_Database path opts)\<lparr>db_tables := ts,
          db_wal := opened_log new_LogManager (wal_path path) rs\<rparr>)
          (put_file (wal_path path) (encode_log rs) ?e1) of
        (Some err, db2, e3) \<Rightarrow> (Inl err, db_drop db2 e3)
      | (None, db2, e3) \<Rightarrow> (Inr db2, e3))"
      unfolding db_Open_def db_Open_load_faultless [OF assms(1)] ts
      using assms(2) wal new by simp
  qed (use e1 in simp_all)
qed

lemma db_Open_load_error:
  assumes "tape e = []" "path \<noteq> []" "data_tables opts (fs e path) = Inl err"
  shows "db_Open path opts e = (Inl err, saved path [] e)"
proof -
  have "db_drop (new_Database path opts) e = saved path [] e"
    using assms(1) by (simp add: db_drop_def db_Close_def new_Database_def
        SaveTables_faultless lm_Close_def new_LogManager_def)
  with assms show ?thesis by (simp add: db_Open_def db_Open_load_faultless)
qed

lemma db_Open_faultless:
  assumes "tape e = []" "path \<noteq> []" and rs: "rs = ReadRecords (contents e (wal_path path))"
  shows "opened_tables (fst (db_Open path opts e)) = recovered_tables opts (fs e path) rs"
    and "db_Open path opts e = (Inr db, e') \<Longrightarrow> db_ready db e' rs"
proof -
  have fits: "list_all record_fits rs" using rs ReadRecords_split by metis
  have both: "opened_tables (fst (db_Open path opts e)) = recovered_tables opts (fs e path) rs \<and>
    (\<forall>db e'. db_Open path opts e = (Inr db, e') \<longrightarrow> db_ready db e' rs)"
  proof (cases "data_tables opts (fs e path)")
    case (Inl err)
    with db_Open_load_error [OF assms(1,2) Inl] show ?thesis
      by (simp add: opened_tables_def recovered_tables_def)
  next
    case (Inr ts)
    from db_Open_unfold [OF assms Inr] obtain e1 where e1: "tape e1 = []"
      "fs e1 (wal_path path) = Some (encode_log rs)"
      "db_Open path opts e =
        (case RecoverCommittedTables ((new_Database path opts)\<lparr>db_tables := ts,
            db_wal := opened_log new_LogManager (wal_path path) rs\<rparr>) e1 of
          (Some err, db2, e3) \<Rightarrow> (Inl err, db_drop db2 e3)
        | (None, db2, e3) \<Rightarrow> (Inr db2, e3))" .
    have "fs (saved path ts' e1) (wal_path path) = Some (encode_log rs)" for ts'
      using e1(2) by (simp add: saved_def)
    then show ?thesis
      unfolding e1(3) using assms(2) e1 fits Inr
      by (subst (1 2) Recover_faultless)
        (auto simp: opened_log_def opened_tables_def recovered_tables_def new_Database_def
          db_ready_def lm_holds_def log_image_def contents_def
          split: prod.splits option.splits if_splits)
  qed
  from both show "opened_tables (fst (db_Open path opts e)) = recovered_tables opts (fs e path) rs"
    by blast
  from both show "db_Open path opts e = (Inr db, e') \<Longrightarrow> db_ready db e' rs" by blast
qed

section \<open>The commit protocol\<close>

lemma prefix_append_take: "prefix (xs @ take n ys) (xs @ ys)"
  by (simp add: take_is_prefix)

lemma prefix_take_ex: "prefix xs ys \<Longrightarrow> \<exists>n. xs = take n ys"
  by (metis append_eq_conv_conj prefix_def)

lemma lm_Append_grows:
  assumes "lm_Append lm txn prev ty p e = (res, lm', e')" "lm_holds lm e rs"
  shows "prefix (contents e (lm_path lm)) (contents e' (lm_path lm))"
    "prefix (contents e' (lm_path lm)) (encode_log (rs @ [\<lparr>lr_lsn = lm_next_lsn lm, lr_txn_id = txn,
      lr_prev_lsn = prev, lr_type = ty, lr_payload = p\<rparr>]))"
proof -
  let ?r = "\<lparr>lr_lsn = lm_next_lsn lm, lr_txn_id = txn, lr_prev_lsn = prev, lr_type = ty, lr_payload = p\<rparr>"
  obtain n where n: "contents e' (lm_path lm) =
      contents e (lm_path lm) @ take n (lm_pending lm @ encode_record ?r)"
    using lm_Append_prefix [OF assms(1)] by blast
  then show "prefix (contents e (lm_path lm)) (contents e' (lm_path lm))" by simp
  have "encode_log (rs @ [?r]) = contents e (lm_path lm) @ lm_pending lm @ encode_record ?r"
    using assms(2) by (simp add: lm_holds_def log_image_def)
  then show "prefix (contents e' (lm_path lm)) (encode_log (rs @ [?r]))"
    unfolding n using prefix_append_take by metis
qed

lemma lm_Flush_grows:
  assumes "lm_Flush lm through e = (st, lm', e')" "lm_holds lm e rs"
  shows "prefix (contents e (lm_path lm)) (contents e' (lm_path lm))"
    "prefix (contents e' (lm_path lm)) (encode_log rs)"
  using lm_Flush_prefix [OF assms(1)] assms(2)
  by (auto simp: lm_holds_def log_image_def take_is_prefix dest!: sym [where t = "encode_log rs"])

lemma encode_log_prefix: "prefix (encode_log rs) (encode_log (rs @ ss))"
  by simp

text \<open>
  How far a commit has come: the log under \<open>p\<close> holds \<open>rs\<close> (in the file or the buffer), the file
  has kept what it held before, and the data file \<open>q\<close> still is what it was.
\<close>

definition committing :: "string \<Rightarrow> bytes \<Rightarrow> string \<Rightarrow> bytes option \<Rightarrow> LogManager \<Rightarrow> env \<Rightarrow> LogRecord list \<Rightarrow> bool" where
  "committing p base q data lm e rs \<longleftrightarrow>
     lm_path lm = p \<and> lm_holds lm e rs \<and> prefix base (contents e p) \<and> fs e q = data"

definition stopped :: "string \<Rightarrow> bytes \<Rightarrow> string \<Rightarrow> bytes option \<Rightarrow> env \<Rightarrow> LogRecord list \<Rightarrow> bool" where
  "stopped p base q data e rs \<longleftrightarrow>
     prefix base (contents e p) \<and> prefix (contents e p) (encode_log rs) \<and> fs e q = data"

lemma stopped_more: "stopped p base q data e rs \<Longrightarrow> stopped p base q data e (rs @ ss)"
  by (auto simp: stopped_def intro: prefix_order.trans encode_log_prefix)

lemma committing_Append:
  assumes "lm_Append lm txn prev ty pl e = (res, lm', e')" "committing p base q data lm e rs" "q \<noteq> p"
  defines "rs' \<equiv> rs @ [\<lparr>lr_lsn = lm_next_lsn lm, lr_txn_id = txn, lr_prev_lsn = prev,
    lr_type = ty, lr_payload = pl\<rparr>]"
  shows "case res of Inl err \<Rightarrow> stopped p base q data e' rs'
    | Inr lsn \<Rightarrow> lsn = lm_next_lsn lm \<and> lm_next_lsn lm' = lsn + 1 \<and> committing p base q data lm' e' rs'"
proof -
  have h: "lm_path lm = p" "lm_holds lm e rs" "prefix base (contents e p)" "fs e q = data"
    using assms(2) by (simp_all add: committing_def)
  have "prefix base (contents e' p)" "prefix (contents e' p) (encode_log rs')" "fs e' q = data"
    using lm_Append_grows [OF assms(1) h(2)] lm_Append_other [OF assms(1)] h assms(3)
    by (auto simp: rs'_def intro: prefix_order.trans)
  then show ?thesis
    using lm_Append_ok [OF _ h(2)] assms(1) h(1)
    by (auto simp: stopped_def committing_def rs'_def split: sum.splits)
qed

lemma committing_Flush:
  assumes "lm_Flush lm through e = (st, lm', e')" "committing p base q data lm e rs" "q \<noteq> p"
  shows "case st of Some err \<Rightarrow> stopped p base q data e' rs
    | None \<Rightarrow> lm_path lm' = p \<and> contents e' p = encode_log rs \<and> lm_pending lm' = [] \<and> lm_holds lm' e' rs"
proof -
  have h: "lm_path lm = p" "lm_holds lm e rs" "prefix base (contents e p)" "fs e q = data"
    using assms(2) by (simp_all add: committing_def)
  have "prefix base (contents e' p)" "prefix (contents e' p) (encode_log rs)" "fs e' q = data"
    using lm_Flush_grows [OF assms(1) h(2)] lm_Flush_other [OF assms(1)] h assms(3)
    by (auto intro: prefix_order.trans)
  then show ?thesis
    using lm_Flush_ok [OF _ h(2)] assms(1) h(1)
    by (auto simp: stopped_def split: option.splits)
qed

lemma committing_transaction:
  assumes "append_transaction lm txn (snapshot_payload ts) e = (res, lm', e')"
    and "committing p base q data lm e rs" "q \<noteq> p"
    and log: "log = rs @ commit_records txn (lm_next_lsn lm) ts"
  shows "case res of Inl err \<Rightarrow> stopped p base q data e' log | Inr lsn \<Rightarrow> committing p base q data lm' e' log"
proof -
  let ?r1 = "commit_records txn (lm_next_lsn lm) ts ! 0" and ?r2 = "commit_records txn (lm_next_lsn lm) ts ! 1"
  obtain res1 wal1 e1 where a1: "lm_Append lm txn kInvalidLsn kBegin [] e = (res1, wal1, e1)"
    by (metis prod_cases3)
  note s1 = committing_Append [OF a1 assms(2,3)]
  show ?thesis
  proof (cases res1)
    case (Inl err)
    then show ?thesis
      using assms(1) a1 s1 stopped_more [of p base q data e' "rs @ [?r1]" "tl (commit_records txn (lm_next_lsn lm) ts)"]
      by (auto simp: append_transaction_def log commit_records_def)
  next
    case (Inr lsn1)
    then have C1: "committing p base q data wal1 e1 (rs @ [?r1])" "lsn1 = lm_next_lsn lm"
      "lm_next_lsn wal1 = lm_next_lsn lm + 1" using s1 by (simp_all add: commit_records_def)
    obtain res2 wal2 e2 where a2: "lm_Append wal1 txn lsn1 kUpdate (snapshot_payload ts) e1 = (res2, wal2, e2)"
      by (metis prod_cases3)
    note s2 = committing_Append [OF a2 C1(1) assms(3)]
    show ?thesis
    proof (cases res2)
      case Inl2: (Inl err)
      then show ?thesis
        using assms(1) a1 a2 s2 Inr C1 stopped_more [of p base q data e' "rs @ [?r1, ?r2]"
            "tl (tl (commit_records txn (lm_next_lsn lm) ts))"]
        by (auto simp: append_transaction_def log commit_records_def)
    next
      case Inr2: (Inr lsn2)
      with s2 C1 have C2: "committing p base q data wal2 e2 (rs @ [?r1, ?r2])" "lsn2 = lm_next_lsn lm + 1"
        "lm_next_lsn wal2 = lm_next_lsn lm + 1 + 1" by (simp_all add: commit_records_def)
      have "lm_Append wal2 txn lsn2 kCommit [] e2 = (res, lm', e')"
        using assms(1) a1 a2 Inr Inr2 by (simp add: append_transaction_def)
      from committing_Append [OF this C2(1) assms(3)] show ?thesis
        using C2 by (simp add: log commit_records_def split: sum.splits)
    qed
  qed
qed

text \<open>Where \<^verbatim>\<open>PersistCommittedTables\<close> calls \<^verbatim>\<open>SaveTables\<close>.\<close>

definition save_env :: "Database \<Rightarrow> Tables \<Rightarrow> env \<Rightarrow> env" where
  "save_env db ts e =
     (case append_transaction (db_wal db) (db_next_wal_txn db) (snapshot_payload ts) e of
        (Inl err, wal, e1) \<Rightarrow> e1
      | (Inr lsn, wal, e1) \<Rightarrow> snd (snd (lm_Flush wal lsn e1)))"

text \<open>
  A run of the commit protocol with any outcomes: either the log holds the whole
  transaction, and the data file is whole unless the flush of its replacement failed, or the data
  file is as before, the log is torn within the transaction and the commit is refused.
\<close>

lemma Persist_cases:
  assumes run: "PersistCommittedTables db ts e = (st, db', e')"
    and ready: "db_ready db e rs" and sync: "sync_on_commit (db_options db)"
    and log: "log = rs @ commit_records (db_next_wal_txn db) (lm_next_lsn (db_wal db)) ts"
  shows "contents e' (wal_path (db_path db)) = encode_log log \<and> db_ready db' e' log \<and>
      (flush_fails (db_path db) ts (save_env db ts e) \<or> st = None \<and> fs e' (db_path db) = Some (SerializeTables ts) \<or>
       st \<noteq> None \<and> fs e' (db_path db) \<in> {fs e (db_path db), None}) \<or>
    st \<noteq> None \<and> stopped (wal_path (db_path db)) (encode_log rs) (db_path db) (fs e (db_path db)) e' log"
proof -
  let ?p = "wal_path (db_path db)" and ?q = "db_path db" and ?txn = "db_next_wal_txn db"
  have "?q \<noteq> ?p" by simp
  have C0: "committing ?p (encode_log rs) ?q (fs e ?q) (db_wal db) e rs"
    using ready by (auto simp: db_ready_def committing_def lm_holds_def log_image_def)
  obtain res wal3 e3 where a: "append_transaction (db_wal db) ?txn (snapshot_payload ts) e = (res, wal3, e3)"
    by (metis prod_cases3)
  note s = committing_transaction [OF a C0 \<open>?q \<noteq> ?p\<close> log]
  show ?thesis
  proof (cases res)
    case (Inl err)
    then show ?thesis using run a s by (auto simp: PersistCommittedTables_def snapshot_payload_def)
  next
    case (Inr lsn)
    obtain st4 wal4 e4 where f: "lm_Flush wal3 lsn e3 = (st4, wal4, e4)" by (metis prod_cases3)
    have s4: "case st4 of Some err \<Rightarrow> stopped ?p (encode_log rs) ?q (fs e ?q) e4 log
      | None \<Rightarrow> lm_path wal4 = ?p \<and> contents e4 ?p = encode_log log \<and> lm_pending wal4 = [] \<and> lm_holds wal4 e4 log"
      using committing_Flush [OF f _ \<open>?q \<noteq> ?p\<close>] s Inr by simp
    show ?thesis
    proof (cases st4)
      case None
      obtain st5 e5 where sv: "SaveTables ?q ts e4 = (st5, e5)" by fastforce
      have "e' = e5" "db' = db\<lparr>db_next_wal_txn := ?txn + 1, db_wal := wal4\<rparr>" "st = st5"
        using run a f sv Inr None sync by (auto simp: PersistCommittedTables_def snapshot_payload_def)
      moreover have "save_env db ts e = e4" using a f Inr by (simp add: save_env_def)
      moreover have "fs e4 ?q = fs e ?q"
        using lm_Flush_other [OF f, of ?q] s Inr by (simp add: committing_def)
      moreover have "flush_fails ?q ts e4 \<or> st5 = None \<and> fs e5 ?q = Some (SerializeTables ts) \<or>
          st5 \<noteq> None \<and> fs e5 ?q \<in> {fs e4 ?q, None}"
        using SaveTables_outcome [OF sv] by blast
      moreover have "contents e5 ?p = contents e4 ?p"
        using SaveTables_other [OF sv, of ?p] by (simp add: contents_def)
      ultimately show ?thesis
        using s4 None ready by (auto simp: db_ready_def lm_holds_def log_image_def)
    next
      case (Some err)
      then show ?thesis
        using run a f s4 Inr sync by (auto simp: PersistCommittedTables_def snapshot_payload_def)
    qed
  qed
qed

text \<open>A torn transaction reads as its first records, without the last.\<close>

lemma whole_commit_records:
  "n < valid_bytes (commit_records txn lsn ts) \<Longrightarrow>
   \<exists>k < 3. whole_records n (commit_records txn lsn ts) = take k (commit_records txn lsn ts)"
  by (auto simp: commit_records_def valid_bytes_def intro: exI [where x = 0] exI [where x = 1] exI [where x = 2])

lemma ReadRecords_stopped:
  assumes "stopped p (encode_log rs) q data e (rs @ commit_records txn lsn ts)"
    and "list_all record_fits rs" "snapshot_fits ts"
  shows "\<exists>k \<le> 3. ReadRecords (contents e p) = rs @ take k (commit_records txn lsn ts)"
proof -
  let ?cs = "commit_records txn lsn ts"
  obtain n where n: "contents e p = take n (encode_log (rs @ ?cs))"
    using assms(1) prefix_take_ex by (auto simp: stopped_def simp del: encode_log_simps)
  have "valid_bytes rs \<le> n \<or> contents e p = encode_log rs"
  proof (cases "valid_bytes rs \<le> n")
    case False
    then have "contents e p = take n (encode_log rs)" using n by (simp add: length_encode_log)
    moreover have "prefix (encode_log rs) (contents e p)" using assms(1) by (simp add: stopped_def)
    ultimately show ?thesis by (metis prefix_order.antisym take_is_prefix)
  qed simp
  then have "\<exists>m. ReadRecords (contents e p) = rs @ whole_records m ?cs"
  proof
    assume "valid_bytes rs \<le> n"
    then show ?thesis
      using assms(2) commit_records_fit [OF assms(3)] unfolding n
      by (subst ReadRecords_take) (auto simp: whole_records_append)
  next
    assume "contents e p = encode_log rs"
    then have "ReadRecords (contents e p) = rs @ whole_records 0 ?cs"
      using assms(2) by (simp add: ReadRecords_encode_log commit_records_def)
    then show ?thesis by blast
  qed
  then obtain m where m: "ReadRecords (contents e p) = rs @ whole_records m ?cs" by blast
  show ?thesis
  proof (cases "m < valid_bytes ?cs")
    case True
    then show ?thesis using whole_commit_records [OF True] m by (metis less_imp_le)
  next
    case False
    then have "whole_records m ?cs = take 3 ?cs"
      using whole_records_all [of ?cs m] by (simp add: commit_records_def)
    then show ?thesis using m by auto
  qed
qed

text \<open>
  The tables replay starts from do not change which log records it accepts, and once it has
  met a committed snapshot they are forgotten.
\<close>

definition same_replay :: "replay \<Rightarrow> replay \<Rightarrow> bool" where
  "same_replay st st' \<longleftrightarrow>
     st' = st\<lparr>rp_tables := rp_tables st'\<rparr> \<and> (rp_recovered st \<longrightarrow> rp_tables st' = rp_tables st)"

lemma replay_record_same:
  "same_replay st st' \<Longrightarrow>
   fst (replay_record r st') = fst (replay_record r st) \<and> same_replay (snd (replay_record r st)) (snd (replay_record r st'))"
  by (cases st; cases st') (auto simp: same_replay_def replay_record_def Let_def split: option.splits sum.splits)

lemma replay_log_same:
  "same_replay st st' \<Longrightarrow>
   fst (replay_log rs st') = fst (replay_log rs st) \<and> same_replay (snd (replay_log rs st)) (snd (replay_log rs st'))"
proof (induction rs arbitrary: st st')
  case (Cons r rs)
  obtain x y where 1: "replay_record r st = (x, y)" by fastforce
  obtain y' where 2: "replay_record r st' = (x, y')" and "same_replay y y'"
    using replay_record_same [OF Cons.prems, of r] 1 by (metis fst_conv prod.collapse snd_conv)
  with Cons.IH [of y y'] 1 show ?case by (cases x) simp_all
qed simp

lemma replay_start_same: "same_replay (replay_start t) (replay_start t')"
  by (simp add: same_replay_def replay_start_def)

lemma replay_record_unrecovered:
  "\<not> rp_recovered (snd (replay_record r st)) \<Longrightarrow> \<not> rp_recovered st \<and> rp_tables (snd (replay_record r st)) = rp_tables st"
  by (auto simp: replay_record_def Let_def split: option.splits sum.splits if_splits)

lemma replay_log_unrecovered:
  "\<not> rp_recovered (snd (replay_log rs st)) \<Longrightarrow> \<not> rp_recovered st \<and> rp_tables (snd (replay_log rs st)) = rp_tables st"
proof (induction rs arbitrary: st)
  case (Cons r rs)
  obtain x y where r: "replay_record r st = (x, y)" by fastforce
  show ?case
  proof (cases x)
    case None
    with Cons r replay_record_unrecovered [of r st] show ?thesis by simp
  next
    case (Some err)
    with Cons.prems r replay_record_unrecovered [of r st] show ?thesis by simp
  qed
qed simp

text \<open>Whether the log holds a committed snapshot, which decides then.\<close>

definition log_recovers :: "LogRecord list \<Rightarrow> bool" where
  "log_recovers rs \<longleftrightarrow> rp_recovered (snd (replay_log rs (replay_start [])))"

lemma recovered_tables_log:
  assumes "recovered_tables opts data rs = Inr old" "data_tables opts data' = Inr t"
  shows "recovered_tables opts data' rs = (if log_recovers rs then Inr old else Inr t)"
proof -
  obtain t0 st0 where 0: "replay_log rs (replay_start t0) = (None, st0)" "rp_tables st0 = old"
    using assms(1) by (auto simp: recovered_tables_def split: sum.splits prod.splits option.splits)
  obtain st where 1: "replay_log rs (replay_start t) = (None, st)" "same_replay st0 st"
    using replay_log_same [OF replay_start_same, of rs t t0] 0 by (metis fst_conv prod.collapse snd_conv)
  have "same_replay (snd (replay_log rs (replay_start []))) st0"
    using replay_log_same [OF replay_start_same, of rs t0 "[]"] 0(1) by simp
  then have r: "log_recovers rs \<longleftrightarrow> rp_recovered st0"
    by (cases st0; cases "snd (replay_log rs (replay_start []))") (auto simp: log_recovers_def same_replay_def)
  have "rp_tables st = t" if "\<not> rp_recovered st"
    using replay_log_unrecovered [of rs "replay_start t"] 1(1) that by (simp add: replay_start_def)
  moreover have "rp_recovered st = rp_recovered st0"
    using 1(2) by (cases st; cases st0) (simp add: same_replay_def)
  moreover have "recovered_tables opts data' rs = Inr (rp_tables st)"
    using 1(1) assms(2) by (simp add: recovered_tables_def)
  moreover have "rp_tables st = old" if "rp_recovered st0"
    using 1(2) 0(2) that by (simp add: same_replay_def)
  ultimately show ?thesis using r by simp
qed

lemma recovered_tables_commit:
  assumes "recovered_tables opts data rs = Inr old" "data_tables opts data' = Inr t" "tables_fit ts"
  shows "recovered_tables opts data' (rs @ commit_records txn lsn ts) = Inr ts"
proof -
  obtain t0 st0 where "replay_log rs (replay_start t0) = (None, st0)"
    using assms(1) by (auto simp: recovered_tables_def split: sum.splits prod.splits option.splits)
  then obtain st where st: "replay_log rs (replay_start t) = (None, st)"
    using replay_log_same [OF replay_start_same, of rs t t0] by (metis fst_conv prod.collapse)
  then have "om_ok (rp_snapshots st)"
    using replay_log_ok [of "replay_start t" rs] by (simp add: replay_start_def)
  from replay_commit [OF this assms(3), of txn lsn] st show ?thesis
    using assms(2) by (auto simp: recovered_tables_def replay_log_append)
qed

lemma recovered_tables_uncommitted:
  assumes "k < 3" "recovered_tables opts data rs = Inr old"
  shows "recovered_tables opts data (rs @ take k (commit_records txn lsn ts)) = Inr old"
proof -
  obtain t st where st: "data_tables opts data = Inr t" "replay_log rs (replay_start t) = (None, st)"
    "rp_tables st = old"
    using assms(2) by (auto simp: recovered_tables_def split: sum.splits prod.splits option.splits)
  with replay_uncommitted [OF assms(1), of txn lsn ts st] show ?thesis
    by (auto simp: recovered_tables_def replay_log_append)
qed

lemma recovered_tables_take:
  assumes "k \<le> 3" "recovered_tables opts data rs = Inr old" "tables_fit ts"
  shows "recovered_tables opts data (rs @ take k (commit_records txn lsn ts)) \<in> {Inr old, Inr ts}"
proof (cases "k < 3")
  case True
  then show ?thesis using recovered_tables_uncommitted assms(2) by blast
next
  case False
  then have "take k (commit_records txn lsn ts) = commit_records txn lsn ts"
    by (simp add: commit_records_def)
  moreover obtain t where "data_tables opts data = Inr t"
    using assms(2) by (auto simp: recovered_tables_def split: sum.splits)
  ultimately show ?thesis using recovered_tables_commit assms by simp
qed

section \<open>Crash and reopen\<close>

text \<open>A crash loses every buffer; the next run starts with a fresh tape.\<close>

definition crash :: "env \<Rightarrow> env" where
  "crash e = e\<lparr>tape := []\<rparr>"

definition reopened :: "string \<Rightarrow> Options \<Rightarrow> env \<Rightarrow> Tables status_or" where
  "reopened path opts e = opened_tables (fst (db_Open path opts (crash e)))"

lemma reopened_eq:
  "path \<noteq> [] \<Longrightarrow>
   reopened path opts e = recovered_tables opts (fs e path) (ReadRecords (contents e (wal_path path)))"
  using db_Open_faultless(1) [of "crash e" path]
  by (simp add: reopened_def) (simp add: crash_def contents_def)

text \<open>
  The one way the files can be lost in a commit: the flush of the new data file failed in the
  environment \<open>e1\<close> in which it was written, and the data file is not the new one.
\<close>

definition torn_data :: "string \<Rightarrow> Tables \<Rightarrow> env \<Rightarrow> env \<Rightarrow> bool" where
  "torn_data path ts e1 e' \<longleftrightarrow> flush_fails path ts e1 \<and> fs e' path \<noteq> Some (SerializeTables ts)"

lemma data_tables_loads:
  assumes "create_if_missing opts" "data_tables opts data = Inr t"
    and "data' \<in> {data, None, Some (SerializeTables ts)}" "tables_fit ts"
  shows "\<exists>t'. data_tables opts data' = Inr t'"
  using assms LoadTablesBytes_append [of ts "[]"] by (cases data) (auto simp: data_tables_def)

lemma damaged_reopened:
  "path \<noteq> [] \<Longrightarrow> fs e path = Some bs \<Longrightarrow> LoadTablesBytes bs = Inl err \<Longrightarrow> reopened path opts e = Inl err"
  by (simp add: reopened_eq recovered_tables_def data_tables_def)

lemma commit_outcome:
  assumes run: "PersistCommittedTables db ts e = (st, db', e')"
    and ready: "db_ready db e rs" and sync: "sync_on_commit (db_options db)"
    and fits: "snapshot_fits ts" and create: "create_if_missing opts"
    and old: "reopened (db_path db) opts e = Inr old"
  shows "reopened (db_path db) opts e' = Inr ts \<or>
    st \<noteq> None \<and> reopened (db_path db) opts e' = Inr old \<or>
    torn_data (db_path db) ts (save_env db ts e) e' \<and>
      (\<exists>bs err. fs e' (db_path db) = Some bs \<and> LoadTablesBytes bs = Inl err \<and> reopened (db_path db) opts e' = Inl err) \<and>
      ReadRecords (contents e' (wal_path (db_path db))) =
        rs @ commit_records (db_next_wal_txn db) (lm_next_lsn (db_wal db)) ts"
proof -
  let ?q = "db_path db" and ?p = "wal_path (db_path db)"
  let ?cs = "commit_records (db_next_wal_txn db) (lm_next_lsn (db_wal db)) ts"
  have q: "?q \<noteq> []" and rs: "list_all record_fits rs" and w: "contents e ?p = encode_log rs"
    using ready by (auto simp: db_ready_def lm_holds_def log_image_def)
  have old': "recovered_tables opts (fs e ?q) rs = Inr old"
    using old by (simp add: reopened_eq [OF q] w ReadRecords_encode_log [OF rs])
  then obtain t where t: "data_tables opts (fs e ?q) = Inr t" by (auto simp: recovered_tables_def split: sum.splits)
  have ts: "tables_fit ts" using fits by (simp add: snapshot_fits_def)
  from Persist_cases [OF run ready sync refl] show ?thesis
  proof
    assume a: "contents e' ?p = encode_log (rs @ ?cs) \<and> db_ready db' e' (rs @ ?cs) \<and>
      (flush_fails ?q ts (save_env db ts e) \<or> st = None \<and> fs e' ?q = Some (SerializeTables ts) \<or>
       st \<noteq> None \<and> fs e' ?q \<in> {fs e ?q, None})"
    then have log: "ReadRecords (contents e' ?p) = rs @ ?cs"
      using rs commit_records_fit [OF fits] by (simp add: ReadRecords_encode_log del: encode_log_simps)
    show ?thesis
    proof (cases "data_tables opts (fs e' ?q)")
      case (Inr t')
      then show ?thesis using recovered_tables_commit [OF old' Inr ts] log by (simp add: reopened_eq [OF q])
    next
      case (Inl err)
      then have "flush_fails ?q ts (save_env db ts e)"
        using a data_tables_loads [OF create t _ ts, of "fs e' ?q"] by fastforce
      moreover obtain bs where bs: "fs e' ?q = Some bs" "LoadTablesBytes bs = Inl err"
        using Inl create by (auto simp: data_tables_def split: option.splits)
      moreover have "bs \<noteq> SerializeTables ts"
        using bs(2) ts LoadTablesBytes_append [of ts "[]"] by auto
      ultimately show ?thesis using damaged_reopened [OF q bs] log bs by (auto simp: torn_data_def)
    qed
  next
    assume s: "st \<noteq> None \<and> stopped ?p (encode_log rs) ?q (fs e ?q) e' (rs @ ?cs)"
    then obtain k where k: "k \<le> 3" "ReadRecords (contents e' ?p) = rs @ take k ?cs"
      using ReadRecords_stopped rs fits by blast
    moreover have "fs e' ?q = fs e ?q" using s by (simp add: stopped_def)
    ultimately show ?thesis
      using recovered_tables_take [OF k(1) old' ts] s by (auto simp: reopened_eq [OF q])
  qed
qed

lemma commit_outcome_loads:
  assumes "PersistCommittedTables db ts e = (None, db', e')" "db_ready db e rs" "sync_on_commit (db_options db)"
    and "snapshot_fits ts" "create_if_missing opts" "reopened (db_path db) opts e = Inr old"
    and "fs e' (db_path db) = Some (SerializeTables ts)"
  shows "reopened (db_path db) opts e' = Inr ts"
  using commit_outcome [OF assms(1-6)] assms(7) by (auto simp: torn_data_def)

section \<open>Runs without faults\<close>

lemma append_transaction_faultless:
  assumes "tape e = []" "lm_open lm" "length (snapshot_payload ts) \<le> max_length - 25"
  shows "append_transaction lm txn (snapshot_payload ts) e =
    (Inr (lm_next_lsn lm + 1 + 1),
     lm\<lparr>lm_next_lsn := lm_next_lsn lm + 1 + 1 + 1,
        lm_pending := lm_pending lm @ encode_log (commit_records txn (lm_next_lsn lm) ts)\<rparr>,
     put_file (lm_path lm) (contents e (lm_path lm)) e)"
  using assms by (simp add: append_transaction_def lm_Append_def stream_write_def Let_def commit_records_def)

lemma lm_Flush_faultless:
  assumes "tape e = []" "lm_open lm" "through \<noteq> kInvalidLsn"
  shows "lm_Flush lm through e = (None, lm\<lparr>lm_pending := [], lm_durable_lsn := through\<rparr>,
    put_file (lm_path lm) (log_image lm e) e)"
  using assms
  by (simp add: lm_Flush_def stream_flush_def SyncFile_def open_read_def Let_def log_image_def)

lemma Persist_faultless:
  assumes "tape e = []" "db_ready db e rs" "snapshot_fits ts"
  shows "\<exists>db' e'. PersistCommittedTables db ts e = (None, db', e') \<and>
    fs e' (db_path db) = Some (SerializeTables ts) \<and> tape e' = []"
proof -
  have "lm_open (db_wal db)" using assms(2) by (simp add: db_ready_def lm_holds_def)
  then obtain lsn wal e1 where a: "append_transaction (db_wal db) (db_next_wal_txn db) (snapshot_payload ts) e =
      (Inr lsn, wal, e1)" "lm_open wal" "tape e1 = []"
    using append_transaction_faultless [OF assms(1), of "db_wal db" ts] assms(1,3)
    by (simp add: snapshot_fits_def)
  then have "\<exists>wal' e2. lm_Flush wal lsn e1 = (None, wal', e2) \<and> tape e2 = []"
    by (simp add: lm_Flush_def stream_flush_def SyncFile_def open_read_def Let_def)
  then obtain wal2 e2 where f: "lm_Flush wal lsn e1 = (None, wal2, e2)" "tape e2 = []" by blast
  show ?thesis
  proof (cases "sync_on_commit (db_options db)")
    case True
    then show ?thesis
      using a f by (simp add: PersistCommittedTables_def snapshot_payload_def SaveTables_faultless saved_def)
  next
    case False
    then show ?thesis
      using a by (simp add: PersistCommittedTables_def snapshot_payload_def SaveTables_faultless saved_def)
  qed
qed

section \<open>Checkpoint\<close>

lemma db_Checkpoint_ok:
  assumes "db_Checkpoint db e = (None, db', e')" "db_ready db e rs"
  shows "db_ready db' e' []" "contents e' (wal_path (db_path db)) = []" "db_tables db' = db_tables db"
  using assms lm_Truncate_ok [of "db_wal db"]
  by (auto simp: db_Checkpoint_def db_ready_def lm_holds_def log_image_def
      split: prod.splits option.splits)

lemma db_Checkpoint_faultless:
  assumes "tape e = []" "db_ready db e rs"
  shows "\<exists>db' e'. db_Checkpoint db e = (None, db', e') \<and> tape e' = [] \<and>
    fs e' (db_path db) = Some (SerializeTables (db_tables db))"
  using assms
  by (simp add: db_Checkpoint_def db_ready_def lm_holds_def SaveTables_faultless lm_Truncate_def
      stream_flush_def stream_close_def open_trunc_def open_append_def SyncFile_def open_read_def
      Let_def saved_def)

section \<open>A torn record in the middle of the log\<close>

text \<open>
  Three bytes of a begin record in front of further transactions: the scan takes the length
  field across the tear, finds fewer bytes than the 400 MB it announces, and stops.
\<close>

lemma read_record_tear:
  assumes "length (snapshot_payload ts) < 419430000"
  shows "read_record ([0x19, 0, 0] @ encode_log (commit_records txn lsn ts)) = None"
proof -
  let ?log = "encode_log (commit_records txn lsn ts)"
  have "take 1 ?log = [0x19]"
    by (simp add: commit_records_def encode_record_def record_frame_def le_store_def upt_rec)
  then have "take 4 ([0x19, 0, 0] @ ?log) = [0x19, 0, 0, 0x19]" by (simp add: numeral_eq_Suc)
  moreover have "unat (le_load [0x19, 0, 0, 0x19] :: u32) = 419430425" by simp
  moreover have "length ?log < 419430200"
    using assms by (simp add: length_encode_log valid_bytes_def commit_records_def)
  ultimately show ?thesis by (auto simp: read_record_def Let_def max_length_def)
qed

lemma Persist_torn:
  assumes "tape e = [IoFail n 33]" "db_ready db e rs"
  shows "PersistCommittedTables db ts e =
    (Some (IoError ''cannot append WAL record''),
     db\<lparr>db_next_wal_txn := db_next_wal_txn db + 1,
        db_wal := (db_wal db)\<lparr>lm_next_lsn := lm_next_lsn (db_wal db) + 1\<rparr>\<rparr>,
     (put_file (wal_path (db_path db))
       (encode_log rs @ take n (encode_record (commit_records (db_next_wal_txn db) (lm_next_lsn (db_wal db)) ts ! 0))) e)\<lparr>tape := []\<rparr>)"
proof -
  have "contents e (wal_path (db_path db)) = encode_log rs" "lm_pending (db_wal db) = []"
    "lm_open (db_wal db)" "lm_path (db_wal db) = wal_path (db_path db)"
    using assms(2) by (auto simp: db_ready_def lm_holds_def log_image_def)
  moreover have "contents (e\<lparr>tape := []\<rparr>) = contents e" by (simp add: contents_def fun_eq_iff)
  ultimately show ?thesis
    using assms(1)
    by (simp add: PersistCommittedTables_def append_transaction_def lm_Append_def stream_write_def
        Let_def next_io_def put_file_def max_length_def commit_records_def)
qed

lemma flush_fails_faultless: "tape e = [] \<Longrightarrow> \<not> flush_fails path ts e"
  by (simp add: flush_fails_def open_trunc_def stream_write_def stream_flush_def Let_def)

lemma save_env_torn:
  assumes "tape e = [IoFail n 33]" "db_ready db e rs"
  shows "tape (save_env db ts e) = []"
  using assms
  by (simp add: save_env_def append_transaction_def lm_Append_def stream_write_def Let_def next_io_def
      db_ready_def lm_holds_def max_length_def)

lemma torn_begin: "take 3 (encode_record (commit_records txn lsn ts ! 0)) = [0x19, 0, 0]"
  by (simp add: commit_records_def encode_record_def record_frame_def le_store_def upt_rec numeral_3_eq_3)

text \<open>
  The commit that follows is acknowledged, its tables are in the data file, and reopening
  replays the older snapshot over them.
\<close>

lemma commit_after_tear:
  assumes "tape e = [IoFail 3 33]" "db_ready db e rs" "sync_on_commit (db_options db)"
    and "snapshot_fits ts2" "length (snapshot_payload ts2) < 419430000"
    and "lm_next_lsn (db_wal db) + 3 \<noteq> kInvalidLsn"
    and "log_recovers rs" "reopened (db_path db) opts e = Inr old"
  shows "\<exists>err db1 e1 db2 e2.
    PersistCommittedTables db ts1 e = (Some err, db1, e1) \<and>
    PersistCommittedTables db1 ts2 e1 = (None, db2, e2) \<and>
    fs e2 (db_path db) = Some (SerializeTables ts2) \<and>
    reopened (db_path db) opts e2 = Inr old"
proof -
  let ?w = "wal_path (db_path db)" and ?wal = "(db_wal db)\<lparr>lm_next_lsn := lm_next_lsn (db_wal db) + 1\<rparr>"
  let ?db1 = "db\<lparr>db_next_wal_txn := db_next_wal_txn db + 1, db_wal := ?wal\<rparr>"
  let ?e1 = "(put_file ?w (encode_log rs @ [0x19, 0, 0]) e)\<lparr>tape := []\<rparr>"
  let ?cs = "commit_records (db_next_wal_txn db + 1) (lm_next_lsn (db_wal db) + 1) ts2"
  have db: "db_path db \<noteq> []" "lm_open (db_wal db)" "lm_path (db_wal db) = ?w" "lm_pending (db_wal db) = []"
    "list_all record_fits rs" "contents e ?w = encode_log rs"
    using assms(2) by (auto simp: db_ready_def lm_holds_def log_image_def)
  have c: "contents ?e1 ?w = encode_log rs @ [0x19, 0, 0]" by (simp add: contents_def)
  let ?log = "encode_log rs @ [0x19, 0, 0] @ encode_log ?cs"
  have "\<exists>db2. PersistCommittedTables ?db1 ts2 ?e1 =
      (None, db2, saved (db_path db) ts2 (put_file ?w ?log ?e1))"
    using assms(3,4,6) db c append_transaction_faultless [of ?e1 ?wal ts2] lm_Flush_faultless
    by (simp add: PersistCommittedTables_def snapshot_payload_def snapshot_fits_def log_image_def
        SaveTables_faultless add.commute)
  then obtain db2 where p2: "PersistCommittedTables ?db1 ts2 ?e1 =
      (None, db2, saved (db_path db) ts2 (put_file ?w ?log ?e1))" ..
  let ?e2 = "saved (db_path db) ts2 (put_file ?w ?log ?e1)"
  have f: "fs ?e2 (db_path db) = Some (SerializeTables ts2)" by (simp add: saved_def)
  have r: "ReadRecords (contents ?e2 ?w) = rs"
    using ReadRecords_append [OF db(5), of "[0x19, 0, 0] @ encode_log ?cs"] read_record_tear [OF assms(5)]
    by (simp add: ReadRecords_break)
  have old: "recovered_tables opts (fs e (db_path db)) rs = Inr old"
    using assms(8) db(5,6) by (simp add: reopened_eq [OF db(1)] ReadRecords_encode_log)
  have "data_tables opts (Some (SerializeTables ts2)) = Inr ts2"
    using LoadTablesBytes_append [of ts2 "[]"] assms(4) by (simp add: data_tables_def snapshot_fits_def)
  from recovered_tables_log [OF old this] have "reopened (db_path db) opts ?e2 = Inr old"
    using assms(7) f r by (simp add: reopened_eq [OF db(1)])
  with p2 f Persist_torn [OF assms(1,2), of ts1] show ?thesis unfolding torn_begin by blast
qed

section \<open>Properties\<close>

text \<open>A database just opened on an empty directory.\<close>

definition sample_env :: env where
  "sample_env = \<lparr>fs = (\<lambda>_. None), tape = [], errtext = []\<rparr>"

definition sample_db :: Database where
  "sample_db = (new_Database ''d'' default_Options)\<lparr>db_wal := opened_log new_LogManager ''d.wal'' []\<rparr>"

lemma sample_db_ready: "db_ready sample_db sample_env []"
  by (simp add: db_ready_def sample_db_def sample_env_def new_Database_def opened_log_def lm_holds_def
      log_image_def contents_def)

lemma sample_reopened: "fs e ''d'' = None \<Longrightarrow> fs e ''d.wal'' = None \<Longrightarrow> reopened ''d'' default_Options e = Inr []"
  by (simp add: reopened_eq contents_def recovered_tables_def data_tables_def default_Options_def replay_start_def)

lemma sample_payload_small: "length (snapshot_payload sample_tables) < 6333"
  by (simp add: snapshot_payload_def kSnapshotPrefix_def
      SerializeTables_def sample_tables_def wr_Table_def wr_Column_def wr_ValueData_def data_magic_def
      wr_Row_def wr_flag_def wr_U8_def wr_String_def wr_U32_def wr_U64_def Let_def)

lemma sample_snapshot_fits: "snapshot_fits sample_tables"
  using sample_tables_fit sample_payload_small by (simp add: snapshot_fits_def max_length_def)

lemma empty_payload: "length (snapshot_payload []) < 100"
  by (simp add: snapshot_payload_def kSnapshotPrefix_def SerializeTables_def data_magic_def wr_String_def wr_U32_def)

lemmas sample_simps = sample_db_def new_Database_def default_Options_def opened_log_def

text \<open>C1: how a commit ends, whatever its file operations do and whatever of its buffers a crash then
  loses. Reopening the database finds the tables of the commit; or the commit reported a failure and
  reopening finds the tables from before; or, the one thing the protocol does not guard against and
  the code does not look at, the flush of the new data file failed and a damaged file has replaced
  the old one. Then reopening fails, also after a commit that reported success, although the log
  holds the whole transaction; and as every failed opening it overwrites the file.\<close>

theorem commit_atomic:
  assumes "db_ready db e rs" "sync_on_commit (db_options db)" "snapshot_fits ts"
    and "create_if_missing opts" "reopened (db_path db) opts e = Inr old"
    and "PersistCommittedTables db ts e = (st, db', e')"
  shows "reopened (db_path db) opts e' = Inr ts \<or>
    st \<noteq> None \<and> reopened (db_path db) opts e' = Inr old \<or>
    torn_data (db_path db) ts (save_env db ts e) e' \<and>
      (\<exists>bs err. fs e' (db_path db) = Some bs \<and> LoadTablesBytes bs = Inl err \<and> reopened (db_path db) opts e' = Inl err) \<and>
      ReadRecords (contents e' (wal_path (db_path db))) =
        rs @ commit_records (db_next_wal_txn db) (lm_next_lsn (db_wal db)) ts"
  using commit_outcome [OF assms(6,1,2,3,4,5)] .

theorem commit_atomic_witness:
  "\<exists>st db' e'. PersistCommittedTables sample_db sample_tables (sample_env\<lparr>tape := [IoFail 1 33]\<rparr>) = (st, db', e') \<and>
     st \<noteq> None \<and> reopened ''d'' default_Options e' \<in> {Inr [], Inr sample_tables}"
proof -
  let ?e = "sample_env\<lparr>tape := [IoFail 1 33]\<rparr>"
  have ready: "db_ready sample_db ?e []"
    using sample_db_ready by (simp add: db_ready_def lm_holds_def log_image_def contents_def sample_env_def)
  have "tape ?e = [IoFail 1 33]" by simp
  note run = Persist_torn [OF this ready, where ts = sample_tables]
  have "reopened (db_path sample_db) default_Options ?e = Inr []"
    using sample_reopened [of ?e] by (simp add: sample_simps sample_env_def)
  note outcome = commit_atomic [OF ready _ sample_snapshot_fits _ this run]
  have "fs (put_file (wal_path (db_path sample_db)) (encode_log [] @ [0x19]) ?e) ''d'' = None"
    by (simp add: sample_simps sample_env_def)
  with outcome run show ?thesis by (auto simp: sample_simps sample_env_def torn_data_def)
qed

text \<open>
  The damaged file is real: with six calls of the log and the first two of the new file behind it, a flush
  that fails and leaves nothing in the buffer makes a commit report success whose data file is empty.
\<close>

theorem unflushed_save_destroys:
  assumes "db_ready db e rs" "sync_on_commit (db_options db)" "snapshot_fits ts"
    and "tape e = replicate 8 (IoOk 0) @ [IoFail 0 n]" "length (SerializeTables ts) \<le> n"
  shows "\<exists>db' e'. PersistCommittedTables db ts e = (None, db', e') \<and>
    reopened (db_path db) opts e' = Inl (Incompatible ''unsupported database format'')"
proof -
  have db: "db_path db \<noteq> []" "lm_open (db_wal db)" "lm_path (db_wal db) = wal_path (db_path db)"
    using assms(1) by (simp_all add: db_ready_def lm_holds_def)
  define t where "t = [IoOk 0, IoOk 0, IoFail 0 n]"
  have "tape e = [IoOk 0, IoOk 0, IoOk 0, IoOk 0, IoOk 0, IoOk 0] @ t"
    using assms(4) by (simp add: t_def numeral_eq_Suc)
  then obtain wal1 e1 where a: "append_transaction (db_wal db) (db_next_wal_txn db) (snapshot_payload ts) e =
      (Inr (lm_next_lsn (db_wal db) + 2), wal1, e1)" "lm_open wal1" "tape e1 = [IoOk 0, IoOk 0, IoOk 0] @ t"
    using db(2) assms(3)
    by (simp add: append_transaction_def lm_Append_def stream_write_def next_io_def Let_def snapshot_fits_def max_length_def)
  obtain wal2 e2 where f: "lm_Flush wal1 (lm_next_lsn (db_wal db) + 2) e1 = (None, wal2, e2)" "tape e2 = t"
    using a(2,3) by (simp add: lm_Flush_def stream_flush_def SyncFile_def open_read_def io_try_def next_io_def Let_def)
  have "\<exists>e3. SaveTables (db_path db) ts e2 = (None, e3) \<and> fs e3 (db_path db) = Some []"
    using f(2) assms(5) by (simp add: t_def SaveTables_def stream_close_def io_defs next_io_def Let_def)
  then have "\<exists>db' e'. PersistCommittedTables db ts e = (None, db', e') \<and> fs e' (db_path db) = Some []"
    using a(1) f(1) assms(2) by (auto simp: PersistCommittedTables_def snapshot_payload_def)
  then obtain db' e' where x: "PersistCommittedTables db ts e = (None, db', e')" "fs e' (db_path db) = Some []" by blast
  have "LoadTablesBytes [] = Inl (Incompatible ''unsupported database format'')"
    by (simp add: LoadTablesBytes_def rd_Tables_def rd_bind_def or_fail_def rd_String_def rd_U32_def
      rd_U8_def numeral_eq_Suc)
  with x damaged_reopened [OF db(1) x(2)] show ?thesis by blast
qed


text \<open>without I/O faults a commit always succeeds, and a crash right after it loses nothing.\<close>

theorem commit_succeeds:
  assumes "tape e = []" "db_ready db e rs" "snapshot_fits ts" "sync_on_commit (db_options db)"
    and "create_if_missing opts" "reopened (db_path db) opts e = Inr old"
  shows "\<exists>db' e'. PersistCommittedTables db ts e = (None, db', e') \<and>
    fs e' (db_path db) = Some (SerializeTables ts) \<and> reopened (db_path db) opts e' = Inr ts"
proof -
  obtain db' e' where p: "PersistCommittedTables db ts e = (None, db', e')"
    and f: "fs e' (db_path db) = Some (SerializeTables ts)"
    using Persist_faultless [OF assms(1-3)] by blast
  with commit_outcome_loads [OF p assms(2,4,3,5,6)] p show ?thesis by blast
qed

theorem commit_succeeds_witness:
  "\<exists>db' e'. PersistCommittedTables sample_db sample_tables sample_env = (None, db', e') \<and>
     reopened ''d'' default_Options e' = Inr sample_tables"
  using commit_succeeds [OF _ sample_db_ready sample_snapshot_fits, of default_Options "[]"]
    sample_reopened [of sample_env]
  by (auto simp: sample_simps sample_env_def)

text \<open>C2: \<^verbatim>\<open>Database::Open\<close> implements the abstract account of recovery: it succeeds exactly when
  the data file and the committed snapshots in the valid part of the log can be read, its tables
  are those of the last committed snapshot (or of the data file when there is none), and the
  database it returns is ready to commit on a log cut back to its valid part.\<close>

theorem db_Open_refines_recovery:
  assumes "tape e = []" "path \<noteq> []" "rs = ReadRecords (contents e (wal_path path))"
  shows "(case db_Open path opts e of
      (Inl err, e') \<Rightarrow> recovered_tables opts (fs e path) rs = Inl err
    | (Inr db, e') \<Rightarrow> recovered_tables opts (fs e path) rs = Inr (db_tables db) \<and> db_ready db e' rs)"
  using db_Open_faultless [OF assms, of opts] by (auto simp: opened_tables_def split: prod.splits sum.splits)

theorem db_Open_refines_recovery_witness:
  "\<exists>db e'. db_Open ''d'' default_Options sample_env = (Inr db, e') \<and> db_tables db = [] \<and> db_ready db e' []"
  using db_Open_refines_recovery [of sample_env "''d''" "[]" default_Options]
  by (auto simp: sample_env_def contents_def recovered_tables_def data_tables_def default_Options_def
      replay_start_def split: prod.splits sum.splits)

text \<open>a checkpoint that reports success has emptied the log, and without faults it does report
  success and leaves the tables in the data file, from where reopening reads them.\<close>

theorem checkpoint_moves_log_to_data:
  assumes "db_ready db e rs"
  shows "(\<forall>db' e'. db_Checkpoint db e = (None, db', e') \<longrightarrow>
      db_ready db' e' [] \<and> db_tables db' = db_tables db) \<and>
    (tape e = [] \<longrightarrow> tables_fit (db_tables db) \<longrightarrow>
      (\<exists>db' e'. db_Checkpoint db e = (None, db', e') \<and> contents e' (wal_path (db_path db)) = [] \<and>
        reopened (db_path db) opts e' = Inr (db_tables db)))"
proof -
  have p: "db_path db \<noteq> []" using assms by (simp add: db_ready_def)
  have "\<exists>db' e'. db_Checkpoint db e = (None, db', e') \<and> contents e' (wal_path (db_path db)) = [] \<and>
      reopened (db_path db) opts e' = Inr (db_tables db)" if "tape e = []" "tables_fit (db_tables db)"
  proof -
    obtain db' e' where c: "db_Checkpoint db e = (None, db', e')"
      and f: "fs e' (db_path db) = Some (SerializeTables (db_tables db))"
      using db_Checkpoint_faultless [OF \<open>tape e = []\<close> assms] by blast
    with db_Checkpoint_ok(2) [OF c assms] \<open>tables_fit (db_tables db)\<close> LoadTablesBytes_append [of "db_tables db" "[]"]
    show ?thesis
      by (auto simp: reopened_eq [OF p] recovered_tables_def data_tables_def replay_start_def)
  qed
  then show ?thesis using db_Checkpoint_ok [OF _ assms] by blast
qed

theorem checkpoint_moves_log_to_data_witness:
  "\<exists>db' e'. db_Checkpoint sample_db sample_env = (None, db', e') \<and> contents e' ''d.wal'' = [] \<and>
     reopened ''d'' default_Options e' = Inr []"
  using checkpoint_moves_log_to_data [OF sample_db_ready, of default_Options]
  by (simp add: sample_simps sample_env_def tables_fit_def om_ok_def)

text \<open>C24: a database whose file cannot be read is not opened, and the attempt replaces the file by
  that of an empty database.\<close>

theorem failed_Open_overwrites:
  assumes "tape e = []" "path \<noteq> []" "fs e path = Some bs" "LoadTablesBytes bs = Inl err"
  shows "\<exists>e'. db_Open path opts e = (Inl err, e') \<and> fs e' path = Some (SerializeTables [])"
  using assms db_Open_load_error [of e path opts err] by (simp add: data_tables_def saved_def)

theorem failed_Open_overwrites_witness:
  "\<exists>e'. db_Open ''d'' default_Options (sample_env\<lparr>fs := [''d'' \<mapsto> [1, 2, 3]]\<rparr>) =
      (Inl (Incompatible ''unsupported database format''), e') \<and> fs e' ''d'' = Some (SerializeTables [])"
  by (rule failed_Open_overwrites [where bs = "[1, 2, 3]"])
    (simp_all add: sample_env_def LoadTablesBytes_def rd_Tables_def rd_bind_def or_fail_def rd_String_def rd_U32_def
      rd_U8_def numeral_eq_Suc)

text \<open>C23: a failed commit that leaves three bytes of its first record in the log makes the next commit
  ineffective although it reports success: reopening finds the tables from before both. The log holds
  a committed snapshot, as it does from the first commit after a checkpoint on, and the snapshot of
  the second commit is below 400 MB, the length the scan reads across the tear.\<close>

theorem commit_after_tear_is_lost:
  assumes "tape e = [IoFail 3 33]" "db_ready db e rs" "sync_on_commit (db_options db)"
    and "snapshot_fits ts2" "length (snapshot_payload ts2) < 419430000"
    and "lm_next_lsn (db_wal db) + 3 \<noteq> kInvalidLsn"
    and "log_recovers rs" "reopened (db_path db) opts e = Inr old"
  shows "\<exists>err db1 e1 db2 e2.
    PersistCommittedTables db ts1 e = (Some err, db1, e1) \<and>
    PersistCommittedTables db1 ts2 e1 = (None, db2, e2) \<and>
    reopened (db_path db) opts e2 = Inr old"
  using commit_after_tear [OF assms, of ts1] by blast

theorem commit_after_tear_is_lost_witness:
  "\<exists>db e err db1 e1 db2 e2.
     reopened ''d'' default_Options e = Inr sample_tables \<and>
     PersistCommittedTables db [] e = (Some err, db1, e1) \<and>
     PersistCommittedTables db1 [] e1 = (None, db2, e2) \<and>
     reopened ''d'' default_Options e2 = Inr sample_tables"
proof -
  let ?rs = "commit_records 1 1 sample_tables"
  let ?db = "sample_db\<lparr>db_wal := opened_log new_LogManager ''d.wal'' ?rs\<rparr>"
  let ?e = "sample_env\<lparr>fs := [''d.wal'' \<mapsto> encode_log ?rs], tape := [IoFail 3 33]\<rparr>"
  have fits: "list_all record_fits ?rs" "snapshot_fits []"
    using commit_records_fit [OF sample_snapshot_fits] empty_payload
    by (simp_all add: snapshot_fits_def tables_fit_def om_ok_def max_length_def)
  have ready: "db_ready ?db ?e ?rs"
    using fits by (simp add: db_ready_def lm_holds_def log_image_def contents_def sample_simps)
  have ok: "om_ok (rp_snapshots (replay_start []))" by (simp add: replay_start_def om_ok_def)
  obtain st where st: "replay_log ?rs (replay_start []) = (None, st)" "rp_tables st = sample_tables" "rp_recovered st"
    using replay_commit [OF ok sample_tables_fit, of 1 1] by blast
  have "reopened ''d'' default_Options ?e = Inr sample_tables"
    using fits st by (simp add: reopened_eq contents_def recovered_tables_def data_tables_def
        default_Options_def ReadRecords_encode_log sample_env_def)
  moreover have "tape ?e = [IoFail 3 33]" "sync_on_commit (db_options ?db)"
    "length (snapshot_payload []) < 419430000" "lm_next_lsn (db_wal ?db) + 3 \<noteq> kInvalidLsn"
    "log_recovers ?rs" "db_path ?db = ''d''"
    using empty_payload st by (simp_all add: sample_simps commit_records_def kInvalidLsn_def log_recovers_def)
  ultimately show ?thesis
    using commit_after_tear_is_lost [of ?e ?db ?rs "[]" default_Options sample_tables "[]"] ready fits(2) by metis
qed

end
