(* ===== verification/Sql_Token.thy ===== *)
theory Sql_Token
  imports Status
begin

text \<open>
  \<^verbatim>\<open>Tokenize\<close> of \<^verbatim>\<open>src/api/db.cpp\<close>, the tokenizer behind every statement, and the
  helper \<^verbatim>\<open>TrimLower\<close>. The scan runs on the rest of the text from the current index
  on; an unterminated quote or a stray character is an error and yields no tokens. The lemmas
  show the shape of a token list (one end token, at the end, positions in order) and that a
  printed token list is read back.
\<close>

datatype token_kind = KWord | KNumber | KString | KOperator | KPunctuation | KParameter | KEnd

record Token =
  tk_kind :: token_kind
  tk_text :: string
  tk_position :: nat

definition make_token :: "token_kind \<Rightarrow> string \<Rightarrow> nat \<Rightarrow> Token" where
  "make_token k s p = \<lparr>tk_kind = k, tk_text = s, tk_position = p\<rparr>"

definition TrimLower :: "string \<Rightarrow> string" where
  "TrimLower s =
     (let body = dropWhile isspace s in
      Lower (rev (dropWhile (\<lambda>c. isspace c \<or> c = CHR '';'') (rev body))))"

definition word_start :: "char \<Rightarrow> bool" where
  "word_start c \<longleftrightarrow> isalpha c \<or> c = CHR ''_''"

definition word_char :: "char \<Rightarrow> bool" where
  "word_char c \<longleftrightarrow> isalnum c \<or> c = CHR ''_''"

definition number_char :: "char \<Rightarrow> bool" where
  "number_char c \<longleftrightarrow> isdigit c \<or> c = CHR ''.''"

definition number_start :: "string \<Rightarrow> bool" where
  "number_start s =
     (case s of
        [] \<Rightarrow> False
      | c # cs \<Rightarrow> isdigit c \<or> (c = CHR ''.'' \<and> cs \<noteq> [] \<and> isdigit (hd cs)))"

text \<open>The loop over a quoted literal after its opening quote: its value and what follows.\<close>

fun read_quoted :: "char \<Rightarrow> string \<Rightarrow> (string \<times> string) option" where
  "read_quoted quote [] = None"
| "read_quoted quote [c] = (if c = quote then Some ([], []) else None)"
| "read_quoted quote (c # d # cs) =
     (if c = quote then
        if d = quote then map_option (\<lambda>(v, rest). (quote # v, rest)) (read_quoted quote cs)
        else Some ([], d # cs)
      else map_option (\<lambda>(v, rest). (c # v, rest)) (read_quoted quote (d # cs)))"

lemma read_quoted_shrinks: "read_quoted q s = Some (v, rest) \<Longrightarrow> length rest < length s"
  by (induction q s arbitrary: v rest rule: read_quoted.induct) (fastforce split: if_splits)+

definition two_char_op :: "string \<Rightarrow> bool" where
  "two_char_op s \<longleftrightarrow> s \<in> {''<='', ''>='', ''!='', ''<>''}"

definition operator_char :: "char \<Rightarrow> bool" where
  "operator_char c \<longleftrightarrow> c \<in> set ''=<>+-*/%!''"

definition punctuation_char :: "char \<Rightarrow> bool" where
  "punctuation_char c \<longleftrightarrow> c \<in> set ''(),.;''"

text \<open>
  One token at the head of \<open>s\<close>, which starts at index \<open>i\<close> and begins neither with white space
  nor with a comment, and the text after it.
\<close>

definition next_token :: "string \<Rightarrow> nat \<Rightarrow> (Token \<times> string) status_or" where
  "next_token s i =
     (let c = hd s; cs = tl s in
      if word_start c then
        Inr (make_token KWord (Lower (c # takeWhile word_char cs)) i, dropWhile word_char cs)
      else if number_start s then
        Inr (make_token KNumber (c # takeWhile number_char cs) i, dropWhile number_char cs)
      else if c = CHR 0x27 \<or> c = CHR 0x22 then
        (case read_quoted c cs of
           None \<Rightarrow> Inl (SyntaxError ''unterminated quoted literal'')
         | Some (v, rest) \<Rightarrow>
             Inr (if c = CHR 0x27 then make_token KString v i else make_token KWord (Lower v) i, rest))
      else if c = CHR ''?'' then Inr (make_token KParameter ''?'' i, cs)
      else if two_char_op (take 2 s) then Inr (make_token KOperator (take 2 s) i, drop 2 s)
      else if operator_char c then Inr (make_token KOperator [c] i, cs)
      else if punctuation_char c then Inr (make_token KPunctuation [c] i, cs)
      else Inl (SyntaxError ''unexpected character in SQL''))"

lemma length_dropWhile_Cons: "length (dropWhile P cs) < Suc (length cs)"
  by (simp add: less_Suc_eq_le length_dropWhile_le)

lemma next_token_shrinks: "next_token (c # cs) i = Inr (t, rest) \<Longrightarrow> length rest < length (c # cs)"
  using read_quoted_shrinks [of c cs]
  by (auto simp: next_token_def Let_def length_dropWhile_Cons split: if_splits option.splits)

lemma comment_shrinks: "length (dropWhile P (tl cs)) < Suc (length cs)"
  using length_dropWhile_le [of P "tl cs"] by simp

function tokens_from :: "string \<Rightarrow> nat \<Rightarrow> Token list status_or" where
  "tokens_from [] i = Inr [make_token KEnd [] i]"
| "tokens_from (c # cs) i =
     (if isspace c then tokens_from cs (i + 1)
      else if c = CHR ''-'' \<and> cs \<noteq> [] \<and> hd cs = CHR ''-'' then
        (let rest = dropWhile (\<lambda>d. d \<noteq> CHR 0x0A) (tl cs) in
         tokens_from rest (i + (length (c # cs) - length rest)))
      else
        (case next_token (c # cs) i of
           Inl e \<Rightarrow> Inl e
         | Inr (t, rest) \<Rightarrow>
             (case tokens_from rest (i + (length (c # cs) - length rest)) of
                Inl e \<Rightarrow> Inl e
              | Inr ts \<Rightarrow> Inr (t # ts))))"
  by pat_completeness auto
termination
  by (relation "measure (\<lambda>(s, i). length s)") (auto simp: comment_shrinks dest: next_token_shrinks)

declare tokens_from.simps [simp del]

definition Tokenize :: "string \<Rightarrow> Token list status_or" where
  "Tokenize sql = tokens_from sql 0"

section \<open>The shape of a token list\<close>

text \<open>Every token list is some tokens in increasing position, then the end token.\<close>

lemma next_token_kind: "next_token (c # cs) i = Inr (t, rest) \<Longrightarrow> tk_kind t \<noteq> KEnd \<and> tk_position t = i"
  by (auto simp: next_token_def Let_def make_token_def split: if_splits option.splits)

lemma tokens_from_shape:
  "tokens_from s i = Inr ts \<Longrightarrow>
   \<exists>us. ts = us @ [make_token KEnd [] (i + length s)] \<and>
     (\<forall>t \<in> set us. tk_kind t \<noteq> KEnd \<and> i \<le> tk_position t \<and> tk_position t < i + length s) \<and>
     sorted_wrt (<) (map tk_position us)"
proof (induction s i arbitrary: ts rule: tokens_from.induct)
  case (1 i)
  then show ?case by (auto simp: tokens_from.simps)
next
  case (2 c cs i)
  show ?case
  proof (cases "isspace c")
    case True
    with 2(4) have "tokens_from cs (i + 1) = Inr ts" by (simp add: tokens_from.simps)
    from 2(1) [OF True this] show ?thesis by fastforce
  next
    case ns: False
    show ?thesis
    proof (cases "c = CHR ''-'' \<and> cs \<noteq> [] \<and> hd cs = CHR ''-''")
      case True
      let ?rest = "dropWhile (\<lambda>d. d \<noteq> CHR 0x0A) (tl cs)"
      have l: "length ?rest < Suc (length cs)" by (rule comment_shrinks)
      have "tokens_from ?rest (i + (length (c # cs) - length ?rest)) = Inr ts"
        using 2(4) ns True by (simp add: tokens_from.simps Let_def)
      from 2(2) [OF ns True refl this] show ?thesis using l by fastforce
    next
      case nc: False
      with 2(4) ns obtain t rest us where t: "next_token (c # cs) i = Inr (t, rest)"
        "tokens_from rest (i + (length (c # cs) - length rest)) = Inr us" "ts = t # us"
        by (auto simp: tokens_from.simps split: sum.splits prod.splits)
      have l: "length rest < length (c # cs)" using t(1) by (rule next_token_shrinks)
      from 2(3) [OF ns nc t(1) refl t(2)] obtain vs where vs:
        "us = vs @ [make_token KEnd [] (i + length (c # cs))]"
        "\<forall>u \<in> set vs. tk_kind u \<noteq> KEnd \<and> i + (length (c # cs) - length rest) \<le> tk_position u \<and>
           tk_position u < i + length (c # cs)"
        "sorted_wrt (<) (map tk_position vs)"
        using l by fastforce
      moreover have "tk_kind t \<noteq> KEnd" "tk_position t = i" using next_token_kind [OF t(1)] by simp_all
      ultimately show ?thesis using l t(3) by (intro exI [where x = "t # vs"]) fastforce
    qed
  qed
qed

lemma Tokenize_shape:
  "Tokenize sql = Inr ts \<Longrightarrow>
   \<exists>us. ts = us @ [make_token KEnd [] (length sql)] \<and>
     (\<forall>t \<in> set us. tk_kind t \<noteq> KEnd \<and> tk_position t < length sql) \<and>
     sorted_wrt (<) (map tk_position us)"
  using tokens_from_shape [of sql 0 ts] by (auto simp: Tokenize_def)

section \<open>Printing and reading back\<close>

definition escape_quote :: "char \<Rightarrow> string \<Rightarrow> string" where
  "escape_quote q s = concat (map (\<lambda>c. if c = q then [q, q] else [c]) s)"

definition quoted :: "char \<Rightarrow> string \<Rightarrow> string" where
  "quoted q s = q # escape_quote q s @ [q]"

lemma read_quoted_first: "c \<noteq> q \<Longrightarrow> read_quoted q (c # s) = map_option (\<lambda>(v, rest). (c # v, rest)) (read_quoted q s)"
  by (cases s) auto

lemma read_quoted_escape:
  assumes "rest = [] \<or> hd rest \<noteq> q"
  shows "read_quoted q (escape_quote q v @ q # rest) = Some (v, rest)"
proof (induction v)
  case Nil
  then show ?case using assms by (cases rest) (auto simp: escape_quote_def)
next
  case (Cons c v)
  then show ?case by (auto simp: escape_quote_def read_quoted_first)
qed

fun token_ok :: "token_kind \<Rightarrow> string \<Rightarrow> bool" where
  "token_ok KWord s = (Lower s = s)"
| "token_ok KNumber s = (s \<noteq> [] \<and> number_start s \<and> list_all number_char s)"
| "token_ok KString s = True"
| "token_ok KOperator s = (two_char_op s \<or> (\<exists>c \<in> set ''=<>+-*/%!''. s = [c]))"
| "token_ok KPunctuation s = (\<exists>c \<in> set ''(),.;''. s = [c])"
| "token_ok KParameter s = (s = ''?'')"
| "token_ok KEnd s = False"

definition print_token :: "Token \<Rightarrow> string" where
  "print_token t =
     (case tk_kind t of
        KWord \<Rightarrow> quoted (CHR 0x22) (tk_text t)
      | KString \<Rightarrow> quoted (CHR 0x27) (tk_text t)
      | _ \<Rightarrow> tk_text t)"

definition print_tokens :: "Token list \<Rightarrow> string" where
  "print_tokens ts = concat (map (\<lambda>t. print_token t @ '' '') ts)"

lemmas char_class_defs =
  word_start_def word_char_def number_char_def number_start_def isalpha_def isalnum_def isupper_def
  islower_def isdigit_def isspace_def operator_char_def punctuation_char_def two_char_op_def

lemma number_char_stop:
  "list_all number_char s \<Longrightarrow> takeWhile number_char (s @ CHR '' '' # r) = s"
  "list_all number_char s \<Longrightarrow> dropWhile number_char (s @ CHR '' '' # r) = CHR '' '' # r"
proof -
  have "\<not> number_char (CHR '' '')" by (simp add: char_class_defs)
  then show "list_all number_char s \<Longrightarrow> takeWhile number_char (s @ CHR '' '' # r) = s"
    "list_all number_char s \<Longrightarrow> dropWhile number_char (s @ CHR '' '' # r) = CHR '' '' # r"
    by (induction s) auto
qed

lemma next_token_number:
  assumes "token_ok KNumber s"
  shows "next_token (s @ CHR '' '' # r) i = Inr (make_token KNumber s i, CHR '' '' # r)"
proof -
  obtain c cs where s: "s = c # cs" using assms by (cases s) auto
  have "number_start (s @ CHR '' '' # r)" "\<not> word_start c" "list_all number_char cs"
    using assms s by (auto simp: char_class_defs split: list.splits)
  then show ?thesis by (simp add: next_token_def Let_def s number_char_stop)
qed

lemma next_token_quoted:
  "next_token (quoted (CHR 0x27) s @ CHR '' '' # r) i = Inr (make_token KString s i, CHR '' '' # r)"
  "Lower s = s \<Longrightarrow> next_token (quoted (CHR 0x22) s @ CHR '' '' # r) i = Inr (make_token KWord s i, CHR '' '' # r)"
  by (simp_all add: next_token_def quoted_def Let_def read_quoted_escape char_class_defs)

lemma next_token_operator:
  assumes "token_ok KOperator s"
  shows "next_token (s @ CHR '' '' # r) i = Inr (make_token KOperator s i, CHR '' '' # r)"
proof -
  have "s = ''<='' \<or> s = ''>='' \<or> s = ''!='' \<or> s = ''<>'' \<or> s = ''='' \<or> s = ''<'' \<or> s = ''>'' \<or>
      s = ''+'' \<or> s = ''-'' \<or> s = ''*'' \<or> s = ''/'' \<or> s = ''%'' \<or> s = ''!''"
    using assms by (simp add: two_char_op_def)
  then show ?thesis
    by (elim disjE) (simp_all add: next_token_def Let_def char_class_defs)
qed

lemma next_token_punctuation:
  assumes "token_ok KPunctuation s"
  shows "next_token (s @ CHR '' '' # r) i = Inr (make_token KPunctuation s i, CHR '' '' # r)"
proof -
  have "s = ''('' \<or> s = '')'' \<or> s = '','' \<or> s = ''.'' \<or> s = '';''" using assms by simp
  then show ?thesis
    by (elim disjE) (simp_all add: next_token_def Let_def char_class_defs)
qed

lemma next_token_parameter:
  "next_token (''?'' @ CHR '' '' # r) i = Inr (make_token KParameter ''?'' i, CHR '' '' # r)"
  by (simp add: next_token_def Let_def char_class_defs)

lemma next_token_print:
  assumes "token_ok (tk_kind t) (tk_text t)"
  shows "next_token (print_token t @ CHR '' '' # r) i =
    Inr (make_token (tk_kind t) (tk_text t) i, CHR '' '' # r)"
  using assms next_token_number [of "tk_text t" r i] next_token_quoted [of "tk_text t" r i]
    next_token_operator [of "tk_text t" r i] next_token_punctuation [of "tk_text t" r i]
    next_token_parameter [of r i]
  by (cases "tk_kind t") (simp_all add: print_token_def)

lemma print_token_start:
  assumes "token_ok (tk_kind t) (tk_text t)"
  shows "\<exists>c cs. print_token t = c # cs \<and> \<not> isspace c \<and> \<not> (c = CHR ''-'' \<and> cs \<noteq> [])"
  using assms
  by (cases "tk_kind t") (auto simp: print_token_def quoted_def char_class_defs neq_Nil_conv)

lemma tokens_from_print:
  "list_all (\<lambda>t. token_ok (tk_kind t) (tk_text t)) ts \<Longrightarrow>
   \<exists>us e. tokens_from (print_tokens ts) i = Inr (us @ [make_token KEnd [] e]) \<and>
     map (\<lambda>t. (tk_kind t, tk_text t)) us = map (\<lambda>t. (tk_kind t, tk_text t)) ts"
proof (induction ts arbitrary: i)
  case Nil
  then show ?case by (auto simp: print_tokens_def tokens_from.simps)
next
  case (Cons t ts)
  obtain c cs where c: "print_token t = c # cs" "\<not> isspace c" "\<not> (c = CHR ''-'' \<and> cs \<noteq> [])"
    using print_token_start [of t] Cons.prems by auto
  let ?r = "CHR '' '' # print_tokens ts"
  have p: "print_tokens (t # ts) = c # cs @ ?r" by (simp add: print_tokens_def c(1))
  have n: "next_token (c # cs @ ?r) i = Inr (make_token (tk_kind t) (tk_text t) i, ?r)"
    using next_token_print [of t "print_tokens ts" i] Cons.prems c(1) by simp
  have sp: "isspace (CHR '' '')" by (simp add: isspace_def)
  obtain us e where us: "tokens_from (print_tokens ts) (i + (length (c # cs @ ?r) - length ?r) + 1) =
      Inr (us @ [make_token KEnd [] e])"
    "map (\<lambda>t. (tk_kind t, tk_text t)) us = map (\<lambda>t. (tk_kind t, tk_text t)) ts"
    using Cons.IH [of "i + (length (c # cs @ ?r) - length ?r) + 1"] Cons.prems by auto
  have "tokens_from (print_tokens (t # ts)) i =
      Inr ((make_token (tk_kind t) (tk_text t) i # us) @ [make_token KEnd [] e])"
    unfolding p using c(2,3) n us(1) sp
    by (subst tokens_from.simps) (auto simp: tokens_from.simps(2) [of "CHR '' ''"] hd_append)
  with us(2) show ?case
    by (intro exI [where x = "make_token (tk_kind t) (tk_text t) i # us"] exI [where x = e])
      (simp add: make_token_def)
qed

lemma next_token_error: "next_token s i = Inl err \<Longrightarrow> pl_code err = kSyntaxError"
  by (auto simp: next_token_def Let_def SyntaxError_def error_at_def split: if_splits option.splits)

lemma tokens_from_error: "tokens_from s i = Inl err \<Longrightarrow> pl_code err = kSyntaxError"
  by (induction s i rule: tokens_from.induct)
    (auto simp: tokens_from.simps Let_def next_token_error split: if_splits sum.splits)

lemma Tokenize_error: "Tokenize sql = Inl err \<Longrightarrow> pl_code err = kSyntaxError"
  by (simp add: Tokenize_def tokens_from_error)

section \<open>Properties\<close>

text \<open>\<^verbatim>\<open>Tokenize\<close> ends on every input, and when it succeeds its tokens end with exactly one
  end token at the end of the text; the others start at strictly increasing positions inside it.\<close>

theorem Tokenize_positions:
  "case Tokenize sql of
     Inl err \<Rightarrow> pl_code err = kSyntaxError
   | Inr ts \<Rightarrow> \<exists>us. ts = us @ [make_token KEnd [] (length sql)] \<and>
       list_all (\<lambda>t. tk_kind t \<noteq> KEnd \<and> tk_position t < length sql) us \<and>
       sorted_wrt (<) (map tk_position us)"
  using Tokenize_shape [of sql] Tokenize_error [of sql]
  by (auto simp: list_all_iff split: sum.split)

text \<open>C27: every list of tokens the lexer can produce (words in lower case, numbers, strings,
  operators, punctuation, parameters) is read back from its printed form, with quotes inside words
  and strings doubled.\<close>

theorem Tokenize_print:
  assumes "list_all (\<lambda>t. token_ok (tk_kind t) (tk_text t)) ts"
  shows "\<exists>us e. Tokenize (print_tokens ts) = Inr (us @ [make_token KEnd [] e]) \<and>
    map (\<lambda>t. (tk_kind t, tk_text t)) us = map (\<lambda>t. (tk_kind t, tk_text t)) ts"
  using tokens_from_print [OF assms, of 0] by (simp add: Tokenize_def)

theorem Tokenize_print_witness:
  "\<exists>us e. Tokenize (print_tokens [make_token KWord ''select'' 0, make_token KString [CHR 0x27, CHR ''x''] 0,
       make_token KOperator ''<='' 0]) = Inr (us @ [make_token KEnd [] e]) \<and>
     map tk_text us = [''select'', [CHR 0x27, CHR ''x''], ''<='']"
proof -
  let ?ts = "[make_token KWord ''select'' 0, make_token KString [CHR 0x27, CHR ''x''] 0,
       make_token KOperator ''<='' 0]"
  have "list_all (\<lambda>t. token_ok (tk_kind t) (tk_text t)) ?ts"
    by (simp add: make_token_def Lower_def tolower_def isupper_def two_char_op_def)
  from Tokenize_print [OF this] obtain us e where
    us: "Tokenize (print_tokens ?ts) = Inr (us @ [make_token KEnd [] e])"
      "map (\<lambda>t. (tk_kind t, tk_text t)) us = map (\<lambda>t. (tk_kind t, tk_text t)) ?ts" by blast
  then have "map snd (map (\<lambda>t. (tk_kind t, tk_text t)) us) = map tk_text ?ts" by (simp add: make_token_def)
  with us(1) show ?thesis by (auto simp: comp_def make_token_def)
qed

end
