(* ===== verification/Sql_Parser.thy ===== *)
theory Sql_Parser
  imports Sql_Token Sql_Value "HOL-Library.Monad_Syntax"
begin

text \<open>
  The class \<^verbatim>\<open>Parser\<close> of \<^verbatim>\<open>src/api/db.cpp\<close>: recursive descent over the token
  list. The state is the class's members together with the \<^verbatim>\<open>Status\<close> the callers pass
  by pointer. A parse function gives the expression, \<open>None\<close> for a null pointer; an expression
  may hold null arguments, as the code allows. The recursion runs on fuel; \<open>Expression_total\<close>
  shows that \<open>parse_fuel\<close> always is enough, that the parser stays within its tokens, and that a
  parse that leaves the status Ok gives a complete tree.
\<close>

section \<open>Expressions\<close>

datatype expr_kind = KLiteral | KColumn | KUnary | KBinary | KIsNull | KFunction

datatype expr = Expr
  (ex_kind: expr_kind) (ex_literal: sqlvalue) (ex_name: string) (ex_op: string)
  (ex_param: nat) (ex_args: "expr option list")

definition literal_expr :: "sqlvalue \<Rightarrow> expr" where
  "literal_expr v = Expr KLiteral v [] [] 0 []"

definition column_expr :: "string \<Rightarrow> expr" where
  "column_expr name = Expr KColumn VNull name [] 0 []"

definition parameter_expr :: "nat \<Rightarrow> expr" where
  "parameter_expr i = Expr KColumn VNull ''?'' [] i []"

definition unary_expr :: "string \<Rightarrow> expr option \<Rightarrow> expr" where
  "unary_expr op a = Expr KUnary VNull [] op 0 [a]"

definition Binary :: "string \<Rightarrow> expr option \<Rightarrow> expr option \<Rightarrow> expr" where
  "Binary op l r = Expr KBinary VNull [] op 0 [l, r]"

definition is_null_expr :: "bool \<Rightarrow> expr option \<Rightarrow> expr" where
  "is_null_expr neg a = Expr KIsNull VNull [] (if neg then ''is not null'' else ''is null'') 0 [a]"

definition function_expr :: "string \<Rightarrow> expr option list \<Rightarrow> expr" where
  "function_expr name args = Expr KFunction VNull name [] 0 args"

section \<open>The parser's state\<close>

record parser =
  ps_tokens :: "Token list"
  ps_index :: nat
  ps_params :: nat
  ps_closed :: bool
  ps_status :: status

definition new_parser :: "Token list \<Rightarrow> parser" where
  "new_parser tokens = \<lparr>ps_tokens = tokens, ps_index = 0, ps_params = 0, ps_closed = False, ps_status = None\<rparr>"

definition Peek :: "parser \<Rightarrow> Token" where
  "Peek p = ps_tokens p ! ps_index p"

definition Peek_at :: "parser \<Rightarrow> nat \<Rightarrow> Token" where
  "Peek_at p offset = ps_tokens p ! min (ps_index p + offset) (length (ps_tokens p) - 1)"

definition advance_token :: "parser \<Rightarrow> parser" where
  "advance_token p = p\<lparr>ps_index := ps_index p + 1\<rparr>"

definition set_status :: "payload \<Rightarrow> parser \<Rightarrow> parser" where
  "set_status e p = p\<lparr>ps_status := Some e\<rparr>"

definition Accept :: "string \<Rightarrow> parser \<Rightarrow> bool \<times> parser" where
  "Accept s p =
     (let p1 = (if s \<noteq> '')'' then p\<lparr>ps_closed := False\<rparr> else p) in
      if s = '')'' \<and> ps_closed p1 \<and> tk_text (Peek p1) \<noteq> '')'' then (True, p1\<lparr>ps_closed := False\<rparr>)
      else if tk_text (Peek p1) = s then (True, advance_token p1)
      else (False, p1))"

definition Expect :: "string \<Rightarrow> parser \<Rightarrow> bool \<times> parser" where
  "Expect s p =
     (case Accept s p of
        (True, p1) \<Rightarrow> (True, if s = '')'' then p1\<lparr>ps_closed := True\<rparr> else p1)
      | (False, p1) \<Rightarrow> (False, set_status (SyntaxError (''expected '' @ [CHR 0x27] @ s @ [CHR 0x27])) p1))"

definition Identifier :: "parser \<Rightarrow> string \<times> parser" where
  "Identifier p =
     (if tk_kind (Peek p) \<noteq> KWord then ([], set_status (SyntaxError ''expected identifier'') p)
      else (tk_text (Peek p), advance_token p))"

section \<open>Numeric literals\<close>

definition digits_value :: "string \<Rightarrow> nat" where
  "digits_value s = foldl (\<lambda>a c. 10 * a + (code_of c - 48)) 0 s"

text \<open>
  \<^verbatim>\<open>std::stod\<close> on digits and dots: the text up to a second dot, rounded to nearest;
  \<open>None\<close> where it reports a range error (overflow, or a subnormal that is not exact).
\<close>

definition stod :: "string \<Rightarrow> double option" where
  "stod s =
     (let whole = takeWhile isdigit s;
          frac = takeWhile isdigit (drop (length whole + 1) s);
          n = digits_value (whole @ frac); d = 10 ^ length frac;
          r = dbl_round False n d in
      if dbl_is_inf r then None
      else if dbl_mag r < 2 ^ 52 \<and> scaled_mag (dbl_mag r) * d \<noteq> n * 2 ^ 1074 then None
      else Some r)"

text \<open>\<^verbatim>\<open>std::stoll\<close> on digits.\<close>

definition stoll :: "string \<Rightarrow> u64 option" where
  "stoll s = (let n = digits_value s in if n < 2 ^ 63 then Some (of_nat n) else None)"

definition number_literal :: "string \<Rightarrow> sqlvalue option" where
  "number_literal s =
     (if CHR ''.'' \<notin> set s then map_option VInteger (stoll s) else map_option VReal (stod s))"

section \<open>Recursive descent\<close>

type_synonym parse_result = "(expr option \<times> parser) option"

text \<open>
  The parse functions call each other through \<open>rec\<close>, which stands for the methods with one
  unit of fuel less; a loop is a call of its own, with what it has built so far. \<open>None\<close> is a
  parse that ran out of fuel.
\<close>

datatype nonterm =
    NOr | NOrLoop "expr option" | NAnd | NAndLoop "expr option" | NCompare
  | NInLoop "expr option list" | NLike | NAdd | NAddLoop "expr option" | NMul
  | NMulLoop "expr option" | NUnary | NPrimary | NArgLoop string "expr option list"

type_synonym parse_fun = "nonterm \<Rightarrow> parser \<Rightarrow> parse_result"

definition ParseOr :: "parse_fun \<Rightarrow> parser \<Rightarrow> parse_result" where
  "ParseOr rec p = do { (left, p1) \<leftarrow> rec NAnd p; rec (NOrLoop left) p1 }"

definition OrLoop :: "parse_fun \<Rightarrow> expr option \<Rightarrow> parser \<Rightarrow> parse_result" where
  "OrLoop rec left p =
     (if left = None then Some (left, p) else
      case Accept ''or'' p of
        (False, p1) \<Rightarrow> Some (left, p1)
      | (True, p1) \<Rightarrow> do { (right, p2) \<leftarrow> rec NAnd p1; rec (NOrLoop (Some (Binary ''or'' left right))) p2 })"

definition ParseAnd :: "parse_fun \<Rightarrow> parser \<Rightarrow> parse_result" where
  "ParseAnd rec p = do { (left, p1) \<leftarrow> rec NCompare p; rec (NAndLoop left) p1 }"

definition AndLoop :: "parse_fun \<Rightarrow> expr option \<Rightarrow> parser \<Rightarrow> parse_result" where
  "AndLoop rec left p =
     (if left = None then Some (left, p) else
      case Accept ''and'' p of
        (False, p1) \<Rightarrow> Some (left, p1)
      | (True, p1) \<Rightarrow>
          do { (right, p2) \<leftarrow> rec NCompare p1; rec (NAndLoop (Some (Binary ''and'' left right))) p2 })"

text \<open>The part of \<^verbatim>\<open>ParseCompare\<close> after the operator has been consumed.\<close>

definition compare_rest :: "parse_fun \<Rightarrow> expr option \<Rightarrow> string \<Rightarrow> parser \<Rightarrow> parse_result" where
  "compare_rest rec left op p =
     (if op = ''is'' then
        (case Accept ''not'' p of (neg, p1) \<Rightarrow>
         case Expect ''null'' p1 of
           (False, p2) \<Rightarrow> Some (None, p2)
         | (True, p2) \<Rightarrow> Some (Some (is_null_expr neg left), p2))
      else if op = ''in'' then
        (case Expect ''('' p of
           (False, p1) \<Rightarrow> Some (None, p1)
         | (True, p1) \<Rightarrow> rec (NInLoop [left]) p1)
      else do { (right, p1) \<leftarrow> rec NAdd p; Some (Some (Binary op left right), p1) })"

definition ParseCompare :: "parse_fun \<Rightarrow> parser \<Rightarrow> parse_result" where
  "ParseCompare rec p = do {
     (left, p1) \<leftarrow> rec NLike p;
     (if left = None then Some (None, p1) else
      let t = Peek p1 in
      if tk_kind t = KOperator \<or> tk_text t = ''is'' \<or> tk_text t = ''in'' then
        compare_rest rec left (tk_text t) (advance_token p1)
      else Some (left, p1)) }"

definition InLoop :: "parse_fun \<Rightarrow> expr option list \<Rightarrow> parser \<Rightarrow> parse_result" where
  "InLoop rec args p =
     (case Accept '')'' p of
        (True, p1) \<Rightarrow> Some (Some (function_expr ''in'' args), p1)
      | (False, p1) \<Rightarrow> do {
          (e, p2) \<leftarrow> rec NOr p1;
          (case Accept '','' p2 of
             (True, p3) \<Rightarrow> rec (NInLoop (args @ [e])) p3
           | (False, p3) \<Rightarrow>
               (case Expect '')'' p3 of
                  (True, p4) \<Rightarrow> rec (NInLoop (args @ [e])) p4
                | (False, p4) \<Rightarrow> Some (None, p4))) })"

definition ParseLike :: "parse_fun \<Rightarrow> parser \<Rightarrow> parse_result" where
  "ParseLike rec p = do {
     (left, p1) \<leftarrow> rec NAdd p;
     (if left = None then Some (None, p1) else
      case Accept ''like'' p1 of
        (False, p2) \<Rightarrow> Some (left, p2)
      | (True, p2) \<Rightarrow> do { (right, p3) \<leftarrow> rec NAdd p2; Some (Some (Binary ''like'' left right), p3) }) }"

definition ParseAdd :: "parse_fun \<Rightarrow> parser \<Rightarrow> parse_result" where
  "ParseAdd rec p = do { (left, p1) \<leftarrow> rec NMul p; rec (NAddLoop left) p1 }"

definition AddLoop :: "parse_fun \<Rightarrow> expr option \<Rightarrow> parser \<Rightarrow> parse_result" where
  "AddLoop rec left p =
     (let op = tk_text (Peek p) in
      if op = ''+'' \<or> op = ''-'' then do {
        (right, p1) \<leftarrow> rec NMul (advance_token p);
        rec (NAddLoop (Some (Binary op left right))) p1 }
      else Some (left, p))"

definition ParseMul :: "parse_fun \<Rightarrow> parser \<Rightarrow> parse_result" where
  "ParseMul rec p = do { (left, p1) \<leftarrow> rec NUnary p; rec (NMulLoop left) p1 }"

definition MulLoop :: "parse_fun \<Rightarrow> expr option \<Rightarrow> parser \<Rightarrow> parse_result" where
  "MulLoop rec left p =
     (let op = tk_text (Peek p) in
      if op = ''*'' \<or> op = ''/'' \<or> op = ''%'' then do {
        (right, p1) \<leftarrow> rec NUnary (advance_token p);
        rec (NMulLoop (Some (Binary op left right))) p1 }
      else Some (left, p))"

text \<open>\<^verbatim>\<open>Accept("not") || Accept("-") || Accept("+")\<close>\<close>

definition accept_unary :: "parser \<Rightarrow> bool \<times> parser" where
  "accept_unary p =
     (case Accept ''not'' p of (True, p1) \<Rightarrow> (True, p1) | (False, p1) \<Rightarrow>
      case Accept ''-'' p1 of (True, p2) \<Rightarrow> (True, p2) | (False, p2) \<Rightarrow> Accept ''+'' p2)"

definition ParseUnary :: "parse_fun \<Rightarrow> parser \<Rightarrow> parse_result" where
  "ParseUnary rec p =
     (case accept_unary p of
        (True, q) \<Rightarrow> do {
          (a, q1) \<leftarrow> rec NUnary q;
          Some (Some (unary_expr (tk_text (ps_tokens q ! (ps_index q - 1))) a), q1) }
      | (False, q) \<Rightarrow> rec NPrimary q)"

text \<open>The branch of \<^verbatim>\<open>ParsePrimary\<close> for a name.\<close>

definition parse_name :: "parse_fun \<Rightarrow> string \<Rightarrow> parser \<Rightarrow> parse_result" where
  "parse_name rec name p =
     (if name = ''null'' then Some (Some (literal_expr VNull), p)
      else if name = ''true'' \<or> name = ''false'' then
        Some (Some (literal_expr (VBoolean (name = ''true''))), p)
      else
        (case (case Accept ''.'' p of
                 (True, p1) \<Rightarrow> (case Identifier p1 of (field, p2) \<Rightarrow> (name @ ''.'' @ field, p2))
               | (False, p1) \<Rightarrow> (name, p1)) of (name', p2) \<Rightarrow>
         case Accept ''('' p2 of
           (False, p3) \<Rightarrow> Some (Some (column_expr name'), p3)
         | (True, p3) \<Rightarrow>
             (case Accept '')'' p3 of
                (True, p4) \<Rightarrow> Some (Some (function_expr name' []), p4)
              | (False, p4) \<Rightarrow> rec (NArgLoop name' []) p4)))"

definition ParsePrimary :: "parse_fun \<Rightarrow> parser \<Rightarrow> parse_result" where
  "ParsePrimary rec p =
     (case Accept ''('' p of
        (True, p1) \<Rightarrow> do {
          (v, p2) \<leftarrow> rec NOr p1;
          (case Expect '')'' p2 of
             (True, p3) \<Rightarrow> Some (v, p3)
           | (False, p3) \<Rightarrow> Some (None, p3)) }
      | (False, p1) \<Rightarrow>
      let t = Peek p1 in
      case tk_kind t of
        KNumber \<Rightarrow>
          (case number_literal (tk_text t) of
             Some v \<Rightarrow> Some (Some (literal_expr v), advance_token p1)
           | None \<Rightarrow> Some (None, set_status (OutOfRange ''invalid numeric literal'') (advance_token p1)))
      | KString \<Rightarrow> Some (Some (literal_expr (VText (tk_text t))), advance_token p1)
      | KParameter \<Rightarrow>
          Some (Some (parameter_expr (ps_params p1)), (advance_token p1)\<lparr>ps_params := ps_params p1 + 1\<rparr>)
      | KWord \<Rightarrow> (case Identifier p1 of (name, p2) \<Rightarrow> parse_name rec name p2)
      | _ \<Rightarrow> Some (None, set_status (SyntaxError ''expected expression'') p1))"

definition ArgLoop :: "parse_fun \<Rightarrow> string \<Rightarrow> expr option list \<Rightarrow> parser \<Rightarrow> parse_result" where
  "ArgLoop rec name args p = do {
     (e, p1) \<leftarrow> (case Accept ''*'' p of
        (True, p0) \<Rightarrow> Some (Some (column_expr ''*''), p0)
      | (False, p0) \<Rightarrow> rec NOr p0);
     (case Accept '')'' p1 of
        (True, p2) \<Rightarrow> Some (Some (function_expr name (args @ [e])), p2)
      | (False, p2) \<Rightarrow>
          (case Expect '','' p2 of
             (False, p3) \<Rightarrow> Some (None, p3)
           | (True, p3) \<Rightarrow> rec (NArgLoop name (args @ [e])) p3)) }"

definition parse_step :: "parse_fun \<Rightarrow> parse_fun" where
  "parse_step rec x p =
     (case x of
        NOr \<Rightarrow> ParseOr rec p
      | NOrLoop left \<Rightarrow> OrLoop rec left p
      | NAnd \<Rightarrow> ParseAnd rec p
      | NAndLoop left \<Rightarrow> AndLoop rec left p
      | NCompare \<Rightarrow> ParseCompare rec p
      | NInLoop args \<Rightarrow> InLoop rec args p
      | NLike \<Rightarrow> ParseLike rec p
      | NAdd \<Rightarrow> ParseAdd rec p
      | NAddLoop left \<Rightarrow> AddLoop rec left p
      | NMul \<Rightarrow> ParseMul rec p
      | NMulLoop left \<Rightarrow> MulLoop rec left p
      | NUnary \<Rightarrow> ParseUnary rec p
      | NPrimary \<Rightarrow> ParsePrimary rec p
      | NArgLoop name args \<Rightarrow> ArgLoop rec name args p)"

primrec parse :: "nat \<Rightarrow> parse_fun" where
  "parse 0 = (\<lambda>x p. None)"
| "parse (Suc n) = parse_step (parse n)"

definition remaining :: "parser \<Rightarrow> nat" where
  "remaining p = length (ps_tokens p) - ps_index p"

definition parse_fuel :: "parser \<Rightarrow> nat" where
  "parse_fuel p = 16 * remaining p + 8"

definition Expression :: "parser \<Rightarrow> expr option \<times> parser" where
  "Expression p = (case parse (parse_fuel p) NOr p of Some r \<Rightarrow> r | None \<Rightarrow> (None, p))"

section \<open>Parsing always ends, in bounds\<close>

text \<open>The tokens end with the one token of kind \<open>KEnd\<close>, and the index is on a token.\<close>

definition parser_ok :: "parser \<Rightarrow> bool" where
  "parser_ok p \<longleftrightarrow>
     ps_index p < length (ps_tokens p) \<and> tk_kind (last (ps_tokens p)) = KEnd \<and>
     tk_text (last (ps_tokens p)) = []"

text \<open>One parser state comes after another: the same tokens, no going back, no lost error.\<close>

definition after :: "parser \<Rightarrow> parser \<Rightarrow> bool" where
  "after p q \<longleftrightarrow>
     parser_ok q \<and> ps_tokens q = ps_tokens p \<and> ps_index p \<le> ps_index q \<and>
     (ps_status p \<noteq> None \<longrightarrow> ps_status q \<noteq> None)"

text \<open>Complete expressions: no null argument, and as many as the evaluator uses.\<close>

primrec expr_complete :: "expr \<Rightarrow> bool" where
  "expr_complete (Expr k v name op i args) \<longleftrightarrow>
     list_all (\<lambda>b. b = Some True) (map (map_option expr_complete) args) \<and>
     (k = KUnary \<or> k = KIsNull \<longrightarrow> length args = 1) \<and> (k = KBinary \<longrightarrow> length args = 2)"

definition arg_complete :: "expr option \<Rightarrow> bool" where
  "arg_complete a \<longleftrightarrow> (\<exists>e. a = Some e \<and> expr_complete e)"

lemma expr_complete_args:
  "expr_complete (Expr k v name op i args) \<longleftrightarrow>
     list_all arg_complete args \<and> (k = KUnary \<or> k = KIsNull \<longrightarrow> length args = 1) \<and>
     (k = KBinary \<longrightarrow> length args = 2)"
  by (auto simp: list_all_iff arg_complete_def)

lemma arg_complete_None [simp]: "\<not> arg_complete None"
  by (simp add: arg_complete_def)

lemma arg_complete_exprs [simp]:
  "arg_complete (Some (literal_expr v))"
  "arg_complete (Some (column_expr name))"
  "arg_complete (Some (parameter_expr i))"
  "arg_complete (Some (unary_expr op a)) \<longleftrightarrow> arg_complete a"
  "arg_complete (Some (Binary op a b)) \<longleftrightarrow> arg_complete a \<and> arg_complete b"
  "arg_complete (Some (is_null_expr neg a)) \<longleftrightarrow> arg_complete a"
  "arg_complete (Some (function_expr name args)) \<longleftrightarrow> list_all arg_complete args"
  by (simp_all add: arg_complete_def [of "Some _"] literal_expr_def column_expr_def parameter_expr_def
      unary_expr_def Binary_def is_null_expr_def function_expr_def expr_complete_args
      del: expr_complete.simps)

lemma after_refl: "parser_ok p \<Longrightarrow> after p p"
  by (simp add: after_def)

lemma after_trans: "after p q \<Longrightarrow> after q r \<Longrightarrow> after p r"
  by (auto simp: after_def)

lemma after_ok: "after p q \<Longrightarrow> parser_ok q"
  by (simp add: after_def)

lemma after_status: "after p q \<Longrightarrow> ps_status q = None \<Longrightarrow> ps_status p = None"
  by (auto simp: after_def)

lemma after_remaining: "after p q \<Longrightarrow> remaining q \<le> remaining p"
  by (auto simp: after_def remaining_def)

lemma remaining_pos: "parser_ok p \<Longrightarrow> 0 < remaining p"
  by (simp add: parser_ok_def remaining_def)

text \<open>A token that is not the end token can be passed.\<close>

lemma after_advance:
  assumes "parser_ok p" "tk_text (Peek p) \<noteq> [] \<or> tk_kind (Peek p) \<noteq> KEnd"
  shows "after p (advance_token p)" "remaining (advance_token p) < remaining p"
proof -
  have "ps_tokens p \<noteq> []" using assms(1) by (auto simp: parser_ok_def)
  then have "ps_index p \<noteq> length (ps_tokens p) - 1"
    using assms by (auto simp: parser_ok_def Peek_def last_conv_nth)
  then have "Suc (ps_index p) < length (ps_tokens p)" using assms(1) by (auto simp: parser_ok_def)
  then show "after p (advance_token p)" "remaining (advance_token p) < remaining p"
    using assms(1) by (auto simp: after_def advance_token_def parser_ok_def remaining_def)
qed

lemma Peek_closed [simp]: "Peek (p\<lparr>ps_closed := b\<rparr>) = Peek p"
  by (simp add: Peek_def)

lemma parser_ok_closed [simp]: "parser_ok (p\<lparr>ps_closed := b\<rparr>) = parser_ok p"
  by (simp add: parser_ok_def)

lemma after_closed [simp]: "after p (q\<lparr>ps_closed := b\<rparr>) = after p q"
  "after (p\<lparr>ps_closed := b\<rparr>) q = after p q"
  by (simp_all add: after_def)

lemma remaining_closed [simp]: "remaining (p\<lparr>ps_closed := b\<rparr>) = remaining p"
  by (simp add: remaining_def)

lemma after_set_status: "after p q \<Longrightarrow> after p (set_status e q)"
  by (auto simp: after_def set_status_def parser_ok_def)

lemma Accept_after:
  assumes "parser_ok p" "Accept s p = (b, q)" "s \<noteq> []"
  shows "after p q" and "b \<Longrightarrow> s \<noteq> '')'' \<or> \<not> ps_closed p \<Longrightarrow> remaining q < remaining p"
    and "s \<noteq> '')'' \<Longrightarrow> \<not> b \<Longrightarrow> \<not> ps_closed q"
  using assms after_advance [of "p\<lparr>ps_closed := False\<rparr>"] after_advance [of p] after_refl [of p]
  by (auto simp: Accept_def Let_def split: if_splits)

lemma Expect_after:
  assumes "parser_ok p" "Expect s p = (b, q)" "s \<noteq> []"
  shows "after p q" and "b \<Longrightarrow> s \<noteq> '')'' \<or> \<not> ps_closed p \<Longrightarrow> remaining q < remaining p"
    and "\<not> b \<Longrightarrow> ps_status q \<noteq> None"
proof -
  obtain b' q' where a: "Accept s p = (b', q')" by fastforce
  have "after p q'" by (rule Accept_after(1) [OF assms(1) a assms(3)])
  then show "after p q"
    using assms(2) a by (auto simp: Expect_def after_set_status split: bool.splits if_splits)
  show "\<not> b \<Longrightarrow> ps_status q \<noteq> None"
    using assms(2) a by (auto simp: Expect_def set_status_def split: bool.splits if_splits)
  show "b \<Longrightarrow> s \<noteq> '')'' \<or> \<not> ps_closed p \<Longrightarrow> remaining q < remaining p"
    using assms(2) a Accept_after(2) [OF assms(1) a assms(3)]
    by (auto simp: Expect_def split: bool.splits if_splits)
qed

lemma Identifier_after: "parser_ok p \<Longrightarrow> Identifier p = (name, q) \<Longrightarrow> after p q"
  using after_advance(1) [of p]
  by (auto simp: Identifier_def intro: after_set_status after_refl split: if_splits)

text \<open>A parse from \<open>p\<close> that comes to an end, with a complete tree unless there is an error.\<close>

definition parses :: "parse_result \<Rightarrow> parser \<Rightarrow> bool" where
  "parses res p \<longleftrightarrow>
     (\<exists>e q. res = Some (e, q) \<and> after p q \<and> (ps_status q = None \<longrightarrow> arg_complete e))"

lemma parses_Some [intro]: "after p q \<Longrightarrow> (ps_status q = None \<Longrightarrow> arg_complete e) \<Longrightarrow> parses (Some (e, q)) p"
  by (simp add: parses_def)

lemma parses_error [intro]: "after p q \<Longrightarrow> parses (Some (None, set_status err q)) p"
  using after_set_status [of p q err] by (simp add: parses_def) (simp add: set_status_def)

lemma parses_from: "parses res q \<Longrightarrow> after p q \<Longrightarrow> parses res p"
  using after_trans [of p q] by (auto simp: parses_def)

lemma parses_bind:
  assumes "parses res p1" "after p p1"
    and "\<And>e q. after p q \<Longrightarrow> after p1 q \<Longrightarrow> (ps_status q = None \<Longrightarrow> arg_complete e) \<Longrightarrow> parses (f e q) p"
  shows "parses (do { (e, q) \<leftarrow> res; f e q }) p"
proof -
  obtain e q where "res = Some (e, q)" "after p1 q" "ps_status q = None \<longrightarrow> arg_complete e"
    using assms(1) by (auto simp: parses_def)
  then show ?thesis using assms(3) [of q e] after_trans [OF assms(2)] by simp
qed

text \<open>The levels of the grammar; a call on the same tokens goes to a lower level.\<close>

fun level :: "nonterm \<Rightarrow> nat" where
  "level NPrimary = 1"
| "level NUnary = 2"
| "level NMul = 3"
| "level NAdd = 4"
| "level NLike = 5"
| "level NCompare = 6"
| "level NAnd = 7"
| "level NOr = 8"
| "level (NInLoop args) = 9"
| "level (NArgLoop name args) = 9"
| "level _ = 0"

text \<open>What a loop has built so far is complete unless there is an error.\<close>

fun built :: "nonterm \<Rightarrow> expr option list" where
  "built (NOrLoop e) = [e]"
| "built (NAndLoop e) = [e]"
| "built (NAddLoop e) = [e]"
| "built (NMulLoop e) = [e]"
| "built (NInLoop es) = es"
| "built (NArgLoop name es) = es"
| "built _ = []"

definition enough :: "nat \<Rightarrow> nonterm \<Rightarrow> parser \<Rightarrow> bool" where
  "enough n x p \<longleftrightarrow>
     parser_ok p \<and> 16 * remaining p + level x \<le> n \<and>
     (ps_status p = None \<longrightarrow> list_all arg_complete (built x))"

definition total_at :: "nat \<Rightarrow> parse_fun \<Rightarrow> bool" where
  "total_at n f \<longleftrightarrow> (\<forall>x p. enough n x p \<longrightarrow> parses (f x p) p)"

lemma level_bound: "level x \<le> 9"
  by (cases x rule: level.cases) simp_all

text \<open>The two ways a call is covered: a lower level, or a token less.\<close>

lemma call_lower:
  assumes "total_at n rec" "enough (Suc n) x p" "after p q" "level y < level x"
    and "ps_status q = None \<Longrightarrow> list_all arg_complete (built y)"
  shows "parses (rec y q) q"
proof -
  have "enough n y q"
    using assms after_remaining [OF assms(3)] by (auto simp: enough_def after_ok)
  then show ?thesis using assms(1) by (simp add: total_at_def)
qed

lemma call_later:
  assumes "total_at n rec" "enough (Suc n) x p" "after p q" "remaining q < remaining p"
    and "ps_status q = None \<Longrightarrow> list_all arg_complete (built y)"
  shows "parses (rec y q) q"
proof -
  have "enough n y q"
    using assms level_bound [of y] by (auto simp: enough_def after_ok)
  then show ?thesis using assms(1) by (simp add: total_at_def)
qed

lemmas tail_lower = parses_from [OF call_lower]
lemmas tail_later = parses_from [OF call_later]

lemma later_later: "after p1 q \<Longrightarrow> remaining p1 < remaining p \<Longrightarrow> remaining q < remaining p"
  using after_remaining [of p1 q] by simp

lemma parses_Accept:
  assumes "after p q" "s \<noteq> []"
    and "\<And>q'. after p q' \<Longrightarrow> after q q' \<Longrightarrow> (s \<noteq> '')'' \<or> \<not> ps_closed q \<Longrightarrow> remaining q' < remaining q) \<Longrightarrow>
      (ps_status q' = None \<Longrightarrow> ps_status q = None) \<Longrightarrow> parses (t q') p"
    and "\<And>q'. after p q' \<Longrightarrow> after q q' \<Longrightarrow> (s \<noteq> '')'' \<Longrightarrow> \<not> ps_closed q') \<Longrightarrow>
      (ps_status q' = None \<Longrightarrow> ps_status q = None) \<Longrightarrow> parses (f q') p"
  shows "parses (case Accept s q of (True, q') \<Rightarrow> t q' | (False, q') \<Rightarrow> f q') p"
proof -
  obtain b q' where a: "Accept s q = (b, q')" by fastforce
  note A = Accept_after [OF after_ok [OF assms(1)] a assms(2)]
  have "after p q'" using assms(1) A(1) by (rule after_trans)
  then show ?thesis
    using assms(3) [of q'] assms(4) [of q'] A after_status [OF A(1)] by (cases b) (auto simp: a)
qed

lemma parses_Expect:
  assumes "after p q" "s \<noteq> []"
    and "\<And>q'. after p q' \<Longrightarrow> (s \<noteq> '')'' \<or> \<not> ps_closed q \<Longrightarrow> remaining q' < remaining q) \<Longrightarrow>
      (ps_status q' = None \<Longrightarrow> ps_status q = None) \<Longrightarrow> parses (t q') p"
    and "\<And>q'. after p q' \<Longrightarrow> ps_status q' \<noteq> None \<Longrightarrow> parses (f q') p"
  shows "parses (case Expect s q of (True, q') \<Rightarrow> t q' | (False, q') \<Rightarrow> f q') p"
proof -
  obtain b q' where a: "Expect s q = (b, q')" by fastforce
  note A = Expect_after [OF after_ok [OF assms(1)] a assms(2)]
  have "after p q'" using assms(1) A(1) by (rule after_trans)
  then show ?thesis
    using assms(3) [of q'] assms(4) [of q'] A after_status [OF A(1)] by (cases b) (auto simp: a)
qed

lemma enough_after: "enough n x p \<Longrightarrow> after p p"
  by (simp add: enough_def after_refl)

lemma total_sequence:
  assumes "total_at n rec" and e: "enough (Suc n) x p" and "level y < level x" "built y = []"
    and "\<And>left. level (z left) < level x" "\<And>left. built (z left) = [left]"
  shows "parses (do { (left, p1) \<leftarrow> rec y p; rec (z left) p1 }) p"
  by (rule parses_bind [OF call_lower [OF assms(1,2)] enough_after [OF e]])
    (use enough_after [OF e] assms in \<open>auto intro: tail_lower [OF assms(1,2)]\<close>)

lemma total_ParseOr: "total_at n rec \<Longrightarrow> enough (Suc n) NOr p \<Longrightarrow> parses (ParseOr rec p) p"
  unfolding ParseOr_def by (rule total_sequence, assumption, assumption) simp_all

lemma total_ParseAnd: "total_at n rec \<Longrightarrow> enough (Suc n) NAnd p \<Longrightarrow> parses (ParseAnd rec p) p"
  unfolding ParseAnd_def by (rule total_sequence, assumption, assumption) simp_all

lemma total_ParseAdd: "total_at n rec \<Longrightarrow> enough (Suc n) NAdd p \<Longrightarrow> parses (ParseAdd rec p) p"
  unfolding ParseAdd_def by (rule total_sequence, assumption, assumption) simp_all

lemma total_ParseMul: "total_at n rec \<Longrightarrow> enough (Suc n) NMul p \<Longrightarrow> parses (ParseMul rec p) p"
  unfolding ParseMul_def by (rule total_sequence, assumption, assumption) simp_all

text \<open>After a token has been consumed: an operand, and the loop again or the end.\<close>

lemma total_operand:
  assumes "total_at n rec" "enough (Suc n) x p" "after p q" "remaining q < remaining p"
    and left: "ps_status q = None \<Longrightarrow> arg_complete left" and "built y = []"
    and "\<And>e. built (z e) = [e]"
  shows "parses (do { (right, p2) \<leftarrow> rec y q; rec (z (Some (Binary op left right))) p2 }) p"
    and "parses (do { (right, p2) \<leftarrow> rec y q; Some (Some (Binary op left right), p2) }) p"
proof -
  have y: "parses (rec y q) q" by (rule call_later [OF assms(1-4)]) (simp add: assms(6))
  show "parses (do { (right, p2) \<leftarrow> rec y q; rec (z (Some (Binary op left right))) p2 }) p"
    by (rule parses_bind [OF y assms(3)])
      (auto intro!: tail_later [OF assms(1,2)] simp: assms(7) left after_status later_later [OF _ assms(4)])
  show "parses (do { (right, p2) \<leftarrow> rec y q; Some (Some (Binary op left right), p2) }) p"
    by (rule parses_bind [OF y assms(3)]) (auto simp: left after_status)
qed

lemma total_OrLoop:
  assumes "total_at n rec" and e: "enough (Suc n) (NOrLoop left) p"
  shows "parses (OrLoop rec left p) p"
proof (cases "left = None")
  case True
  with e show ?thesis by (auto simp: OrLoop_def enough_def intro: after_refl)
next
  case False
  have "ps_status p = None \<Longrightarrow> arg_complete left" using e by (simp add: enough_def)
  with False show ?thesis
    unfolding OrLoop_def
    by (auto intro!: parses_Accept [OF enough_after [OF e]] total_operand [OF assms])
qed

lemma total_AndLoop:
  assumes "total_at n rec" and e: "enough (Suc n) (NAndLoop left) p"
  shows "parses (AndLoop rec left p) p"
proof (cases "left = None")
  case True
  with e show ?thesis by (auto simp: AndLoop_def enough_def intro: after_refl)
next
  case False
  have "ps_status p = None \<Longrightarrow> arg_complete left" using e by (simp add: enough_def)
  with False show ?thesis
    unfolding AndLoop_def
    by (auto intro!: parses_Accept [OF enough_after [OF e]] total_operand [OF assms])
qed

lemma total_AddLoop:
  assumes "total_at n rec" and e: "enough (Suc n) (NAddLoop left) p"
  shows "parses (AddLoop rec left p) p"
proof -
  have left: "ps_status p = None \<Longrightarrow> arg_complete left" and ok: "parser_ok p"
    using e by (simp_all add: enough_def)
  have "parses (do { (right, p2) \<leftarrow> rec NMul (advance_token p);
      rec (NAddLoop (Some (Binary op left right))) p2 }) p" if "tk_text (Peek p) \<noteq> []" for op
    using after_advance [OF ok] that left
    by (intro total_operand [OF assms]) (auto simp: after_status advance_token_def)
  then show ?thesis
    using left enough_after [OF e] by (auto simp: AddLoop_def Let_def)
qed

lemma total_MulLoop:
  assumes "total_at n rec" and e: "enough (Suc n) (NMulLoop left) p"
  shows "parses (MulLoop rec left p) p"
proof -
  have left: "ps_status p = None \<Longrightarrow> arg_complete left" and ok: "parser_ok p"
    using e by (simp_all add: enough_def)
  have "parses (do { (right, p2) \<leftarrow> rec NUnary (advance_token p);
      rec (NMulLoop (Some (Binary op left right))) p2 }) p" if "tk_text (Peek p) \<noteq> []" for op
    using after_advance [OF ok] that left
    by (intro total_operand [OF assms]) (auto simp: after_status advance_token_def)
  then show ?thesis
    using left enough_after [OF e] by (auto simp: MulLoop_def Let_def)
qed

lemma total_ParseLike:
  assumes "total_at n rec" and e: "enough (Suc n) NLike p"
  shows "parses (ParseLike rec p) p"
  unfolding ParseLike_def
proof (rule parses_bind [OF call_lower [OF assms] enough_after [OF e]])
  fix left q assume q: "after p q" and left: "ps_status q = None \<Longrightarrow> arg_complete left"
  have "parses (case Accept ''like'' q of
        (False, p2) \<Rightarrow> Some (left, p2)
      | (True, p2) \<Rightarrow> do { (right, p3) \<leftarrow> rec NAdd p2; Some (Some (Binary ''like'' left right), p3) }) p"
    by (rule parses_Accept [OF q])
      (use left after_remaining [OF q] in \<open>auto intro!: total_operand [OF assms, where z = NOrLoop]\<close>)
  then show "parses (if left = None then Some (None, q) else
      case Accept ''like'' q of
        (False, p2) \<Rightarrow> Some (left, p2)
      | (True, p2) \<Rightarrow> do { (right, p3) \<leftarrow> rec NAdd p2; Some (Some (Binary ''like'' left right), p3) }) p"
    using q left by auto
qed (use enough_after [OF e] in auto)

lemma total_InLoop:
  assumes "total_at n rec" and e: "enough (Suc n) (NInLoop args) p"
  shows "parses (InLoop rec args p) p"
  unfolding InLoop_def
proof (rule parses_Accept [OF enough_after [OF e]])
  have args: "ps_status p = None \<Longrightarrow> list_all arg_complete args" using e by (simp add: enough_def)
  show "parses (Some (Some (function_expr ''in'' args), q)) p"
    if "after p q" "ps_status q = None \<Longrightarrow> ps_status p = None" for q
    using that args by auto
  fix q assume q: "after p q" "ps_status q = None \<Longrightarrow> ps_status p = None"
  show "parses (do { (e, p2) \<leftarrow> rec NOr q;
          (case Accept '','' p2 of
             (True, p3) \<Rightarrow> rec (NInLoop (args @ [e])) p3
           | (False, p3) \<Rightarrow>
               (case Expect '')'' p3 of
                  (True, p4) \<Rightarrow> rec (NInLoop (args @ [e])) p4
                | (False, p4) \<Rightarrow> Some (None, p4))) }) p"
  proof (rule parses_bind [OF call_lower [OF assms q(1)] q(1)])
    fix a r assume r: "after p r" "after q r" "ps_status r = None \<Longrightarrow> arg_complete a"
    show "parses (case Accept '','' r of
             (True, p3) \<Rightarrow> rec (NInLoop (args @ [a])) p3
           | (False, p3) \<Rightarrow>
               (case Expect '')'' p3 of
                  (True, p4) \<Rightarrow> rec (NInLoop (args @ [a])) p4
                | (False, p4) \<Rightarrow> Some (None, p4))) p"
      using args q r after_status [OF r(1)] after_remaining [OF r(1)]
      by (auto intro!: parses_Accept parses_Expect tail_later [OF assms] dest: after_remaining)
  qed auto
qed simp

lemma total_ArgLoop:
  assumes "total_at n rec" and e: "enough (Suc n) (NArgLoop name args) p"
  shows "parses (ArgLoop rec name args p) p"
  unfolding ArgLoop_def
proof (rule parses_bind [OF _ enough_after [OF e]])
  have args: "ps_status p = None \<Longrightarrow> list_all arg_complete args" using e by (simp add: enough_def)
  show "parses (case Accept ''*'' p of
        (True, p0) \<Rightarrow> Some (Some (column_expr ''*''), p0)
      | (False, p0) \<Rightarrow> rec NOr p0) p"
    by (rule parses_Accept [OF enough_after [OF e]]) (auto intro!: tail_lower [OF assms])
  fix a r assume r: "after p r" "ps_status r = None \<Longrightarrow> arg_complete a"
  show "parses (case Accept '')'' r of
        (True, p2) \<Rightarrow> Some (Some (function_expr name (args @ [a])), p2)
      | (False, p2) \<Rightarrow>
          (case Expect '','' p2 of
             (False, p3) \<Rightarrow> Some (None, p3)
           | (True, p3) \<Rightarrow> rec (NArgLoop name (args @ [a])) p3)) p"
    using args r after_status [OF r(1)]
    by (auto intro!: parses_Accept parses_Expect tail_later [OF assms] dest: after_remaining)
qed

lemma accept_unary_after:
  assumes "after p q" "accept_unary q = (b, q')"
  shows "after p q'" "b \<Longrightarrow> remaining q' < remaining q"
proof -
  obtain b1 q1 where a1: "Accept ''not'' q = (b1, q1)" by fastforce
  obtain b2 q2 where a2: "Accept ''-'' q1 = (b2, q2)" by fastforce
  obtain b3 q3 where a3: "Accept ''+'' q2 = (b3, q3)" by fastforce
  note A1 = Accept_after [OF after_ok [OF assms(1)] a1]
  then have q1: "after q q1" "parser_ok q1" by (auto intro: after_ok)
  note A2 = Accept_after [OF q1(2) a2]
  then have q2: "after q q2" "parser_ok q2" using after_trans [OF q1(1)] by (auto intro: after_ok)
  note A3 = Accept_after [OF q2(2) a3]
  have q3: "after q q3" using after_trans [OF q2(1)] A3 by auto
  show "after p q'" "b \<Longrightarrow> remaining q' < remaining q"
    using assms(2) a1 a2 a3 A1 A2 A3 after_trans [OF assms(1)] q1 q2 q3
      after_remaining [OF q1(1)] after_remaining [OF q2(1)]
    by (auto simp: accept_unary_def split: bool.splits)
qed

lemma total_ParseUnary:
  assumes "total_at n rec" and e: "enough (Suc n) NUnary p"
  shows "parses (ParseUnary rec p) p"
proof -
  obtain b q where a: "accept_unary p = (b, q)" by fastforce
  note q = accept_unary_after [OF enough_after [OF e] a]
  show ?thesis
  proof (cases b)
    case True
    have "parses (rec NUnary q) q" using q True by (intro call_later [OF assms]) auto
    then show ?thesis
      using a True q(1) by (auto simp: ParseUnary_def intro!: parses_bind)
  next
    case False
    then show ?thesis using a q(1) by (auto simp: ParseUnary_def intro!: tail_lower [OF assms])
  qed
qed

lemma total_parse_name:
  assumes "total_at n rec" and e: "enough (Suc n) NPrimary p" and q: "after p q" "remaining q < remaining p"
  shows "parses (parse_name rec name q) p"
proof -
  obtain b1 q1 where a1: "Accept ''.'' q = (b1, q1)" by fastforce
  note q1 = after_trans [OF q(1) Accept_after(1) [OF after_ok [OF q(1)] a1]]
  define r where "r = (case Accept ''.'' q of
      (True, p1) \<Rightarrow> (case Identifier p1 of (field, p2) \<Rightarrow> (name @ ''.'' @ field, p2))
    | (False, p1) \<Rightarrow> (name, p1))"
  obtain name' q2 where r2: "r = (name', q2)" by fastforce
  have "after q1 q2"
    using r2 a1 q1 by (auto simp: r_def intro: after_refl after_ok Identifier_after split: bool.splits prod.splits)
  then have q2: "after p q2" "remaining q2 < remaining p"
    using after_trans [OF q1] after_remaining [of q1 q2] q(2)
      after_remaining [OF Accept_after(1) [OF after_ok [OF q(1)] a1]] by auto
  have "parses (case Accept ''('' q2 of
           (False, p3) \<Rightarrow> Some (Some (column_expr name'), p3)
         | (True, p3) \<Rightarrow>
             (case Accept '')'' p3 of
                (True, p4) \<Rightarrow> Some (Some (function_expr name' []), p4)
              | (False, p4) \<Rightarrow> rec (NArgLoop name' []) p4)) p"
    using q2 by (auto intro!: parses_Accept tail_later [OF assms(1,2)] dest: after_remaining)
  then show ?thesis
    using q by (auto simp: parse_name_def r_def [symmetric] r2)
qed

lemma total_ParsePrimary:
  assumes "total_at n rec" and e: "enough (Suc n) NPrimary p"
  shows "parses (ParsePrimary rec p) p"
  unfolding ParsePrimary_def
proof (rule parses_Accept [OF enough_after [OF e]])
  fix q assume q: "after p q" "''('' \<noteq> '')'' \<or> \<not> ps_closed p \<Longrightarrow> remaining q < remaining p"
  have "parses (rec NOr q) q" using q by (intro call_later [OF assms]) auto
  then show "parses (do { (v, p2) \<leftarrow> rec NOr q;
      (case Expect '')'' p2 of (True, p3) \<Rightarrow> Some (v, p3) | (False, p3) \<Rightarrow> Some (None, p3)) }) p"
    by (rule parses_bind [OF _ q(1)]) (auto intro!: parses_Expect)
next
  fix q assume q: "after p q" "after p q"
  note ok = after_ok [OF q(1)]
  let ?t = "Peek q"
  have adv: "after p (advance_token q)" "remaining (advance_token q) < remaining p" if "tk_kind ?t \<noteq> KEnd"
    using after_advance [OF ok] that after_trans [OF q(1)] after_remaining [OF q(1)] by auto
  have "Identifier q = (tk_text ?t, advance_token q)" if "tk_kind ?t = KWord"
    using that by (simp add: Identifier_def)
  moreover have "after p ((advance_token q)\<lparr>ps_params := k\<rparr>)" if "tk_kind ?t \<noteq> KEnd" for k
    using adv(1) [OF that] by (auto simp: after_def parser_ok_def)
  ultimately show "parses (let t = Peek q in case tk_kind t of
        KNumber \<Rightarrow> (case number_literal (tk_text t) of
             Some v \<Rightarrow> Some (Some (literal_expr v), advance_token q)
           | None \<Rightarrow> Some (None, set_status (OutOfRange ''invalid numeric literal'') (advance_token q)))
      | KString \<Rightarrow> Some (Some (literal_expr (VText (tk_text t))), advance_token q)
      | KParameter \<Rightarrow>
          Some (Some (parameter_expr (ps_params q)), (advance_token q)\<lparr>ps_params := ps_params q + 1\<rparr>)
      | KWord \<Rightarrow> (case Identifier q of (name, p2) \<Rightarrow> parse_name rec name p2)
      | _ \<Rightarrow> Some (None, set_status (SyntaxError ''expected expression'') q)) p"
    using q adv total_parse_name [OF assms]
    by (cases "tk_kind ?t")
      (auto simp: Let_def split: option.splits)
qed simp

lemma total_compare_rest:
  assumes "total_at n rec" "enough (Suc n) x p" and q: "after p q" "remaining q < remaining p"
    and left: "ps_status q = None \<Longrightarrow> arg_complete left"
  shows "parses (compare_rest rec left op q) p"
proof -
  obtain neg q3 where a: "Accept ''not'' q = (neg, q3)" by fastforce
  note A = Accept_after(1) [OF after_ok [OF q(1)] a]
  have "parses (case Expect ''null'' q3 of (False, p4) \<Rightarrow> Some (None, p4)
      | (True, p4) \<Rightarrow> Some (Some (is_null_expr neg left), p4)) p"
    using after_trans [OF q(1) A] after_status [OF A] left by (auto intro!: parses_Expect)
  moreover have "parses (case Expect ''('' q of (False, p3) \<Rightarrow> Some (None, p3)
      | (True, p3) \<Rightarrow> rec (NInLoop [left]) p3) p"
    using q left by (auto intro!: parses_Expect tail_later [OF assms(1,2)])
  ultimately show ?thesis
    using a total_operand(2) [OF assms(1,2) q left, of NAdd NOrLoop] by (simp add: compare_rest_def)
qed

lemma total_ParseCompare:
  assumes "total_at n rec" and e: "enough (Suc n) NCompare p"
  shows "parses (ParseCompare rec p) p"
  unfolding ParseCompare_def
proof (rule parses_bind [OF call_lower [OF assms] enough_after [OF e]])
  fix left q assume q: "after p q" and left: "ps_status q = None \<Longrightarrow> arg_complete left"
  have "parses (compare_rest rec left (tk_text (Peek q)) (advance_token q)) p"
    if "tk_kind (Peek q) = KOperator \<or> tk_text (Peek q) = ''is'' \<or> tk_text (Peek q) = ''in''"
    using after_advance [OF after_ok [OF q]] that after_trans [OF q] after_remaining [OF q] left
    by (intro total_compare_rest [OF assms]) (auto simp: advance_token_def)
  then show "parses (if left = None then Some (None, q) else
      let t = Peek q in
      if tk_kind t = KOperator \<or> tk_text t = ''is'' \<or> tk_text t = ''in'' then
        compare_rest rec left (tk_text t) (advance_token q)
      else Some (left, q)) p"
    using q left by (auto simp: Let_def)
qed (use enough_after [OF e] in auto)

lemma total_parse: "total_at n (parse n)"
proof (induction n)
  case 0
  then show ?case by (auto simp: total_at_def enough_def dest: remaining_pos)
next
  case (Suc n)
  note total = total_ParseOr total_OrLoop total_ParseAnd total_AndLoop total_ParseCompare total_InLoop
    total_ParseLike total_ParseAdd total_AddLoop total_ParseMul total_MulLoop total_ParseUnary
    total_ParsePrimary total_ArgLoop
  show ?case
    unfolding total_at_def
  proof (intro allI impI)
    fix x p assume "enough (Suc n) x p"
    then show "parses (parse (Suc n) x p) p"
      using total [OF Suc.IH] by (cases x) (simp_all add: parse_step_def)
  qed
qed

lemma Expression_total:
  assumes "parser_ok p"
  obtains e q where "parse (parse_fuel p) NOr p = Some (e, q)" "Expression p = (e, q)" "after p q"
    "ps_status q = None \<Longrightarrow> arg_complete e"
proof -
  have "enough (parse_fuel p) NOr p" using assms by (simp add: enough_def parse_fuel_def)
  then have "parses (parse (parse_fuel p) NOr p) p"
    using total_parse by (simp add: total_at_def)
  then show thesis using that by (auto simp: parses_def Expression_def)
qed

section \<open>Properties\<close>

text \<open>C19: \<^verbatim>\<open>Parser::Expression\<close> returns on every token list: the recursion never needs more depth
  than the model's bound, no look-ahead leaves the token vector, and without a status the
  expression is complete (every node has the arguments the evaluator reads, none of them null).\<close>

theorem Expression_returns:
  assumes "parser_ok p"
  shows "\<exists>e q. parse (parse_fuel p) NOr p = Some (e, q) \<and> Expression p = (e, q) \<and>
    parser_ok q \<and> remaining q \<le> remaining p \<and> (ps_status q = None \<longrightarrow> arg_complete e)"
proof -
  obtain e q where "parse (parse_fuel p) NOr p = Some (e, q)" "Expression p = (e, q)" "after p q"
    "ps_status q = None \<Longrightarrow> arg_complete e"
    using Expression_total [OF assms] by blast
  then show ?thesis using after_ok [of p q] after_remaining [of p q] by auto
qed

lemma Tokenize_parser_ok: "Tokenize sql = Inr ts \<Longrightarrow> parser_ok (new_parser ts)"
  using Tokenize_shape [of sql ts] by (auto simp: parser_ok_def new_parser_def make_token_def)

theorem Expression_returns_witness:
  "\<exists>e q. Expression (new_parser [make_token KWord ''id'' 0, make_token KEnd [] 2]) = (e, q) \<and> parser_ok q"
proof -
  have "parser_ok (new_parser [make_token KWord ''id'' 0, make_token KEnd [] 2])"
    by (simp add: parser_ok_def new_parser_def make_token_def)
  from Expression_returns [OF this] show ?thesis by blast
qed

end
