(* ===== verification/Sql_Eval.thy ===== *)
theory Sql_Eval
  imports Sql_Parser Table_Codec
begin

text \<open>
  Expression evaluation in \<^verbatim>\<open>src/api/db.cpp\<close>: \<^verbatim>\<open>Eval\<close> with its LIKE matcher and
  arithmetic, and \<^verbatim>\<open>Truthy\<close>. \<^verbatim>\<open>Eval\<close> returns an
  optional value and writes errors through its \<^verbatim>\<open>Status\<close> pointer, so the model threads
  the status. A second flag records that the run has met behaviour C++ leaves undefined
  (signed overflow, a remainder by zero, an argument the vector does not have); the value then
  is the wrapped one, and nothing is claimed of such a run.
\<close>

section \<open>Diagnostics and context\<close>

record diag =
  dg_status :: status
  dg_undef :: bool

definition fail_with :: "payload \<Rightarrow> diag \<Rightarrow> sqlvalue option \<times> diag" where
  "fail_with e d = (None, d\<lparr>dg_status := Some e\<rparr>)"

definition undef_if :: "bool \<Rightarrow> diag \<Rightarrow> diag" where
  "undef_if b d = (if b then d\<lparr>dg_undef := True\<rparr> else d)"

text \<open>\<^verbatim>\<open>EvalContext\<close>; no code path reads its \<^verbatim>\<open>next_param\<close>.\<close>

record eval_context =
  ec_schema :: "Schema option"
  ec_row :: "Row option"
  ec_params :: "sqlvalue list option"

section \<open>LIKE\<close>

text \<open>
  The measure of the matching loop: once the wildcard lies behind both indices, every turn tries a later start, or
  meets a later wildcard, or consumes.
\<close>

definition like_measure :: "string \<times> string \<times> nat \<times> nat \<times> nat option \<times> nat \<Rightarrow> nat list" where
  "like_measure st =
     (case st of (value, pattern, vi, pi, wildcard, wv) \<Rightarrow>
       [case wildcard of None \<Rightarrow> 0 | Some w \<Rightarrow> if vi < wv \<or> pi \<le> w then 1 else 0,
        case wildcard of None \<Rightarrow> length value + 2 | Some w \<Rightarrow> length value + 1 - wv,
        case wildcard of None \<Rightarrow> length pattern + 1 | Some w \<Rightarrow> length pattern - w,
        (length value - vi) + (length pattern - pi)])"

text \<open>
  The matching loop: the text and the pattern from the two indices on, and, once a wildcard has
  been met, the pattern after it and the text where it was last tried.
\<close>

function (sequential) like_loop ::
    "string \<Rightarrow> string \<Rightarrow> nat \<Rightarrow> nat \<Rightarrow> nat option \<Rightarrow> nat \<Rightarrow> bool" where
  "like_loop value pattern vi pi wildcard wv =
     (if vi < length value then
        if pi < length pattern \<and> (pattern ! pi = CHR ''_'' \<or> pattern ! pi = value ! vi) then
          like_loop value pattern (vi + 1) (pi + 1) wildcard wv
        else if pi < length pattern \<and> pattern ! pi = CHR ''%'' then
          like_loop value pattern vi (pi + 1) (Some pi) vi
        else
          (case wildcard of
             Some w \<Rightarrow> like_loop value pattern (wv + 1) (w + 1) wildcard (wv + 1)
           | None \<Rightarrow> False)
      else pi + length (takeWhile (\<lambda>c. c = CHR ''%'') (drop pi pattern)) = length pattern)"
  by pat_completeness auto

termination
  by (relation "measures [\<lambda>st. like_measure st ! 0, \<lambda>st. like_measure st ! 1,
        \<lambda>st. like_measure st ! 2, \<lambda>st. like_measure st ! 3]")
    (auto simp: like_measure_def split: option.splits)

declare like_loop.simps [simp del]

definition Like :: "string \<Rightarrow> string \<Rightarrow> bool" where
  "Like value pattern = like_loop value pattern 0 0 None 0"

section \<open>Operators\<close>

definition eval_not :: "sqlvalue \<Rightarrow> diag \<Rightarrow> sqlvalue option \<times> diag" where
  "eval_not v d =
     (case v of
        VNull \<Rightarrow> (Some VNull, d)
      | VBoolean b \<Rightarrow> (Some (VBoolean (\<not> b)), d)
      | _ \<Rightarrow> fail_with (TypeError ''NOT requires BOOLEAN'') d)"

definition eval_unary :: "string \<Rightarrow> sqlvalue \<Rightarrow> diag \<Rightarrow> sqlvalue option \<times> diag" where
  "eval_unary op v d =
     (if op = ''not'' then eval_not v d
      else
        (case v of
           VInteger i \<Rightarrow>
             if op = ''+'' then (Some v, d)
             else (Some (VInteger (- i)), undef_if (\<not> int64 (- sint i)) d)
         | VReal r \<Rightarrow> (Some (if op = ''+'' then v else VReal (dbl_neg r)), d)
         | _ \<Rightarrow> fail_with (TypeError ''unary operator requires a number'') d))"

definition eval_logic :: "string \<Rightarrow> sqlvalue \<Rightarrow> sqlvalue \<Rightarrow> diag \<Rightarrow> sqlvalue option \<times> diag" where
  "eval_logic op left right d =
     (if value_type left \<noteq> TBoolean \<and> \<not> IsNull left then
        fail_with (TypeError ''logical operator requires BOOLEAN'') d
      else if value_type right \<noteq> TBoolean \<and> \<not> IsNull right then
        fail_with (TypeError ''logical operator requires BOOLEAN'') d
      else
        (let lv = (left = VBoolean True); rv = (right = VBoolean True) in
         if op = ''and'' then
           if (\<not> IsNull left \<and> \<not> lv) \<or> (\<not> IsNull right \<and> \<not> rv) then (Some (VBoolean False), d)
           else (Some (if IsNull left \<or> IsNull right then VNull else VBoolean True), d)
         else
           if (\<not> IsNull left \<and> lv) \<or> (\<not> IsNull right \<and> rv) then (Some (VBoolean True), d)
           else (Some (if IsNull left \<or> IsNull right then VNull else VBoolean False), d)))"

definition eval_equal :: "string \<Rightarrow> sqlvalue \<Rightarrow> sqlvalue \<Rightarrow> diag \<Rightarrow> sqlvalue option \<times> diag" where
  "eval_equal op left right d =
     (case Equals left right of
        None \<Rightarrow> (Some VNull, d)
      | Some e \<Rightarrow> (Some (VBoolean (if op = ''='' \<or> op = ''=='' then e else \<not> e)), d))"

definition eval_like :: "sqlvalue \<Rightarrow> sqlvalue \<Rightarrow> diag \<Rightarrow> sqlvalue option \<times> diag" where
  "eval_like left right d =
     (if IsNull left \<or> IsNull right then (Some VNull, d)
      else
        (case (left, right) of
           (VText value, VText pattern) \<Rightarrow> (Some (VBoolean (Like value pattern)), d)
         | _ \<Rightarrow> fail_with (TypeError ''LIKE requires TEXT values'') d))"

definition eval_compare :: "string \<Rightarrow> sqlvalue \<Rightarrow> sqlvalue \<Rightarrow> diag \<Rightarrow> sqlvalue option \<times> diag" where
  "eval_compare op left right d =
     (case Compare left right of
        None \<Rightarrow> fail_with (TypeError ''values are not comparable'') d
      | Some c \<Rightarrow>
          (Some (VBoolean
            (if op = ''<'' then c < 0 else if op = ''<='' then c \<le> 0
             else if op = ''>'' then 0 < c else 0 \<le> c)), d))"

text \<open>The remainder of C++: the sign of the dividend.\<close>

definition trunc_rem :: "int \<Rightarrow> int \<Rightarrow> int" where
  "trunc_rem a b = (if a < 0 then - (\<bar>a\<bar> mod \<bar>b\<bar>) else \<bar>a\<bar> mod \<bar>b\<bar>)"

definition eval_integer :: "string \<Rightarrow> u64 \<Rightarrow> u64 \<Rightarrow> diag \<Rightarrow> sqlvalue option \<times> diag" where
  "eval_integer op ia ib d =
     (if op = ''+'' then (Some (VInteger (ia + ib)), undef_if (\<not> int64 (sint ia + sint ib)) d)
      else if op = ''-'' then (Some (VInteger (ia - ib)), undef_if (\<not> int64 (sint ia - sint ib)) d)
      else if op = ''*'' then (Some (VInteger (ia * ib)), undef_if (\<not> int64 (sint ia * sint ib)) d)
      else (Some (VInteger (word_of_int (trunc_rem (sint ia) (sint ib)))),
            undef_if (ib = 0 \<or> (sint ia = - (2 ^ 63) \<and> sint ib = - 1)) d))"

definition eval_arith :: "string \<Rightarrow> sqlvalue \<Rightarrow> sqlvalue \<Rightarrow> diag \<Rightarrow> sqlvalue option \<times> diag" where
  "eval_arith op left right d =
     (if \<not> is_number left \<or> \<not> is_number right then
        fail_with (TypeError ''arithmetic requires non-NULL numbers'') d
      else
        (let a = as_double left; b = as_double right in
         if (op = ''/'' \<or> op = ''%'') \<and> dbl_eq b (Double 0) then
           fail_with (OutOfRange ''division by zero'') d
         else
           (case (left, right) of
              (VInteger ia, VInteger ib) \<Rightarrow>
                if op = ''/'' then (Some (VReal (dbl_div a b)), d) else eval_integer op ia ib d
            | _ \<Rightarrow>
                (Some (VReal (if op = ''+'' then dbl_add a b else if op = ''-'' then dbl_sub a b
                   else if op = ''*'' then dbl_mul a b else dbl_div a b)), d))))"

definition eval_binary :: "string \<Rightarrow> sqlvalue \<Rightarrow> sqlvalue \<Rightarrow> diag \<Rightarrow> sqlvalue option \<times> diag" where
  "eval_binary op left right d =
     (if op = ''and'' \<or> op = ''or'' then eval_logic op left right d
      else if op \<in> {''='', ''=='', ''!='', ''<>''} then eval_equal op left right d
      else if op = ''like'' then eval_like left right d
      else if op \<in> {''<'', ''<='', ''>'', ''>=''} then eval_compare op left right d
      else eval_arith op left right d)"

section \<open>Functions\<close>

text \<open>The functions of one argument, given a value that is not NULL.\<close>

definition eval_call :: "string \<Rightarrow> sqlvalue \<Rightarrow> diag \<Rightarrow> sqlvalue option \<times> diag" where
  "eval_call name v d =
     (case (name = ''abs'', v) of
        (True, VInteger i) \<Rightarrow>
          (Some (VInteger (if sint i < 0 then - i else i)), undef_if (sint i < 0 \<and> \<not> int64 (- sint i)) d)
      | (True, VReal r) \<Rightarrow> (Some (VReal (dbl_fabs r)), d)
      | _ \<Rightarrow>
          if name = ''length'' then
            (Some (VInteger (of_nat (case v of VText s \<Rightarrow> length s | _ \<Rightarrow> length (value_ToString v)))), d)
          else if name = ''upper'' \<or> name = ''lower'' then
            (case v of
               VText s \<Rightarrow> (Some (VText (map (if name = ''upper'' then toupper else tolower) s)), d)
             | _ \<Rightarrow> fail_with (TypeError ''text function requires TEXT'') d)
          else fail_with (NotSupported (''function '' @ [CHR 0x27] @ name @ [CHR 0x27] @ '' is not implemented'')) d)"

definition eval_column :: "string \<Rightarrow> eval_context \<Rightarrow> diag \<Rightarrow> sqlvalue option \<times> diag" where
  "eval_column name ctx d =
     (let index = (case ec_schema ctx of None \<Rightarrow> - 1 | Some schema \<Rightarrow> schema_Find schema (Lower name)) in
      case ec_row ctx of
        Some row \<Rightarrow>
          if index < 0 \<or> length row \<le> nat index then
            fail_with (NotFound (''unknown column '' @ [CHR 0x27] @ name @ [CHR 0x27])) d
          else (Some (row ! nat index), d)
      | None \<Rightarrow> fail_with (NotFound (''unknown column '' @ [CHR 0x27] @ name @ [CHR 0x27])) d)"

definition eval_parameter :: "nat \<Rightarrow> eval_context \<Rightarrow> diag \<Rightarrow> sqlvalue option \<times> diag" where
  "eval_parameter i ctx d =
     (case ec_params ctx of
        Some params \<Rightarrow>
          if length params \<le> i then fail_with (InvalidArgument ''unbound parameter'') d
          else (Some (params ! i), d)
      | None \<Rightarrow> fail_with (InvalidArgument ''unbound parameter'') d)"

section \<open>Eval\<close>

text \<open>\<open>no_argument\<close> is a read of an argument the vector does not hold.\<close>

definition no_argument :: "diag \<Rightarrow> sqlvalue option \<times> diag" where
  "no_argument d = (None, d\<lparr>dg_undef := True\<rparr>)"

function (sequential) Eval :: "expr option \<Rightarrow> eval_context \<Rightarrow> diag \<Rightarrow> sqlvalue option \<times> diag"
and EvalIn :: "sqlvalue \<Rightarrow> expr option list \<Rightarrow> eval_context \<Rightarrow> diag \<Rightarrow> sqlvalue option \<times> diag"
and EvalCoalesce :: "expr option list \<Rightarrow> eval_context \<Rightarrow> diag \<Rightarrow> sqlvalue option \<times> diag" where
  "Eval None ctx d = (None, d)"
| "Eval (Some (Expr KLiteral v name op i args)) ctx d = (Some v, d)"
| "Eval (Some (Expr KColumn v name op i args)) ctx d =
     (if name = ''?'' then eval_parameter i ctx d else eval_column name ctx d)"
| "Eval (Some (Expr KIsNull v name op i [])) ctx d = no_argument d"
| "Eval (Some (Expr KIsNull v name op i (a # args))) ctx d =
     (case Eval a ctx d of
        (None, d1) \<Rightarrow> (None, d1)
      | (Some x, d1) \<Rightarrow> (Some (VBoolean (if op = ''is null'' then IsNull x else \<not> IsNull x)), d1))"
| "Eval (Some (Expr KUnary v name op i [])) ctx d = no_argument d"
| "Eval (Some (Expr KUnary v name op i (a # args))) ctx d =
     (case Eval a ctx d of (None, d1) \<Rightarrow> (None, d1) | (Some x, d1) \<Rightarrow> eval_unary op x d1)"
| "Eval (Some (Expr KFunction v name op i args)) ctx d =
     (if name = ''in'' then
        (case args of
           [] \<Rightarrow> no_argument d
         | a # rest \<Rightarrow>
             (case Eval a ctx d of
                (None, d1) \<Rightarrow> (Some VNull, d1)
              | (Some x, d1) \<Rightarrow> if IsNull x then (Some VNull, d1) else EvalIn x rest ctx d1))
      else if name = ''coalesce'' then EvalCoalesce args ctx d
      else
        (case args of
           [] \<Rightarrow> fail_with (InvalidArgument ''function requires an argument'') d
         | a # rest \<Rightarrow>
             (case Eval a ctx d of
                (None, d1) \<Rightarrow> (Some VNull, d1)
              | (Some x, d1) \<Rightarrow> if IsNull x then (Some VNull, d1) else eval_call name x d1)))"
| "Eval (Some (Expr KBinary v name op i (a # b # args))) ctx d =
     (case Eval a ctx d of (left, d1) \<Rightarrow>
      case Eval b ctx d1 of (right, d2) \<Rightarrow>
      (case (left, right) of
         (Some x, Some y) \<Rightarrow> eval_binary op x y d2
       | _ \<Rightarrow> (None, d2)))"
| "Eval (Some (Expr KBinary v name op i args)) ctx d = no_argument d"
| "EvalIn needle [] ctx d = (Some (VBoolean False), d)"
| "EvalIn needle (a # args) ctx d =
     (case Eval a ctx d of
        (None, d1) \<Rightarrow> (None, d1)
      | (Some x, d1) \<Rightarrow>
          if Equals needle x = Some True then (Some (VBoolean True), d1) else EvalIn needle args ctx d1)"
| "EvalCoalesce [] ctx d = (Some VNull, d)"
| "EvalCoalesce (a # args) ctx d =
     (case Eval a ctx d of
        (None, d1) \<Rightarrow> (None, d1)
      | (Some x, d1) \<Rightarrow> if \<not> IsNull x then (Some x, d1) else EvalCoalesce args ctx d1)"
  by pat_completeness auto
termination
  by (relation "measure (\<lambda>x. case x of
        Inl (e, _, _) \<Rightarrow> size_option size e
      | Inr (Inl (_, args, _, _)) \<Rightarrow> size_list (size_option size) args
      | Inr (Inr (args, _, _)) \<Rightarrow> size_list (size_option size) args)") auto

definition Truthy :: "sqlvalue \<Rightarrow> bool" where
  "Truthy v \<longleftrightarrow> v = VBoolean True"

section \<open>The LIKE matcher\<close>

text \<open>The meaning of a pattern: \<open>_\<close> is one character, \<open>%\<close> any run of them.\<close>

fun like_spec :: "string \<Rightarrow> string \<Rightarrow> bool" where
  "like_spec v [] \<longleftrightarrow> v = []"
| "like_spec [] (p # ps) \<longleftrightarrow> p = CHR ''%'' \<and> like_spec [] ps"
| "like_spec (c # v) (p # ps) \<longleftrightarrow>
     (if p = CHR ''%'' then like_spec (c # v) ps \<or> like_spec v (p # ps)
      else (p = CHR ''_'' \<or> p = c) \<and> like_spec v ps)"

lemma like_spec_Nil: "like_spec [] p \<longleftrightarrow> (\<forall>c \<in> set p. c = CHR ''%'')"
  by (induction p) auto

lemma like_spec_wild: "like_spec v (CHR ''%'' # p) \<longleftrightarrow> (\<exists>j \<le> length v. like_spec (drop j v) p)"
proof (induction v)
  case (Cons c v)
  have "(\<exists>j \<le> length (c # v). like_spec (drop j (c # v)) p) \<longleftrightarrow>
      like_spec (c # v) p \<or> (\<exists>j \<le> length v. like_spec (drop j v) p)"
    by (metis Suc_le_mono drop0 drop_Suc_Cons length_Cons not0_implies_Suc zero_le)
  then show ?case using Cons by simp
qed simp

lemma like_spec_segment:
  "CHR ''%'' \<notin> set q \<Longrightarrow> like_spec v (q @ p) \<Longrightarrow> length q \<le> length v \<and> like_spec (drop (length q) v) p"
proof (induction q arbitrary: v)
  case (Cons c q)
  then show ?case by (cases v) auto
qed simp

text \<open>Where the loop stands: the text since the wildcard matches the pattern since it.\<close>

definition like_inv :: "string \<Rightarrow> string \<Rightarrow> nat \<Rightarrow> nat \<Rightarrow> nat option \<Rightarrow> nat \<Rightarrow> bool" where
  "like_inv value pattern vi pi wildcard wv \<longleftrightarrow>
     vi \<le> length value \<and> pi \<le> length pattern \<and>
     (case wildcard of
        None \<Rightarrow> True
      | Some w \<Rightarrow>
          w < pi \<and> wv \<le> vi \<and> pi - (w + 1) = vi - wv \<and>
          CHR ''%'' \<notin> set (take (pi - (w + 1)) (drop (w + 1) pattern)))"

definition like_retry :: "string \<Rightarrow> string \<Rightarrow> nat option \<Rightarrow> nat \<Rightarrow> bool" where
  "like_retry value pattern wildcard wv \<longleftrightarrow>
     (case wildcard of
        None \<Rightarrow> False
      | Some w \<Rightarrow> (\<exists>j > wv. j \<le> length value \<and> like_spec (drop j value) (drop (w + 1) pattern)))"

lemma like_retry_segment:
  assumes "like_inv value pattern vi pi wildcard wv" "like_retry value pattern wildcard wv"
  shows "\<exists>k > vi. k \<le> length value \<and> like_spec (drop k value) (drop pi pattern)"
proof -
  from assms obtain w j where w: "wildcard = Some w" "wv < j" "j \<le> length value"
      "like_spec (drop j value) (drop (w + 1) pattern)"
      "w < pi" "wv \<le> vi" "pi - (w + 1) = vi - wv"
      "CHR ''%'' \<notin> set (take (pi - (w + 1)) (drop (w + 1) pattern))" "pi \<le> length pattern"
    by (auto simp: like_inv_def like_retry_def split: option.splits)
  let ?q = "take (pi - (w + 1)) (drop (w + 1) pattern)"
  have "drop (w + 1) pattern = ?q @ drop pi pattern" using w(5)
    by (metis Suc_eq_plus1 Suc_leI append_take_drop_id drop_drop le_add_diff_inverse2)
  then have "length ?q \<le> length (drop j value) \<and> like_spec (drop (length ?q) (drop j value)) (drop pi pattern)"
    using like_spec_segment w(4,8) by metis
  moreover have "length ?q = vi - wv" using w(5,7,9) by simp
  ultimately show ?thesis using w(2,3,6) by (intro exI [where x = "j + (vi - wv)"]) (auto simp: add.commute)
qed

lemma like_inv_hit:
  assumes "CHR ''%'' \<notin> set value" "like_inv value pattern vi pi wildcard wv"
    and "vi < length value" "pi < length pattern" "pattern ! pi = CHR ''_'' \<or> pattern ! pi = value ! vi"
  shows "like_inv value pattern (vi + 1) (pi + 1) wildcard wv"
    and "like_spec (drop vi value) (drop pi pattern) = like_spec (drop (vi + 1) value) (drop (pi + 1) pattern)"
proof -
  have c: "pattern ! pi \<noteq> CHR ''%''" 
  proof
    assume "pattern ! pi = CHR ''%''"
    with assms(5) have "value ! vi = CHR ''%''" by simp
    with nth_mem [OF assms(3)] assms(1) show False by simp
  qed
  have "take (Suc (pi - (w + 1))) (drop (w + 1) pattern) =
      take (pi - (w + 1)) (drop (w + 1) pattern) @ [pattern ! pi]" if "w < pi" for w
    using that assms(4) by (simp add: take_Suc_conv_app_nth)
  then show "like_inv value pattern (vi + 1) (pi + 1) wildcard wv"
    using assms c by (auto simp: like_inv_def Suc_diff_le Suc_diff_Suc split: option.splits)
  show "like_spec (drop vi value) (drop pi pattern) = like_spec (drop (vi + 1) value) (drop (pi + 1) pattern)"
    using assms c by (simp add: Cons_nth_drop_Suc [of vi "value", symmetric] Cons_nth_drop_Suc [of pi pattern, symmetric])
qed

lemma like_wild:
  assumes "like_inv value pattern vi pi wildcard wv"
    and "vi < length value" "pi < length pattern" "pattern ! pi = CHR ''%''"
  shows "like_inv value pattern vi (pi + 1) (Some pi) vi"
    and "like_spec (drop vi value) (drop pi pattern) \<or> like_retry value pattern wildcard wv \<longleftrightarrow>
      like_spec (drop vi value) (drop (pi + 1) pattern) \<or> like_retry value pattern (Some pi) vi"
proof -
  show "like_inv value pattern vi (pi + 1) (Some pi) vi" using assms by (simp add: like_inv_def)
  have wild: "like_spec (drop k value) (drop pi pattern) \<longleftrightarrow>
      (\<exists>j \<ge> k. j \<le> length value \<and> like_spec (drop j value) (drop (pi + 1) pattern))" if "k \<le> length value" for k
  proof -
    have "drop pi pattern = CHR ''%'' # drop (pi + 1) pattern"
      using assms(3,4) by (simp add: Cons_nth_drop_Suc [of pi pattern, symmetric])
    then have "like_spec (drop k value) (drop pi pattern) \<longleftrightarrow>
        (\<exists>i \<le> length value - k. like_spec (drop (i + k) value) (drop (pi + 1) pattern))"
      by (simp add: like_spec_wild)
    also have "\<dots> \<longleftrightarrow> (\<exists>j \<ge> k. j \<le> length value \<and> like_spec (drop j value) (drop (pi + 1) pattern))"
    proof
      assume "\<exists>j \<ge> k. j \<le> length value \<and> like_spec (drop j value) (drop (pi + 1) pattern)"
      then obtain j where "k \<le> j" "j \<le> length value" "like_spec (drop j value) (drop (pi + 1) pattern)" by blast
      then show "\<exists>i \<le> length value - k. like_spec (drop (i + k) value) (drop (pi + 1) pattern)"
        by (intro exI [where x = "j - k"]) auto
    next
      assume "\<exists>i \<le> length value - k. like_spec (drop (i + k) value) (drop (pi + 1) pattern)"
      then obtain i where "i \<le> length value - k" "like_spec (drop (i + k) value) (drop (pi + 1) pattern)" by blast
      then show "\<exists>j \<ge> k. j \<le> length value \<and> like_spec (drop j value) (drop (pi + 1) pattern)"
        using that by (intro exI [where x = "i + k"]) auto
    qed
    finally show ?thesis .
  qed
  have "like_spec (drop vi value) (drop pi pattern) \<longleftrightarrow>
      like_spec (drop vi value) (drop (pi + 1) pattern) \<or> like_retry value pattern (Some pi) vi"
    using wild [of vi] assms(2) by (auto simp: like_retry_def order_le_less)
  moreover have "like_retry value pattern wildcard wv \<Longrightarrow> like_spec (drop vi value) (drop pi pattern)"
    using like_retry_segment [OF assms(1)] wild [of vi] assms(2) wild
    by (metis less_imp_le order_trans)
  ultimately show "like_spec (drop vi value) (drop pi pattern) \<or> like_retry value pattern wildcard wv \<longleftrightarrow>
      like_spec (drop vi value) (drop (pi + 1) pattern) \<or> like_retry value pattern (Some pi) vi" by blast
qed

lemma like_miss:
  assumes "like_inv value pattern vi pi wildcard wv" "vi < length value"
    and "\<not> (pi < length pattern \<and> (pattern ! pi = CHR ''_'' \<or> pattern ! pi = value ! vi))"
    and "\<not> (pi < length pattern \<and> pattern ! pi = CHR ''%'')"
  shows "\<not> like_spec (drop vi value) (drop pi pattern)"
    and "wildcard = Some w \<Longrightarrow> like_inv value pattern (wv + 1) (w + 1) wildcard (wv + 1)"
    and "wildcard = Some w \<Longrightarrow> like_retry value pattern wildcard wv \<longleftrightarrow>
      like_spec (drop (wv + 1) value) (drop (w + 1) pattern) \<or> like_retry value pattern wildcard (wv + 1)"
proof -
  show "\<not> like_spec (drop vi value) (drop pi pattern)"
  proof (cases "pi < length pattern")
    case True
    then show ?thesis
      using assms by (simp add: Cons_nth_drop_Suc [of vi "value", symmetric] Cons_nth_drop_Suc [of pi pattern, symmetric])
  qed (use assms(2) in simp)
  show "wildcard = Some w \<Longrightarrow> like_inv value pattern (wv + 1) (w + 1) wildcard (wv + 1)"
    using assms(1,2) by (auto simp: like_inv_def)
  have "wv < length value" if "wildcard = Some w" using assms(1,2) that by (auto simp: like_inv_def)
  then show "wildcard = Some w \<Longrightarrow> like_retry value pattern wildcard wv \<longleftrightarrow>
      like_spec (drop (wv + 1) value) (drop (w + 1) pattern) \<or> like_retry value pattern wildcard (wv + 1)"
    by (auto simp: like_retry_def dest: Suc_lessI Suc_lessD intro: Suc_lessD)
qed

lemma percent_tail:
  assumes "pi \<le> length pattern"
  shows "pi + length (takeWhile P (drop pi pattern)) = length pattern \<longleftrightarrow> (\<forall>c \<in> set (drop pi pattern). P c)"
proof -
  have "length (takeWhile P xs) = length xs \<longleftrightarrow> (\<forall>c \<in> set xs. P c)" for xs
    by (metis takeWhile_eq_all_conv takeWhile_eq_take take_all_iff order_refl length_takeWhile_le le_antisym)
  from this [of "drop pi pattern"] show ?thesis using assms by auto
qed

lemma like_loop_spec:
  assumes "CHR ''%'' \<notin> set value" "like_inv value pattern vi pi wildcard wv"
  shows "like_loop value pattern vi pi wildcard wv \<longleftrightarrow>
    like_spec (drop vi value) (drop pi pattern) \<or> like_retry value pattern wildcard wv"
  using assms
proof (induction "value" pattern vi pi wildcard wv rule: like_loop.induct)
  case (1 "value" pattern vi pi wildcard wv)
  let ?hit = "pi < length pattern \<and> (pattern ! pi = CHR ''_'' \<or> pattern ! pi = value ! vi)"
  let ?wild = "pi < length pattern \<and> pattern ! pi = CHR ''%''"
  show ?case
  proof (cases "vi < length value")
    case False
    then have "\<not> like_retry value pattern wildcard wv"
      using like_retry_segment [OF "1.prems"(2)] by auto
    moreover have "pi \<le> length pattern" using "1.prems"(2) by (simp add: like_inv_def)
    then have "pi + length (takeWhile (\<lambda>c. c = CHR ''%'') (drop pi pattern)) = length pattern \<longleftrightarrow>
        (\<forall>c \<in> set (drop pi pattern). c = CHR ''%'')"
      by (rule percent_tail)
    ultimately show ?thesis
      using False by (simp add: like_loop.simps [of "value" pattern vi] like_spec_Nil)
  next
    case True
    consider ?hit | "\<not> ?hit" ?wild | "\<not> ?hit" "\<not> ?wild" by blast
    then show ?thesis
    proof cases
      case 1
      then show ?thesis
        using "1.IH"(1) [OF True 1] like_inv_hit [OF "1.prems" True] "1.prems"(1) True
        by (subst like_loop.simps) auto
    next
      case 2
      then show ?thesis
        using "1.IH"(2) [OF True 2] like_wild [OF "1.prems"(2) True] "1.prems"(1) True
        by (subst like_loop.simps) auto
    next
      case 3
      then show ?thesis
        using "1.IH"(3) [OF True 3] like_miss [OF "1.prems"(2) True 3] "1.prems"(1) True
        by (subst like_loop.simps) (auto simp: like_retry_def split: option.splits)
    qed
  qed
qed

lemma Like_spec: "CHR ''%'' \<notin> set value \<Longrightarrow> Like value pattern = like_spec value pattern"
  by (simp add: Like_def like_loop_spec like_inv_def like_retry_def)

section \<open>A missing value is always explained\<close>

text \<open>
  A step keeps what has been reported before it, and when it gives no value there is an error
  (or the run has left the defined language).
\<close>

definition reports :: "diag \<Rightarrow> sqlvalue option \<times> diag \<Rightarrow> bool" where
  "reports d r \<longleftrightarrow>
     (dg_status d \<noteq> None \<longrightarrow> dg_status (snd r) \<noteq> None) \<and> (dg_undef d \<longrightarrow> dg_undef (snd r)) \<and>
     (fst r = None \<longrightarrow> dg_status (snd r) \<noteq> None \<or> dg_undef (snd r))"

lemma reports_simps [simp]:
  "reports d (Some v, d)"
  "reports d (Some v, undef_if b d)"
  "reports d (fail_with e d)"
  "reports d (no_argument d)"
  by (simp_all add: reports_def undef_if_def fail_with_def no_argument_def)

lemma reports_logic: "reports d (eval_logic op x y d)"
  by (simp add: eval_logic_def Let_def)

lemma reports_equal: "reports d (eval_equal op x y d)"
  by (simp add: eval_equal_def split: option.split)

lemma reports_like: "reports d (eval_like x y d)"
  by (cases x; cases y) (simp_all add: eval_like_def)

lemma reports_compare: "reports d (eval_compare op x y d)"
  by (simp add: eval_compare_def split: option.split)

lemma reports_integer: "reports d (eval_integer op i j d)"
  by (simp add: eval_integer_def)

lemma reports_arith: "reports d (eval_arith op x y d)"
  by (cases x; cases y) (simp_all add: eval_arith_def Let_def reports_integer)

lemma reports_binary: "reports d (eval_binary op x y d)"
  by (simp add: eval_binary_def reports_logic reports_equal reports_like reports_compare reports_arith)

lemma reports_unary: "reports d (eval_unary op x d)"
  by (simp add: eval_unary_def eval_not_def split: sqlvalue.splits)

lemma reports_call: "reports d (eval_call name x d)"
  by (cases x; cases "name = ''abs''") (simp_all add: eval_call_def)

lemma reports_leaf:
  "reports d (eval_column name ctx d)" "reports d (eval_parameter i ctx d)"
  by (simp_all add: eval_column_def eval_parameter_def Let_def split: option.splits)

lemma reports_trans:
  "reports d (x, d1) \<Longrightarrow> reports d1 r \<Longrightarrow> reports d r"
  by (simp add: reports_def)

lemma reports_some: "reports d (x, d1) \<Longrightarrow> reports d (Some v, d1)"
  by (simp add: reports_def)

lemmas reports_rules = reports_binary reports_unary reports_call reports_leaf

lemma reports_two:
  assumes "reports d (x, d1)" "reports d1 (y, d2)"
  shows "reports d (case (x, y) of (Some v, Some w) \<Rightarrow> eval_binary op v w d2 | _ \<Rightarrow> (None, d2))"
  using assms reports_binary [of d2 op] by (auto simp: reports_def split: option.splits)

lemma arg_complete_Expr:
  "arg_complete (Some (Expr k v name op i args)) \<longleftrightarrow>
     list_all arg_complete args \<and> (k = KUnary \<or> k = KIsNull \<longrightarrow> length args = 1) \<and>
     (k = KBinary \<longrightarrow> length args = 2)"
  by (simp add: arg_complete_def [of "Some _"] expr_complete_args del: expr_complete.simps)

text \<open>An argument that is missing or NULL makes the call NULL; otherwise the call goes on.\<close>

lemma reports_first:
  assumes "reports d (Eval a ctx d)" "\<And>x d1. Eval a ctx d = (Some x, d1) \<Longrightarrow> \<not> IsNull x \<Longrightarrow> reports d1 (f x d1)"
  shows "reports d (case Eval a ctx d of (None, d1) \<Rightarrow> (Some VNull, d1)
    | (Some x, d1) \<Rightarrow> if IsNull x then (Some VNull, d1) else f x d1)"
proof -
  obtain r d1 where r: "Eval a ctx d = (r, d1)" by fastforce
  then show ?thesis
    using assms reports_some [of d r d1 VNull] reports_trans [of d r d1] by (cases r) auto
qed

lemma reports_Eval:
  "arg_complete e \<Longrightarrow> reports d (Eval e ctx d)"
  "list_all arg_complete args \<Longrightarrow> reports d (EvalIn x args ctx d)"
  "list_all arg_complete args \<Longrightarrow> reports d (EvalCoalesce args ctx d)"
proof (induction e ctx d and x args ctx d and args ctx d rule: Eval_EvalIn_EvalCoalesce.induct)
  case (8 v name op i args ctx d)
  have args: "list_all arg_complete args" using "8.prems" by (simp add: arg_complete_Expr)
  show ?case
  proof (cases args)
    case Nil
    then show ?thesis using 8(3) by simp
  next
    case (Cons a rest)
    with args have a: "arg_complete a" "list_all arg_complete rest" by simp_all
    consider "name = ''in''" | "name = ''coalesce''" | "name \<noteq> ''in''" "name \<noteq> ''coalesce''" by blast
    then show ?thesis
    proof cases
      case 1
      have "reports d (Eval a ctx d)" using 8(1) [OF 1 Cons a(1)] .
      moreover have "reports d1 (EvalIn x rest ctx d1)" if "Eval a ctx d = (Some x, d1)" "\<not> IsNull x" for x d1
        using 8(2) [OF 1 Cons that(1) [symmetric] refl that(2) a(2)] .
      ultimately show ?thesis using 1 Cons reports_first [of d a ctx "\<lambda>x d1. EvalIn x rest ctx d1"] by simp
    next
      case 2
      then show ?thesis using 8(3) args by simp
    next
      case 3
      have "reports d (Eval a ctx d)" using 8(4) [OF 3 Cons a(1)] .
      then show ?thesis using 3 Cons reports_first [of d a ctx "eval_call name"] by (simp add: reports_call)
    qed
  qed
next
  case (9 v name op i a b args ctx d)
  then show ?case
    using reports_two by (auto simp: arg_complete_Expr split: prod.split)
qed (auto simp: arg_complete_Expr reports_rules
    split: prod.splits option.splits list.splits intro: reports_trans reports_some)

section \<open>Properties\<close>

text \<open>C21: on a text without \<open>%\<close> the backtracking matcher of LIKE accepts exactly the strings the
  pattern stands for; on a text with one it need not, since a \<open>%\<close> in the text is matched as a
  plain character against the \<open>%\<close> of the pattern first.\<close>

theorem Like_decides_pattern:
  "(CHR ''%'' \<notin> set value \<longrightarrow> Like value pattern = like_spec value pattern) \<and>
   (like_spec ''%a'' ''%'' \<and> \<not> Like ''%a'' ''%'')"
  using Like_spec [of "value" pattern] by (simp add: Like_def like_loop.simps)

theorem Like_decides_pattern_witness: "Like ''abcbd'' ''a%b_'' = like_spec ''abcbd'' ''a%b_''"
  using Like_decides_pattern [of "''abcbd''" "''a%b_''"] by simp

text \<open>evaluation never drops a value silently: when a complete expression has no value, the
  status holds an error (or the run has met undefined behaviour), and an error reported earlier
  stays reported.\<close>

theorem Eval_missing_value_reported:
  assumes "arg_complete e" "Eval e ctx d = (r, d')"
  shows "(r = None \<longrightarrow> dg_status d' \<noteq> None \<or> dg_undef d') \<and>
    (dg_status d \<noteq> None \<longrightarrow> dg_status d' \<noteq> None)"
  using reports_Eval(1) [OF assms(1), of d ctx] assms(2) by (simp add: reports_def)

theorem Eval_missing_value_reported_witness:
  "dg_status (snd (Eval (Some (column_expr ''x'')) \<lparr>ec_schema = None, ec_row = None, ec_params = None\<rparr>
     \<lparr>dg_status = None, dg_undef = False\<rparr>)) \<noteq> None"
  using Eval_missing_value_reported [of "Some (column_expr ''x'')" "\<lparr>ec_schema = None, ec_row = None, ec_params = None\<rparr>"
      "\<lparr>dg_status = None, dg_undef = False\<rparr>"]
  by (simp add: column_expr_def eval_column_def fail_with_def)

text \<open>SQL's three truth values, ordered by how true they are.\<close>

fun truth_value :: "sqlvalue \<Rightarrow> int option" where
  "truth_value (VBoolean b) = Some (if b then 1 else - 1)"
| "truth_value VNull = Some 0"
| "truth_value v = None"

definition of_truth :: "int \<Rightarrow> sqlvalue" where
  "of_truth t = (if 0 < t then VBoolean True else if t < 0 then VBoolean False else VNull)"

text \<open>C22: AND, OR and NOT follow three-valued logic: on BOOLEAN and NULL operands they are minimum,
  maximum and negation of the truth values, with both operands evaluated; any other operand is a
  type error.\<close>

theorem logic_is_three_valued:
  "eval_binary ''and'' x y d =
     (case (truth_value x, truth_value y) of
        (Some s, Some t) \<Rightarrow> (Some (of_truth (min s t)), d)
      | _ \<Rightarrow> fail_with (TypeError ''logical operator requires BOOLEAN'') d) \<and>
   eval_binary ''or'' x y d =
     (case (truth_value x, truth_value y) of
        (Some s, Some t) \<Rightarrow> (Some (of_truth (max s t)), d)
      | _ \<Rightarrow> fail_with (TypeError ''logical operator requires BOOLEAN'') d) \<and>
   eval_unary ''not'' x d =
     (case truth_value x of
        Some s \<Rightarrow> (Some (of_truth (- s)), d)
      | None \<Rightarrow> fail_with (TypeError ''NOT requires BOOLEAN'') d)"
  by (cases x; cases y)
    (auto simp: eval_binary_def eval_logic_def eval_unary_def eval_not_def of_truth_def IsNull_def Let_def)

end
