(* ===== verification/Sql_Table.thy ===== *)
theory Sql_Table
  imports Sql_Eval
begin

text \<open>
  Row constraints and the system tables of \<^verbatim>\<open>src/api/db.cpp\<close>: \<^verbatim>\<open>ValidateRow\<close>
  and \<^verbatim>\<open>RefreshCatalog\<close>. \<open>table_valid\<close> is the meaning of the column constraints
  (NOT NULL, the column type, PRIMARY KEY and UNIQUE); the lemmas show that a row that
  validates can be added to, or put in the place of a row of, a valid table.
\<close>

section \<open>ValidateRow\<close>

definition quote_name :: "string \<Rightarrow> string" where
  "quote_name name = [CHR 0x27] @ name @ [CHR 0x27]"

text \<open>An INTEGER column takes a REAL and the other way round.\<close>

definition type_fits :: "TypeId \<Rightarrow> sqlvalue \<Rightarrow> bool" where
  "type_fits ty v \<longleftrightarrow>
     value_type v = ty \<or>
     ((value_type v = TInteger \<or> value_type v = TReal) \<and> (ty = TInteger \<or> ty = TReal))"

fun check_columns :: "(Column \<times> sqlvalue) list \<Rightarrow> status" where
  "check_columns [] = None"
| "check_columns ((column, v) # rest) =
     (if IsNull v \<and> \<not> col_nullable column then
        Some (InvalidArgument (''column '' @ quote_name (col_name column) @ '' may not be NULL''))
      else if \<not> IsNull v \<and> \<not> type_fits (col_type column) v then
        Some (TypeError (''value for column '' @ quote_name (col_name column) @ '' has the wrong type''))
      else check_columns rest)"

definition keyed :: "Column \<Rightarrow> bool" where
  "keyed c \<longleftrightarrow> col_primary_key c \<or> col_unique c"

text \<open>The existing rows that the inner loop looks at; \<open>ignored\<close> is the row's own index.\<close>

definition other_rows :: "Row list \<Rightarrow> nat option \<Rightarrow> Row list" where
  "other_rows rows ignored =
     map snd (filter (\<lambda>(j, _). Some j \<noteq> ignored) (zip [0..<length rows] rows))"

definition duplicate_at :: "Table \<Rightarrow> Row \<Rightarrow> nat option \<Rightarrow> nat \<Rightarrow> bool" where
  "duplicate_at table row ignored i \<longleftrightarrow>
     keyed (tb_schema table ! i) \<and>
     list_ex (\<lambda>existing. value_eq (existing ! i) (row ! i) \<and> \<not> IsNull (row ! i))
       (other_rows (tb_rows table) ignored)"

definition ValidateRow :: "Table \<Rightarrow> Row \<Rightarrow> nat option \<Rightarrow> status" where
  "ValidateRow table row ignored =
     (if length row \<noteq> length (tb_schema table) then Some (InvalidArgument ''wrong number of values'')
      else
        (case check_columns (zip (tb_schema table) row) of
           Some e \<Rightarrow> Some e
         | None \<Rightarrow>
             (case find (duplicate_at table row ignored) [0..<length row] of
                Some i \<Rightarrow>
                  Some (AlreadyExists (''duplicate value for column '' @ quote_name (col_name (tb_schema table ! i))))
              | None \<Rightarrow> None)))"

section \<open>RefreshCatalog\<close>

definition catalog_column :: "string \<Rightarrow> TypeId \<Rightarrow> bool \<Rightarrow> bool \<Rightarrow> Column" where
  "catalog_column name ty pk uq =
     \<lparr>col_name = name, col_type = ty, col_nullable = False, col_primary_key = pk, col_unique = uq\<rparr>"

definition tables_schema :: Schema where
  "tables_schema =
     [catalog_column ''table_id'' TInteger True True, catalog_column ''name'' TText False True,
      catalog_column ''first_page'' TInteger False False, catalog_column ''tuple_count'' TInteger False False]"

definition columns_schema :: Schema where
  "columns_schema =
     [catalog_column ''table_id'' TInteger False False, catalog_column ''ordinal'' TInteger False False,
      catalog_column ''name'' TText False False, catalog_column ''type'' TInteger False False,
      catalog_column ''nullable'' TBoolean False False, catalog_column ''is_primary'' TBoolean False False]"

definition indexes_schema :: Schema where
  "indexes_schema =
     [catalog_column ''index_id'' TInteger True True, catalog_column ''table_id'' TInteger False False,
      catalog_column ''name'' TText False False, catalog_column ''root_page'' TInteger False False,
      catalog_column ''is_unique'' TBoolean False False, catalog_column ''column_ordinals'' TText False False]"

definition system_prefix :: string where
  "system_prefix = ''tuplestone_''"

definition is_system :: "string \<Rightarrow> bool" where
  "is_system name \<longleftrightarrow> take (length system_prefix) name = system_prefix"

definition VInt :: "nat \<Rightarrow> sqlvalue" where
  "VInt n = VInteger (of_nat n)"

definition tables_row :: "nat \<Rightarrow> string \<Rightarrow> Table \<Rightarrow> Row" where
  "tables_row table_id name table = [VInt table_id, VText name, VInt 0, VInt (length (tb_rows table))]"

definition columns_row :: "nat \<Rightarrow> nat \<Rightarrow> Column \<Rightarrow> Row" where
  "columns_row table_id ordinal column =
     [VInt table_id, VInt ordinal, VText (col_name column), VInt (unat (type_code (col_type column))),
      VBoolean (col_nullable column), VBoolean (col_primary_key column)]"

definition columns_rows :: "nat \<Rightarrow> Table \<Rightarrow> Row list" where
  "columns_rows table_id table =
     map (\<lambda>(ordinal, column). columns_row table_id ordinal column)
       (zip [0..<length (tb_schema table)] (tb_schema table))"

text \<open>The user's tables in the order of the map, numbered from one.\<close>

definition user_tables :: "Tables \<Rightarrow> (nat \<times> string \<times> Table) list" where
  "user_tables tables =
     (let us = filter (\<lambda>(name, _). \<not> is_system name) tables in zip [1..<Suc (length us)] us)"

definition RefreshCatalog :: "Tables \<Rightarrow> Tables" where
  "RefreshCatalog tables =
     om_put ''tuplestone_tables'' \<lparr>tb_schema = tables_schema,
       tb_rows = map (\<lambda>(table_id, name, table). tables_row table_id name table) (user_tables tables)\<rparr>
     (om_put ''tuplestone_columns'' \<lparr>tb_schema = columns_schema,
       tb_rows = concat (map (\<lambda>(table_id, name, table). columns_rows table_id table) (user_tables tables))\<rparr>
     (om_put ''tuplestone_indexes'' \<lparr>tb_schema = indexes_schema, tb_rows = []\<rparr> tables))"

section \<open>What the constraints mean\<close>

definition row_valid :: "Schema \<Rightarrow> Row \<Rightarrow> bool" where
  "row_valid schema row \<longleftrightarrow>
     length row = length schema \<and>
     (\<forall>i < length schema.
        (IsNull (row ! i) \<longrightarrow> col_nullable (schema ! i)) \<and>
        (\<not> IsNull (row ! i) \<longrightarrow> type_fits (col_type (schema ! i)) (row ! i)))"

definition clash :: "sqlvalue \<Rightarrow> sqlvalue \<Rightarrow> bool" where
  "clash a b \<longleftrightarrow> value_eq a b \<and> \<not> IsNull b"

definition keys_distinct :: "Schema \<Rightarrow> Row list \<Rightarrow> bool" where
  "keys_distinct schema rows \<longleftrightarrow>
     (\<forall>i < length schema. keyed (schema ! i) \<longrightarrow>
        (\<forall>j < length rows. \<forall>k < length rows. j \<noteq> k \<longrightarrow> \<not> clash (rows ! j ! i) (rows ! k ! i)))"

definition table_valid :: "Table \<Rightarrow> bool" where
  "table_valid t \<longleftrightarrow> list_all (row_valid (tb_schema t)) (tb_rows t) \<and> keys_distinct (tb_schema t) (tb_rows t)"

lemma Equals_commute: "Equals a b = Equals b a"
proof -
  have "Compare a b = map_option uminus (Compare b a)" by (rule Compare_antisym)
  then show ?thesis by (cases "Compare b a") (auto simp: Equals_def)
qed

lemma clash_commute: "clash a b \<longleftrightarrow> clash b a"
  by (auto simp: clash_def value_eq_def Equals_commute [of a b])

lemma check_columns_None:
  "length schema = length row \<Longrightarrow> check_columns (zip schema row) = None \<longleftrightarrow> row_valid schema row"
proof (induction schema row rule: list_induct2)
  case (Cons c schema v row)
  have "row_valid (c # schema) (v # row) \<longleftrightarrow>
      (IsNull v \<longrightarrow> col_nullable c) \<and> (\<not> IsNull v \<longrightarrow> type_fits (col_type c) v) \<and> row_valid schema row"
    by (auto simp: row_valid_def less_Suc_eq_0_disj nth_Cons split: nat.splits)
  then show ?case using Cons by auto
qed (simp add: row_valid_def)

lemma set_other_rows: "set (other_rows rows ignored) = {rows ! j | j. j < length rows \<and> Some j \<noteq> ignored}"
  by (force simp: other_rows_def set_zip image_iff)

lemma find_None_upt: "find P [0..<n] = None \<longleftrightarrow> (\<forall>i < n. \<not> P i)"
  by (auto simp: find_None_iff)

lemma ValidateRow_None:
  "ValidateRow t row ignored = None \<longleftrightarrow>
     row_valid (tb_schema t) row \<and>
     (\<forall>i < length (tb_schema t). keyed (tb_schema t ! i) \<longrightarrow>
        (\<forall>j < length (tb_rows t). Some j \<noteq> ignored \<longrightarrow> \<not> clash (tb_rows t ! j ! i) (row ! i)))"
proof (cases "length row = length (tb_schema t)")
  case True
  then have "ValidateRow t row ignored = None \<longleftrightarrow>
      row_valid (tb_schema t) row \<and> (\<forall>i < length (tb_schema t). \<not> duplicate_at t row ignored i)"
    using check_columns_None [of "tb_schema t" row] find_None_upt [of "duplicate_at t row ignored" "length (tb_schema t)"]
    by (auto simp: ValidateRow_def split: option.split)
  moreover have "duplicate_at t row ignored i \<longleftrightarrow> keyed (tb_schema t ! i) \<and>
      (\<exists>j < length (tb_rows t). Some j \<noteq> ignored \<and> clash (tb_rows t ! j ! i) (row ! i))" for i
    by (auto simp: duplicate_at_def clash_def list_ex_iff set_other_rows)
  ultimately show ?thesis by auto
next
  case False
  then show ?thesis by (simp add: ValidateRow_def row_valid_def)
qed

lemma table_valid_insert:
  assumes "table_valid t" "ValidateRow t row None = None"
  shows "table_valid (t\<lparr>tb_rows := tb_rows t @ [row]\<rparr>)"
  using assms clash_commute
  by (auto simp: table_valid_def ValidateRow_None keys_distinct_def nth_append less_Suc_eq)

lemma table_valid_update:
  assumes "table_valid t" "ValidateRow t row (Some j) = None" "j < length (tb_rows t)"
  shows "table_valid (t\<lparr>tb_rows := (tb_rows t)[j := row]\<rparr>)"
proof -
  have "list_all (row_valid (tb_schema t)) ((tb_rows t)[j := row])"
    using assms by (auto simp: table_valid_def ValidateRow_None list_all_iff dest!: set_update_subset_insert [THEN subsetD])
  moreover have "keys_distinct (tb_schema t) ((tb_rows t)[j := row])"
    using assms clash_commute
    by (auto simp: table_valid_def ValidateRow_None keys_distinct_def nth_list_update)
  ultimately show ?thesis by (simp add: table_valid_def)
qed

lemma keys_distinct_sorted:
  "keys_distinct schema rows \<longleftrightarrow>
     (\<forall>i < length schema. keyed (schema ! i) \<longrightarrow> sorted_wrt (\<lambda>r s. \<not> clash (r ! i) (s ! i)) rows)"
  by (auto simp: keys_distinct_def sorted_wrt_iff_nth_less) (metis clash_commute nat_neq_iff)

lemma table_valid_filter: "table_valid t \<Longrightarrow> table_valid (t\<lparr>tb_rows := filter P (tb_rows t)\<rparr>)"
  by (auto simp: table_valid_def list_all_iff keys_distinct_sorted sorted_wrt_filter)

lemma table_valid_empty [simp]: "table_valid \<lparr>tb_schema = schema, tb_rows = []\<rparr>"
  by (simp add: table_valid_def keys_distinct_def)

section \<open>The system tables\<close>

lemma is_system_names [simp]:
  "is_system ''tuplestone_tables''" "is_system ''tuplestone_columns''" "is_system ''tuplestone_indexes''"
  by (simp_all add: is_system_def system_prefix_def)

lemma filter_om_put: "\<not> P k \<Longrightarrow> om_ok m \<Longrightarrow> filter (\<lambda>(n, _). P n) (om_put k v m) = filter (\<lambda>(n, _). P n) m"
  by (induction k v m rule: om_put.induct) (auto simp: om_ok_Cons)

lemma user_tables_put: "is_system k \<Longrightarrow> om_ok m \<Longrightarrow> user_tables (om_put k v m) = user_tables m"
  by (simp add: user_tables_def filter_om_put [where P = "\<lambda>n. \<not> is_system n"])

lemma om_ok_RefreshCatalog: "om_ok ts \<Longrightarrow> om_ok (RefreshCatalog ts)"
  by (simp add: RefreshCatalog_def)

lemma user_tables_RefreshCatalog: "om_ok ts \<Longrightarrow> user_tables (RefreshCatalog ts) = user_tables ts"
  by (simp add: RefreshCatalog_def user_tables_put)

lemma om_find_RefreshCatalog:
  assumes "om_ok ts"
  shows "om_find (RefreshCatalog ts) = (om_find ts)
    (''tuplestone_indexes'' \<mapsto> \<lparr>tb_schema = indexes_schema, tb_rows = []\<rparr>,
     ''tuplestone_columns'' \<mapsto> \<lparr>tb_schema = columns_schema,
       tb_rows = concat (map (\<lambda>(table_id, name, table). columns_rows table_id table) (user_tables ts))\<rparr>,
     ''tuplestone_tables'' \<mapsto> \<lparr>tb_schema = tables_schema,
       tb_rows = map (\<lambda>(table_id, name, table). tables_row table_id name table) (user_tables ts)\<rparr>)"
  using assms by (simp add: RefreshCatalog_def om_find_put)

lemma om_find_RefreshCatalog_user:
  "om_ok ts \<Longrightarrow> \<not> is_system name \<Longrightarrow> om_find (RefreshCatalog ts) name = om_find ts name"
  by (auto simp: om_find_RefreshCatalog)

lemma RefreshCatalog_idem: "om_ok ts \<Longrightarrow> RefreshCatalog (RefreshCatalog ts) = RefreshCatalog ts"
  by (rule om.find_ext) (simp_all add: om_ok_RefreshCatalog om_find_RefreshCatalog user_tables_RefreshCatalog)

section \<open>Properties\<close>

text \<open>C17: \<^verbatim>\<open>ValidateRow\<close> accepts a row exactly when it is as wide as the schema, has NULL only
  in nullable columns and otherwise values of the column's type, and repeats no value of a PRIMARY
  KEY or UNIQUE column of another row.\<close>

theorem ValidateRow_accepts_iff:
  "ValidateRow t row ignored = None \<longleftrightarrow>
     row_valid (tb_schema t) row \<and>
     (\<forall>i j. i < length (tb_schema t) \<and> j < length (tb_rows t) \<and> keyed (tb_schema t ! i) \<and> Some j \<noteq> ignored \<and>
        \<not> IsNull (row ! i) \<longrightarrow> \<not> value_eq (tb_rows t ! j ! i) (row ! i))"
  using ValidateRow_None [of t row ignored] by (auto simp: clash_def)

theorem ValidateRow_accepts_iff_witness:
  "ValidateRow \<lparr>tb_schema = [catalog_column ''id'' TInteger True False], tb_rows = [[VBoolean True]]\<rparr> [VNull] None \<noteq> None"
  using ValidateRow_accepts_iff [of "\<lparr>tb_schema = [catalog_column ''id'' TInteger True False], tb_rows = [[VBoolean True]]\<rparr>" "[VNull]" None]
  by (auto simp: row_valid_def catalog_column_def IsNull_def)

text \<open>the constraints of a table are an invariant of the row operations: adding a validated row,
  putting a validated row in the place of another, and removing rows keep every row well typed and
  every key column free of duplicates.\<close>

theorem row_operations_keep_constraints:
  assumes "table_valid t"
  shows "(ValidateRow t row None = None \<longrightarrow> table_valid (t\<lparr>tb_rows := tb_rows t @ [row]\<rparr>)) \<and>
    (j < length (tb_rows t) \<longrightarrow> ValidateRow t row (Some j) = None \<longrightarrow>
       table_valid (t\<lparr>tb_rows := (tb_rows t)[j := row]\<rparr>)) \<and>
    table_valid (t\<lparr>tb_rows := filter P (tb_rows t)\<rparr>)"
  using table_valid_insert [OF assms] table_valid_update [OF assms] table_valid_filter [OF assms] by blast

theorem row_operations_keep_constraints_witness:
  "table_valid \<lparr>tb_schema = [catalog_column ''id'' TInteger True False], tb_rows = [[VInteger 7]]\<rparr>"
  using row_operations_keep_constraints
    [of "\<lparr>tb_schema = [catalog_column ''id'' TInteger True False], tb_rows = []\<rparr>" "[VInteger 7]" 0 "\<lambda>_. True"]
  by (simp add: ValidateRow_None row_valid_def catalog_column_def IsNull_def type_fits_def)

text \<open>refreshing the catalog leaves every user table as it is, describes exactly the user tables
  (numbered in the order of their names), and does nothing more the second time.\<close>

theorem RefreshCatalog_describes_tables:
  assumes "om_ok ts"
  shows "(\<forall>name. \<not> is_system name \<longrightarrow> om_find (RefreshCatalog ts) name = om_find ts name) \<and>
    map_option tb_rows (om_find (RefreshCatalog ts) ''tuplestone_tables'') =
      Some (map (\<lambda>(table_id, name, table). tables_row table_id name table) (user_tables ts)) \<and>
    RefreshCatalog (RefreshCatalog ts) = RefreshCatalog ts"
  using assms om_find_RefreshCatalog_user RefreshCatalog_idem by (simp add: om_find_RefreshCatalog)

theorem RefreshCatalog_describes_tables_witness:
  "map_option tb_rows (om_find (RefreshCatalog sample_tables) ''tuplestone_tables'') =
     Some [[VInt 1, VText ''t'', VInt 0, VInt 2]]"
proof -
  have "om_ok sample_tables" using sample_tables_fit by (simp add: tables_fit_def)
  moreover have "map (\<lambda>(table_id, name, table). tables_row table_id name table) (user_tables sample_tables) =
      [[VInt 1, VText ''t'', VInt 0, VInt 2]]"
    by (simp add: user_tables_def sample_tables_def is_system_def system_prefix_def tables_row_def numeral_2_eq_2)
  ultimately show ?thesis using RefreshCatalog_describes_tables [of sample_tables] by simp
qed

end
