(* ===== verification/Sql_Exec.thy ===== *)
theory Sql_Exec
  imports Sql_Table
begin

text \<open>
  The statements of \<^verbatim>\<open>ExecuteSql\<close> in \<^verbatim>\<open>src/api/db.cpp\<close>, one definition per
  command, over the connection's working tables: CREATE TABLE, DROP TABLE, INSERT, UPDATE,
  DELETE and SELECT. A statement changes the tables it was given also when it fails half way,
  as the code does through its reference; \<open>oc_persist\<close> says that it ends in
  \<^verbatim>\<open>persist()\<close>. Parser status and evaluation status are one variable in the code and
  one field here.
\<close>

section \<open>Loops\<close>

datatype ('s, 'r) step = Again 's | Stop 'r

primrec iterate :: "nat \<Rightarrow> ('s \<Rightarrow> ('s, 'r) step) \<Rightarrow> 's \<Rightarrow> 'r option" where
  "iterate 0 f s = None"
| "iterate (Suc n) f s = (case f s of Stop r \<Rightarrow> Some r | Again s' \<Rightarrow> iterate n f s')"

section \<open>Results\<close>

text \<open>\<^verbatim>\<open>ResultSet::Impl\<close>; a default constructed \<^verbatim>\<open>ResultSet\<close> has none.\<close>

record ResultImpl =
  ri_schema :: Schema
  ri_rows :: "Row list"
  ri_index :: nat
  ri_closed :: bool

type_synonym ResultSet = "ResultImpl option"

definition new_result :: "Schema \<Rightarrow> Row list \<Rightarrow> ResultSet" where
  "new_result schema rows = Some \<lparr>ri_schema = schema, ri_rows = rows, ri_index = 0, ri_closed = False\<rparr>"

record outcome =
  oc_result :: "ResultSet status_or"
  oc_tables :: Tables
  oc_persist :: bool
  oc_undef :: bool

definition failed :: "payload \<Rightarrow> Tables \<Rightarrow> bool \<Rightarrow> outcome" where
  "failed err tables u = \<lparr>oc_result = Inl err, oc_tables = tables, oc_persist = False, oc_undef = u\<rparr>"

text \<open>\<^verbatim>\<open>return status;\<close>, whatever the status is.\<close>

definition return_status :: "parser \<Rightarrow> Tables \<Rightarrow> bool \<Rightarrow> outcome" where
  "return_status p tables u =
     \<lparr>oc_result = status_or_of_status None (ps_status p), oc_tables = tables, oc_persist = False, oc_undef = u\<rparr>"

definition return_persist :: "Tables \<Rightarrow> bool \<Rightarrow> outcome" where
  "return_persist tables u = \<lparr>oc_result = Inr None, oc_tables = tables, oc_persist = True, oc_undef = u\<rparr>"

definition return_result :: "ResultSet \<Rightarrow> Tables \<Rightarrow> bool \<Rightarrow> outcome" where
  "return_result r tables u = \<lparr>oc_result = Inr r, oc_tables = tables, oc_persist = False, oc_undef = u\<rparr>"

text \<open>A call of \<^verbatim>\<open>Eval(expr, &context, &status)\<close>.\<close>

definition eval_at :: "expr option \<Rightarrow> eval_context \<Rightarrow> parser \<Rightarrow> bool \<Rightarrow> sqlvalue option \<times> parser \<times> bool" where
  "eval_at e ctx p u =
     (case Eval e ctx \<lparr>dg_status = ps_status p, dg_undef = u\<rparr> of
        (v, d) \<Rightarrow> (v, p\<lparr>ps_status := dg_status d\<rparr>, dg_undef d))"

definition row_context :: "Schema \<Rightarrow> Row \<Rightarrow> sqlvalue list \<Rightarrow> eval_context" where
  "row_context schema row params = \<lparr>ec_schema = Some schema, ec_row = Some row, ec_params = Some params\<rparr>"

section \<open>CREATE TABLE\<close>

definition column_type :: "string \<Rightarrow> TypeId option" where
  "column_type ty =
     (if ty = ''integer'' then Some TInteger else if ty = ''real'' then Some TReal
      else if ty = ''text'' then Some TText else if ty = ''boolean'' then Some TBoolean
      else if ty = ''blob'' then Some TBlob else None)"

text \<open>One turn of the column loop; the result is an error or the columns.\<close>

definition create_step ::
    "Column list \<times> parser \<Rightarrow> (Column list \<times> parser, status \<times> Column list \<times> parser) step" where
  "create_step s =
     (case s of (columns, p) \<Rightarrow>
      case Accept '')'' p of
        (True, p1) \<Rightarrow> Stop (None, columns, p1)
      | (False, p1) \<Rightarrow>
      case Identifier p1 of (name, p2) \<Rightarrow>
      if ps_status p2 \<noteq> None then Stop (ps_status p2, columns, p2) else
      case Identifier p2 of (ty, p3) \<Rightarrow>
      if ps_status p3 \<noteq> None then Stop (ps_status p3, columns, p3) else
      case column_type ty of
        None \<Rightarrow> Stop (Some (TypeError ''unknown column type''), columns, p3)
      | Some t \<Rightarrow>
      case Accept ''not'' p3 of (has_not, p4) \<Rightarrow>
      case (if has_not then Expect ''null'' p4 else (True, p4)) of (null_ok, p5) \<Rightarrow>
      if \<not> null_ok then Stop (ps_status p5, columns, p5) else
      case Accept ''primary'' p5 of (has_primary, p6) \<Rightarrow>
      case (if has_primary then Expect ''key'' p6 else (True, p6)) of (key_ok, p7) \<Rightarrow>
      if \<not> key_ok then Stop (ps_status p7, columns, p7) else
      case Accept ''unique'' p7 of (has_unique, p8) \<Rightarrow>
      let column = \<lparr>col_name = name, col_type = t, col_nullable = \<not> has_not \<and> \<not> has_primary,
            col_primary_key = has_primary, col_unique = has_unique\<rparr> in
      case Accept '','' p8 of
        (True, p9) \<Rightarrow> Again (columns @ [column], p9)
      | (False, p9) \<Rightarrow>
      case Expect '')'' p9 of
        (True, p10) \<Rightarrow> Again (columns @ [column], p10)
      | (False, p10) \<Rightarrow> Stop (ps_status p10, columns, p10))"

text \<open>Fuel for a loop whose every turn passes a token.\<close>

definition loop_fuel :: "parser \<Rightarrow> nat" where
  "loop_fuel p = Suc (remaining p)"

text \<open>\<^verbatim>\<open>Accept("if") && Accept("not") && Accept("exists")\<close>\<close>

definition accept_if_not_exists :: "parser \<Rightarrow> bool \<times> parser" where
  "accept_if_not_exists p =
     (case Accept ''if'' p of (False, q) \<Rightarrow> (False, q) | (True, q) \<Rightarrow>
      case Accept ''not'' q of (False, q') \<Rightarrow> (False, q') | (True, q') \<Rightarrow> Accept ''exists'' q')"

definition exec_create :: "Tables \<Rightarrow> parser \<Rightarrow> outcome" where
  "exec_create tables p0 =
     (case Accept ''create'' p0 of (_, p1) \<Rightarrow>
      case Expect ''table'' p1 of
        (False, p2) \<Rightarrow> return_status p2 tables False
      | (True, p2) \<Rightarrow>
      case accept_if_not_exists p2 of (if_not_exists, p3) \<Rightarrow>
      case Identifier p3 of (ident, p4) \<Rightarrow>
      let name = Lower ident in
      if ps_status p4 \<noteq> None then return_status p4 tables False else
      if om_find tables name \<noteq> None then
        (if if_not_exists then return_result (new_result [] []) tables False
         else failed (AlreadyExists ''table already exists'') tables False)
      else
      case Expect ''('' p4 of
        (False, p5) \<Rightarrow> return_status p5 tables False
      | (True, p5) \<Rightarrow>
      case iterate (loop_fuel p5) create_step ([], p5) of
        Some (None, columns, p6) \<Rightarrow>
          return_persist (om_emplace name \<lparr>tb_schema = columns, tb_rows = []\<rparr> tables) False
      | Some (Some err, columns, p6) \<Rightarrow> failed err tables False
      | None \<Rightarrow> failed (Internal ''fuel'') tables False)"

section \<open>DROP TABLE\<close>

definition exec_drop :: "Tables \<Rightarrow> parser \<Rightarrow> outcome" where
  "exec_drop tables p0 =
     (case Accept ''drop'' p0 of (_, p1) \<Rightarrow>
      case Expect ''table'' p1 of
        (False, p2) \<Rightarrow> return_status p2 tables False
      | (True, p2) \<Rightarrow>
      case Identifier p2 of (ident, p3) \<Rightarrow>
      let name = Lower ident in
      if ps_status p3 \<noteq> None then return_status p3 tables False else
      if om_find tables name = None then failed (NotFound ''table does not exist'') tables False
      else return_persist (om_erase name tables) False)"

section \<open>INSERT\<close>

text \<open>One turn of the loop over the parenthesised column names.\<close>

definition target_step ::
    "Schema \<Rightarrow> nat list \<times> parser \<Rightarrow> (nat list \<times> parser, (payload + nat list) \<times> parser) step" where
  "target_step schema s =
     (case s of (targets, p) \<Rightarrow>
      case Accept '')'' p of
        (True, p1) \<Rightarrow> Stop (Inr targets, p1)
      | (False, p1) \<Rightarrow>
      case Identifier p1 of (ident, p2) \<Rightarrow>
      let index = schema_Find schema ident in
      if index < 0 then Stop (Inl (NotFound ''unknown column''), p2) else
      let targets' = targets @ [nat index] in
      case Accept '','' p2 of
        (True, p3) \<Rightarrow> Again (targets', p3)
      | (False, p3) \<Rightarrow>
      case Expect '')'' p3 of
        (True, p4) \<Rightarrow> Again (targets', p4)
      | (False, p4) \<Rightarrow> Stop (Inl (the (ps_status p4)), p4))"

text \<open>
  The loop over the values of one row: the row is filled at the target columns; \<open>Inl\<close> is a
  return with the status as it stands.
\<close>

fun insert_values ::
    "Schema \<Rightarrow> sqlvalue list \<Rightarrow> nat list \<Rightarrow> Row \<Rightarrow> parser \<Rightarrow> bool \<Rightarrow> (parser \<times> bool) + (Row \<times> parser \<times> bool)" where
  "insert_values schema params [] row p u = Inr (row, p, u)"
| "insert_values schema params (t # ts) row p u =
     (case Expression p of (e, p1) \<Rightarrow>
      if ps_status p1 \<noteq> None then Inl (p1, u) else
      case eval_at e \<lparr>ec_schema = Some schema, ec_row = None, ec_params = Some params\<rparr> p1 u of (v, p2, u2) \<Rightarrow>
      (case (ps_status p2, v) of
         (None, Some x) \<Rightarrow>
           (let row' = row[t := x] in
            if ts = [] then Inr (row', p2, u2) else
            case Expect '','' p2 of
              (True, p3) \<Rightarrow> insert_values schema params ts row' p3 u2
            | (False, p3) \<Rightarrow> Inl (p3, u2))
       | _ \<Rightarrow> Inl (p2, u2)))"

text \<open>One turn of the loop over the rows; the table keeps the rows already added.\<close>

definition insert_step ::
    "sqlvalue list \<Rightarrow> nat list \<Rightarrow> Table \<times> parser \<times> bool \<Rightarrow>
     (Table \<times> parser \<times> bool, (payload option \<times> bool) \<times> Table \<times> parser \<times> bool) step" where
  "insert_step params targets s =
     (case s of (table, p, u) \<Rightarrow>
      case Expect ''('' p of
        (False, p1) \<Rightarrow> Stop ((ps_status p1, False), table, p1, u)
      | (True, p1) \<Rightarrow>
      case insert_values (tb_schema table) params targets (replicate (length (tb_schema table)) VNull) p1 u of
        Inl (p2, u2) \<Rightarrow> Stop ((ps_status p2, False), table, p2, u2)
      | Inr (row, p2, u2) \<Rightarrow>
      case Expect '')'' p2 of
        (False, p3) \<Rightarrow> Stop ((ps_status p3, False), table, p3, u2)
      | (True, p3) \<Rightarrow>
      case ValidateRow table row None of
        Some err \<Rightarrow> Stop ((Some err, False), table, p3, u2)
      | None \<Rightarrow>
      let table' = table\<lparr>tb_rows := tb_rows table @ [row]\<rparr> in
      case Accept '','' p3 of
        (True, p4) \<Rightarrow> Again (table', p4, u2)
      | (False, p4) \<Rightarrow> Stop ((None, True), table', p4, u2))"

text \<open>The target columns: those in parentheses, or all of them.\<close>

definition insert_targets :: "Schema \<Rightarrow> parser \<Rightarrow> (payload + nat list) \<times> parser" where
  "insert_targets schema p =
     (case Accept ''('' p of
        (True, q) \<Rightarrow>
          (case iterate (loop_fuel q) (target_step schema) ([], q) of
             Some r \<Rightarrow> r | None \<Rightarrow> (Inl (Internal ''fuel''), q))
      | (False, q) \<Rightarrow> (Inr [0..<length schema], q))"

definition exec_insert :: "Tables \<Rightarrow> sqlvalue list \<Rightarrow> parser \<Rightarrow> outcome" where
  "exec_insert tables params p0 =
     (case Accept ''insert'' p0 of (_, p1) \<Rightarrow>
      case Expect ''into'' p1 of
        (False, p2) \<Rightarrow> return_status p2 tables False
      | (True, p2) \<Rightarrow>
      case Identifier p2 of (ident, p3) \<Rightarrow>
      let name = Lower ident in
      if ps_status p3 \<noteq> None then return_status p3 tables False else
      case om_find tables name of
        None \<Rightarrow> failed (NotFound ''table does not exist'') tables False
      | Some table \<Rightarrow>
      case insert_targets (tb_schema table) p3 of
        (Inl err, p5) \<Rightarrow> failed err tables False
      | (Inr targets, p5) \<Rightarrow>
      case Expect ''values'' p5 of
        (False, p6) \<Rightarrow> return_status p6 tables False
      | (True, p6) \<Rightarrow>
      case iterate (loop_fuel p6) (insert_step params targets) (table, p6, False) of
        None \<Rightarrow> failed (Internal ''fuel'') tables False
      | Some ((status, finished), table', p7, u) \<Rightarrow>
      let tables' = om_put name table' tables in
      if finished then return_persist tables' u
      else \<lparr>oc_result = status_or_of_status None status, oc_tables = tables', oc_persist = False, oc_undef = u\<rparr>)"

section \<open>UPDATE\<close>

definition assignment_step ::
    "Schema \<Rightarrow> (nat \<times> expr option) list \<times> parser \<Rightarrow>
     ((nat \<times> expr option) list \<times> parser, (payload + (nat \<times> expr option) list) \<times> parser) step" where
  "assignment_step schema s =
     (case s of (assignments, p) \<Rightarrow>
      case Identifier p of (ident, p1) \<Rightarrow>
      let col = schema_Find schema ident in
      if ps_status p1 \<noteq> None \<or> col < 0 then Stop (Inl (NotFound ''unknown column''), p1) else
      case Expect ''='' p1 of
        (False, p2) \<Rightarrow> Stop (Inl (the (ps_status p2)), p2)
      | (True, p2) \<Rightarrow>
      case Expression p2 of (e, p3) \<Rightarrow>
      if ps_status p3 \<noteq> None then Stop (Inl (the (ps_status p3)), p3) else
      let assignments' = assignments @ [(nat col, e)] in
      case Accept '','' p3 of
        (True, p4) \<Rightarrow> Again (assignments', p4)
      | (False, p4) \<Rightarrow> Stop (Inr assignments', p4))"

text \<open>\<^verbatim>\<open>predicate ? Eval(...) : Value(true)\<close>\<close>

definition eval_where :: "expr option \<Rightarrow> eval_context \<Rightarrow> parser \<Rightarrow> bool \<Rightarrow> sqlvalue option \<times> parser \<times> bool" where
  "eval_where predicate ctx p u =
     (if predicate = None then (Some (VBoolean True), p, u) else eval_at predicate ctx p u)"

definition selected :: "sqlvalue option \<Rightarrow> bool" where
  "selected v \<longleftrightarrow> (case v of Some x \<Rightarrow> Truthy x | None \<Rightarrow> False)"

fun assign_row ::
    "Schema \<Rightarrow> sqlvalue list \<Rightarrow> Row \<Rightarrow> (nat \<times> expr option) list \<Rightarrow> Row \<Rightarrow> parser \<Rightarrow> bool \<Rightarrow>
     (parser \<times> bool) + (Row \<times> parser \<times> bool)" where
  "assign_row schema params row [] next p u = Inr (next, p, u)"
| "assign_row schema params row ((col, e) # rest) next p u =
     (case eval_at e (row_context schema row params) p u of (v, p1, u1) \<Rightarrow>
      (case (ps_status p1, v) of
         (None, Some x) \<Rightarrow> assign_row schema params row rest (next[col := x]) p1 u1
       | _ \<Rightarrow> Inl (p1, u1)))"

text \<open>The loop over the rows from index \<open>j\<close> on, \<open>n\<close> rows still to go.\<close>

fun update_rows ::
    "sqlvalue list \<Rightarrow> (nat \<times> expr option) list \<Rightarrow> expr option \<Rightarrow> nat \<Rightarrow> nat \<Rightarrow> Table \<Rightarrow> parser \<Rightarrow> bool \<Rightarrow>
     (payload option \<times> bool) \<times> Table \<times> bool" where
  "update_rows params assignments predicate j 0 table p u = ((None, True), table, u)"
| "update_rows params assignments predicate j (Suc n) table p u =
     (let row = tb_rows table ! j; schema = tb_schema table in
      case eval_where predicate (row_context schema row params) p u of (v, p1, u1) \<Rightarrow>
      if ps_status p1 \<noteq> None then ((ps_status p1, False), table, u1) else
      if \<not> selected v then update_rows params assignments predicate (Suc j) n table p1 u1 else
      case assign_row schema params row assignments row p1 u1 of
        Inl (p2, u2) \<Rightarrow> ((ps_status p2, False), table, u2)
      | Inr (next, p2, u2) \<Rightarrow>
      case ValidateRow table next (Some j) of
        Some err \<Rightarrow> ((Some err, False), table, u2)
      | None \<Rightarrow>
          update_rows params assignments predicate (Suc j) n
            (table\<lparr>tb_rows := (tb_rows table)[j := next]\<rparr>) p2 u2)"

definition parse_where :: "parser \<Rightarrow> expr option \<times> parser" where
  "parse_where p = (case Accept ''where'' p of (True, p1) \<Rightarrow> Expression p1 | (False, p1) \<Rightarrow> (None, p1))"

definition exec_update :: "Tables \<Rightarrow> sqlvalue list \<Rightarrow> parser \<Rightarrow> outcome" where
  "exec_update tables params p0 =
     (case Accept ''update'' p0 of (_, p1) \<Rightarrow>
      case Identifier p1 of (ident, p2) \<Rightarrow>
      let name = Lower ident in
      if ps_status p2 \<noteq> None then return_status p2 tables False else
      case om_find tables name of
        None \<Rightarrow> failed (NotFound ''table does not exist'') tables False
      | Some table \<Rightarrow>
      case Expect ''set'' p2 of
        (False, p3) \<Rightarrow> return_status p3 tables False
      | (True, p3) \<Rightarrow>
      case iterate (loop_fuel p3) (assignment_step (tb_schema table)) ([], p3) of
        None \<Rightarrow> failed (Internal ''fuel'') tables False
      | Some (Inl err, p4) \<Rightarrow> failed err tables False
      | Some (Inr assignments, p4) \<Rightarrow>
      case parse_where p4 of (predicate, p5) \<Rightarrow>
      case update_rows params assignments predicate 0 (length (tb_rows table)) table p5 False of
        ((status, finished), table', u) \<Rightarrow>
      let tables' = om_put name table' tables in
      if finished then return_persist tables' u
      else \<lparr>oc_result = status_or_of_status None status, oc_tables = tables', oc_persist = False, oc_undef = u\<rparr>)"

section \<open>DELETE\<close>

fun delete_rows ::
    "Schema \<Rightarrow> sqlvalue list \<Rightarrow> expr option \<Rightarrow> Row list \<Rightarrow> Row list \<Rightarrow> parser \<Rightarrow> bool \<Rightarrow>
     (parser \<times> bool) + (Row list \<times> parser \<times> bool)" where
  "delete_rows schema params predicate [] kept p u = Inr (kept, p, u)"
| "delete_rows schema params predicate (row # rows) kept p u =
     (case eval_where predicate (row_context schema row params) p u of (v, p1, u1) \<Rightarrow>
      if ps_status p1 \<noteq> None then Inl (p1, u1)
      else delete_rows schema params predicate rows (if selected v then kept else kept @ [row]) p1 u1)"

definition exec_delete :: "Tables \<Rightarrow> sqlvalue list \<Rightarrow> parser \<Rightarrow> outcome" where
  "exec_delete tables params p0 =
     (case Accept ''delete'' p0 of (_, p1) \<Rightarrow>
      case Expect ''from'' p1 of
        (False, p2) \<Rightarrow> return_status p2 tables False
      | (True, p2) \<Rightarrow>
      case Identifier p2 of (ident, p3) \<Rightarrow>
      let name = Lower ident in
      if ps_status p3 \<noteq> None then return_status p3 tables False else
      case om_find tables name of
        None \<Rightarrow> failed (NotFound ''table does not exist'') tables False
      | Some table \<Rightarrow>
      case parse_where p3 of (predicate, p4) \<Rightarrow>
      case delete_rows (tb_schema table) params predicate (tb_rows table) [] p4 False of
        Inl (p5, u) \<Rightarrow> return_status p5 tables u
      | Inr (kept, p5, u) \<Rightarrow> return_persist (om_put name (table\<lparr>tb_rows := kept\<rparr>) tables) u)"

section \<open>Loops over tokens end\<close>

text \<open>A parser in bounds with at most \<open>n\<close> tokens to go.\<close>

definition within :: "nat \<Rightarrow> parser \<Rightarrow> bool" where
  "within n p \<longleftrightarrow> parser_ok p \<and> remaining p \<le> n"

named_theorems within_rules

lemma within_start: "parser_ok p \<Longrightarrow> within (remaining p) p"
  by (simp add: within_def)

lemma within_pos: "within n p \<Longrightarrow> 0 < n"
  using remaining_pos [of p] by (simp add: within_def)

lemma within_parser_ok: "within n p \<Longrightarrow> parser_ok p"
  by (simp add: within_def)

lemma within_after: "within n p \<Longrightarrow> after p q \<Longrightarrow> within n q"
  using after_ok after_remaining by (fastforce simp: within_def)

lemma within_less: "within n p \<Longrightarrow> after p q \<Longrightarrow> remaining q < remaining p \<Longrightarrow> within (n - 1) q"
  using after_ok by (fastforce simp: within_def)

lemma Accept_ok: "parser_ok p \<Longrightarrow> s \<noteq> [] \<Longrightarrow> parser_ok (snd (Accept s p))"
  by (metis Accept_after(1) after_ok prod.collapse)

lemma within_Accept [within_rules]: "within n p \<Longrightarrow> s \<noteq> [] \<Longrightarrow> within n (snd (Accept s p))"
  by (metis Accept_after(1) prod.collapse within_after within_parser_ok)

lemma within_Expect [within_rules]: "within n p \<Longrightarrow> s \<noteq> [] \<Longrightarrow> within n (snd (Expect s p))"
  by (metis Expect_after(1) prod.collapse within_after within_parser_ok)

lemma within_Identifier [within_rules]: "within n p \<Longrightarrow> within n (snd (Identifier p))"
  by (metis Identifier_after prod.collapse within_after within_parser_ok)

lemma within_Expression [within_rules]: "within n p \<Longrightarrow> within n (snd (Expression p))"
  by (metis Expression_total snd_conv within_after within_parser_ok)

lemma within_Accept_less [within_rules]:
  "within n p \<Longrightarrow> fst (Accept s p) \<Longrightarrow> s \<notin> {[], '')''} \<Longrightarrow> within (n - Suc 0) (snd (Accept s p))"
  using Accept_after(1,2) [OF within_parser_ok prod.collapse [symmetric]]
  by (metis One_nat_def insertCI within_less)

lemma within_Expect_less [within_rules]:
  "within n p \<Longrightarrow> fst (Expect s p) \<Longrightarrow> s \<notin> {[], '')''} \<Longrightarrow> within (n - Suc 0) (snd (Expect s p))"
  using Expect_after(1,2) [OF within_parser_ok prod.collapse [symmetric]]
  by (metis One_nat_def insertCI within_less)

lemma within_Identifier_less [within_rules]:
  "within n p \<Longrightarrow> ps_status (snd (Identifier p)) = None \<Longrightarrow> within (n - Suc 0) (snd (Identifier p))"
  using after_advance [of p] within_less [of n p "advance_token p"]
  by (auto simp: Identifier_def set_status_def within_parser_ok split: if_splits)

lemma within_status [within_rules]: "within n (p\<lparr>ps_status := st\<rparr>) = within n p"
  by (simp add: within_def parser_ok_def remaining_def)

lemma within_eval_at [within_rules]: "within n (fst (snd (eval_at e ctx p u))) = within n p"
  by (simp add: eval_at_def within_status split: prod.split)

lemma within_eval_where [within_rules]: "within n (fst (snd (eval_where e ctx p u))) = within n p"
  by (simp add: eval_where_def within_eval_at)

lemma Expression_complete: "within n p \<Longrightarrow> ps_status (snd (Expression p)) = None \<Longrightarrow> arg_complete (fst (Expression p))"
  by (metis Expression_total fst_conv snd_conv within_parser_ok)

lemma iterate_rule:
  assumes "J n s"
    and "\<And>n s s'. J n s \<Longrightarrow> f s = Again s' \<Longrightarrow> \<exists>m < n. J m s'"
    and "\<And>n s r. J n s \<Longrightarrow> f s = Stop r \<Longrightarrow> Q r"
  shows "\<exists>r. iterate (Suc n) f s = Some r \<and> Q r"
proof -
  have "J n s \<Longrightarrow> n < k \<Longrightarrow> \<exists>r. iterate k f s = Some r \<and> Q r" for k
  proof (induction k arbitrary: n s)
    case (Suc k)
    show ?case
    proof (cases "f s")
      case (Again s')
      then obtain m where "m < n" "J m s'" using assms(2) Suc.prems(1) by blast
      then show ?thesis using Suc.IH [of m s'] Suc.prems(2) Again by simp
    next
      case (Stop r)
      then show ?thesis using assms(3) Suc.prems(1) by simp
    qed
  qed simp
  then show ?thesis using assms(1) by blast
qed

text \<open>The shape all token loops share: each further turn has fewer tokens to go.\<close>

lemma iterate_tokens:
  assumes "parser_ok (pos s)" "I s"
    and "\<And>n s s'. within n (pos s) \<Longrightarrow> I s \<Longrightarrow> f s = Again s' \<Longrightarrow> within (n - 1) (pos s') \<and> I s'"
    and "\<And>n s r. within n (pos s) \<Longrightarrow> I s \<Longrightarrow> f s = Stop r \<Longrightarrow> Q r"
  shows "\<exists>r. iterate (loop_fuel (pos s)) f s = Some r \<and> Q r"
  unfolding loop_fuel_def
proof (rule iterate_rule [where J = "\<lambda>n s. within n (pos s) \<and> I s"])
  show "within (remaining (pos s)) (pos s) \<and> I s" using assms(1,2) by (simp add: within_start)
  show "\<exists>m < n. within m (pos s') \<and> I s'" if "within n (pos s) \<and> I s" "f s = Again s'" for n s s'
    using assms(3) that within_pos by (intro exI [of _ "n - 1"]) fastforce
  show "Q r" if "within n (pos s) \<and> I s" "f s = Stop r" for n s r
    using assms(4) that by blast
qed

lemmas step_splits = prod.splits bool.splits if_splits option.splits sum.splits

lemma create_step_Again:
  assumes "within n p" "create_step (columns, p) = Again (columns', p')"
  shows "within (n - 1) p'"
  using assms
  by (auto simp: create_step_def case_prod_beta Let_def within_rules split: bool.splits if_splits option.splits)

lemma within_close_less [within_rules]:
  "within n p \<Longrightarrow> \<not> fst (Accept '','' p) \<Longrightarrow> fst (Expect '')'' (snd (Accept '','' p))) \<Longrightarrow>
   within (n - Suc 0) (snd (Expect '')'' (snd (Accept '','' p))))"
proof -
  assume a: "within n p" "\<not> fst (Accept '','' p)" "fst (Expect '')'' (snd (Accept '','' p)))"
  let ?q = "snd (Accept '','' p)"
  have q: "within n ?q" using a(1) by (simp add: within_rules)
  have "\<not> ps_closed ?q"
    using Accept_after(3) [OF within_parser_ok [OF a(1)] prod.collapse [symmetric], of "'',''"] a(2) by simp
  then show ?thesis
    using Expect_after(1,2) [OF within_parser_ok [OF q] prod.collapse [symmetric], of "'')''"] a(3)
      within_less [OF q] by simp
qed

lemma create_step_columns:
  "create_step (columns, p) = Again (columns', p') \<Longrightarrow> list_all (\<lambda>c. col_type c \<noteq> TNull) columns \<Longrightarrow>
   list_all (\<lambda>c. col_type c \<noteq> TNull) columns'"
  "create_step (columns, p) = Stop (st, columns', p') \<Longrightarrow> columns' = columns"
  by (auto simp: create_step_def case_prod_beta Let_def column_type_def split: bool.splits if_splits option.splits)

lemma create_loop:
  assumes "parser_ok p"
  shows "\<exists>r. iterate (loop_fuel p) create_step ([], p) = Some r \<and>
    list_all (\<lambda>c. col_type c \<noteq> TNull) (fst (snd r))"
  using iterate_tokens [of snd "([], p)" "\<lambda>s. list_all (\<lambda>c. col_type c \<noteq> TNull) (fst s)" create_step
      "\<lambda>r. list_all (\<lambda>c. col_type c \<noteq> TNull) (fst (snd r))"]
    assms create_step_Again create_step_columns
  by fastforce

lemma target_step_Again:
  assumes "within n p" "target_step schema (targets, p) = Again (targets', p')"
  shows "within (n - 1) p'"
  using assms
  by (auto simp: target_step_def case_prod_beta Let_def within_rules split: bool.splits if_splits)

lemma target_step_Stop:
  "within n p \<Longrightarrow> target_step schema (targets, p) = Stop (r, q) \<Longrightarrow> within n q"
  by (auto simp: target_step_def case_prod_beta Let_def within_rules split: bool.splits if_splits)

lemma target_loop:
  "parser_ok p \<Longrightarrow> \<exists>r. iterate (loop_fuel p) (target_step schema) (targets, p) = Some r \<and> parser_ok (snd r)"
  using iterate_tokens [of snd "(targets, p)" "\<lambda>_. True" "target_step schema" "\<lambda>r. parser_ok (snd r)"]
    target_step_Again target_step_Stop within_parser_ok
  by fastforce

lemma assignment_step_Again:
  assumes "within n p" "assignment_step schema (as, p) = Again (as', p')"
  shows "within (n - 1) p'"
  using assms
  by (auto simp: assignment_step_def case_prod_beta Let_def within_rules split: bool.splits if_splits)

lemma assignment_step_Stop:
  "within n p \<Longrightarrow> assignment_step schema (as, p) = Stop (r, q) \<Longrightarrow> within n q"
  by (auto simp: assignment_step_def case_prod_beta Let_def within_rules split: bool.splits if_splits)

lemma assignment_loop:
  "parser_ok p \<Longrightarrow> \<exists>r. iterate (loop_fuel p) (assignment_step schema) (as, p) = Some r \<and> parser_ok (snd r)"
  using iterate_tokens [of snd "(as, p)" "\<lambda>_. True" "assignment_step schema" "\<lambda>r. parser_ok (snd r)"]
    assignment_step_Again assignment_step_Stop within_parser_ok
  by fastforce

section \<open>What statements keep\<close>

definition keeps_table :: "Table \<Rightarrow> Table \<Rightarrow> bool" where
  "keeps_table t t' \<longleftrightarrow>
     tb_schema t' = tb_schema t \<and> (table_ok t \<longrightarrow> table_ok t') \<and> (table_valid t \<longrightarrow> table_valid t')"

lemma keeps_refl [simp]: "keeps_table t t"
  by (simp add: keeps_table_def)

lemma keeps_trans: "keeps_table t t' \<Longrightarrow> keeps_table t' t'' \<Longrightarrow> keeps_table t t''"
  by (simp add: keeps_table_def)

lemma keeps_insert:
  "ValidateRow t row None = None \<Longrightarrow> keeps_table t (t\<lparr>tb_rows := tb_rows t @ [row]\<rparr>)"
  using table_valid_insert [of t row]
  by (auto simp: keeps_table_def table_ok_def ValidateRow_None row_valid_def)

lemma keeps_update:
  "ValidateRow t row (Some j) = None \<Longrightarrow> j < length (tb_rows t) \<Longrightarrow>
   keeps_table t (t\<lparr>tb_rows := (tb_rows t)[j := row]\<rparr>)"
  using table_valid_update [of t row j]
  by (auto simp: keeps_table_def table_ok_def ValidateRow_None row_valid_def list_all_iff
      dest!: set_update_subset_insert [THEN subsetD])

lemma sorted_wrt_mask: "sorted_wrt R xs \<Longrightarrow> sorted_wrt R (map fst (filter snd (zip xs bs)))"
proof (induction xs arbitrary: bs)
  case (Cons x xs)
  then show ?case by (cases bs) (auto dest: set_zip_leftD)
qed simp

lemma keeps_mask: "keeps_table t (t\<lparr>tb_rows := map fst (filter snd (zip (tb_rows t) bs))\<rparr>)"
  using sorted_wrt_mask [where xs = "tb_rows t" and bs = bs]
  by (auto simp: keeps_table_def table_ok_def table_valid_def list_all_iff keys_distinct_sorted
      dest: set_zip_leftD)

lemma keeps_filter: "keeps_table t (t\<lparr>tb_rows := filter P (tb_rows t)\<rparr>)"
  using table_valid_filter [of t P] by (auto simp: keeps_table_def table_ok_def list_all_iff)

text \<open>Well formed tables that meet their constraints; the system tables are rebuilt, not kept.\<close>

definition db_valid :: "Tables \<Rightarrow> bool" where
  "db_valid ts \<longleftrightarrow> tables_ok ts \<and> (\<forall>name t. om_find ts name = Some t \<longrightarrow> \<not> is_system name \<longrightarrow> table_valid t)"

lemma db_valid_om_ok: "db_valid ts \<Longrightarrow> om_ok ts"
  by (simp add: db_valid_def tables_ok_def)

lemma db_valid_table_ok: "db_valid ts \<Longrightarrow> om_find ts name = Some t \<Longrightarrow> table_ok t"
  by (auto simp: db_valid_def tables_ok_def list_all_iff dest!: om_find_SomeD)

lemma db_valid_put:
  assumes "db_valid ts" "om_find ts (Lower name) = Some t" "keeps_table t t'"
  shows "db_valid (om_put (Lower name) t' ts)"
  using assms db_valid_table_ok [OF assms(1,2)] tables_ok_put [of ts t' name]
  by (auto simp: db_valid_def om_find_put [OF db_valid_om_ok [OF assms(1)]] keeps_table_def)

lemma db_valid_emplace:
  assumes "db_valid ts" "list_all (\<lambda>c. col_type c \<noteq> TNull) columns"
  shows "db_valid (om_emplace (Lower name) \<lparr>tb_schema = columns, tb_rows = []\<rparr> ts)"
  using assms tables_ok_emplace [of ts "\<lparr>tb_schema = columns, tb_rows = []\<rparr>" name]
  by (auto simp: db_valid_def om_emplace_def om_find_put [OF db_valid_om_ok [OF assms(1)]] table_ok_def
      split: option.splits)

lemma db_valid_erase: "db_valid ts \<Longrightarrow> db_valid (om_erase name ts)"
  by (simp add: db_valid_def tables_ok_erase om_find_erase)

lemma table_ok_catalog:
  "table_ok \<lparr>tb_schema = tables_schema, tb_rows = map (\<lambda>(table_id, name, table). tables_row table_id name table) us\<rparr>"
  "table_ok \<lparr>tb_schema = columns_schema,
     tb_rows = concat (map (\<lambda>(table_id, name, table). columns_rows table_id table) us)\<rparr>"
  "table_ok \<lparr>tb_schema = indexes_schema, tb_rows = []\<rparr>"
  by (auto simp: table_ok_def tables_schema_def columns_schema_def indexes_schema_def catalog_column_def
      tables_row_def columns_rows_def columns_row_def list_all_iff)

lemma Lower_catalog:
  "Lower ''tuplestone_tables'' = ''tuplestone_tables''" "Lower ''tuplestone_columns'' = ''tuplestone_columns''"
  "Lower ''tuplestone_indexes'' = ''tuplestone_indexes''"
  by (simp_all add: Lower_def tolower_def isupper_def)

lemma db_valid_RefreshCatalog: "db_valid ts \<Longrightarrow> db_valid (RefreshCatalog ts)"
  using om_find_RefreshCatalog_user [of ts] tables_ok_put [where name = "''tuplestone_tables''"]
    tables_ok_put [where name = "''tuplestone_columns''"] tables_ok_put [where name = "''tuplestone_indexes''"]
  by (auto simp: db_valid_def RefreshCatalog_def [of ts] tables_ok_def [of ts] Lower_catalog table_ok_catalog)

lemma insert_values_within:
  assumes "within n p"
  shows "insert_values schema params ts row p u = Inl (q, v) \<Longrightarrow> within n q"
    and "insert_values schema params ts row p u = Inr (row', q, v) \<Longrightarrow> within n q"
proof -
  have "(\<forall>q v. insert_values schema params ts row p u = Inl (q, v) \<longrightarrow> within n q) \<and>
      (\<forall>row' q v. insert_values schema params ts row p u = Inr (row', q, v) \<longrightarrow> within n q)"
    using assms
  proof (induction ts arbitrary: row p u)
    case (Cons t ts)
    obtain e p1 where 1: "Expression p = (e, p1)" by fastforce
    obtain v p2 u2 where 2: "eval_at e \<lparr>ec_schema = Some schema, ec_row = None, ec_params = Some params\<rparr> p1 u =
        (v, p2, u2)" by (metis prod_cases3)
    obtain b p3 where 3: "Expect '','' p2 = (b, p3)" by fastforce
    have w1: "within n p1" using within_Expression [OF Cons.prems] 1 by simp
    then have w2: "within n p2" using within_eval_at [of n e _ p1 u] 2 by (metis fst_conv snd_conv)
    then have w3: "within n p3" using within_Expect [of n p2 "'',''"] 3 by simp
    show ?case
      using w1 w2 w3 Cons.IH [OF w3] 1 2 3 by (auto simp: Let_def split: option.splits bool.splits if_splits)
  qed simp
  then show "insert_values schema params ts row p u = Inl (q, v) \<Longrightarrow> within n q"
    "insert_values schema params ts row p u = Inr (row', q, v) \<Longrightarrow> within n q" by blast+
qed

lemma insert_step_keeps:
  assumes "insert_step params targets (t, p, u) = Again (t', p', u')"
  shows "keeps_table t t'" "within n p \<Longrightarrow> within (n - 1) p'"
proof -
  obtain p1 row p2 u2 p3 where s: "Expect ''('' p = (True, p1)"
    "insert_values (tb_schema t) params targets (replicate (length (tb_schema t)) VNull) p1 u = Inr (row, p2, u2)"
    "Expect '')'' p2 = (True, p3)" "ValidateRow t row None = None" "Accept '','' p3 = (True, p')"
    "t' = t\<lparr>tb_rows := tb_rows t @ [row]\<rparr>"
    using assms by (auto simp: insert_step_def Let_def split: prod.splits bool.splits sum.splits option.splits)
  show "keeps_table t t'" using s keeps_insert by simp
  assume p: "within n p"
  have "within (n - Suc 0) p1" using within_Expect_less [OF p, of "''(''"] s(1) by simp
  then have "within (n - Suc 0) p2" using insert_values_within(2) s(2) by blast
  then have "within (n - Suc 0) p3" using within_Expect [of "n - Suc 0" p2 "'')''"] s(3) by simp
  then show "within (n - 1) p'" using within_Accept [of "n - Suc 0" p3 "'',''"] s(5) by simp
qed

lemma insert_step_Stop: "insert_step params targets (t, p, u) = Stop (r, t', q) \<Longrightarrow> keeps_table t t'"
  using keeps_insert
  by (auto simp: insert_step_def Let_def split: prod.splits bool.splits sum.splits option.splits)

lemma insert_loop:
  assumes "parser_ok p"
  shows "\<exists>r. iterate (loop_fuel p) (insert_step params targets) (t, p, u) = Some r \<and>
    keeps_table t (fst (snd r))"
proof -
  have "\<exists>x. iterate (loop_fuel (fst (snd (t, p, u)))) (insert_step params targets) (t, p, u) = Some x \<and>
      keeps_table t (fst (snd x))"
  proof (rule iterate_tokens [where I = "\<lambda>s. keeps_table t (fst s)"])
    fix n s s' assume a: "within n (fst (snd s))" "keeps_table t (fst s)"
      "insert_step params targets s = Again s'"
    obtain t1 p1 u1 where s: "s = (t1, p1, u1)" by (cases s)
    obtain t2 p2 u2 where s': "s' = (t2, p2, u2)" by (cases s')
    note k = insert_step_keeps [OF a(3) [unfolded s s']]
    show "within (n - 1) (fst (snd s')) \<and> keeps_table t (fst s')"
      using a(1,2) k(2) keeps_trans [OF _ k(1)] unfolding s s' by simp
  next
    fix n s r assume a: "keeps_table t (fst s)" "insert_step params targets s = Stop r"
    obtain t1 p1 u1 where s: "s = (t1, p1, u1)" by (cases s)
    obtain b t2 q2 where r: "r = (b, t2, q2)" by (cases r)
    show "keeps_table t (fst (snd r))"
      using a(1) keeps_trans [OF _ insert_step_Stop [OF a(2) [unfolded s r]]] unfolding s r by simp
  qed (use assms in simp_all)
  then show ?thesis by simp
qed

lemma update_rows_keeps:
  "j + n = length (tb_rows t) \<Longrightarrow> update_rows params as predicate j n t p u = (r, t', u') \<Longrightarrow> keeps_table t t'"
proof (induction n arbitrary: j t p u)
  case (Suc n)
  from Suc.prems(2) consider "t' = t"
    | p1 u1 where "update_rows params as predicate (Suc j) n t p1 u1 = (r, t', u')"
    | nxt p2 u2 where "ValidateRow t nxt (Some j) = None"
        "update_rows params as predicate (Suc j) n (t\<lparr>tb_rows := (tb_rows t)[j := nxt]\<rparr>) p2 u2 = (r, t', u')"
    by (auto simp: Let_def split: prod.splits if_splits sum.splits option.splits)
  then show ?case
  proof cases
    case 2
    then show ?thesis using Suc.IH [of "Suc j" t] Suc.prems(1) by simp
  next
    case (3 nxt)
    then have "keeps_table t (t\<lparr>tb_rows := (tb_rows t)[j := nxt]\<rparr>)" using keeps_update Suc.prems(1) by simp
    moreover have "keeps_table (t\<lparr>tb_rows := (tb_rows t)[j := nxt]\<rparr>) t'"
      using 3(2) Suc.IH [of "Suc j" "t\<lparr>tb_rows := (tb_rows t)[j := nxt]\<rparr>"] Suc.prems(1) by simp
    ultimately show ?thesis by (rule keeps_trans)
  qed simp
qed simp

lemma delete_rows_filter:
  "delete_rows schema params predicate rows kept p u = Inr (rows', q, u') \<Longrightarrow>
   \<exists>bs. length bs = length rows \<and> rows' = kept @ map fst (filter snd (zip rows bs))"
proof (induction rows arbitrary: kept p u)
  case (Cons row rows)
  from Cons.prems obtain b p1 u1 where
    "delete_rows schema params predicate rows (if b then kept else kept @ [row]) p1 u1 = Inr (rows', q, u')"
    by (fastforce split: prod.splits if_splits)
  from Cons.IH [OF this] obtain bs where "length bs = length rows"
    "rows' = (if b then kept else kept @ [row]) @ map fst (filter snd (zip rows bs))" by blast
  then show ?case by (intro exI [of _ "(\<not> b) # bs"]) auto
qed simp

text \<open>The contract of a statement: it leaves well formed, valid tables behind, also when it fails.\<close>

locale statement =
  fixes run :: "Tables \<Rightarrow> sqlvalue list \<Rightarrow> parser \<Rightarrow> outcome"
  assumes keeps: "parser_ok p \<Longrightarrow> db_valid ts \<Longrightarrow> db_valid (oc_tables (run ts params p))"
begin

lemma keeps_refreshed: "parser_ok p \<Longrightarrow> db_valid ts \<Longrightarrow> db_valid (oc_tables (run (RefreshCatalog ts) params p))"
  by (intro keeps db_valid_RefreshCatalog)

lemma keeps_tokens: "Tokenize sql = Inr tokens \<Longrightarrow> db_valid ts \<Longrightarrow>
    db_valid (oc_tables (run (RefreshCatalog ts) params (new_parser tokens)))"
  by (intro keeps_refreshed Tokenize_parser_ok)

end

lemmas outcome_defs = failed_def return_status_def return_persist_def return_result_def

lemma outcome_tables [simp]:
  "oc_tables (failed e ts u) = ts" "oc_tables (return_status p ts u) = ts"
  "oc_tables (return_persist ts u) = ts" "oc_tables (return_result r ts u) = ts"
  by (simp_all add: outcome_defs)

subsection \<open>Rules for statement bodies\<close>

text \<open>
  A statement is a cascade of parser calls. \<open>sat Q\<close> marks the goal for the rules below, which walk
  down the cascade and keep what is known of the parser.
\<close>

definition sat :: "('a \<Rightarrow> bool) \<Rightarrow> 'a \<Rightarrow> bool" where
  "sat Q x \<longleftrightarrow> Q x"

lemma sat_Accept:
  "parser_ok p \<Longrightarrow> s \<noteq> [] \<Longrightarrow> (\<And>b q. parser_ok q \<Longrightarrow> sat Q (f b q)) \<Longrightarrow> sat Q (case_prod f (Accept s p))"
  by (metis Accept_after(1) after_ok prod.case_eq_if prod.collapse)

lemma sat_Expect:
  "parser_ok p \<Longrightarrow> s \<noteq> [] \<Longrightarrow> (\<And>b q. parser_ok q \<Longrightarrow> (\<not> b \<Longrightarrow> ps_status q \<noteq> None) \<Longrightarrow> sat Q (f b q)) \<Longrightarrow>
   sat Q (case_prod f (Expect s p))"
  using Expect_after(1,3) [of p s] after_ok by (cases "Expect s p") force

lemma sat_Identifier:
  "parser_ok p \<Longrightarrow> (\<And>name q. parser_ok q \<Longrightarrow> sat Q (f name q)) \<Longrightarrow> sat Q (case_prod f (Identifier p))"
  using Identifier_after after_ok by (cases "Identifier p") fastforce

lemma sat_Expression:
  assumes "parser_ok p" "\<And>e q. parser_ok q \<Longrightarrow> (ps_status q = None \<Longrightarrow> arg_complete e) \<Longrightarrow> sat Q (f e q)"
  shows "sat Q (case_prod f (Expression p))"
proof -
  obtain e q where "Expression p = (e, q)" "after p q" "ps_status q = None \<Longrightarrow> arg_complete e"
    using Expression_total [OF assms(1)] by metis
  then show ?thesis using assms(2) after_ok by simp
qed

lemma sat_branch:
  "(b \<Longrightarrow> sat Q x) \<Longrightarrow> (\<not> b \<Longrightarrow> sat Q y) \<Longrightarrow> sat Q (case_bool x y b)"
  "(c \<Longrightarrow> sat Q x) \<Longrightarrow> (\<not> c \<Longrightarrow> sat Q y) \<Longrightarrow> sat Q (if c then x else y)"
  "(v = None \<Longrightarrow> sat Q x) \<Longrightarrow> (\<And>a. v = Some a \<Longrightarrow> sat Q (f a)) \<Longrightarrow> sat Q (case_option x f v)"
  "(\<And>a. r = Inl a \<Longrightarrow> sat Q (g a)) \<Longrightarrow> (\<And>a. r = Inr a \<Longrightarrow> sat Q (h a)) \<Longrightarrow> sat Q (case_sum g h r)"
  "sat Q (f' a) \<Longrightarrow> sat Q (Let a f')"
  by (auto split: option.split sum.split bool.split)

lemma sat_prod: "(\<And>a b. r = (a, b) \<Longrightarrow> sat Q (f a b)) \<Longrightarrow> sat Q (case_prod f r)"
  by (cases r) simp

lemma sat_if_not_exists:
  assumes "parser_ok p" "\<And>b q. parser_ok q \<Longrightarrow> sat Q (f b q)"
  shows "sat Q (case_prod f (accept_if_not_exists p))"
proof -
  have "sat (\<lambda>r. parser_ok (snd r)) (accept_if_not_exists p)"
    unfolding accept_if_not_exists_def
    by (intro sat_Accept sat_branch assms(1)) (auto simp: sat_def Accept_ok)
  then show ?thesis using assms(2) by (simp add: sat_def case_prod_beta)
qed

text \<open>The loops of the statements, as rules: they end, and leave the parser in bounds.\<close>

lemma iterate_sat:
  assumes "\<exists>r. iterate n f s = Some r \<and> P r" "\<And>r. P r \<Longrightarrow> sat Q (g r)"
  shows "sat Q (case_option x g (iterate n f s))"
  using assms by auto

lemma sat_insert_targets:
  assumes "parser_ok p" "\<And>r q. parser_ok q \<Longrightarrow> sat Q (f r q)"
  shows "sat Q (case_prod f (insert_targets schema p))"
proof -
  have "sat (\<lambda>r. parser_ok (snd r)) (insert_targets schema p)"
    unfolding insert_targets_def
    by (intro sat_Accept sat_branch iterate_sat [OF target_loop] assms(1)) (auto simp: sat_def)
  then show ?thesis using assms(2) by (simp add: sat_def case_prod_beta)
qed

lemma sat_parse_where:
  assumes "parser_ok p" "\<And>e q. parser_ok q \<Longrightarrow> sat Q (f e q)"
  shows "sat Q (case_prod f (parse_where p))"
proof -
  have "sat (\<lambda>r. parser_ok (snd r)) (parse_where p)"
    unfolding parse_where_def
  proof (intro sat_Accept sat_branch assms(1))
    show "sat (\<lambda>r. parser_ok (snd r)) (Expression q)" if "parser_ok q" for q
      using sat_Expression [OF that, of "\<lambda>r. parser_ok (snd r)" Pair] by (simp add: sat_def)
  qed (simp_all add: sat_def)
  then show ?thesis using assms(2) by (simp add: sat_def case_prod_beta)
qed

definition leaves_valid :: "outcome \<Rightarrow> bool" where
  "leaves_valid oc \<longleftrightarrow> db_valid (oc_tables oc)"

lemmas sat_calls = sat_Accept sat_Expect sat_Identifier sat_Expression sat_if_not_exists sat_insert_targets
  sat_parse_where

lemma sat_leaves_valid [simp]: "sat leaves_valid oc \<longleftrightarrow> db_valid (oc_tables oc)"
  by (simp add: sat_def leaves_valid_def)

lemma create_loopD:
  "parser_ok p \<Longrightarrow> iterate (loop_fuel p) create_step ([], p) = Some (st, columns, q) \<Longrightarrow>
   list_all (\<lambda>c. col_type c \<noteq> TNull) columns"
  using create_loop by fastforce

lemma insert_loopD:
  "parser_ok p \<Longrightarrow> iterate (loop_fuel p) (insert_step params targets) (t, p, u) = Some (r, t', q) \<Longrightarrow>
   keeps_table t t'"
  using insert_loop [of p params targets t u] by auto

lemma exec_create_keeps:
  assumes "parser_ok p" "db_valid ts"
  shows "sat leaves_valid (exec_create ts p)"
  unfolding exec_create_def
  by (intro sat_calls sat_branch assms(1))
    (auto simp: assms(2) db_valid_emplace dest: create_loopD split: option.split)

lemma exec_drop_keeps:
  assumes "parser_ok p" "db_valid ts"
  shows "sat leaves_valid (exec_drop ts p)"
  unfolding exec_drop_def
  by (intro sat_calls sat_branch assms(1)) (simp_all add: assms(2) db_valid_erase)

lemma exec_insert_keeps:
  assumes "parser_ok p" "db_valid ts"
  shows "sat leaves_valid (exec_insert ts params p)"
  unfolding exec_insert_def
  by (intro sat_calls sat_branch assms(1))
    (auto simp: assms(2) Let_def dest: insert_loopD intro!: db_valid_put [OF assms(2)] split: prod.splits)

lemma exec_update_keeps:
  assumes "parser_ok p" "db_valid ts"
  shows "sat leaves_valid (exec_update ts params p)"
  unfolding exec_update_def
  by (intro sat_calls sat_branch assms(1))
    (auto simp: assms(2) Let_def sat_def leaves_valid_def dest: update_rows_keeps [rotated]
      intro!: db_valid_put [OF assms(2)] split: prod.splits sum.splits)

lemma keeps_delete:
  "delete_rows schema params predicate (tb_rows t) [] p u = Inr (rows, q, u') \<Longrightarrow> keeps_table t (t\<lparr>tb_rows := rows\<rparr>)"
  by (auto dest!: delete_rows_filter simp: keeps_mask)

lemma exec_delete_keeps:
  assumes "parser_ok p" "db_valid ts"
  shows "sat leaves_valid (exec_delete ts params p)"
  unfolding exec_delete_def
  by (intro sat_calls sat_branch assms(1))
    (auto simp: assms(2) dest: keeps_delete intro!: db_valid_put [OF assms(2)] split: prod.splits)

interpretation create: statement "\<lambda>ts params p. exec_create ts p"
  by unfold_locales (use exec_create_keeps in simp)

interpretation drop: statement "\<lambda>ts params p. exec_drop ts p"
  by unfold_locales (use exec_drop_keeps in simp)

interpretation insert: statement exec_insert
  by unfold_locales (use exec_insert_keeps in simp)

interpretation update: statement exec_update
  by unfold_locales (use exec_update_keeps in simp)

interpretation delete: statement exec_delete
  by unfold_locales (use exec_delete_keeps in simp)

end
