(* ===== verification/Sql_Select.thy ===== *)
theory Sql_Select
  imports Sql_Exec "HOL-Library.Multiset"
begin

text \<open>
  SELECT in \<^verbatim>\<open>ExecuteSql\<close> of \<^verbatim>\<open>src/api/db.cpp\<close>: the select list, WHERE, ORDER BY,
  LIMIT and OFFSET, projection and DISTINCT, and the statement dispatch around it with EXPLAIN,
  the rewriting of COUNT(*) and the refusal of index statements.
\<close>

section \<open>Clauses\<close>

definition item_name :: "expr \<Rightarrow> string" where
  "item_name e = (if ex_kind e = KColumn then ex_name e else ''expr'')"

text \<open>
  One turn of the loop over the select list: the expressions, their names, and whether a null
  expression has been dereferenced.
\<close>

definition item_step ::
    "expr option list \<times> string list \<times> parser \<times> bool \<Rightarrow>
     (expr option list \<times> string list \<times> parser \<times> bool, expr option list \<times> string list \<times> parser \<times> bool) step" where
  "item_step s =
     (case s of (expressions, names, p, u) \<Rightarrow>
      case Expression p of (e, p1) \<Rightarrow>
      if ps_status p1 \<noteq> None then Stop (expressions, names, p1, u) else
      let expressions' = expressions @ [e];
          names' = names @ [case e of Some x \<Rightarrow> item_name x | None \<Rightarrow> []];
          u' = (u \<or> e = None) in
      case Accept '','' p1 of
        (True, p2) \<Rightarrow> Again (expressions', names', p2, u')
      | (False, p2) \<Rightarrow> Stop (expressions', names', p2, u'))"

definition order_step ::
    "(expr option \<times> bool) list \<times> parser \<Rightarrow>
     ((expr option \<times> bool) list \<times> parser, (expr option \<times> bool) list \<times> parser) step" where
  "order_step s =
     (case s of (order_by, p) \<Rightarrow>
      case Expression p of (e, p1) \<Rightarrow>
      if ps_status p1 \<noteq> None then Stop (order_by, p1) else
      case Accept ''desc'' p1 of (desc, p2) \<Rightarrow>
      case Accept ''asc'' p2 of (_, p3) \<Rightarrow>
      let order_by' = order_by @ [(e, desc)] in
      case Accept '','' p3 of
        (True, p4) \<Rightarrow> Again (order_by', p4)
      | (False, p4) \<Rightarrow> Stop (order_by', p4))"

definition integer_value :: "parser \<Rightarrow> sqlvalue option \<Rightarrow> int option" where
  "integer_value p v = (case (ps_status p, v) of (None, Some (VInteger i)) \<Rightarrow> Some (sint i) | _ \<Rightarrow> None)"

definition limit_context :: "sqlvalue list \<Rightarrow> eval_context" where
  "limit_context params = \<lparr>ec_schema = None, ec_row = None, ec_params = Some params\<rparr>"

text \<open>LIMIT and OFFSET; without LIMIT the limit is \<open>- 1\<close>.\<close>

definition parse_limit ::
    "sqlvalue list \<Rightarrow> parser \<Rightarrow> bool \<Rightarrow> (payload + int \<times> int) \<times> parser \<times> bool" where
  "parse_limit params p u =
     (case Accept ''limit'' p of
        (False, p1) \<Rightarrow> (Inr (- 1, 0), p1, u)
      | (True, p1) \<Rightarrow>
      case Expression p1 of (e, p2) \<Rightarrow>
      case eval_at e (limit_context params) p2 u of (v, p3, u3) \<Rightarrow>
      case integer_value p3 v of
        None \<Rightarrow> (Inl (InvalidArgument ''LIMIT requires an integer''), p3, u3)
      | Some limit \<Rightarrow>
      case Accept ''offset'' p3 of
        (False, p4) \<Rightarrow> (Inr (limit, 0), p4, u3)
      | (True, p4) \<Rightarrow>
      case Expression p4 of (e', p5) \<Rightarrow>
      case eval_at e' (limit_context params) p5 u3 of (v', p6, u6) \<Rightarrow>
      case integer_value p6 v' of
        None \<Rightarrow> (Inl (InvalidArgument ''OFFSET requires an integer''), p6, u6)
      | Some offset \<Rightarrow> (Inr (limit, offset), p6, u6))"

definition default_column :: "string \<Rightarrow> TypeId \<Rightarrow> Column" where
  "default_column name ty =
     \<lparr>col_name = name, col_type = ty, col_nullable = True, col_primary_key = False, col_unique = False\<rparr>"

definition output_column :: "Schema \<Rightarrow> expr option \<Rightarrow> string \<Rightarrow> Column" where
  "output_column schema e name =
     (case e of
        Some x \<Rightarrow>
          (let index = schema_Find schema (ex_name x) in
           if ex_kind x = KColumn \<and> 0 \<le> index then schema ! nat index else default_column name TText)
      | None \<Rightarrow> default_column name TText)"

section \<open>Rows\<close>

fun select_rows ::
    "Schema \<Rightarrow> sqlvalue list \<Rightarrow> expr option \<Rightarrow> Row list \<Rightarrow> Row list \<Rightarrow> parser \<Rightarrow> bool \<Rightarrow>
     (parser \<times> bool) + (Row list \<times> parser \<times> bool)" where
  "select_rows schema params predicate [] candidates p u = Inr (candidates, p, u)"
| "select_rows schema params predicate (row # rows) candidates p u =
     (case eval_where predicate (row_context schema row params) p u of (v, p1, u1) \<Rightarrow>
      if ps_status p1 \<noteq> None then Inl (p1, u1)
      else select_rows schema params predicate rows
             (if selected v then candidates @ [row] else candidates) p1 u1)"

text \<open>The comparison of \<^verbatim>\<open>stable_sort\<close>; it evaluates, so it may report errors.\<close>

fun row_less ::
    "Schema \<Rightarrow> sqlvalue list \<Rightarrow> (expr option \<times> bool) list \<Rightarrow> Row \<Rightarrow> Row \<Rightarrow> parser \<Rightarrow> bool \<Rightarrow>
     bool \<times> parser \<times> bool" where
  "row_less schema params [] left right p u = (False, p, u)"
| "row_less schema params ((e, desc) # order_by) left right p u =
     (case eval_at e (row_context schema left params) p u of (lv, p1, u1) \<Rightarrow>
      case eval_at e (row_context schema right params) p1 u1 of (rv, p2, u2) \<Rightarrow>
      (case (lv, rv) of
         (Some x, Some y) \<Rightarrow>
           (case Compare x y of
              Some c \<Rightarrow>
                if c \<noteq> 0 then ((if desc then 0 < c else c < 0), p2, u2)
                else row_less schema params order_by left right p2 u2
            | None \<Rightarrow> row_less schema params order_by left right p2 u2)
       | _ \<Rightarrow> (False, p2, u2)))"

text \<open>
  \<^verbatim>\<open>std::stable_sort\<close> as the insertion sort it is on short ranges: each row moves left past
  the rows it is less than; \<open>placed\<close> is the placed part from its right end. The library leaves a
  comparison undefined that is not a strict weak ordering of the rows; the flag says so.
\<close>

type_synonym row_order = "Row \<Rightarrow> Row \<Rightarrow> parser \<Rightarrow> bool \<Rightarrow> bool \<times> parser \<times> bool"

fun insert_row :: "row_order \<Rightarrow> Row \<Rightarrow> Row list \<Rightarrow> parser \<Rightarrow> bool \<Rightarrow> Row list \<times> parser \<times> bool" where
  "insert_row lt x [] p u = ([x], p, u)"
| "insert_row lt x (y # ys) p u =
     (case lt x y p u of
        (True, p1, u1) \<Rightarrow> (case insert_row lt x ys p1 u1 of (zs, p2, u2) \<Rightarrow> (y # zs, p2, u2))
      | (False, p1, u1) \<Rightarrow> (x # y # ys, p1, u1))"

fun sort_rows :: "row_order \<Rightarrow> Row list \<Rightarrow> Row list \<Rightarrow> parser \<Rightarrow> bool \<Rightarrow> Row list \<times> parser \<times> bool" where
  "sort_rows lt [] placed p u = (rev placed, p, u)"
| "sort_rows lt (x # xs) placed p u =
     (case insert_row lt x placed p u of (placed', p1, u1) \<Rightarrow> sort_rows lt xs placed' p1 u1)"

definition strict_weak_on :: "(Row \<Rightarrow> Row \<Rightarrow> bool) \<Rightarrow> Row list \<Rightarrow> bool" where
  "strict_weak_on lt xs \<longleftrightarrow>
     list_all (\<lambda>x. \<not> lt x x \<and>
       list_all (\<lambda>y. list_all (\<lambda>z. (lt x y \<longrightarrow> lt y z \<longrightarrow> lt x z) \<and>
         (lt x z \<longrightarrow> lt x y \<or> lt y z)) xs) xs) xs"

definition stable_sort :: "row_order \<Rightarrow> Row list \<Rightarrow> parser \<Rightarrow> bool \<Rightarrow> Row list \<times> parser \<times> bool" where
  "stable_sort lt rows p u =
     (case sort_rows lt rows [] p u of (placed, p1, u1) \<Rightarrow>
        (placed, p1, u1 \<or> \<not> strict_weak_on (\<lambda>x y. fst (lt x y p u)) rows))"

text \<open>One output row and its DISTINCT key.\<close>

fun project_row ::
    "eval_context \<Rightarrow> expr option list \<Rightarrow> Row \<Rightarrow> string \<Rightarrow> parser \<Rightarrow> bool \<Rightarrow>
     (parser \<times> bool) + (Row \<times> string \<times> parser \<times> bool)" where
  "project_row ctx [] output key p u = Inr (output, key, p, u)"
| "project_row ctx (e # es) output key p u =
     (case eval_at e ctx p u of (v, p1, u1) \<Rightarrow>
      (case (ps_status p1, v) of
         (None, Some x) \<Rightarrow>
           project_row ctx es (output @ [x]) (key @ value_ToString x @ [CHR 0x00]) p1 u1
       | _ \<Rightarrow> Inl (p1, u1)))"

record emitter =
  em_seen :: "string list"
  em_skipped :: int
  em_returned :: int
  em_rows :: "Row list"

fun emit_rows ::
    "Schema \<Rightarrow> sqlvalue list \<Rightarrow> expr option list \<Rightarrow> bool \<Rightarrow> int \<Rightarrow> int \<Rightarrow> Row list \<Rightarrow> emitter \<Rightarrow> parser \<Rightarrow> bool \<Rightarrow>
     (parser \<times> bool) + (Row list \<times> parser \<times> bool)" where
  "emit_rows schema params es dedup limit offset [] em p u = Inr (em_rows em, p, u)"
| "emit_rows schema params es dedup limit offset (row # rows) em p u =
     (if em_skipped em < offset then
        emit_rows schema params es dedup limit offset rows (em\<lparr>em_skipped := em_skipped em + 1\<rparr>) p u
      else if 0 \<le> limit \<and> limit \<le> em_returned em then Inr (em_rows em, p, u)
      else
        (case project_row (row_context schema row params) es [] [] p u of
           Inl r \<Rightarrow> Inl r
         | Inr (output, key, p1, u1) \<Rightarrow>
             emit_rows schema params es dedup limit offset rows
               (if \<not> dedup \<or> key \<notin> set (em_seen em) then
                  em\<lparr>em_seen := (if dedup then key # em_seen em else em_seen em),
                     em_returned := em_returned em + 1, em_rows := em_rows em @ [output]\<rparr>
                else em) p1 u1))"

definition new_emitter :: emitter where
  "new_emitter = \<lparr>em_seen = [], em_skipped = 0, em_returned = 0, em_rows = []\<rparr>"

section \<open>SELECT\<close>

definition parse_items :: "parser \<Rightarrow> (expr option list \<times> string list \<times> parser \<times> bool) option" where
  "parse_items p =
     (case Accept ''*'' p of
        (True, p1) \<Rightarrow> Some ([], [], p1, False)
      | (False, p1) \<Rightarrow> iterate (loop_fuel p1) item_step ([], [], p1, False))"

text \<open>ORDER BY; \<open>Inl\<close> is a return with the status as it stands.\<close>

definition parse_order :: "parser \<Rightarrow> (parser + (expr option \<times> bool) list \<times> parser) option" where
  "parse_order p =
     (case Accept ''order'' p of
        (False, p1) \<Rightarrow> Some (Inr ([], p1))
      | (True, p1) \<Rightarrow>
      case Expect ''by'' p1 of
        (False, p2) \<Rightarrow> Some (Inl p2)
      | (True, p2) \<Rightarrow>
      case iterate (loop_fuel p2) order_step ([], p2) of
        None \<Rightarrow> None
      | Some (order_by, p3) \<Rightarrow> if ps_status p3 \<noteq> None then Some (Inl p3) else Some (Inr (order_by, p3)))"

text \<open>The part behind the clauses: filter, sort, and produce the rows.\<close>

definition select_from ::
    "Tables \<Rightarrow> Table \<Rightarrow> sqlvalue list \<Rightarrow> bool \<Rightarrow> expr option list \<times> string list \<Rightarrow> expr option \<Rightarrow>
     (expr option \<times> bool) list \<Rightarrow> int \<times> int \<Rightarrow> parser \<Rightarrow> bool \<Rightarrow> outcome" where
  "select_from tables table params dedup items predicate order_by bounds p u =
     (let schema = tb_schema table;
          (expressions, names) =
            (if fst items = [] then (map (\<lambda>c. Some (column_expr (col_name c))) schema, map col_name schema)
             else items);
          output_columns = map (\<lambda>(e, name). output_column schema e name) (zip expressions names) in
      case select_rows schema params predicate (tb_rows table) [] p u of
        Inl (p1, u1) \<Rightarrow> return_status p1 tables u1
      | Inr (candidates, p1, u1) \<Rightarrow>
      case stable_sort (row_less schema params order_by) candidates p1 u1 of (placed, p2, u2) \<Rightarrow>
      case emit_rows schema params expressions dedup (fst bounds) (snd bounds) placed new_emitter p2 u2 of
        Inl (p3, u3) \<Rightarrow> return_status p3 tables u3
      | Inr (rows, p3, u3) \<Rightarrow> return_result (new_result output_columns rows) tables u3)"

definition exec_select :: "Tables \<Rightarrow> sqlvalue list \<Rightarrow> parser \<Rightarrow> outcome" where
  "exec_select tables params p0 =
     (case Accept ''select'' p0 of (_, p1) \<Rightarrow>
      case Accept ''distinct'' p1 of (dedup, p2) \<Rightarrow>
      case parse_items p2 of
        None \<Rightarrow> failed (Internal ''fuel'') tables False
      | Some (expressions, names, p3, u) \<Rightarrow>
      if ps_status p3 \<noteq> None then return_status p3 tables u else
      case Expect ''from'' p3 of
        (False, p4) \<Rightarrow> return_status p4 tables u
      | (True, p4) \<Rightarrow>
      case Identifier p4 of (ident, p5) \<Rightarrow>
      let name = Lower ident in
      if ps_status p5 \<noteq> None then return_status p5 tables u else
      case om_find tables name of
        None \<Rightarrow> failed (NotFound ''table does not exist'') tables u
      | Some table \<Rightarrow>
      case parse_where p5 of (predicate, p6) \<Rightarrow>
      case parse_order p6 of
        None \<Rightarrow> failed (Internal ''fuel'') tables u
      | Some (Inl p7) \<Rightarrow> return_status p7 tables u
      | Some (Inr (order_by, p7)) \<Rightarrow>
      case parse_limit params p7 u of
        (Inl err, p8, u8) \<Rightarrow> failed err tables u8
      | (Inr bounds, p8, u8) \<Rightarrow>
          select_from tables table params dedup (expressions, names) predicate order_by bounds p8 u8)"

section \<open>Dispatch\<close>

definition explain_result :: ResultSet where
  "explain_result =
     new_result [\<lparr>col_name = ''plan'', col_type = TText, col_nullable = False, col_primary_key = False, col_unique = False\<rparr>]
       [[VText ''SeqScan (rule-based planner)'']]"

definition count_set :: "nat \<Rightarrow> ResultSet" where
  "count_set n =
     new_result [\<lparr>col_name = ''count'', col_type = TInteger, col_nullable = False, col_primary_key = False, col_unique = False\<rparr>]
       [[VInt n]]"

text \<open>\<^verbatim>\<open>std::string::find\<close>\<close>

definition find_sub :: "string \<Rightarrow> string \<Rightarrow> nat option" where
  "find_sub pat s = find (\<lambda>i. take (length pat) (drop i s) = pat) [0..<Suc (length s)]"

text \<open>What COUNT(*) returns, given the run of the statement with \<open>*\<close> in its place.\<close>

definition count_fallback :: "string \<Rightarrow> Tables \<Rightarrow> bool \<Rightarrow> outcome" where
  "count_fallback sql tables u =
     (let lowered = Lower sql in
      case find_sub '' from '' lowered of
        None \<Rightarrow> failed (SyntaxError ''COUNT requires FROM'') tables u
      | Some from \<Rightarrow>
      case om_find tables (takeWhile isalnum (dropWhile isspace (drop (from + 6) lowered))) of
        None \<Rightarrow> failed (NotFound ''table does not exist'') tables u
      | Some table \<Rightarrow> return_result (count_set (length (tb_rows table))) tables u)"

definition count_result :: "string \<Rightarrow> outcome \<Rightarrow> outcome" where
  "count_result sql filtered =
     (case oc_result filtered of
        Inr (Some r) \<Rightarrow> return_result (count_set (length (ri_rows r))) (oc_tables filtered) (oc_undef filtered)
      | Inr None \<Rightarrow> return_result (count_set 0) (oc_tables filtered) True
      | Inl _ \<Rightarrow> count_fallback sql (oc_tables filtered) (oc_undef filtered))"

definition index_ddl :: "Tables \<Rightarrow> outcome" where
  "index_ddl tables = failed (NotSupported ''index DDL requires the page-backed index milestone'') tables False"

definition exec_command :: "string \<Rightarrow> Tables \<Rightarrow> sqlvalue list \<Rightarrow> parser \<Rightarrow> outcome" where
  "exec_command command tables params p =
     (if command = ''create'' \<and>
         (tk_text (Peek_at p 1) = ''index'' \<or>
          tk_text (Peek_at p 1) = ''unique'' \<and> tk_text (Peek_at p 2) = ''index'')
      then index_ddl tables
      else if command = ''drop'' \<and> tk_text (Peek_at p 1) = ''index'' then index_ddl tables
      else if command = ''create'' then exec_create tables p
      else if command = ''drop'' then exec_drop tables p
      else if command = ''insert'' then exec_insert tables params p
      else if command = ''update'' then exec_update tables params p
      else if command = ''delete'' then exec_delete tables params p
      else if command = ''select'' then exec_select tables params p
      else failed (SyntaxError ''unsupported SQL statement'') tables False)"

text \<open>The text of a COUNT(*) statement with its first \<^verbatim>\<open>count(*)\<close> replaced.\<close>

definition expand_count :: "nat \<Rightarrow> string \<Rightarrow> string" where
  "expand_count pos sql = take pos sql @ ''*'' @ drop (pos + 8) sql"

lemma find_sub_bound: "find_sub pat s = Some i \<Longrightarrow> i + length pat \<le> length s"
proof -
  assume "find_sub pat s = Some i"
  then have "take (length pat) (drop i s) = pat" "i \<le> length s"
    by (auto simp: find_sub_def find_Some_iff simp del: upt_Suc)
  then have "length (take (length pat) (drop i s)) = length pat" by simp
  with \<open>i \<le> length s\<close> show ?thesis by (simp add: min_def split: if_splits)
qed

text \<open>\<^verbatim>\<open>ExecuteSql\<close> on the working tables of its connection.\<close>

function exec_sql :: "string \<Rightarrow> sqlvalue list \<Rightarrow> Tables \<Rightarrow> outcome" where
  "exec_sql sql params tables0 =
     (case Tokenize sql of
        Inl err \<Rightarrow> failed err tables0 False
      | Inr tokens \<Rightarrow>
          (let p = new_parser tokens; command = tk_text (Peek p); tables = RefreshCatalog tables0 in
           if command = ''explain'' then return_result explain_result tables False
           else
             (case (command = ''select'', find_sub ''count(*)'' (Lower sql)) of
                (True, Some pos) \<Rightarrow> count_result sql (exec_sql (expand_count pos sql) params tables)
              | _ \<Rightarrow> exec_command command tables params p)))"
  by pat_completeness auto
termination
  by (relation "measure (\<lambda>(sql, params, tables). length sql)")
    (auto simp: expand_count_def dest!: sym [where t = "find_sub _ _"] find_sub_bound)

declare exec_sql.simps [simp del]

section \<open>Values do not depend on the diagnostics\<close>

named_theorems fst_rules

lemma fst_fail [fst_rules]: "fst (fail_with e d) = None" "fst (no_argument d) = None"
  by (simp_all add: fail_with_def no_argument_def)

lemma fst_logic: "fst (eval_logic op x y d) = fst (eval_logic op x y d')"
  by (cases x; cases y) (simp_all add: eval_logic_def Let_def IsNull_def fst_rules)

lemma fst_equal: "fst (eval_equal op x y d) = fst (eval_equal op x y d')"
  by (simp add: eval_equal_def split: option.split)

lemma fst_like: "fst (eval_like x y d) = fst (eval_like x y d')"
  by (cases x; cases y) (simp_all add: eval_like_def fst_rules)

lemma fst_compare: "fst (eval_compare op x y d) = fst (eval_compare op x y d')"
  by (simp add: eval_compare_def fst_rules split: option.split)

lemma fst_integer: "fst (eval_integer op i j d) = fst (eval_integer op i j d')"
  by (simp add: eval_integer_def)

lemma fst_arith: "fst (eval_arith op x y d) = fst (eval_arith op x y d')"
  using fst_integer by (cases x; cases y) (simp_all add: eval_arith_def Let_def fst_rules)

lemma fst_binary: "fst (eval_binary op x y d) = fst (eval_binary op x y d')"
  using fst_logic fst_equal fst_like fst_compare fst_arith by (simp add: eval_binary_def)

lemma fst_unary: "fst (eval_unary op x d) = fst (eval_unary op x d')"
  by (cases x) (simp_all add: eval_unary_def eval_not_def fst_rules)

lemma fst_call: "fst (eval_call name x d) = fst (eval_call name x d')"
  by (cases x; cases "name = ''abs''") (simp_all add: eval_call_def fst_rules)

lemma fst_leaf:
  "fst (eval_column name ctx d) = fst (eval_column name ctx d')"
  "fst (eval_parameter i ctx d) = fst (eval_parameter i ctx d')"
  by (simp_all add: eval_column_def eval_parameter_def Let_def fst_rules split: option.splits)

lemma case_fst:
  assumes "fst r = fst r'" "\<And>x d d'. fst r = Some x \<Longrightarrow> fst (f x d) = fst (f x d')"
    and "\<And>d d'. fst (g d) = fst (g d')"
  shows "fst (case r of (None, d) \<Rightarrow> g d | (Some x, d) \<Rightarrow> f x d) =
    fst (case r' of (None, d) \<Rightarrow> g d | (Some x, d) \<Rightarrow> f x d)"
  using assms by (cases r; cases r') (auto split: option.split)

text \<open>The value of an expression, whatever has been reported so far.\<close>

definition value_of :: "expr option \<Rightarrow> eval_context \<Rightarrow> sqlvalue option" where
  "value_of e ctx = fst (Eval e ctx \<lparr>dg_status = None, dg_undef = False\<rparr>)"

definition value_stable :: "expr option \<Rightarrow> bool" where
  "value_stable e \<longleftrightarrow> (\<forall>ctx d d'. fst (Eval e ctx d) = fst (Eval e ctx d'))"

lemma fst_EvalIn: "list_all value_stable args \<Longrightarrow> fst (EvalIn x args ctx d) = fst (EvalIn x args ctx d')"
proof (induction args arbitrary: d d')
  case (Cons a args)
  then have "fst (Eval a ctx d) = fst (Eval a ctx d')" by (auto simp: value_stable_def)
  then show ?case using Cons by (cases "Eval a ctx d"; cases "Eval a ctx d'") (auto split: option.split)
qed simp

lemma fst_EvalCoalesce: "list_all value_stable args \<Longrightarrow> fst (EvalCoalesce args ctx d) = fst (EvalCoalesce args ctx d')"
proof (induction args arbitrary: d d')
  case (Cons a args)
  then have "fst (Eval a ctx d) = fst (Eval a ctx d')" by (auto simp: value_stable_def)
  then show ?case using Cons by (cases "Eval a ctx d"; cases "Eval a ctx d'") (auto split: option.split)
qed simp

lemma value_stable_Expr: "list_all value_stable args \<Longrightarrow> value_stable (Some (Expr k v name op i args))"
proof -
  assume args: "list_all value_stable args"
  have first: "fst (Eval (hd args) ctx d) = fst (Eval (hd args) ctx d')" if "args \<noteq> []" for ctx d d'
    using args that by (cases args) (auto simp: value_stable_def)
  have second: "fst (Eval (hd (tl args)) ctx d) = fst (Eval (hd (tl args)) ctx d')" if "tl args \<noteq> []" for ctx d d'
    using args that by (cases args; cases "tl args") (auto simp: value_stable_def)
  have rest: "list_all value_stable (tl args)" using args by (cases args) auto
  have "fst (Eval (Some (Expr k v name op i args)) ctx d) = fst (Eval (Some (Expr k v name op i args)) ctx d')"
    for ctx d d'
  proof (cases k)
    case KBinary
    show ?thesis
    proof (cases "\<exists>a b r. args = a # b # r")
      case True
      then obtain a b r where r: "args = a # b # r" by blast
      obtain x d1 y d2 where 1: "Eval a ctx d = (x, d1)" "Eval b ctx d1 = (y, d2)" by fastforce
      obtain x' d1' y' d2' where 2: "Eval a ctx d' = (x', d1')" "Eval b ctx d1' = (y', d2')" by fastforce
      have "x' = x" using first [of ctx d d'] r 1 2 by simp
      moreover have "y' = y" using second [of ctx d1 d1'] r 1 2 by simp
      ultimately show ?thesis using KBinary r 1 2 fst_binary by (auto split: option.split)
    next
      case False
      then show ?thesis using KBinary by (cases args; cases "tl args") (auto simp: fst_rules)
    qed
  next
    case KFunction
    show ?thesis
    proof (cases args)
      case (Cons a list)
      have c: "fst (case Eval a ctx d of (None, d1) \<Rightarrow> (Some VNull, d1)
          | (Some x, d1) \<Rightarrow> if IsNull x then (Some VNull, d1) else f x d1) =
        fst (case Eval a ctx d' of (None, d1) \<Rightarrow> (Some VNull, d1)
          | (Some x, d1) \<Rightarrow> if IsNull x then (Some VNull, d1) else f x d1)"
        if "\<And>x d d'. fst (f x d) = fst (f x d')" for f
        using that first [of ctx d d'] Cons by (intro case_fst) auto
      have "list_all value_stable list" using rest Cons by simp
      then show ?thesis
        using KFunction Cons c [of "eval_call name"] c [of "\<lambda>x d1. EvalIn x list ctx d1"]
          fst_EvalIn [of list] fst_EvalCoalesce [OF args, of ctx d d'] fst_call
        by auto
    qed (use KFunction in \<open>auto simp: fst_rules\<close>)
  qed (cases args; use first fst_unary fst_leaf in \<open>auto simp: fst_rules intro!: case_fst\<close>)+
  then show ?thesis by (simp add: value_stable_def)
qed

lemma value_stable [simp]: "value_stable e"
proof (cases e)
  case (Some x)
  then show ?thesis
  proof (induction x arbitrary: e)
    case (Expr k v name op i args)
    have "value_stable a" if "a \<in> set args" for a
      using Expr.IH [OF that] by (cases a) (auto simp: value_stable_def)
    then show ?case using Expr.prems value_stable_Expr by (simp add: list_all_iff)
  qed
qed (simp add: value_stable_def)

lemma Eval_value: "Eval e ctx d = (v, d') \<Longrightarrow> v = value_of e ctx"
  using value_stable [of e] unfolding value_stable_def value_of_def by (metis fst_conv)
section \<open>Sorting\<close>

text \<open>The comparison and the insertion sort without the diagnostics.\<close>

fun row_lt :: "Schema \<Rightarrow> sqlvalue list \<Rightarrow> (expr option \<times> bool) list \<Rightarrow> Row \<Rightarrow> Row \<Rightarrow> bool" where
  "row_lt schema params [] left right = False"
| "row_lt schema params ((e, desc) # order_by) left right =
     (case (value_of e (row_context schema left params), value_of e (row_context schema right params)) of
        (Some x, Some y) \<Rightarrow>
          (case Compare x y of
             Some c \<Rightarrow> if c \<noteq> 0 then (if desc then 0 < c else c < 0) else row_lt schema params order_by left right
           | None \<Rightarrow> row_lt schema params order_by left right)
      | _ \<Rightarrow> False)"

fun ins :: "('a \<Rightarrow> 'a \<Rightarrow> bool) \<Rightarrow> 'a \<Rightarrow> 'a list \<Rightarrow> 'a list" where
  "ins lt x [] = [x]"
| "ins lt x (y # ys) = (if lt x y then y # ins lt x ys else x # y # ys)"

definition isort :: "('a \<Rightarrow> 'a \<Rightarrow> bool) \<Rightarrow> 'a list \<Rightarrow> 'a list" where
  "isort lt xs = rev (fold (ins lt) xs [])"

lemma eval_at_value: "fst (eval_at e ctx p u) = value_of e ctx"
proof -
  obtain v d where "Eval e ctx \<lparr>dg_status = ps_status p, dg_undef = u\<rparr> = (v, d)" by fastforce
  then show ?thesis using Eval_value by (simp add: eval_at_def)
qed

lemma eval_where_value:
  "fst (eval_where e ctx p u) = (if e = None then Some (VBoolean True) else value_of e ctx)"
  by (simp add: eval_where_def eval_at_value)

lemma fst_row_less: "fst (row_less schema params order_by x y p u) = row_lt schema params order_by x y"
proof (induction order_by arbitrary: p u)
  case (Cons item order_by)
  obtain e desc where item: "item = (e, desc)" by fastforce
  obtain lv p1 u1 where 1: "eval_at e (row_context schema x params) p u = (lv, p1, u1)" by (metis prod_cases3)
  obtain rv p2 u2 where 2: "eval_at e (row_context schema y params) p1 u1 = (rv, p2, u2)" by (metis prod_cases3)
  have "lv = value_of e (row_context schema x params)" "rv = value_of e (row_context schema y params)"
    using eval_at_value [of e _ p u] eval_at_value [of e _ p1 u1] 1 2 by (metis fst_conv)+
  then show ?case using 1 2 Cons.IH item by (auto split: option.split)
qed simp

lemma fst_insert_row:
  assumes "\<And>x y p u. fst (r x y p u) = lt x y"
  shows "fst (insert_row r x ys p u) = ins lt x ys"
proof (induction ys arbitrary: p u)
  case (Cons y ys)
  obtain b p1 u1 where r: "r x y p u = (b, p1, u1)" by (metis prod_cases3)
  then have "b = lt x y" using assms [of x y p u] by simp
  then show ?case using r Cons.IH [of p1 u1] by (auto split: prod.splits)
qed simp

lemma fst_sort_rows:
  assumes "\<And>x y p u. fst (r x y p u) = lt x y"
  shows "fst (sort_rows r xs ys p u) = rev (fold (ins lt) xs ys)"
proof (induction xs arbitrary: ys p u)
  case (Cons x xs)
  obtain zs p1 u1 where r: "insert_row r x ys p u = (zs, p1, u1)" by (metis prod_cases3)
  then have "zs = ins lt x ys" using fst_insert_row [where r = r and lt = lt, OF assms] by (metis fst_conv)
  then show ?case using r Cons.IH by simp
qed simp

lemma fst_stable_sort:
  "fst (stable_sort (row_less schema params order_by) xs p u) = isort (row_lt schema params order_by) xs"
  using fst_sort_rows [where r = "row_less schema params order_by", OF fst_row_less]
  by (simp add: stable_sort_def isort_def case_prod_beta)

definition swo :: "('a \<Rightarrow> 'a \<Rightarrow> bool) \<Rightarrow> 'a set \<Rightarrow> bool" where
  "swo lt A \<longleftrightarrow> (\<forall>x \<in> A. \<not> lt x x) \<and> (\<forall>x \<in> A. \<forall>y \<in> A. \<forall>z \<in> A. lt x y \<longrightarrow> lt y z \<longrightarrow> lt x z) \<and>
     (\<forall>x \<in> A. \<forall>y \<in> A. \<forall>z \<in> A. lt x z \<longrightarrow> lt x y \<or> lt y z)"

lemma strict_weak_on_swo: "strict_weak_on lt xs \<longleftrightarrow> swo lt (set xs)"
  unfolding strict_weak_on_def swo_def list_all_iff by blast

lemma swo_neg_trans: "swo lt A \<Longrightarrow> x \<in> A \<Longrightarrow> y \<in> A \<Longrightarrow> z \<in> A \<Longrightarrow> lt x z \<Longrightarrow> lt x y \<or> lt y z"
  unfolding swo_def by blast

lemma swo_asym: "swo lt A \<Longrightarrow> x \<in> A \<Longrightarrow> y \<in> A \<Longrightarrow> lt x y \<Longrightarrow> \<not> lt y x"
  unfolding swo_def by blast

lemma mset_ins: "mset (ins lt x ys) = add_mset x (mset ys)"
  by (induction ys) simp_all

lemma set_ins: "set (ins lt x ys) = insert x (set ys)"
  by (induction ys) auto

lemma mset_fold_ins: "mset (fold (ins lt) xs ys) = mset xs + mset ys"
  by (induction xs arbitrary: ys) (simp_all add: mset_ins)

lemma mset_isort: "mset (isort lt xs) = mset xs"
  by (simp add: isort_def mset_fold_ins)

lemma sorted_ins:
  "swo lt A \<Longrightarrow> insert x (set ys) \<subseteq> A \<Longrightarrow> sorted_wrt (\<lambda>a b. \<not> lt a b) ys \<Longrightarrow>
   sorted_wrt (\<lambda>a b. \<not> lt a b) (ins lt x ys)"
proof (induction ys)
  case (Cons y ys)
  show ?case
  proof (cases "lt x y")
    case True
    then have "\<not> lt y x" using Cons.prems(2) swo_asym [OF Cons.prems(1), of x y] by simp
    moreover have "sorted_wrt (\<lambda>a b. \<not> lt a b) (ins lt x ys)" using Cons.IH Cons.prems by simp
    ultimately show ?thesis using True Cons.prems(3) by (simp add: set_ins)
  next
    case False
    then have "\<not> lt x z" if "z \<in> set ys" for z
      using Cons.prems(2,3) that swo_neg_trans [OF Cons.prems(1), of x y z] by auto
    then show ?thesis using False Cons.prems(3) by simp
  qed
qed simp

lemma sorted_fold_ins:
  "swo lt A \<Longrightarrow> set xs \<union> set ys \<subseteq> A \<Longrightarrow> sorted_wrt (\<lambda>a b. \<not> lt a b) ys \<Longrightarrow>
   sorted_wrt (\<lambda>a b. \<not> lt a b) (fold (ins lt) xs ys)"
  by (induction xs arbitrary: ys) (simp_all add: sorted_ins set_ins)

lemma sorted_isort: "swo lt (set xs) \<Longrightarrow> sorted_wrt (\<lambda>a b. \<not> lt b a) (isort lt xs)"
  using sorted_fold_ins [of lt "set xs" xs "[]"] by (simp add: isort_def sorted_wrt_rev)

text \<open>Rows that compare as equal keep their order.\<close>

definition tied :: "('a \<Rightarrow> 'a \<Rightarrow> bool) \<Rightarrow> 'a \<Rightarrow> 'a \<Rightarrow> bool" where
  "tied lt k x \<longleftrightarrow> \<not> lt k x \<and> \<not> lt x k"

lemma filter_ins:
  "swo lt A \<Longrightarrow> insert k (insert x (set ys)) \<subseteq> A \<Longrightarrow>
   filter (tied lt k) (ins lt x ys) = (if tied lt k x then x # filter (tied lt k) ys else filter (tied lt k) ys)"
proof (induction ys)
  case (Cons y ys)
  have "\<not> tied lt k y" if "lt x y" "tied lt k x"
    using Cons.prems that swo_neg_trans [OF Cons.prems(1), of x k y] unfolding tied_def by auto
  then show ?case using Cons by auto
qed simp

lemma filter_fold_ins:
  "swo lt A \<Longrightarrow> insert k (set xs \<union> set ys) \<subseteq> A \<Longrightarrow>
   filter (tied lt k) (fold (ins lt) xs ys) = rev (filter (tied lt k) xs) @ filter (tied lt k) ys"
  by (induction xs arbitrary: ys) (simp_all add: filter_ins set_ins)

lemma stable_isort:
  "swo lt (set xs) \<Longrightarrow> k \<in> set xs \<Longrightarrow> filter (tied lt k) (isort lt xs) = filter (tied lt k) xs"
  using filter_fold_ins [of lt "set xs" k xs "[]"] by (simp add: isort_def rev_filter [symmetric] insert_absorb)
section \<open>What SELECT returns\<close>

definition project :: "Schema \<Rightarrow> sqlvalue list \<Rightarrow> expr option list \<Rightarrow> Row \<Rightarrow> Row" where
  "project schema params es row = map (\<lambda>e. the (value_of e (row_context schema row params))) es"

definition dedup_key :: "Row \<Rightarrow> string" where
  "dedup_key output = concat (map (\<lambda>v. value_ToString v @ [CHR 0x00]) output)"

text \<open>The first output row of every key.\<close>

fun first_by :: "string set \<Rightarrow> Row list \<Rightarrow> Row list" where
  "first_by seen [] = []"
| "first_by seen (r # rs) =
     (if dedup_key r \<in> seen then first_by seen rs else r # first_by (insert (dedup_key r) seen) rs)"

definition output_rows :: "bool \<Rightarrow> int \<Rightarrow> Row list \<Rightarrow> Row list" where
  "output_rows dedup limit rs =
     (let rs' = (if dedup then first_by {} rs else rs) in if limit < 0 then rs' else take (nat limit) rs')"

definition where_holds :: "Schema \<Rightarrow> sqlvalue list \<Rightarrow> expr option \<Rightarrow> Row \<Rightarrow> bool" where
  "where_holds schema params predicate row \<longleftrightarrow>
     predicate = None \<or> value_of predicate (row_context schema row params) = Some (VBoolean True)"

lemma selected_eval_where:
  "eval_where predicate (row_context schema row params) p u = (v, p1, u1) \<Longrightarrow>
   selected v \<longleftrightarrow> where_holds schema params predicate row"
  using eval_where_value [of predicate "row_context schema row params" p u]
  by (auto simp: selected_def where_holds_def Truthy_def split: if_splits option.splits)

lemma select_rows_filter:
  "select_rows schema params predicate rows cands p u = Inr (cands', q, v) \<Longrightarrow>
   cands' = cands @ filter (where_holds schema params predicate) rows"
proof (induction rows arbitrary: cands p u)
  case (Cons row rows)
  obtain v1 p1 u1 where e: "eval_where predicate (row_context schema row params) p u = (v1, p1, u1)"
    by (metis prod_cases3)
  show ?case
    using Cons.prems Cons.IH [of "cands @ [row]" p1 u1] Cons.IH [of cands p1 u1] selected_eval_where [OF e] e
    by (auto split: if_splits)
qed simp

lemma select_rows_error: "select_rows schema params predicate rows cands p u = Inl (q, v) \<Longrightarrow> ps_status q \<noteq> None"
  by (induction rows arbitrary: cands p u) (auto split: prod.splits if_splits)

lemma eval_at_reports:
  assumes "eval_at e ctx p u = (v, q, u')"
  shows "arg_complete e \<Longrightarrow> v = None \<Longrightarrow> ps_status q \<noteq> None \<or> u'" "arg_complete e \<Longrightarrow> u \<Longrightarrow> u'"
  using assms reports_Eval(1) [of e "\<lparr>dg_status = ps_status p, dg_undef = u\<rparr>" ctx]
  by (auto simp: eval_at_def reports_def split: prod.splits)

lemma project_row_error:
  "list_all arg_complete es \<Longrightarrow> project_row ctx es out key p u = Inl (q, v) \<Longrightarrow> ps_status q \<noteq> None \<or> v"
proof (induction es arbitrary: out key p u)
  case (Cons e es)
  obtain x p1 u1 where e: "eval_at e ctx p u = (x, p1, u1)" by (metis prod_cases3)
  show ?case
    using Cons eval_at_reports(1) [OF e] e by (auto split: option.splits)
qed simp

lemma project_row_undef:
  "list_all arg_complete es \<Longrightarrow> project_row ctx es out key p True = Inr (out', key', q, v) \<Longrightarrow> v"
proof (induction es arbitrary: out key p)
  case (Cons e es)
  obtain x p1 u1 where e: "eval_at e ctx p True = (x, p1, u1)" by (metis prod_cases3)
  show ?case
    using Cons eval_at_reports(2) [OF e] e by (auto split: option.splits)
qed simp

lemma project_row_value:
  "project_row (row_context schema row params) es out key p u = Inr (out', key', q, v) \<Longrightarrow>
   out' = out @ project schema params es row \<and> key' = key @ dedup_key (project schema params es row)"
proof (induction es arbitrary: out key p u)
  case (Cons e es)
  obtain x p1 u1 where e: "eval_at e (row_context schema row params) p u = (x, p1, u1)" by (metis prod_cases3)
  then have "x = value_of e (row_context schema row params)" using eval_at_value by (metis fst_conv)
  then show ?case
    using Cons.prems Cons.IH [of "out @ [the x]" "key @ value_ToString (the x) @ [CHR 0x00]" p1 u1] e
    by (auto simp: project_def dedup_key_def split: option.splits)
qed (simp add: project_def dedup_key_def)

lemma emit_rows_error:
  "list_all arg_complete es \<Longrightarrow> emit_rows schema params es dedup limit offset rows em p u = Inl (q, v) \<Longrightarrow>
   ps_status q \<noteq> None \<or> v"
  by (induction rows arbitrary: em p u) (auto split: if_splits sum.splits dest: project_row_error)

lemma emit_rows_undef:
  "list_all arg_complete es \<Longrightarrow> emit_rows schema params es dedup limit offset rows em p True = Inr (out, q, v) \<Longrightarrow> v"
  by (induction rows arbitrary: em p) (auto split: if_splits sum.splits dest!: project_row_undef)

text \<open>What the loop still adds, given what it has skipped, seen and returned.\<close>

definition pending_rows :: "Schema \<Rightarrow> sqlvalue list \<Rightarrow> expr option list \<Rightarrow> bool \<Rightarrow> int \<Rightarrow> int \<Rightarrow> Row list \<Rightarrow> emitter \<Rightarrow> Row list" where
  "pending_rows schema params es dedup limit offset rows em =
     (let rs = map (project schema params es) (drop (nat (offset - em_skipped em)) rows);
          rs' = (if dedup then first_by (set (em_seen em)) rs else rs)
      in if limit < 0 then rs' else take (nat (limit - em_returned em)) rs')"

lemma emit_rows_value:
  "emit_rows schema params es dedup limit offset rows em p u = Inr (out, q, v) \<Longrightarrow>
   out = em_rows em @ pending_rows schema params es dedup limit offset rows em"
proof (induction rows arbitrary: em p u)
  case (Cons row rows)
  let ?pend = "pending_rows schema params es dedup limit offset"
  consider (skip) "em_skipped em < offset"
    | (full) "\<not> em_skipped em < offset" "0 \<le> limit" "limit \<le> em_returned em"
    | (emit) "\<not> em_skipped em < offset" "\<not> (0 \<le> limit \<and> limit \<le> em_returned em)" by blast
  then show ?case
  proof cases
    case skip
    then have "nat (offset - em_skipped em) = Suc (nat (offset - (em_skipped em + 1)))" by linarith
    then have "?pend (row # rows) em = ?pend rows (em\<lparr>em_skipped := em_skipped em + 1\<rparr>)"
      by (simp add: pending_rows_def Let_def)
    then show ?thesis using skip Cons.prems Cons.IH [of "em\<lparr>em_skipped := em_skipped em + 1\<rparr>" p u] by simp
  next
    case full
    then show ?thesis using Cons.prems by (simp add: pending_rows_def Let_def)
  next
    case emit
    then obtain row' key p1 u1 where pr:
      "project_row (row_context schema row params) es [] [] p u = Inr (row', key, p1, u1)"
      using Cons.prems by (auto split: sum.splits)
    note pv = project_row_value [OF pr, simplified]
    let ?em = "if \<not> dedup \<or> key \<notin> set (em_seen em) then
        em\<lparr>em_seen := (if dedup then key # em_seen em else em_seen em),
           em_returned := em_returned em + 1, em_rows := em_rows em @ [row']\<rparr> else em"
    have lim: "0 \<le> limit \<Longrightarrow> nat (limit - em_returned em) = Suc (nat (limit - (em_returned em + 1)))"
      using emit(2) by linarith
    have "em_rows em @ ?pend (row # rows) em = em_rows ?em @ ?pend rows ?em"
      using emit(1) pv lim by (simp add: pending_rows_def Let_def)
    moreover have "emit_rows schema params es dedup limit offset rows ?em p1 u1 = Inr (out, q, v)"
      using Cons.prems emit pr by simp
    ultimately show ?thesis using Cons.IH by metis
  qed
qed (simp add: pending_rows_def)
text \<open>
  The meaning of a SELECT on a table: the rows the WHERE clause selects, in an order that the
  ORDER BY keys allow and that keeps tied rows in place, then from the offset on the projected
  rows, without repeats if asked for, up to the limit.
\<close>

definition select_spec ::
    "Table \<Rightarrow> sqlvalue list \<Rightarrow> bool \<Rightarrow> expr option list \<Rightarrow> expr option \<Rightarrow> (expr option \<times> bool) list \<Rightarrow>
     int \<times> int \<Rightarrow> Row list \<Rightarrow> bool" where
  "select_spec t params dedup es predicate order_by bounds out \<longleftrightarrow>
     (\<exists>cands rows lt.
        lt = row_lt (tb_schema t) params order_by \<and>
        cands = filter (where_holds (tb_schema t) params predicate) (tb_rows t) \<and>
        mset rows = mset cands \<and> sorted_wrt (\<lambda>x y. \<not> lt y x) rows \<and>
        (\<forall>k \<in> set cands. filter (tied lt k) rows = filter (tied lt k) cands) \<and>
        out = output_rows dedup (fst bounds) (map (project (tb_schema t) params es) (drop (nat (snd bounds)) rows)))"

definition item_exprs :: "Schema \<Rightarrow> expr option list \<Rightarrow> expr option list" where
  "item_exprs schema es = (if es = [] then map (\<lambda>c. Some (column_expr (col_name c))) schema else es)"

lemma item_exprs_complete: "list_all arg_complete es \<Longrightarrow> list_all arg_complete (item_exprs schema es)"
  by (simp add: item_exprs_def list_all_iff)

lemma pending_new:
  "pending_rows schema params es dedup limit offset rows new_emitter =
   output_rows dedup limit (map (project schema params es) (drop (nat offset) rows))"
  by (simp add: pending_rows_def output_rows_def new_emitter_def Let_def)

lemma select_from_outcome:
  assumes "list_all arg_complete (fst items)"
    and "oc = select_from ts t params dedup items predicate order_by bounds p u"
    and "oc_result oc = Inr r" "\<not> oc_undef oc"
  shows "\<exists>ri. r = Some ri \<and>
    select_spec t params dedup (item_exprs (tb_schema t) (fst items)) predicate order_by bounds (ri_rows ri)"
proof -
  let ?s = "tb_schema t" and ?es = "item_exprs (tb_schema t) (fst items)"
  let ?lt = "row_lt ?s params order_by"
  note es = item_exprs_complete [OF assms(1), of ?s]
  obtain cands p1 u1 where sel: "select_rows ?s params predicate (tb_rows t) [] p u = Inr (cands, p1, u1)"
    using assms(2,3) select_rows_error
    by (fastforce simp: select_from_def Let_def return_status_def status_or_of_status_def
        split: sum.splits prod.splits option.splits)
  note cands = select_rows_filter [OF sel, simplified]
  obtain rows p2 u2 where sort: "stable_sort (row_less ?s params order_by) cands p1 u1 = (rows, p2, u2)"
    by (metis prod_cases3)
  have rows: "rows = isort ?lt cands" using fst_stable_sort [of ?s params order_by cands p1 u1] sort by simp
  obtain columns where oc: "oc = (case emit_rows ?s params ?es dedup (fst bounds) (snd bounds) rows new_emitter p2 u2 of
      Inl (p3, u3) \<Rightarrow> return_status p3 ts u3
    | Inr (out, p3, u3) \<Rightarrow> return_result (new_result columns out) ts u3)"
    using assms(2) sel sort by (cases items) (auto simp: select_from_def item_exprs_def Let_def split: if_splits)
  obtain out p3 u3 where emit:
    "emit_rows ?s params ?es dedup (fst bounds) (snd bounds) rows new_emitter p2 u2 = Inr (out, p3, u3)"
    using oc assms(3,4) emit_rows_error [OF es]
    by (fastforce simp: return_status_def status_or_of_status_def split: sum.splits option.splits)
  have "\<not> u2" using emit_rows_undef [OF es] emit oc assms(4) by (auto simp: return_result_def)
  then have "swo ?lt (set cands)"
    using sort fst_row_less [of ?s params order_by]
    by (auto simp: stable_sort_def strict_weak_on_swo split: prod.splits)
  then have "mset rows = mset cands" "sorted_wrt (\<lambda>x y. \<not> ?lt y x) rows"
    "\<forall>k \<in> set cands. filter (tied ?lt k) rows = filter (tied ?lt k) cands"
    using rows mset_isort [of ?lt cands] sorted_isort stable_isort by auto
  moreover have "out = output_rows dedup (fst bounds) (map (project ?s params ?es) (drop (nat (snd bounds)) rows))"
    using emit_rows_value [OF emit] pending_new by (simp add: new_emitter_def)
  ultimately show ?thesis
    using oc emit assms(3) cands
    by (auto simp: return_result_def new_result_def select_spec_def)
qed

lemma exec_select_tables [simp]: "oc_tables (exec_select ts params p) = ts"
  by (auto simp: exec_select_def select_from_def Let_def
      split: prod.split bool.split option.split sum.split)
section \<open>The clauses of SELECT end\<close>

definition items_ok :: "expr option list \<times> string list \<times> parser \<times> bool \<Rightarrow> bool" where
  "items_ok r \<longleftrightarrow> (case r of (es, names, q, u) \<Rightarrow> list_all arg_complete es \<and> \<not> u)"

lemma item_step_Again:
  assumes "within n p" "items_ok (es, names, p, u)" "item_step (es, names, p, u) = Again (es', names', p', u')"
  shows "within (n - 1) p' \<and> items_ok (es', names', p', u')"
  using assms Expression_complete [OF assms(1)]
  by (auto simp: item_step_def items_ok_def case_prod_beta Let_def within_rules
      split: bool.splits if_splits option.splits)

lemma item_step_Stop:
  assumes "within n p" "items_ok (es, names, p, u)" "item_step (es, names, p, u) = Stop (es', names', p', u')"
  shows "within n p' \<and> items_ok (es', names', p', u')"
  using assms Expression_complete [OF assms(1)]
  by (auto simp: item_step_def items_ok_def case_prod_beta Let_def within_rules
      split: bool.splits if_splits option.splits)

lemma item_loop:
  assumes "parser_ok p"
  shows "\<exists>r. iterate (loop_fuel p) item_step ([], [], p, False) = Some r \<and>
    parser_ok (fst (snd (snd r))) \<and> items_ok r"
proof -
  have "\<exists>r. iterate (loop_fuel (fst (snd (snd ([] :: expr option list, [] :: string list, p, False))))) item_step
      ([], [], p, False) = Some r \<and> parser_ok (fst (snd (snd r))) \<and> items_ok r"
  proof (rule iterate_tokens [where I = items_ok])
    fix n s s' assume a: "within n (fst (snd (snd s)))" "items_ok s" "item_step s = Again s'"
    obtain es names q u where s: "s = (es, names, q, u)" by (cases s)
    obtain es' names' q' u' where s': "s' = (es', names', q', u')" by (cases s')
    show "within (n - 1) (fst (snd (snd s'))) \<and> items_ok s'"
      using item_step_Again [of n q es names u es' names' q' u'] a unfolding s s' by simp
  next
    fix n s r assume a: "within n (fst (snd (snd s)))" "items_ok s" "item_step s = Stop r"
    obtain es names q u where s: "s = (es, names, q, u)" by (cases s)
    obtain es' names' q' u' where r: "r = (es', names', q', u')" by (cases r)
    show "parser_ok (fst (snd (snd r))) \<and> items_ok r"
      using item_step_Stop [of n q es names u es' names' q' u'] within_parser_ok [of n q'] a
      unfolding s r by simp
  qed (use assms in \<open>simp_all add: items_ok_def\<close>)
  then show ?thesis by simp
qed

lemma order_step_Again:
  "within n p \<Longrightarrow> order_step (order_by, p) = Again (order_by', p') \<Longrightarrow> within (n - 1) p'"
  by (auto simp: order_step_def case_prod_beta Let_def within_rules split: bool.splits if_splits)

lemma order_step_Stop: "within n p \<Longrightarrow> order_step (order_by, p) = Stop (order_by', p') \<Longrightarrow> within n p'"
  by (auto simp: order_step_def case_prod_beta Let_def within_rules split: bool.splits if_splits)

lemma order_loop:
  "parser_ok p \<Longrightarrow> \<exists>r. iterate (loop_fuel p) order_step ([], p) = Some r \<and> parser_ok (snd r)"
  using iterate_tokens [of snd "([], p)" "\<lambda>_. True" order_step "\<lambda>r. parser_ok (snd r)"]
    order_step_Again order_step_Stop within_parser_ok
  by fastforce

text \<open>Each clause as a rule for the statement body.\<close>

definition select_ok :: "outcome \<Rightarrow> bool" where
  "select_ok oc \<longleftrightarrow> (oc_result oc = Inr None \<longrightarrow> oc_undef oc) \<and> oc_persist oc = False"

lemma select_ok_simps [simp]:
  "sat select_ok (failed e ts u)"
  "sat select_ok (return_status p ts u) \<longleftrightarrow> ps_status p \<noteq> None \<or> u"
  by (auto simp: sat_def select_ok_def failed_def return_status_def status_or_of_status_def split: option.split)

lemma select_from_ok:
  assumes "list_all arg_complete (fst items)"
  shows "sat select_ok (select_from ts t params dedup items predicate order_by bounds p u)"
proof -
  let ?oc = "select_from ts t params dedup items predicate order_by bounds p u"
  have "oc_persist ?oc = False"
    by (simp add: select_from_def Let_def return_status_def return_result_def split: sum.split prod.split)
  then show ?thesis
    using select_from_outcome [OF assms refl, of ts t params dedup predicate order_by bounds p u None]
    by (auto simp: sat_def select_ok_def)
qed

lemma sat_parse_items:
  assumes "parser_ok p"
    and "\<And>es names q. parser_ok q \<Longrightarrow> list_all arg_complete es \<Longrightarrow> sat Q (f (es, names, q, False))"
  shows "sat Q (case_option x f (parse_items p))"
proof -
  obtain b q where a: "Accept ''*'' p = (b, q)" "parser_ok q"
    using Accept_ok [OF assms(1), of "''*''"] by (cases "Accept ''*'' p") auto
  obtain es names q' u where "iterate (loop_fuel q) item_step ([], [], q, False) = Some (es, names, q', u)"
    "parser_ok q'" "items_ok (es, names, q', u)"
    using item_loop [OF a(2)] by auto
  with a assms(2) show ?thesis by (cases b) (auto simp: parse_items_def items_ok_def)
qed

lemma sat_parse_order:
  assumes "parser_ok p" "\<And>q. ps_status q \<noteq> None \<Longrightarrow> sat Q (f (Inl q))"
    and "\<And>o' q. parser_ok q \<Longrightarrow> sat Q (f (Inr (o', q)))"
  shows "sat Q (case_option x f (parse_order p))"
proof -
  obtain b p1 where 1: "Accept ''order'' p = (b, p1)" "parser_ok p1"
    using Accept_ok [OF assms(1), of "''order''"] by (cases "Accept ''order'' p") auto
  obtain c p2 where 2: "Expect ''by'' p1 = (c, p2)" by fastforce
  have p2: "parser_ok p2" "\<not> c \<Longrightarrow> ps_status p2 \<noteq> None"
    using Expect_after(1,3) [OF 1(2) 2] after_ok by auto
  obtain o' p3 where 3: "iterate (loop_fuel p2) order_step ([], p2) = Some (o', p3)" "parser_ok p3"
    using order_loop [OF p2(1)] by auto
  from 1 2 3 p2 assms(2,3) show ?thesis by (cases b; cases c) (auto simp: parse_order_def)
qed

lemma exec_select_ok: "parser_ok p \<Longrightarrow> sat select_ok (exec_select ts params p)"
  unfolding exec_select_def
  apply (rule sat_Accept, assumption, simp)
  apply (rule sat_Accept, assumption, simp)
  apply (rule sat_parse_items, assumption)
  apply (simp only: prod.case)
  apply (rule sat_branch(2), simp)
  apply (rule sat_Expect, assumption, simp)
  apply (rule sat_branch(1))
  apply (rule sat_Identifier, assumption)
  apply (rule sat_branch(5))
  apply (rule sat_branch(2), simp)
  apply (rule sat_branch(3), simp)
  apply (rule sat_parse_where, assumption)
  apply (rule sat_parse_order, assumption)
  apply simp
  apply (simp only: sum.case prod.case)
  apply (rule sat_prod)
  apply (rule sat_branch(4))
  apply (rule sat_prod, simp)
  apply (rule sat_prod)
  apply (rule select_from_ok, simp)
  apply simp
  done

interpretation select: statement exec_select
  by unfold_locales simp
section \<open>Whole statements\<close>

lemma exec_command_keeps:
  assumes "parser_ok p" "db_valid ts"
  shows "db_valid (oc_tables (exec_command command ts params p))"
  using assms create.keeps drop.keeps insert.keeps update.keeps delete.keeps
  by (simp add: exec_command_def index_ddl_def)

interpretation command: statement "exec_command c" for c
  by unfold_locales (rule exec_command_keeps)

lemma count_result_tables [simp]: "oc_tables (count_result sql oc) = oc_tables oc"
  by (simp add: count_result_def count_fallback_def Let_def split: sum.split option.split)

lemma exec_sql_keeps: "db_valid ts \<Longrightarrow> db_valid (oc_tables (exec_sql sql params ts))"
proof (induction sql params ts rule: exec_sql.induct)
  case (1 sql params ts)
  show ?case
  proof (cases "Tokenize sql")
    case (Inl err)
    then show ?thesis using "1.prems" by (simp add: exec_sql.simps)
  next
    case (Inr tokens)
    let ?c = "tk_text (Peek (new_parser tokens))"
    have v: "db_valid (RefreshCatalog ts)" using "1.prems" by (rule db_valid_RefreshCatalog)
    show ?thesis
    proof (cases "?c = ''select'' \<and> find_sub ''count(*)'' (Lower sql) \<noteq> None")
      case True
      then obtain pos where pos: "find_sub ''count(*)'' (Lower sql) = Some pos" by blast
      have "db_valid (oc_tables (exec_sql (expand_count pos sql) params (RefreshCatalog ts)))"
        using "1.IH" [OF Inr refl refl refl, of True "Some pos" pos] True pos v by simp
      then show ?thesis using Inr pos True by (subst exec_sql.simps) simp
    next
      case False
      then show ?thesis
        using command.keeps_tokens [OF Inr "1.prems", of ?c params] v Inr
        by (subst exec_sql.simps) (auto simp: Let_def split: option.split bool.split)
    qed
  qed
qed

lemma exec_sql_select:
  assumes "Tokenize sql = Inr tokens" "tk_text (Peek (new_parser tokens)) = ''select''"
    and "find_sub ''count(*)'' (Lower sql) = None"
  shows "exec_sql sql params ts = exec_select (RefreshCatalog ts) params (new_parser tokens)"
  using assms by (subst exec_sql.simps) (simp add: Let_def exec_command_def)
section \<open>Properties\<close>

text \<open>whatever SQL text is executed, with whatever parameters and whether it succeeds or fails half
  way, the working tables stay well formed and every user table keeps meeting its NOT NULL, type,
  PRIMARY KEY and UNIQUE constraints.\<close>

theorem statements_keep_constraints:
  assumes "db_valid ts"
  shows "db_valid (oc_tables (exec_sql sql params ts))"
  using assms by (rule exec_sql_keeps)

theorem statements_keep_constraints_witness:
  "db_valid (oc_tables (exec_sql ''create table t (id integer primary key)'' [] []))"
  by (rule statements_keep_constraints) (simp add: db_valid_def tables_ok_def)

text \<open>C8: the loops over the tokens of a statement (columns of CREATE TABLE, target columns and rows of
  INSERT, assignments of UPDATE, select list and ORDER BY) all end within one turn per remaining
  token.\<close>

theorem statement_loops_return:
  assumes "parser_ok p"
  shows "(\<exists>r. iterate (loop_fuel p) create_step ([], p) = Some r) \<and>
    (\<exists>r. iterate (loop_fuel p) (target_step schema) ([], p) = Some r) \<and>
    (\<exists>r. iterate (loop_fuel p) (insert_step params targets) (t, p, u) = Some r) \<and>
    (\<exists>r. iterate (loop_fuel p) (assignment_step schema) ([], p) = Some r) \<and>
    (\<exists>r. iterate (loop_fuel p) item_step ([], [], p, False) = Some r) \<and>
    (\<exists>r. iterate (loop_fuel p) order_step ([], p) = Some r)"
  using create_loop [OF assms] target_loop [OF assms, of schema "[]"] insert_loop [OF assms, of params targets t u]
    assignment_loop [OF assms, of schema "[]"] item_loop [OF assms] order_loop [OF assms]
  by blast

theorem statement_loops_return_witness:
  "\<exists>r. iterate 3 create_step ([], new_parser [make_token KWord ''id'' 0, make_token KEnd [] 2]) = Some r"
proof -
  let ?p = "new_parser [make_token KWord ''id'' 0, make_token KEnd [] 2]"
  have "parser_ok ?p" by (simp add: parser_ok_def new_parser_def make_token_def)
  moreover have "loop_fuel ?p = 3" by (simp add: loop_fuel_def remaining_def new_parser_def)
  ultimately show ?thesis using statement_loops_return [of ?p] by simp
qed

text \<open>C9: a SELECT that succeeds returns what its clauses mean: exactly the rows for which WHERE is
  true, in an order the ORDER BY keys allow with tied rows left in place, projected, from OFFSET
  on, without repeated rows under DISTINCT, and at most LIMIT of them.\<close>

theorem select_meets_spec:
  assumes "list_all arg_complete (fst items)"
    and "oc = select_from ts t params dedup items predicate order_by bounds p u"
    and "oc_result oc = Inr r" "\<not> oc_undef oc"
  shows "\<exists>ri. r = Some ri \<and>
    select_spec t params dedup (item_exprs (tb_schema t) (fst items)) predicate order_by bounds (ri_rows ri)"
  using assms by (rule select_from_outcome)

theorem select_meets_spec_witness:
  "select_spec (snd (hd sample_tables)) [] False [Some (column_expr ''id'')] None [] (- 1, 0) [[VInteger 7], [VNull]]"
proof -
  let ?p = "new_parser [make_token KEnd [] 0]"
  let ?oc = "select_from sample_tables (snd (hd sample_tables)) [] False ([], []) None [] (- 1, 0) ?p False"
  have r: "oc_result ?oc = Inr (new_result (tb_schema (snd (hd sample_tables))) [[VInteger 7], [VNull]])"
    and u: "\<not> oc_undef ?oc"
    by code_simp+
  from select_meets_spec [OF _ refl r u] show ?thesis
    by (simp add: item_exprs_def new_result_def) (simp add: sample_tables_def)
qed

text \<open>SELECT never reports success without a result set, so the caller that counts the rows of a
  successful run never dereferences a null pointer; and it never changes a table.\<close>

theorem select_success_has_result:
  assumes "parser_ok p" "oc_result (exec_select ts params p) = Inr r" "\<not> oc_undef (exec_select ts params p)"
  shows "r \<noteq> None \<and> oc_tables (exec_select ts params p) = ts \<and> \<not> oc_persist (exec_select ts params p)"
  using exec_select_ok [OF assms(1), of ts params] assms(2,3) by (auto simp: sat_def select_ok_def)

definition sample_query :: "Token list" where
  "sample_query = map (\<lambda>s. make_token KWord s 0) [''select'', ''id'', ''from'', ''t''] @ [make_token KEnd [] 0]"

theorem select_success_has_result_witness:
  "\<exists>r. oc_result (exec_select sample_tables [] (new_parser sample_query)) = Inr (Some r)"
proof -
  have "parser_ok (new_parser sample_query)"
    by (simp add: parser_ok_def new_parser_def sample_query_def make_token_def)
  moreover have "\<not> oc_undef (exec_select sample_tables [] (new_parser sample_query))" by code_simp
  moreover have "case oc_result (exec_select sample_tables [] (new_parser sample_query)) of Inl _ \<Rightarrow> False | Inr r \<Rightarrow> True"
    by code_simp
  ultimately show ?thesis
    using select_success_has_result [of "new_parser sample_query" sample_tables "[]"] by (auto split: sum.splits)
qed

text \<open>when a COUNT(*) statement fails, for example because its WHERE clause does not evaluate, the
  error is dropped and the number of all rows of the table named after FROM is returned.\<close>

theorem count_drops_errors:
  assumes "oc_result filtered = Inl err" "find_sub '' from '' (Lower sql) = Some from"
    and "om_find (oc_tables filtered) (takeWhile isalnum (dropWhile isspace (drop (from + 6) (Lower sql)))) = Some t"
  shows "oc_result (count_result sql filtered) = Inr (count_set (length (tb_rows t)))"
  using assms by (simp add: count_result_def count_fallback_def return_result_def)

theorem count_drops_errors_witness:
  "(case oc_result (exec_sql ''select * from t where id < null'' [] sample_tables) of
      Inl err \<Rightarrow> pl_code err = kTypeError | Inr _ \<Rightarrow> False) \<and>
   oc_result (count_result ''select count(*) from t where id < null''
     (exec_sql ''select * from t where id < null'' [] sample_tables)) = Inr (count_set 2)"
proof -
  let ?oc = "exec_sql ''select * from t where id < null'' [] sample_tables"
  have e: "case oc_result ?oc of Inl err \<Rightarrow> pl_code err = kTypeError | Inr _ \<Rightarrow> False"
    and t: "om_find (oc_tables ?oc) ''t'' = Some (snd (hd sample_tables))"
    by code_simp+
  have f: "find_sub '' from '' (Lower ''select count(*) from t where id < null'') = Some 15" by code_simp
  have n: "takeWhile isalnum (dropWhile isspace (drop (15 + 6) (Lower ''select count(*) from t where id < null''))) = ''t''"
    by code_simp
  obtain err where "oc_result ?oc = Inl err" using e by (auto split: sum.splits)
  from count_drops_errors [OF this f, unfolded n, OF t] e show ?thesis
    by (simp add: sample_tables_def numeral_2_eq_2)
qed

end
