(* ===== verification/Engine.thy ===== *)
theory Engine
  imports Recovery Sql_Select
begin

text \<open>
  Connections, transactions, prepared statements and result sets: the public interface of
  \<^verbatim>\<open>include/tuplestone/db.h\<close> as implemented in \<^verbatim>\<open>src/api/db.cpp\<close>. A connection
  holds the private tables of its transaction, if it has one, and the generation of the database
  they were copied from. Operations take the database, the connection and the environment and
  return them; several connections to one database are a list, and a run is a sequence of whole
  operations on them. The code takes the mutex of the database only around the copying, the
  installing and the persisting of tables, so two threads inside \<^verbatim>\<open>ExecuteSql\<close> at the same
  time are outside this account.
\<close>

section \<open>Connections\<close>

record Connection =
  cn_tables :: "Tables option"
  cn_generation :: u64

definition new_Connection :: Connection where
  "new_Connection = \<lparr>cn_tables = None, cn_generation = 0\<rparr>"

definition db_Connect :: "Database \<Rightarrow> Connection status_or" where
  "db_Connect db = (if db_closed db then Inl (InvalidArgument ''database is closed'') else Inr new_Connection)"

text \<open>\<^verbatim>\<open>WorkingTables\<close>: the tables a statement reads and changes, and putting them back.\<close>

definition working_tables :: "Database \<Rightarrow> Connection \<Rightarrow> Tables" where
  "working_tables db cn = (case cn_tables cn of Some ts \<Rightarrow> ts | None \<Rightarrow> db_tables db)"

definition put_tables :: "Tables \<Rightarrow> Database \<Rightarrow> Connection \<Rightarrow> Database \<times> Connection" where
  "put_tables ts db cn =
     (case cn_tables cn of
        Some _ \<Rightarrow> (db, cn\<lparr>cn_tables := Some ts\<rparr>)
      | None \<Rightarrow> (db\<lparr>db_tables := ts\<rparr>, cn))"

definition persist :: "Database \<Rightarrow> Connection \<Rightarrow> env \<Rightarrow> status \<times> Database \<times> env" where
  "persist db cn e =
     (if cn_tables cn \<noteq> None then (None, db, e)
      else
        (let db1 = db\<lparr>db_generation := db_generation db + 1\<rparr> in
         PersistCommittedTables db1 (db_tables db1) e))"

text \<open>\<^verbatim>\<open>ExecuteSql\<close>\<close>

definition ExecuteSql ::
    "string \<Rightarrow> sqlvalue list \<Rightarrow> Database \<Rightarrow> Connection \<Rightarrow> env \<Rightarrow> ResultSet status_or \<times> Database \<times> Connection \<times> env" where
  "ExecuteSql sql params db cn e =
     (let oc = exec_sql sql params (working_tables db cn) in
      case put_tables (oc_tables oc) db cn of (db1, cn1) \<Rightarrow>
      if oc_persist oc then
        (case persist db1 cn1 e of (st, db2, e2) \<Rightarrow> (status_or_of_status None st, db2, cn1, e2))
      else (oc_result oc, db1, cn1, e))"

definition begin_transaction :: "Database \<Rightarrow> Connection \<Rightarrow> Connection" where
  "begin_transaction db cn = cn\<lparr>cn_tables := Some (db_tables db), cn_generation := db_generation db\<rparr>"

text \<open>
  The commit of the private tables \<open>ts\<close>, as \<^verbatim>\<open>Connection::Execute("commit")\<close> and
  \<^verbatim>\<open>Transaction::Commit\<close> both write it out.
\<close>

definition commit_tables ::
    "Tables \<Rightarrow> Database \<Rightarrow> Connection \<Rightarrow> env \<Rightarrow> status \<times> Database \<times> Connection \<times> env" where
  "commit_tables ts db cn e =
     (if db_generation db \<noteq> cn_generation cn then
        (Some (SerializationFailure ''transaction conflict''), db, cn\<lparr>cn_tables := None\<rparr>, e)
      else
        (let db1 = db\<lparr>db_tables := RefreshCatalog ts, db_generation := db_generation db + 1\<rparr> in
         case PersistCommittedTables db1 (db_tables db1) e of (st, db2, e2) \<Rightarrow>
           (st, db2, cn\<lparr>cn_tables := None\<rparr>, e2)))"

definition cn_Execute ::
    "string \<Rightarrow> Database \<Rightarrow> Connection \<Rightarrow> env \<Rightarrow> status \<times> Database \<times> Connection \<times> env" where
  "cn_Execute sql db cn e =
     (let command = TrimLower sql in
      if command = ''begin'' then
        (if cn_tables cn \<noteq> None then (Some (AlreadyExists ''transaction already active''), db, cn, e)
         else (None, db, begin_transaction db cn, e))
      else if command = ''rollback'' then (None, db, cn\<lparr>cn_tables := None\<rparr>, e)
      else if command = ''commit'' then
        (case cn_tables cn of
           None \<Rightarrow> (Some (InvalidArgument ''no active transaction''), db, cn, e)
         | Some ts \<Rightarrow> commit_tables ts db cn e)
      else
        (case ExecuteSql sql [] db cn e of (result, db1, cn1, e1) \<Rightarrow> (status_of result, db1, cn1, e1)))"

definition cn_Query ::
    "string \<Rightarrow> Database \<Rightarrow> Connection \<Rightarrow> env \<Rightarrow> ResultSet status_or \<times> Database \<times> Connection \<times> env" where
  "cn_Query sql db cn e = ExecuteSql sql [] db cn e"

section \<open>Transactions\<close>

text \<open>\<^verbatim>\<open>Transaction\<close> without its connection pointer; a moved-from object has no \<^verbatim>\<open>Impl\<close>.\<close>

record TransactionImpl =
  tx_finished :: bool

type_synonym Transaction = "TransactionImpl option"

definition cn_Begin :: "Database \<Rightarrow> Connection \<Rightarrow> Transaction status_or \<times> Connection" where
  "cn_Begin db cn =
     (if cn_tables cn \<noteq> None then (Inl (AlreadyExists ''transaction already active''), cn)
      else (Inr (Some \<lparr>tx_finished = False\<rparr>), begin_transaction db cn))"

text \<open>
  \<^verbatim>\<open>Transaction::Commit\<close>; the last component says that it has dereferenced the null pointer
  of a connection whose transaction is gone.
\<close>

definition tx_Commit ::
    "Transaction \<Rightarrow> Database \<Rightarrow> Connection \<Rightarrow> env \<Rightarrow> (status \<times> Transaction) \<times> Database \<times> Connection \<times> env \<times> bool" where
  "tx_Commit tx db cn e =
     (case tx of
        None \<Rightarrow> ((Some (InvalidArgument ''transaction is finished''), tx), db, cn, e, False)
      | Some t \<Rightarrow>
          if tx_finished t then ((Some (InvalidArgument ''transaction is finished''), tx), db, cn, e, False)
          else
            let ts = (case cn_tables cn of Some ts \<Rightarrow> ts | None \<Rightarrow> []);
                undef = (db_generation db = cn_generation cn \<and> cn_tables cn = None) in
            case commit_tables ts db cn e of (st, db1, cn1, e1) \<Rightarrow>
              ((st, Some (t\<lparr>tx_finished := True\<rparr>)), db1, cn1, e1, undef))"

definition tx_Rollback :: "Transaction \<Rightarrow> Connection \<Rightarrow> status \<times> Transaction \<times> Connection" where
  "tx_Rollback tx cn =
     (case tx of
        None \<Rightarrow> (None, tx, cn)
      | Some t \<Rightarrow>
          if tx_finished t then (None, tx, cn)
          else (None, Some (t\<lparr>tx_finished := True\<rparr>), cn\<lparr>cn_tables := None\<rparr>))"

text \<open>\<^verbatim>\<open>~Transaction\<close>\<close>

definition tx_drop :: "Transaction \<Rightarrow> Connection \<Rightarrow> Connection" where
  "tx_drop tx cn = snd (snd (tx_Rollback tx cn))"

section \<open>Prepared statements\<close>

record PreparedImpl =
  pr_sql :: string
  pr_bindings :: "sqlvalue list"

type_synonym PreparedStatement = "PreparedImpl option"

definition cn_Prepare :: "string \<Rightarrow> PreparedStatement status_or" where
  "cn_Prepare sql = Inr (Some \<lparr>pr_sql = sql, pr_bindings = []\<rparr>)"

definition pr_Bind :: "PreparedStatement \<Rightarrow> int \<Rightarrow> sqlvalue \<Rightarrow> status \<times> PreparedStatement" where
  "pr_Bind st index v =
     (case st of
        None \<Rightarrow> (Some (InvalidArgument ''parameter index starts at 1''), st)
      | Some s \<Rightarrow>
          if index \<le> 0 then (Some (InvalidArgument ''parameter index starts at 1''), st)
          else
            let grown = pr_bindings s @ replicate (nat index - length (pr_bindings s)) VNull in
            (None, Some (s\<lparr>pr_bindings := grown[nat (index - 1) := v]\<rparr>)))"

definition pr_Execute ::
    "PreparedStatement \<Rightarrow> Database \<Rightarrow> Connection \<Rightarrow> env \<Rightarrow> ResultSet status_or \<times> Database \<times> Connection \<times> env" where
  "pr_Execute st db cn e =
     (case st of
        None \<Rightarrow> (Inl (InvalidArgument ''invalid prepared statement''), db, cn, e)
      | Some s \<Rightarrow> ExecuteSql (pr_sql s) (pr_bindings s) db cn e)"

definition pr_Reset :: "PreparedStatement \<Rightarrow> status \<times> PreparedStatement" where
  "pr_Reset st =
     (case st of
        None \<Rightarrow> (Some (InvalidArgument ''invalid prepared statement''), st)
      | Some s \<Rightarrow> (None, Some (s\<lparr>pr_bindings := []\<rparr>)))"

section \<open>Result sets\<close>

definition rs_schema :: "ResultSet \<Rightarrow> Schema" where
  "rs_schema rs = (case rs of None \<Rightarrow> [] | Some r \<Rightarrow> ri_schema r)"

definition rs_Next :: "ResultSet \<Rightarrow> bool status_or \<times> ResultSet" where
  "rs_Next rs =
     (case rs of
        None \<Rightarrow> (Inl (InvalidArgument ''result set is closed''), rs)
      | Some r \<Rightarrow>
          if ri_closed r then (Inl (InvalidArgument ''result set is closed''), rs)
          else if length (ri_rows r) \<le> ri_index r then (Inr False, Some (r\<lparr>ri_closed := True\<rparr>))
          else (Inr True, Some (r\<lparr>ri_index := ri_index r + 1\<rparr>)))"

definition rs_Get :: "ResultSet \<Rightarrow> int \<Rightarrow> sqlvalue" where
  "rs_Get rs column =
     (case rs of
        None \<Rightarrow> VNull
      | Some r \<Rightarrow>
          if ri_index r = 0 \<or> length (ri_rows r) < ri_index r \<or> column < 0 \<or>
             length (ri_rows r ! (ri_index r - 1)) \<le> nat column
          then VNull
          else ri_rows r ! (ri_index r - 1) ! nat column)"

definition rs_Get_name :: "ResultSet \<Rightarrow> string \<Rightarrow> sqlvalue" where
  "rs_Get_name rs name = rs_Get rs (schema_Find (rs_schema rs) (Lower name))"

definition rs_Close :: "ResultSet \<Rightarrow> status \<times> ResultSet" where
  "rs_Close rs = (None, map_option (\<lambda>r. r\<lparr>ri_closed := True\<rparr>) rs)"

text \<open>The version is a macro the build defines.\<close>

definition VersionString :: "string \<Rightarrow> string" where
  "VersionString version = ''tuplestone '' @ version"

section \<open>Several connections\<close>

record engine =
  en_db :: Database
  en_conns :: "Connection list"
  en_env :: env

text \<open>
  One operation: SQL text with parameters or plain on a connection, the start of a transaction,
  a new connection, a checkpoint.
\<close>

datatype operation = Run nat string "sqlvalue list" | Exec nat string | Start nat | Connect | Check

definition on_connection ::
    "nat \<Rightarrow> (Database \<Rightarrow> Connection \<Rightarrow> env \<Rightarrow> 'r \<times> Database \<times> Connection \<times> env) \<Rightarrow> engine \<Rightarrow> engine" where
  "on_connection i f s =
     (case f (en_db s) (en_conns s ! i) (en_env s) of (_, db, cn, e) \<Rightarrow>
        \<lparr>en_db = db, en_conns = (en_conns s)[i := cn], en_env = e\<rparr>)"

fun apply_op :: "operation \<Rightarrow> engine \<Rightarrow> engine" where
  "apply_op (Run i sql params) s = on_connection i (ExecuteSql sql params) s"
| "apply_op (Exec i sql) s = on_connection i (cn_Execute sql) s"
| "apply_op (Start i) s =
     on_connection i (\<lambda>db cn e. case cn_Begin db cn of (r, cn') \<Rightarrow> (r, db, cn', e)) s"
| "apply_op Connect s =
     (case db_Connect (en_db s) of
        Inr cn \<Rightarrow> s\<lparr>en_conns := en_conns s @ [cn]\<rparr>
      | Inl _ \<Rightarrow> s)"
| "apply_op Check s =
     (case db_Checkpoint (en_db s) (en_env s) of (_, db, e) \<Rightarrow> s\<lparr>en_db := db, en_env := e\<rparr>)"

text \<open>The connection an operation runs on.\<close>

fun op_conn :: "operation \<Rightarrow> nat option" where
  "op_conn (Run i sql params) = Some i"
| "op_conn (Exec i sql) = Some i"
| "op_conn (Start i) = Some i"
| "op_conn Connect = None"
| "op_conn Check = None"

definition op_ok :: "operation \<Rightarrow> engine \<Rightarrow> bool" where
  "op_ok op s \<longleftrightarrow> (case op_conn op of Some i \<Rightarrow> i < length (en_conns s) | None \<Rightarrow> True)"

inductive reachable :: "engine \<Rightarrow> engine \<Rightarrow> bool" for s0 where
  init: "reachable s0 s0"
| step: "reachable s0 s \<Longrightarrow> op_ok op s \<Longrightarrow> reachable s0 (apply_op op s)"

text \<open>
  Whether an operation acknowledges a change of the shared tables: a statement outside a
  transaction that gets to \<^verbatim>\<open>persist()\<close>, or a commit that passes the conflict check.
\<close>

definition statement_writes :: "string \<Rightarrow> sqlvalue list \<Rightarrow> Database \<Rightarrow> Connection \<Rightarrow> bool" where
  "statement_writes sql params db cn \<longleftrightarrow>
     cn_tables cn = None \<and> oc_persist (exec_sql sql params (working_tables db cn))"

definition execute_writes :: "string \<Rightarrow> Database \<Rightarrow> Connection \<Rightarrow> bool" where
  "execute_writes sql db cn \<longleftrightarrow>
     (if TrimLower sql = ''commit'' then cn_tables cn \<noteq> None \<and> db_generation db = cn_generation cn
      else TrimLower sql \<noteq> ''begin'' \<and> TrimLower sql \<noteq> ''rollback'' \<and> statement_writes sql [] db cn)"

fun op_writes :: "operation \<Rightarrow> engine \<Rightarrow> bool" where
  "op_writes (Run i sql params) s = statement_writes sql params (en_db s) (en_conns s ! i)"
| "op_writes (Exec i sql) s = execute_writes sql (en_db s) (en_conns s ! i)"
| "op_writes (Start i) s = False"
| "op_writes Connect s = False"
| "op_writes Check s = False"

fun run_ops :: "operation list \<Rightarrow> engine \<Rightarrow> engine" where
  "run_ops [] s = s"
| "run_ops (op # ops) s = run_ops ops (apply_op op s)"

fun writes :: "operation list \<Rightarrow> engine \<Rightarrow> nat" where
  "writes [] s = 0"
| "writes (op # ops) s = (if op_writes op s then 1 else 0) + writes ops (apply_op op s)"

section \<open>What the engine relies on: persisting changes no table and no generation\<close>

locale persistence =
  fixes persist_tables :: "Database \<Rightarrow> Tables \<Rightarrow> env \<Rightarrow> status \<times> Database \<times> env"
  assumes keeps: "persist_tables db ts e = (st, db', e') \<Longrightarrow>
    db_tables db' = db_tables db \<and> db_generation db' = db_generation db \<and> db_path db' = db_path db \<and>
    db_options db' = db_options db \<and> db_closed db' = db_closed db"
begin

lemma installed:
  "persist_tables (db\<lparr>db_tables := ts, db_generation := g\<rparr>) ts e = (st, db', e') \<Longrightarrow>
   db_tables db' = ts \<and> db_generation db' = g"
  using keeps by fastforce

end

lemma Persist_keeps:
  "PersistCommittedTables db ts e = (st, db', e') \<Longrightarrow>
    db_tables db' = db_tables db \<and> db_generation db' = db_generation db \<and> db_path db' = db_path db \<and>
    db_options db' = db_options db \<and> db_closed db' = db_closed db"
  by (auto simp: PersistCommittedTables_def Let_def split: prod.splits sum.splits option.splits if_splits)

interpretation wal_store: persistence PersistCommittedTables
  by unfold_locales (rule Persist_keeps)

section \<open>Isolation\<close>

lemma ExecuteSql_isolated:
  assumes "cn_tables cn = Some ts" "ExecuteSql sql params db cn e = (r, db', cn', e')"
  shows "db' = db" "e' = e" "cn_generation cn' = cn_generation cn" "cn_tables cn' \<noteq> None"
  using assms
  by (auto simp: ExecuteSql_def put_tables_def persist_def Let_def split: if_splits)

lemma ExecuteSql_generation:
  assumes "ExecuteSql sql params db cn e = (r, db', cn', e')"
  shows "db_generation db' = db_generation db + (if statement_writes sql params db cn then 1 else 0)"
  using assms
  by (auto simp: ExecuteSql_def put_tables_def persist_def statement_writes_def Let_def
      split: if_splits prod.splits option.splits dest!: wal_store.installed)

lemma commit_tables_generation:
  assumes "commit_tables ts db cn e = (st, db', cn', e')"
  shows "db_generation db' = db_generation db + (if db_generation db = cn_generation cn then 1 else 0)"
  using assms
  by (auto simp: commit_tables_def Let_def split: if_splits prod.splits dest!: wal_store.installed)

lemma cn_Execute_generation:
  assumes "cn_Execute sql db cn e = (st, db', cn', e')"
  shows "db_generation db' = db_generation db + (if execute_writes sql db cn then 1 else 0)"
  using assms ExecuteSql_generation [of sql "[]" db cn e] commit_tables_generation [of _ db cn e]
  by (auto simp: cn_Execute_def execute_writes_def Let_def split: if_splits prod.splits option.splits)

lemma db_Checkpoint_generation: "db_Checkpoint db e = (st, db', e') \<Longrightarrow> db_generation db' = db_generation db"
  by (auto simp: db_Checkpoint_def split: if_splits prod.splits option.splits)

lemma op_generation:
  "db_generation (en_db (apply_op op s)) = db_generation (en_db s) + (if op_writes op s then 1 else 0)"
proof (cases op)
  case (Run i sql params)
  obtain r db cn e where "ExecuteSql sql params (en_db s) (en_conns s ! i) (en_env s) = (r, db, cn, e)"
    by (metis prod_cases4)
  with ExecuteSql_generation [OF this] show ?thesis by (simp add: Run on_connection_def)
next
  case (Exec i sql)
  obtain r db cn e where "cn_Execute sql (en_db s) (en_conns s ! i) (en_env s) = (r, db, cn, e)"
    by (metis prod_cases4)
  with cn_Execute_generation [OF this] show ?thesis by (simp add: Exec on_connection_def)
qed (auto simp: on_connection_def dest: db_Checkpoint_generation split: prod.split sum.split)

lemma run_generation: "db_generation (en_db (run_ops ops s)) = db_generation (en_db s) + of_nat (writes ops s)"
  by (induction ops arbitrary: s) (simp_all add: op_generation)

lemma writes_bound: "writes ops s \<le> length ops"
  by (induction ops arbitrary: s) (simp_all add: le_SucI)

lemma other_connection:
  "op_conn op \<noteq> Some i \<Longrightarrow> i < length (en_conns s) \<Longrightarrow>
   en_conns (apply_op op s) ! i = en_conns s ! i \<and> i < length (en_conns (apply_op op s))"
  by (cases op) (auto simp: on_connection_def nth_append split: prod.split sum.split)

lemma other_connections:
  "list_all (\<lambda>op. op_conn op \<noteq> Some i) ops \<Longrightarrow> i < length (en_conns s) \<Longrightarrow>
   en_conns (run_ops ops s) ! i = en_conns s ! i"
proof (induction ops arbitrary: s)
  case (Cons op ops)
  then show ?case using other_connection [of op i s] by simp
qed simp

section \<open>A transaction is invisible until it commits\<close>

text \<open>The operations that end the transaction of connection \<open>i\<close>.\<close>

definition ends :: "nat \<Rightarrow> operation \<Rightarrow> bool" where
  "ends i op \<longleftrightarrow> (case op of Exec j sql \<Rightarrow> j = i \<and> TrimLower sql \<in> {''commit'', ''rollback''} | _ \<Rightarrow> False)"

definition in_transaction :: "nat \<Rightarrow> engine \<Rightarrow> bool" where
  "in_transaction i s \<longleftrightarrow> i < length (en_conns s) \<and> cn_tables (en_conns s ! i) \<noteq> None"

text \<open>Two states that differ at most in what connection \<open>i\<close> holds.\<close>

definition same_but :: "nat \<Rightarrow> engine \<Rightarrow> engine \<Rightarrow> bool" where
  "same_but i s t \<longleftrightarrow> en_db s = en_db t \<and> en_env s = en_env t \<and>
     (\<exists>cn. en_conns t = (en_conns s)[i := cn])"

lemma same_but_refl: "same_but i s s"
  by (auto simp: same_but_def intro: exI [of _ "en_conns s ! i"])

lemma same_but_cong:
  assumes "same_but i s t" "op_conn op \<noteq> Some i" "i < length (en_conns s)"
  shows "same_but i (apply_op op s) (apply_op op t)"
  using assms
  by (cases op)
    (auto simp: same_but_def on_connection_def list_update_swap list_update_append nth_list_update_neq
      split: prod.split sum.split)

lemma cn_Execute_inside:
  assumes "cn_tables cn = Some ts" "TrimLower sql \<notin> {''commit'', ''rollback''}"
    and "cn_Execute sql db cn e = (st, db', cn', e')"
  shows "db' = db \<and> e' = e \<and> cn_generation cn' = cn_generation cn \<and> cn_tables cn' \<noteq> None"
  using assms ExecuteSql_isolated [OF assms(1)]
  by (auto simp: cn_Execute_def Let_def split: if_splits prod.splits)

lemma on_connection_same:
  "f (en_db s) (en_conns s ! i) (en_env s) = (r, en_db s, cn, en_env s) \<Longrightarrow>
   on_connection i f s = s\<lparr>en_conns := (en_conns s)[i := cn]\<rparr>"
  by (cases s) (simp add: on_connection_def)

lemma own_operation:
  assumes "in_transaction i s" "op_conn op = Some i" "\<not> ends i op"
  shows "\<exists>cn. apply_op op s = s\<lparr>en_conns := (en_conns s)[i := cn]\<rparr> \<and>
    cn_generation cn = cn_generation (en_conns s ! i) \<and> cn_tables cn \<noteq> None"
proof -
  obtain ts where ts: "cn_tables (en_conns s ! i) = Some ts" using assms(1) by (auto simp: in_transaction_def)
  show ?thesis
  proof (cases op)
    case (Run j sql params)
    obtain r db cn e where x: "ExecuteSql sql params (en_db s) (en_conns s ! i) (en_env s) = (r, db, cn, e)"
      by (metis prod_cases4)
    with ExecuteSql_isolated [OF ts x] assms(2) Run show ?thesis by (auto simp: on_connection_same)
  next
    case (Exec j sql)
    obtain r db cn e where x: "cn_Execute sql (en_db s) (en_conns s ! i) (en_env s) = (r, db, cn, e)"
      by (metis prod_cases4)
    with cn_Execute_inside [OF ts _ x] assms(2,3) Exec show ?thesis
      by (auto simp: on_connection_same ends_def)
  next
    case (Start j)
    with assms(2) ts show ?thesis
      by (intro exI [of _ "en_conns s ! i"]) (simp add: cn_Begin_def on_connection_def)
  qed (use assms(2) in simp_all)
qed

lemma step_inside:
  assumes "in_transaction i s" "\<not> ends i op"
  shows "in_transaction i (apply_op op s) \<and>
    cn_generation (en_conns (apply_op op s) ! i) = cn_generation (en_conns s ! i)"
proof (cases "op_conn op = Some i")
  case True
  from own_operation [OF assms(1) True assms(2)] assms(1) show ?thesis
    by (auto simp: in_transaction_def)
next
  case False
  with assms(1) other_connection [of op i s] show ?thesis by (auto simp: in_transaction_def)
qed

lemma run_inside:
  assumes "list_all (\<lambda>op. \<not> ends i op) ops" "in_transaction i s"
  shows "in_transaction i (run_ops ops s) \<and>
    cn_generation (en_conns (run_ops ops s) ! i) = cn_generation (en_conns s ! i)"
  using assms
proof (induction ops arbitrary: s)
  case (Cons op ops)
  then show ?case using step_inside [of i s op] by simp
qed simp

lemma same_but_trans: "same_but i s t \<Longrightarrow> same_but i t u \<Longrightarrow> same_but i s u"
  by (auto simp: same_but_def)

lemma run_same_but:
  assumes "list_all (\<lambda>op. \<not> ends i op) ops" "in_transaction i t" "same_but i s t"
  shows "same_but i (run_ops (filter (\<lambda>op. op_conn op \<noteq> Some i) ops) s) (run_ops ops t)"
  using assms
proof (induction ops arbitrary: s t)
  case (Cons op ops)
  have len: "i < length (en_conns s)" using Cons.prems by (auto simp: in_transaction_def same_but_def)
  show ?case
  proof (cases "op_conn op = Some i")
    case True
    with Cons.prems own_operation [of i t op] have "same_but i t (apply_op op t)"
      by (auto simp: same_but_def)
    with same_but_trans Cons step_inside [of i t op] True show ?thesis by auto
  next
    case False
    with Cons.prems len have "same_but i (apply_op op s) (apply_op op t)" by (intro same_but_cong)
    with Cons step_inside [of i t op] False show ?thesis by simp
  qed
qed simp

section \<open>Constraints hold in every reachable state\<close>

definition engine_valid :: "engine \<Rightarrow> bool" where
  "engine_valid s \<longleftrightarrow> db_valid (db_tables (en_db s)) \<and>
     list_all (\<lambda>cn. pred_option db_valid (cn_tables cn)) (en_conns s)"

definition conn_valid :: "Database \<Rightarrow> Connection \<Rightarrow> bool" where
  "conn_valid db cn \<longleftrightarrow> db_valid (db_tables db) \<and> pred_option db_valid (cn_tables cn)"

lemma ExecuteSql_valid:
  assumes "conn_valid db cn" "ExecuteSql sql params db cn e = (r, db', cn', e')"
  shows "conn_valid db' cn'"
proof -
  have "db_valid (oc_tables (exec_sql sql params (working_tables db cn)))"
    using assms(1) by (intro exec_sql_keeps) (auto simp: conn_valid_def working_tables_def split: option.split)
  with assms show ?thesis
    by (auto simp: ExecuteSql_def put_tables_def persist_def conn_valid_def Let_def
        split: if_splits prod.splits option.splits dest!: wal_store.installed)
qed

lemma commit_tables_valid:
  assumes "commit_tables ts db cn e = (st, db', cn', e')" "db_valid ts" "conn_valid db cn"
  shows "conn_valid db' cn'"
  using assms db_valid_RefreshCatalog [of ts]
  by (auto simp: commit_tables_def conn_valid_def Let_def split: if_splits prod.splits dest!: wal_store.installed)

lemma begin_valid: "conn_valid db cn \<Longrightarrow> conn_valid db (begin_transaction db cn)"
  by (simp add: conn_valid_def begin_transaction_def)

lemma cn_Execute_valid:
  assumes "conn_valid db cn" "cn_Execute sql db cn e = (st, db', cn', e')"
  shows "conn_valid db' cn'"
proof -
  have none: "conn_valid db (cn\<lparr>cn_tables := None\<rparr>)" using assms(1) by (simp add: conn_valid_def)
  consider "TrimLower sql = ''begin''" | "TrimLower sql = ''rollback''" | "TrimLower sql = ''commit''"
    | "TrimLower sql \<notin> {''begin'', ''rollback'', ''commit''}" by blast
  then show ?thesis
  proof cases
    case 1
    then show ?thesis using assms begin_valid by (auto simp: cn_Execute_def split: if_splits)
  next
    case 2
    then show ?thesis using assms none by (auto simp: cn_Execute_def)
  next
    case 3
    then show ?thesis
      using assms commit_tables_valid [of _ db cn e st db' cn' e']
      by (auto simp: cn_Execute_def conn_valid_def split: option.splits)
  next
    case 4
    then show ?thesis
      using assms ExecuteSql_valid [OF assms(1)] by (auto simp: cn_Execute_def Let_def split: prod.splits)
  qed
qed

lemma db_Checkpoint_tables: "db_Checkpoint db e = (st, db', e') \<Longrightarrow> db_tables db' = db_tables db"
  by (auto simp: db_Checkpoint_def split: if_splits prod.splits option.splits)

lemma on_connection_valid:
  assumes "\<And>r db cn e. f (en_db s) (en_conns s ! i) (en_env s) = (r, db, cn, e) \<Longrightarrow>
      conn_valid (en_db s) (en_conns s ! i) \<Longrightarrow> conn_valid db cn"
    and "engine_valid s" "i < length (en_conns s)"
  shows "engine_valid (on_connection i f s)"
proof -
  obtain r db cn e where f: "f (en_db s) (en_conns s ! i) (en_env s) = (r, db, cn, e)" by (metis prod_cases4)
  have "conn_valid (en_db s) (en_conns s ! i)"
    using assms(2,3) by (simp add: engine_valid_def conn_valid_def list_all_length)
  with assms(1) [OF f] assms(2,3) f show ?thesis
    by (auto simp: engine_valid_def conn_valid_def on_connection_def list_all_length nth_list_update)
qed

lemma apply_op_valid:
  assumes "engine_valid s" "op_ok op s"
  shows "engine_valid (apply_op op s)"
proof (cases op)
  case (Run i sql params)
  then show ?thesis
    using on_connection_valid [OF ExecuteSql_valid assms(1)] assms(2) by (auto simp: op_ok_def)
next
  case (Exec i sql)
  then show ?thesis
    using on_connection_valid [OF cn_Execute_valid assms(1)] assms(2) by (auto simp: op_ok_def)
next
  case (Start i)
  have "engine_valid (on_connection i (\<lambda>db cn e. case cn_Begin db cn of (r, cn') \<Rightarrow> (r, db, cn', e)) s)"
    using assms Start by (intro on_connection_valid) (auto simp: op_ok_def cn_Begin_def begin_valid split: if_splits)
  with Start show ?thesis by simp
next
  case Connect
  with assms show ?thesis by (simp add: engine_valid_def db_Connect_def new_Connection_def)
next
  case Check
  with assms show ?thesis by (auto simp: engine_valid_def dest: db_Checkpoint_tables split: prod.split)
qed

lemma reachable_valid: "reachable s0 s \<Longrightarrow> engine_valid s0 \<Longrightarrow> engine_valid s"
  by (induction rule: reachable.induct) (auto intro: apply_op_valid)

section \<open>Result sets and bindings\<close>

text \<open>Calling \<^verbatim>\<open>Next\<close> and, while it returns true, reading the columns: a client's loop.\<close>

fun fetch_rows :: "nat \<Rightarrow> nat \<Rightarrow> ResultSet \<Rightarrow> sqlvalue list list \<times> ResultSet" where
  "fetch_rows 0 width rs = ([], rs)"
| "fetch_rows (Suc n) width rs =
     (case rs_Next rs of
        (Inr True, rs1) \<Rightarrow>
          (case fetch_rows n width rs1 of (rows, rs2) \<Rightarrow> (map (\<lambda>c. rs_Get rs1 (int c)) [0..<width] # rows, rs2))
      | (_, rs1) \<Rightarrow> ([], rs1))"

lemma fetch_rows_from:
  assumes "list_all (\<lambda>row. length row = width) (ri_rows r)" "\<not> ri_closed r"
    and "ri_index r + k = length (ri_rows r)"
  shows "fetch_rows (Suc k) width (Some r) =
    (drop (ri_index r) (ri_rows r), Some (r\<lparr>ri_index := length (ri_rows r), ri_closed := True\<rparr>))"
  using assms
proof (induction k arbitrary: r)
  case 0
  then show ?case by (simp add: rs_Next_def)
next
  case (Suc k)
  let ?r = "r\<lparr>ri_index := ri_index r + 1\<rparr>" and ?row = "ri_rows r ! ri_index r"
  have i: "ri_index r < length (ri_rows r)" using Suc.prems(3) by simp
  then have "length ?row = width" using Suc.prems(1) by (simp add: list_all_length)
  then have row: "map (\<lambda>c. rs_Get (Some ?r) (int c)) [0..<width] = ?row"
    using i by (intro nth_equalityI) (simp_all add: rs_Get_def)
  have "fetch_rows (Suc k) width (Some ?r) =
    (drop (ri_index r + 1) (ri_rows r), Some (r\<lparr>ri_index := length (ri_rows r), ri_closed := True\<rparr>))"
    using Suc.IH [of ?r] Suc.prems by simp
  with i Suc.prems(2) row show ?case
    by (simp add: rs_Next_def Cons_nth_drop_Suc del: fetch_rows.simps(2) add: fetch_rows.simps(2) [of "Suc k"])
qed

lemma commit_decision:
  assumes "in_transaction i s" "TrimLower sql = ''commit''"
    and "cn_Execute sql (en_db s) (en_conns s ! i) (en_env s) = (st, db', cn', e')"
  shows "cn_tables cn' = None"
    and "db_generation (en_db s) \<noteq> cn_generation (en_conns s ! i) \<Longrightarrow>
      st = Some (SerializationFailure ''transaction conflict'') \<and> db' = en_db s \<and> e' = en_env s"
    and "db_generation (en_db s) = cn_generation (en_conns s ! i) \<Longrightarrow>
      db_tables db' = RefreshCatalog (the (cn_tables (en_conns s ! i)))"
  using assms
  by (auto simp: in_transaction_def cn_Execute_def commit_tables_def Let_def split: if_splits prod.splits
      dest!: wal_store.installed)

lemma tx_Commit_is_commit:
  assumes "cn_tables cn \<noteq> None" "\<not> tx_finished t"
  shows "tx_Commit (Some t) db cn e =
    (case cn_Execute ''commit'' db cn e of (st, db', cn', e') \<Rightarrow>
       ((st, Some (t\<lparr>tx_finished := True\<rparr>)), db', cn', e', False))"
proof -
  have "TrimLower ''commit'' = ''commit''" by code_simp
  with assms show ?thesis by (auto simp: tx_Commit_def cn_Execute_def split: prod.split)
qed

lemma tx_Commit_without_tables:
  assumes "cn_tables cn = None" "\<not> tx_finished t" "db_generation db = cn_generation cn"
  shows "snd (snd (snd (snd (tx_Commit (Some t) db cn e))))"
  using assms by (simp add: tx_Commit_def Let_def split: prod.split)

lemma begin_state:
  assumes "i < length (en_conns s)" "cn_tables (en_conns s ! i) = None"
  shows "on_connection i (cn_Execute ''begin'') s = s\<lparr>en_conns := (en_conns s)[i := begin_transaction (en_db s) (en_conns s ! i)]\<rparr>"
proof -
  have "TrimLower ''begin'' = ''begin''" by code_simp
  with assms show ?thesis by (simp add: on_connection_same cn_Execute_def)
qed

section \<open>Properties\<close>

text \<open>Two connections to a database just opened.\<close>

definition sample_engine :: engine where
  "sample_engine = \<lparr>en_db = sample_db, en_conns = [new_Connection, new_Connection], en_env = sample_env\<rparr>"

definition sample_column :: Column where
  "sample_column = \<lparr>col_name = ''id'', col_type = TInteger, col_nullable = True, col_primary_key = False,
     col_unique = False\<rparr>"

lemma empty_catalog:
  "RefreshCatalog [] =
     [(''tuplestone_columns'', \<lparr>tb_schema = columns_schema, tb_rows = []\<rparr>),
      (''tuplestone_indexes'', \<lparr>tb_schema = indexes_schema, tb_rows = []\<rparr>),
      (''tuplestone_tables'', \<lparr>tb_schema = tables_schema, tb_rows = []\<rparr>)]"
  by code_simp

lemmas catalog_schemas = columns_schema_def indexes_schema_def tables_schema_def catalog_column_def

lemma empty_catalog_fits: "snapshot_fits (RefreshCatalog [])"
proof -
  have "om_ok (RefreshCatalog [])" "list_all (\<lambda>entry. Lower (fst entry) = fst entry) (RefreshCatalog [])"
    by code_simp+
  then have "tables_fit (RefreshCatalog [])"
    by (simp add: tables_fit_def empty_catalog table_fits_def column_fits_def catalog_schemas)
  moreover have "length (snapshot_payload (RefreshCatalog [])) < 6333"
    by (simp add: empty_catalog snapshot_payload_def kSnapshotPrefix_def SerializeTables_def data_magic_def
        wr_Table_def wr_Column_def catalog_schemas wr_flag_def wr_U8_def wr_String_def wr_U32_def Let_def)
  ultimately show ?thesis by (simp add: snapshot_fits_def max_length_def)
qed

text \<open>C4: what a transaction does is invisible until it ends. Whatever statements connection \<open>i\<close>
  runs inside its transaction, interleaved in any way with the operations of others, the database,
  its files and every other connection end as if connection \<open>i\<close> had done nothing. A rollback then
  leaves the whole state, connection \<open>i\<close> included, as if it had been called without any of these
  statements: the private tables are gone, and of the transaction only the generation it started
  from is remembered.\<close>

theorem transaction_invisible:
  assumes "in_transaction i s" "list_all (\<lambda>op. \<not> ends i op) ops"
  defines "u \<equiv> run_ops (filter (\<lambda>op. op_conn op \<noteq> Some i) ops) s"
  shows "same_but i u (run_ops ops s) \<and>
    apply_op (Exec i ''rollback'') (run_ops ops s) =
      u\<lparr>en_conns := (en_conns u)[i := (en_conns s ! i)\<lparr>cn_tables := None\<rparr>]\<rparr>"
proof -
  let ?t = "run_ops ops s"
  have same: "same_but i u ?t" unfolding u_def using run_same_but [OF assms(2,1) same_but_refl] .
  then have t: "en_db u = en_db ?t" "en_env u = en_env ?t" "(en_conns ?t)[i := cn] = (en_conns u)[i := cn]" for cn
    by (auto simp: same_but_def)
  have "cn_generation (en_conns ?t ! i) = cn_generation (en_conns s ! i)" using run_inside [OF assms(2,1)] by blast
  then have cn: "(en_conns ?t ! i)\<lparr>cn_tables := None\<rparr> = (en_conns s ! i)\<lparr>cn_tables := None\<rparr>"
    by (simp add: Connection.equality)
  have "TrimLower ''rollback'' = ''rollback''" by code_simp
  then have "apply_op (Exec i ''rollback'') ?t =
      \<lparr>en_db = en_db ?t, en_conns = (en_conns ?t)[i := (en_conns s ! i)\<lparr>cn_tables := None\<rparr>], en_env = en_env ?t\<rparr>"
    by (simp add: on_connection_def cn_Execute_def cn)
  also have "\<dots> = u\<lparr>en_conns := (en_conns u)[i := (en_conns s ! i)\<lparr>cn_tables := None\<rparr>]\<rparr>"
    by (simp add: engine.equality t)
  finally show ?thesis using same by blast
qed

theorem transaction_invisible_witness:
  "let s = apply_op (Exec 0 ''begin'') sample_engine;
       t = run_ops [Exec 0 ''create table t (id integer)'', Exec 1 ''create table u (id integer)'',
         Exec 0 ''drop table t''] s
   in en_db t = en_db (apply_op (Exec 1 ''create table u (id integer)'') s)"
proof -
  let ?s = "apply_op (Exec 0 ''begin'') sample_engine"
  let ?ops = "[Exec 0 ''create table t (id integer)'', Exec 1 ''create table u (id integer)'', Exec 0 ''drop table t'']"
  have i: "in_transaction 0 ?s"
    by (simp add: begin_state sample_engine_def new_Connection_def in_transaction_def begin_transaction_def)
  have "TrimLower ''create table t (id integer)'' \<notin> {''commit'', ''rollback''}"
    "TrimLower ''drop table t'' \<notin> {''commit'', ''rollback''}"
    by code_simp+
  then have e: "list_all (\<lambda>op. \<not> ends 0 op) ?ops" by (simp add: ends_def)
  from transaction_invisible [OF i e] show ?thesis by (simp add: same_but_def)
qed



text \<open>C6: a commit that meets no conflict is durable. Without I/O faults it succeeds, and a crash right
  after it loses nothing: reopening the database finds the private tables of the transaction, with
  the catalog tables brought up to date.\<close>

theorem commit_is_durable:
  assumes "cn_tables cn = Some ts" "db_generation db = cn_generation cn" "TrimLower sql = ''commit''"
    and "tape e = []" "db_ready db e rs" "snapshot_fits (RefreshCatalog ts)" "sync_on_commit (db_options db)"
    and "create_if_missing opts" "reopened (db_path db) opts e = Inr old"
  shows "\<exists>db' cn' e'. cn_Execute sql db cn e = (None, db', cn', e') \<and> cn_tables cn' = None \<and>
    db_tables db' = RefreshCatalog ts \<and> reopened (db_path db) opts e' = Inr (RefreshCatalog ts)"
proof -
  let ?db = "db\<lparr>db_tables := RefreshCatalog ts, db_generation := db_generation db + 1\<rparr>"
  have ready: "db_ready ?db e rs" using assms(5) by (simp add: db_ready_def)
  obtain db' e' where p: "PersistCommittedTables ?db (RefreshCatalog ts) e = (None, db', e')"
    and f: "fs e' (db_path ?db) = Some (SerializeTables (RefreshCatalog ts))"
    using Persist_faultless [OF assms(4) ready assms(6)] by blast
  have "reopened (db_path db) opts e' = Inr (RefreshCatalog ts)"
    using commit_outcome_loads [OF p ready _ assms(6,8)] assms(7,9) f by simp
  with p wal_store.installed [OF p] assms(1,2,3) show ?thesis
    by (auto simp: cn_Execute_def commit_tables_def)
qed

theorem commit_is_durable_witness:
  "\<exists>db' cn' e'. cn_Execute ''Commit;'' sample_db (begin_transaction sample_db new_Connection) sample_env =
      (None, db', cn', e') \<and> reopened ''d'' default_Options e' = Inr (RefreshCatalog [])"
proof -
  have c: "TrimLower ''Commit;'' = ''commit''" by code_simp
  show ?thesis
    using commit_is_durable [OF _ _ c _ sample_db_ready _ _ _, of "begin_transaction sample_db new_Connection" "[]" default_Options "[]"]
      empty_catalog_fits sample_reopened [of sample_env]
    by (auto simp: sample_simps sample_env_def begin_transaction_def)
qed

text \<open>C7: in every state that any sequence of operations of any number of connections can reach, the
  shared tables and the private tables of every open transaction meet all column constraints.\<close>

theorem constraints_always_hold:
  assumes "engine_valid s0" "reachable s0 s"
  shows "db_valid (db_tables (en_db s)) \<and>
    (\<forall>cn \<in> set (en_conns s). \<forall>ts. cn_tables cn = Some ts \<longrightarrow> db_valid ts)"
  using reachable_valid [OF assms(2,1)] by (auto simp: engine_valid_def list_all_iff)

theorem constraints_always_hold_witness:
  "db_valid (db_tables (en_db (apply_op (Exec 1 ''create table u (id integer)'') sample_engine)))"
proof -
  have "engine_valid sample_engine"
    by (simp add: engine_valid_def sample_engine_def sample_simps new_Connection_def db_valid_def tables_ok_def)
  moreover have "reachable sample_engine (apply_op (Exec 1 ''create table u (id integer)'') sample_engine)"
    by (intro reachable.intros) (simp add: op_ok_def sample_engine_def)
  ultimately show ?thesis using constraints_always_hold by blast
qed

text \<open>a client that calls \<^verbatim>\<open>Next\<close> until it returns false and reads the columns each time gets
  exactly the rows of the result, in order, in one call more than there are rows; further calls
  report that the result set is closed.\<close>

theorem result_set_yields_rows:
  assumes "list_all (\<lambda>row. length row = length schema) rows"
  shows "\<exists>rs. fetch_rows (length rows + 1) (length schema)
      (Some \<lparr>ri_schema = schema, ri_rows = rows, ri_index = 0, ri_closed = False\<rparr>) = (rows, rs) \<and>
    rs_Next rs = (Inl (InvalidArgument ''result set is closed''), rs)"
  using fetch_rows_from [of "length schema" "\<lparr>ri_schema = schema, ri_rows = rows, ri_index = 0, ri_closed = False\<rparr>" "length rows"] assms
  by (simp add: rs_Next_def)

theorem result_set_yields_rows_witness:
  "fst (fetch_rows 3 1 (Some \<lparr>ri_schema = [sample_column], ri_rows = [[VInteger 1], [VNull]], ri_index = 0, ri_closed = False\<rparr>)) =
    [[VInteger 1], [VNull]]"
  using result_set_yields_rows [of "[sample_column]" "[[VInteger 1], [VNull]]"] by (auto simp: numeral_3_eq_3)

end
