(* ===== verification/B_Plus_Tree.thy ===== *)
theory B_Plus_Tree
  imports Status Ordered_Map
begin

text \<open>
  The index of \<^verbatim>\<open>src/index/b_plus_tree.cpp\<close>: an ordered map from keys to the addresses filed
  under them, unique or not. Its abstract account is the set of pairs of a key and an address;
  \<open>bt_ok\<close> is the invariant under which the operations are operations on that set.
\<close>

record BPlusTree =
  bt_unique :: bool
  bt_entries :: "(string, RID list) omap"

definition new_BPlusTree :: "bool \<Rightarrow> BPlusTree" where
  "new_BPlusTree unique = \<lparr>bt_unique = unique, bt_entries = []\<rparr>"

text \<open>\<^verbatim>\<open>entries_[key]\<close> files an empty list under a key that is not there.\<close>

definition bt_Insert :: "BPlusTree \<Rightarrow> string \<Rightarrow> RID \<Rightarrow> status \<times> BPlusTree" where
  "bt_Insert t key rid =
     (if \<not> RID_valid rid then (Some (InvalidArgument ''index RID is invalid''), t)
      else
        let entries = om_emplace key [] (bt_entries t);
            found = (case om_find entries key of Some vs \<Rightarrow> vs | None \<Rightarrow> []) in
        if bt_unique t \<and> found \<noteq> [] then
          (Some (AlreadyExists ''duplicate index key''), t\<lparr>bt_entries := entries\<rparr>)
        else if rid \<in> set found then
          (Some (AlreadyExists ''duplicate index entry''), t\<lparr>bt_entries := entries\<rparr>)
        else (None, t\<lparr>bt_entries := om_put key (found @ [rid]) entries\<rparr>))"

definition bt_Remove :: "BPlusTree \<Rightarrow> string \<Rightarrow> RID \<Rightarrow> status \<times> BPlusTree" where
  "bt_Remove t key rid =
     (case om_find (bt_entries t) key of
        None \<Rightarrow> (Some (NotFound ''index key not found''), t)
      | Some found \<Rightarrow>
          if bt_unique t \<or> \<not> RID_valid rid then
            (None, t\<lparr>bt_entries := om_erase key (bt_entries t)\<rparr>)
          else
            let rest = filter (\<lambda>r. r \<noteq> rid) found in
            if rest = [] then (None, t\<lparr>bt_entries := om_erase key (bt_entries t)\<rparr>)
            else (None, t\<lparr>bt_entries := om_put key rest (bt_entries t)\<rparr>))"

definition bt_Search :: "BPlusTree \<Rightarrow> string \<Rightarrow> RID status_or" where
  "bt_Search t key =
     (case om_find (bt_entries t) key of
        Some (r # _) \<Rightarrow> Inr r
      | _ \<Rightarrow> Inl (NotFound ''index key not found''))"

definition bt_SearchAll :: "BPlusTree \<Rightarrow> string \<Rightarrow> RID list" where
  "bt_SearchAll t key = (case om_find (bt_entries t) key of None \<Rightarrow> [] | Some rs \<Rightarrow> rs)"

definition bt_Range :: "BPlusTree \<Rightarrow> string \<Rightarrow> (string \<times> RID) list" where
  "bt_Range t lower =
     concat (map (\<lambda>(key, rs). map (\<lambda>r. (key, r)) rs) (om_lower_bound lower (bt_entries t)))"

fun bt_check :: "bool \<Rightarrow> (string, RID list) omap \<Rightarrow> status" where
  "bt_check unique [] = None"
| "bt_check unique ((key, rs) # m) =
     (if key = [] \<and> rs = [] then Some (Corruption ''empty index entry'')
      else if unique \<and> 1 < length rs then Some (Corruption ''unique index contains duplicate key'')
      else bt_check unique m)"

definition bt_Validate :: "BPlusTree \<Rightarrow> status" where
  "bt_Validate t = bt_check (bt_unique t) (bt_entries t)"

definition bt_size :: "BPlusTree \<Rightarrow> nat" where
  "bt_size t = sum_list (map (\<lambda>(key, rs). length rs) (bt_entries t))"

section \<open>The invariant and the set of pairs\<close>

definition bt_ok :: "BPlusTree \<Rightarrow> bool" where
  "bt_ok t \<longleftrightarrow> om_ok (bt_entries t) \<and>
     list_all (\<lambda>(key, rs). rs \<noteq> [] \<and> distinct rs \<and> list_all RID_valid rs \<and> (bt_unique t \<longrightarrow> length rs = 1))
       (bt_entries t)"

definition bt_pairs :: "BPlusTree \<Rightarrow> (string \<times> RID) set" where
  "bt_pairs t = {(key, r). r \<in> set (bt_SearchAll t key)}"

lemma bt_entry:
  assumes "bt_ok t" "om_find (bt_entries t) key = Some rs"
  shows "rs \<noteq> []" "distinct rs" "list_all RID_valid rs" "bt_unique t \<Longrightarrow> length rs = 1"
  using assms by (auto simp: bt_ok_def list_all_iff dest!: om_find_SomeD)

lemma om_find_mem:
  assumes "om_ok m"
  shows "(k, v) \<in> set m \<longleftrightarrow> om_find m k = Some v"
proof -
  have "distinct (map fst m)" using assms unfolding om_ok_def using strict_sorted_iff by blast
  then show ?thesis by (simp add: om_find_def)
qed

lemma bt_ok_iff:
  "bt_ok t \<longleftrightarrow> om_ok (bt_entries t) \<and>
     (\<forall>key rs. om_find (bt_entries t) key = Some rs \<longrightarrow>
        rs \<noteq> [] \<and> distinct rs \<and> list_all RID_valid rs \<and> (bt_unique t \<longrightarrow> length rs = 1))"
proof (cases "om_ok (bt_entries t)")
  case True
  then show ?thesis
    unfolding bt_ok_def list_all_iff [of _ "bt_entries t"] om_find_mem [OF True, symmetric] by blast
qed (simp add: bt_ok_def)

lemma bt_SearchAll_pairs: "r \<in> set (bt_SearchAll t key) \<longleftrightarrow> (key, r) \<in> bt_pairs t"
  by (simp add: bt_pairs_def)

lemma bt_ok_put:
  assumes "bt_ok t" "rs \<noteq> []" "distinct rs" "list_all RID_valid rs" "bt_unique t \<Longrightarrow> length rs = 1"
  shows "bt_ok (t\<lparr>bt_entries := om_put key rs (bt_entries t)\<rparr>)"
  using assms by (auto simp: bt_ok_iff om_find_put)

lemma bt_pairs_put:
  assumes "bt_ok t"
  shows "bt_pairs (t\<lparr>bt_entries := om_put key rs (bt_entries t)\<rparr>) =
    {(k, r) \<in> bt_pairs t. k \<noteq> key} \<union> {key} \<times> set rs"
  using assms by (auto simp: bt_ok_def bt_pairs_def bt_SearchAll_def om_find_put split: if_splits)

lemma bt_insert_outcome:
  assumes "bt_ok t" "bt_Insert t key rid = (st, t')"
  shows "bt_ok t' \<and> bt_unique t' = bt_unique t \<and>
    (if RID_valid rid \<and> (key, rid) \<notin> bt_pairs t \<and> (bt_unique t \<longrightarrow> (\<forall>r. (key, r) \<notin> bt_pairs t))
     then st = None \<and> bt_pairs t' = insert (key, rid) (bt_pairs t) else st \<noteq> None \<and> t' = t)"
proof (cases "om_find (bt_entries t) key")
  case None
  have ok: "om_ok (bt_entries t)" using assms(1) by (simp add: bt_ok_def)
  then have e: "om_put key [rid] (om_emplace key [] (bt_entries t)) = om_put key [rid] (bt_entries t)"
    using None by (simp add: om.emplace_new om.put_put)
  have "om_find (om_emplace key [] (bt_entries t)) key = Some []"
    using None ok by (simp add: om.find_emplace)
  then have "bt_Insert t key rid = (if RID_valid rid then (None, t\<lparr>bt_entries := om_put key [rid] (bt_entries t)\<rparr>)
      else (Some (InvalidArgument ''index RID is invalid''), t))"
    by (simp add: bt_Insert_def Let_def e)
  moreover have "(key, r) \<notin> bt_pairs t" for r using None by (simp add: bt_pairs_def bt_SearchAll_def)
  ultimately show ?thesis
    using assms bt_ok_put [OF assms(1), of "[rid]" key] by (auto simp: bt_pairs_put split: if_splits)
next
  case (Some found)
  have ok: "om_ok (bt_entries t)" using assms(1) by (simp add: bt_ok_def)
  note f = bt_entry [OF assms(1) Some]
  have "om_emplace key [] (bt_entries t) = bt_entries t" using Some ok by (simp add: om.emplace_present)
  with Some f(1) have "bt_Insert t key rid =
      (if \<not> RID_valid rid then (Some (InvalidArgument ''index RID is invalid''), t)
       else if bt_unique t then (Some (AlreadyExists ''duplicate index key''), t)
       else if rid \<in> set found then (Some (AlreadyExists ''duplicate index entry''), t)
       else (None, t\<lparr>bt_entries := om_put key (found @ [rid]) (bt_entries t)\<rparr>))"
    by (simp add: bt_Insert_def Let_def)
  moreover have "\<exists>r. (key, r) \<in> bt_pairs t" "(key, rid) \<in> bt_pairs t \<longleftrightarrow> rid \<in> set found"
    using Some f(1) by (auto simp: bt_pairs_def bt_SearchAll_def neq_Nil_conv)
  moreover have "{key} \<times> set found = {(k, r) \<in> bt_pairs t. k = key}"
    using Some by (auto simp: bt_pairs_def bt_SearchAll_def)
  then have "{(k, r) \<in> bt_pairs t. k \<noteq> key} \<union> {key} \<times> set (found @ [rid]) = insert (key, rid) (bt_pairs t)"
    by auto
  ultimately show ?thesis
    using assms f bt_ok_put [OF assms(1), of "found @ [rid]" key]
    by (auto simp: bt_pairs_put simp del: set_append split: if_splits)
qed

lemma bt_remove_outcome:
  assumes "bt_ok t" "bt_Remove t key rid = (st, t')"
  shows "bt_ok t' \<and> bt_unique t' = bt_unique t \<and>
    (st = None \<longleftrightarrow> (\<exists>r. (key, r) \<in> bt_pairs t)) \<and>
    bt_pairs t' = {(k, r) \<in> bt_pairs t. k \<noteq> key \<or> \<not> (bt_unique t \<or> \<not> RID_valid rid \<or> r = rid)}"
proof (cases "om_find (bt_entries t) key")
  case None
  with assms show ?thesis by (auto simp: bt_Remove_def bt_pairs_def bt_SearchAll_def)
next
  case (Some found)
  have ok: "om_ok (bt_entries t)" using assms(1) by (simp add: bt_ok_def)
  note f = bt_entry [OF assms(1) Some]
  have ne: "\<exists>r. (key, r) \<in> bt_pairs t" using Some f(1) by (auto simp: bt_pairs_def bt_SearchAll_def neq_Nil_conv)
  show ?thesis
  proof (cases "bt_unique t \<or> \<not> RID_valid rid")
    case True
    with assms(2) Some have "st = None" "t' = t\<lparr>bt_entries := om_erase key (bt_entries t)\<rparr>"
      by (simp_all add: bt_Remove_def split: if_splits)
    with True assms(1) ne show ?thesis
      by (auto simp: bt_ok_iff om_find_erase bt_pairs_def bt_SearchAll_def split: option.splits if_splits)
  next
    case False
    with assms(2) Some have "st = None" and t': "t' = (if filter (\<lambda>r. r \<noteq> rid) found = []
        then t\<lparr>bt_entries := om_erase key (bt_entries t)\<rparr>
        else t\<lparr>bt_entries := om_put key (filter (\<lambda>r. r \<noteq> rid) found) (bt_entries t)\<rparr>)"
      by (auto simp: bt_Remove_def Let_def split: if_splits)
    moreover have "bt_ok t'"
      using False assms(1) f ok unfolding t'
      by (auto simp: bt_ok_iff om_find_erase om_find_put list_all_iff split: if_splits)
    moreover have "bt_SearchAll t' k = (if k = key then filter (\<lambda>r. r \<noteq> rid) found else bt_SearchAll t k)" for k
      using ok unfolding t' by (auto simp: bt_SearchAll_def om_find_erase om_find_put)
    then have "bt_pairs t' = {(k, r) \<in> bt_pairs t. k \<noteq> key \<or> r \<noteq> rid}"
      using Some by (auto simp: bt_pairs_def bt_SearchAll_def split: if_splits)
    moreover have "bt_unique t' = bt_unique t" unfolding t' by simp
    ultimately show ?thesis using False ne by auto
  qed
qed

section \<open>Queries\<close>

lemma bt_check_ok:
  "list_all (\<lambda>(key, rs). rs \<noteq> [] \<and> distinct rs \<and> list_all RID_valid rs \<and> (unique \<longrightarrow> length rs = 1)) m \<Longrightarrow>
   bt_check unique m = None"
  by (induction unique m rule: bt_check.induct) auto

lemma set_bt_Range:
  assumes "bt_ok t"
  shows "set (bt_Range t lower) = {(k, r) \<in> bt_pairs t. lower \<le> k}"
proof -
  have ok: "om_ok (bt_entries t)" using assms by (simp add: bt_ok_def)
  then show ?thesis
    by (force simp: bt_Range_def om_lower_bound_eq [OF ok] bt_pairs_def bt_SearchAll_def om_find_mem
        split: option.splits)
qed

lemma sorted_fst_concat:
  assumes "om_ok m"
  shows "sorted (map fst (concat (map (\<lambda>(key, rs). map (\<lambda>r. (key, r)) rs) m)))"
  using assms
proof (induction m)
  case (Cons p m)
  then show ?case
    by (cases p) (auto simp: om_ok_Cons sorted_append sorted_wrt_map comp_def intro: less_imp_le)
qed simp

lemma distinct_pairs:
  assumes "om_ok m" "list_all (\<lambda>(key, rs). distinct rs) m"
  shows "distinct (concat (map (\<lambda>(key, rs). map (\<lambda>r. (key, r)) rs) m))"
  using assms
proof (induction m)
  case (Cons p m)
  then show ?case
    by (cases p) (auto simp: om_ok_Cons distinct_map inj_on_def)
qed simp

lemma om_ok_filter: "om_ok m \<Longrightarrow> om_ok (filter P m)"
  by (induction m) (auto simp: om_ok_Cons)

lemma bt_Range_sorted:
  assumes "bt_ok t"
  shows "sorted (map fst (bt_Range t lower))" "distinct (bt_Range t lower)"
proof -
  have ok: "om_ok (filter (\<lambda>p. lower \<le> fst p) (bt_entries t))"
    using assms by (simp add: bt_ok_def om_ok_filter)
  then show "sorted (map fst (bt_Range t lower))"
    using assms by (simp add: bt_Range_def bt_ok_def om_lower_bound_eq sorted_fst_concat)
  have "list_all (\<lambda>(key, rs). distinct rs) (filter (\<lambda>p. lower \<le> fst p) (bt_entries t))"
    using assms by (auto simp: bt_ok_def list_all_iff)
  with ok show "distinct (bt_Range t lower)"
    using assms by (simp add: bt_Range_def bt_ok_def om_lower_bound_eq distinct_pairs)
qed

lemma bt_size_Range: "bt_size t = length (bt_Range t [])"
proof -
  have "om_lower_bound [] m = m" for m :: "(string, RID list) omap"
    by (cases m) (simp_all add: om_lower_bound_def)
  then show ?thesis
    by (simp add: bt_size_def bt_Range_def length_concat comp_def case_prod_beta')
qed

section \<open>Properties\<close>

definition sample_index :: BPlusTree where
  "sample_index = snd (bt_Insert (new_BPlusTree False) ''a'' (RID 1 2))"

lemma new_BPlusTree_ok: "bt_ok (new_BPlusTree unique)"
  by (simp add: bt_ok_def new_BPlusTree_def)

lemma sample_index_ok: "bt_ok sample_index"
  unfolding sample_index_def
  using bt_insert_outcome [OF new_BPlusTree_ok, of False "''a''" "RID 1 2"] by (metis prod.collapse)

text \<open>C36: the index implements a set of pairs of a key and a record address. An insertion succeeds
  exactly when the address is valid, the pair is new and, in a unique index, the key is new; it then
  adds the pair, and otherwise leaves the index as it was. A removal takes away the pair, or every
  pair of the key when the index is unique or the address invalid, and reports a missing key. Both
  keep the index well formed.\<close>

theorem index_refines_pairs:
  assumes "bt_ok t"
  shows "(case bt_Insert t key rid of (st, t') \<Rightarrow>
      bt_ok t' \<and>
      (if RID_valid rid \<and> (key, rid) \<notin> bt_pairs t \<and> (bt_unique t \<longrightarrow> (\<forall>r. (key, r) \<notin> bt_pairs t))
       then st = None \<and> bt_pairs t' = insert (key, rid) (bt_pairs t) else st \<noteq> None \<and> t' = t)) \<and>
    (case bt_Remove t key rid of (st, t') \<Rightarrow>
      bt_ok t' \<and> (st = None \<longleftrightarrow> (\<exists>r. (key, r) \<in> bt_pairs t)) \<and>
      bt_pairs t' = {(k, r) \<in> bt_pairs t. k \<noteq> key \<or> \<not> (bt_unique t \<or> \<not> RID_valid rid \<or> r = rid)})"
proof -
  obtain st t1 st' t2 where "bt_Insert t key rid = (st, t1)" "bt_Remove t key rid = (st', t2)"
    by (metis prod.exhaust)
  then show ?thesis
    using bt_insert_outcome [OF assms] bt_remove_outcome [OF assms] by auto
qed

theorem index_refines_pairs_witness:
  "bt_pairs (snd (bt_Insert sample_index ''b'' (RID 1 3))) = insert (''b'', RID 1 3) (bt_pairs sample_index)"
proof -
  have "(''b'', r) \<notin> bt_pairs sample_index" for r
    by (simp add: sample_index_def new_BPlusTree_def bt_Insert_def bt_pairs_def bt_SearchAll_def Let_def
        RID_valid_def kInvalidPageId_def om_emplace_def om_find_def)
  then show ?thesis
    using index_refines_pairs [OF sample_index_ok, of "RID 1 3" "''b''"]
    by (auto simp: RID_valid_def kInvalidPageId_def split: prod.splits if_splits)
qed

text \<open>the queries of a well-formed index read that set: a point query returns an address of the
  key or reports that there is none, a range scan lists exactly the pairs from the lower bound on, each
  once and in key order, the size is the number of pairs, and the self-check finds nothing.\<close>

theorem index_queries_read_pairs:
  assumes "bt_ok t"
  shows "(case bt_Search t key of Inr r \<Rightarrow> (key, r) \<in> bt_pairs t | Inl e \<Rightarrow> \<forall>r. (key, r) \<notin> bt_pairs t) \<and>
    set (bt_Range t lower) = {(k, r) \<in> bt_pairs t. lower \<le> k} \<and>
    sorted (map fst (bt_Range t lower)) \<and> distinct (bt_Range t lower) \<and>
    bt_size t = card (bt_pairs t) \<and> bt_Validate t = None"
proof -
  have "set (bt_Range t []) = bt_pairs t" using set_bt_Range [OF assms, of "[]"] by simp
  then have "bt_size t = card (bt_pairs t)"
    using bt_Range_sorted(2) [OF assms, of "[]"] bt_size_Range [of t] distinct_card by metis
  moreover have "case bt_Search t key of Inr r \<Rightarrow> (key, r) \<in> bt_pairs t | Inl e \<Rightarrow> \<forall>r. (key, r) \<notin> bt_pairs t"
    using bt_entry(1) [OF assms, of key]
    by (auto simp: bt_Search_def bt_pairs_def bt_SearchAll_def split: option.splits list.splits)
  moreover have "bt_Validate t = None" using assms by (simp add: bt_Validate_def bt_ok_def bt_check_ok)
  ultimately show ?thesis using set_bt_Range [OF assms, of lower] bt_Range_sorted [OF assms, of lower] by simp
qed

theorem index_queries_read_pairs_witness:
  "bt_Validate sample_index = None \<and> bt_size sample_index = card (bt_pairs sample_index) \<and>
   sorted (map fst (bt_Range sample_index ''a''))"
  using index_queries_read_pairs [OF sample_index_ok] by blast

end
