(* ===== verification/Table_Heap.thy ===== *)
theory Table_Heap
  imports Status Sql_Value Ordered_Map
begin

text \<open>
  The table heap of \<^verbatim>\<open>src/table/table_heap.cpp\<close>: tuples filed under record addresses that
  are handed out in increasing order, a 16-bit slot number first and the page number when the slot
  number wraps.
\<close>

type_synonym Tuple = "sqlvalue list"

record TableHeap =
  th_tuples :: "(RID, Tuple) omap"
  th_next_page_id :: page_id_t
  th_next_slot_id :: slot_id_t

definition new_TableHeap :: TableHeap where
  "new_TableHeap = \<lparr>th_tuples = [], th_next_page_id = 1, th_next_slot_id = 0\<rparr>"

definition th_InsertTuple :: "TableHeap \<Rightarrow> Tuple \<Rightarrow> RID status_or \<times> TableHeap" where
  "th_InsertTuple t tuple =
     (if length tuple = 0 then (Inl (InvalidArgument ''tuple has no columns''), t)
      else
        let rid = RID (th_next_page_id t) (th_next_slot_id t);
            slot = th_next_slot_id t + 1;
            page = (if slot = 0 then th_next_page_id t + 1 else th_next_page_id t) in
        (Inr rid, \<lparr>th_tuples = om_emplace rid tuple (th_tuples t), th_next_page_id = page, th_next_slot_id = slot\<rparr>))"

definition th_GetTuple :: "TableHeap \<Rightarrow> RID \<Rightarrow> Tuple status_or" where
  "th_GetTuple t rid =
     (case om_find (th_tuples t) rid of None \<Rightarrow> Inl (NotFound ''tuple not found'') | Some tuple \<Rightarrow> Inr tuple)"

definition th_UpdateTuple :: "TableHeap \<Rightarrow> RID \<Rightarrow> Tuple \<Rightarrow> status \<times> TableHeap" where
  "th_UpdateTuple t rid tuple =
     (case om_find (th_tuples t) rid of
        None \<Rightarrow> (Some (NotFound ''tuple not found''), t)
      | Some _ \<Rightarrow> (None, t\<lparr>th_tuples := om_put rid tuple (th_tuples t)\<rparr>))"

definition th_MarkDelete :: "TableHeap \<Rightarrow> RID \<Rightarrow> status \<times> TableHeap" where
  "th_MarkDelete t rid =
     (case om_find (th_tuples t) rid of
        None \<Rightarrow> (Some (NotFound ''tuple not found''), t)
      | Some _ \<Rightarrow> (None, t\<lparr>th_tuples := om_erase rid (th_tuples t)\<rparr>))"

definition th_Scan :: "TableHeap \<Rightarrow> (RID \<times> Tuple) list" where
  "th_Scan t = th_tuples t"

definition th_size :: "TableHeap \<Rightarrow> nat" where
  "th_size t = length (th_tuples t)"

section \<open>Fresh addresses\<close>

text \<open>Every address handed out so far is below the next one; the pages are not exhausted.\<close>

definition th_ok :: "TableHeap \<Rightarrow> bool" where
  "th_ok t \<longleftrightarrow> om_ok (th_tuples t) \<and>
     list_all (\<lambda>rid. rid < RID (th_next_page_id t) (th_next_slot_id t)) (om_keys (th_tuples t))"

definition th_room :: "TableHeap \<Rightarrow> bool" where
  "th_room t \<longleftrightarrow> th_next_page_id t \<noteq> kInvalidPageId"

lemma next_RID_greater:
  assumes "p \<noteq> kInvalidPageId"
  shows "RID p s < RID (if s + 1 = 0 then p + 1 else p) (s + 1)"
proof -
  have "kInvalidPageId = - 1" by (simp add: kInvalidPageId_def)
  with assms have "p + 1 \<noteq> 0" by (simp add: eq_neg_iff_add_eq_0 [symmetric])
  then show ?thesis using word_less_succ [of p] word_less_succ [of s] by (auto simp: less_RID_def)
qed

lemma th_absent: "th_ok t \<Longrightarrow> om_find (th_tuples t) (RID (th_next_page_id t) (th_next_slot_id t)) = None"
  by (auto simp: th_ok_def list_all_iff om_find_None_iff)

lemma th_insert_outcome:
  assumes "th_ok t" "th_room t" "tuple \<noteq> []" "th_InsertTuple t tuple = (res, t')"
  shows "\<exists>rid. res = Inr rid \<and> RID_valid rid \<and> om_find (th_tuples t) rid = None \<and>
    th_tuples t' = th_tuples t @ [(rid, tuple)] \<and> th_ok t' \<and>
    om_find (th_tuples t') = (om_find (th_tuples t))(rid \<mapsto> tuple)"
proof -
  let ?rid = "RID (th_next_page_id t) (th_next_slot_id t)"
  have ok: "om_ok (th_tuples t)" using assms(1) by (simp add: th_ok_def)
  have below: "fst p < ?rid" if "p \<in> set (th_tuples t)" for p
    using assms(1) that by (auto simp: th_ok_def list_all_iff)
  have grow: "om_emplace ?rid tuple (th_tuples t) = th_tuples t @ [(?rid, tuple)]"
    using om_emplace_last [OF ok below] by blast
  have up: "?rid < RID (th_next_page_id t') (th_next_slot_id t')"
    using assms(2,3,4) next_RID_greater [of "th_next_page_id t" "th_next_slot_id t"]
    by (auto simp: th_InsertTuple_def Let_def th_room_def)
  have "th_ok t'"
    using assms(3,4) below up om.invar_emplace [OF ok, of ?rid tuple] grow less_trans [OF _ up]
    by (force simp: th_InsertTuple_def Let_def th_ok_def list_all_iff)
  moreover have "om_find (th_tuples t') = (om_find (th_tuples t))(?rid \<mapsto> tuple)"
    using assms(3,4) om.emplace_new [OF ok th_absent [OF assms(1)]] om_find_put [OF ok]
    by (auto simp: th_InsertTuple_def Let_def)
  ultimately show ?thesis
    using assms(2,3,4) grow th_absent [OF assms(1)]
    by (auto simp: th_InsertTuple_def Let_def RID_valid_def th_room_def)
qed

lemma th_update_outcome:
  assumes "th_ok t" "th_UpdateTuple t rid tuple = (st, t')"
  shows "th_ok t' \<and> (st = None \<longleftrightarrow> rid \<in> dom (om_find (th_tuples t))) \<and>
    om_find (th_tuples t') = (if st = None then (om_find (th_tuples t))(rid \<mapsto> tuple) else om_find (th_tuples t))"
proof (cases "om_find (th_tuples t) rid")
  case (Some old)
  have "rid < RID (th_next_page_id t) (th_next_slot_id t)"
    using assms(1) om_find_SomeD [OF Some] by (auto simp: th_ok_def list_all_iff)
  with assms Some set_om_put [of rid tuple "th_tuples t"] show ?thesis
    by (fastforce simp: th_UpdateTuple_def th_ok_def list_all_iff om_find_put)
qed (use assms in \<open>auto simp: th_UpdateTuple_def\<close>)

lemma th_delete_outcome:
  assumes "th_ok t" "th_MarkDelete t rid = (st, t')"
  shows "th_ok t' \<and> (st = None \<longleftrightarrow> rid \<in> dom (om_find (th_tuples t))) \<and>
    om_find (th_tuples t') = (om_find (th_tuples t))(rid := None)"
  using assms
  by (auto simp: th_MarkDelete_def th_ok_def om_find_erase fun_upd_idem split: option.splits)
    (auto simp: om_erase_def list_all_iff)

lemma new_TableHeap_ok: "th_ok new_TableHeap" "th_room new_TableHeap"
  by (simp_all add: th_ok_def th_room_def new_TableHeap_def kInvalidPageId_def)

section \<open>Properties\<close>

text \<open>C37: a table heap implements a map from record addresses to tuples. While page numbers last, an
  insertion hands out a valid address that no tuple has, files the tuple under it and appends it to the
  scan; updating and deleting act on that entry of the map alone and report an address that is not
  there; and all of them keep every address below the next one to be handed out.\<close>

theorem heap_refines_map:
  assumes "th_ok t" "th_room t" "tuple \<noteq> []"
  shows "(case th_InsertTuple t tuple of (res, t') \<Rightarrow>
      \<exists>new. res = Inr new \<and> RID_valid new \<and> om_find (th_tuples t) new = None \<and> th_ok t' \<and>
        th_GetTuple t' new = Inr tuple \<and> om_find (th_tuples t') = (om_find (th_tuples t))(new \<mapsto> tuple) \<and>
        th_Scan t' = th_Scan t @ [(new, tuple)]) \<and>
    (case th_UpdateTuple t rid tuple of (st, t') \<Rightarrow>
      th_ok t' \<and> (st = None \<longleftrightarrow> rid \<in> dom (om_find (th_tuples t))) \<and>
      om_find (th_tuples t') = (if st = None then (om_find (th_tuples t))(rid \<mapsto> tuple) else om_find (th_tuples t))) \<and>
    (case th_MarkDelete t rid of (st, t') \<Rightarrow>
      th_ok t' \<and> (st = None \<longleftrightarrow> rid \<in> dom (om_find (th_tuples t))) \<and>
      om_find (th_tuples t') = (om_find (th_tuples t))(rid := None))"
proof -
  obtain res t1 where i: "th_InsertTuple t tuple = (res, t1)" by (metis prod.exhaust)
  obtain st t2 where u: "th_UpdateTuple t rid tuple = (st, t2)" by (metis prod.exhaust)
  obtain st' t3 where d: "th_MarkDelete t rid = (st', t3)" by (metis prod.exhaust)
  from th_insert_outcome [OF assms i] th_update_outcome [OF assms(1) u] th_delete_outcome [OF assms(1) d]
  show ?thesis by (auto simp: i u d th_GetTuple_def th_Scan_def)
qed

theorem heap_refines_map_witness:
  "\<exists>new t'. th_InsertTuple new_TableHeap [VNull] = (Inr new, t') \<and> th_GetTuple t' new = Inr [VNull]"
  using heap_refines_map [OF new_TableHeap_ok, of "[VNull]" default_RID]
  by (auto split: prod.splits)

end
