(* ===== verification/Catalog.thy ===== *)
theory Catalog
  imports Status Sql_Value Ordered_Map
begin

text \<open>
  The catalog of \<^verbatim>\<open>src/catalog/catalog.cpp\<close>: table descriptions by name, with identifiers from a
  32-bit counter.
\<close>

record TableInfo =
  ti_id :: table_id_t
  ti_name :: string
  ti_schema :: Schema

record Catalog =
  ct_next_id :: table_id_t
  ct_tables :: "(string, TableInfo) omap"

definition new_Catalog :: Catalog where
  "new_Catalog = \<lparr>ct_next_id = 1, ct_tables = []\<rparr>"

definition ct_CreateTable :: "Catalog \<Rightarrow> string \<Rightarrow> Schema \<Rightarrow> status \<times> Catalog" where
  "ct_CreateTable c name schema =
     (if om_find (ct_tables c) name \<noteq> None then (Some (AlreadyExists ''table already exists''), c)
      else (None, \<lparr>ct_next_id = ct_next_id c + 1,
        ct_tables = om_emplace name \<lparr>ti_id = ct_next_id c, ti_name = name, ti_schema = schema\<rparr> (ct_tables c)\<rparr>))"

definition ct_DropTable :: "Catalog \<Rightarrow> string \<Rightarrow> status \<times> Catalog" where
  "ct_DropTable c name =
     (if om_find (ct_tables c) name = None then (Some (NotFound ''table does not exist''), c)
      else (None, c\<lparr>ct_tables := om_erase name (ct_tables c)\<rparr>))"

definition ct_FindTable :: "Catalog \<Rightarrow> string \<Rightarrow> TableInfo status_or" where
  "ct_FindTable c name =
     (case om_find (ct_tables c) name of None \<Rightarrow> Inl (NotFound ''table does not exist'') | Some t \<Rightarrow> Inr t)"

definition ct_Tables :: "Catalog \<Rightarrow> TableInfo list" where
  "ct_Tables c = map snd (ct_tables c)"

section \<open>Requests and their reference\<close>

datatype catalog_request = Create string Schema | Drop string

fun ct_request :: "catalog_request \<Rightarrow> Catalog \<Rightarrow> status \<times> Catalog" where
  "ct_request (Create name schema) c = ct_CreateTable c name schema"
| "ct_request (Drop name) c = ct_DropTable c name"

text \<open>Requests in sequence: what they reported, and the catalog.\<close>

fun ct_run :: "catalog_request list \<Rightarrow> Catalog \<Rightarrow> status list \<times> Catalog" where
  "ct_run [] c = ([], c)"
| "ct_run (r # rs) c =
     (case ct_request r c of (st, c1) \<Rightarrow> case ct_run rs c1 of (sts, c2) \<Rightarrow> (st # sts, c2))"

text \<open>
  The reference knows every table that was ever created, in order, and which of them the names stand
  for now. A table has its place in that order, counted from 1, as its identifier.
\<close>

type_synonym tables_history = "(string \<times> Schema) list \<times> (string \<Rightarrow> nat option)"

fun spec_request :: "catalog_request \<Rightarrow> tables_history \<Rightarrow> status \<times> tables_history" where
  "spec_request (Create name schema) (made, live) =
     (if live name \<noteq> None then (Some (AlreadyExists ''table already exists''), made, live)
      else (None, made @ [(name, schema)], live(name \<mapsto> length made)))"
| "spec_request (Drop name) (made, live) =
     (if live name = None then (Some (NotFound ''table does not exist''), made, live)
      else (None, made, live(name := None)))"

fun spec_run :: "catalog_request list \<Rightarrow> tables_history \<Rightarrow> status list \<times> tables_history" where
  "spec_run [] h = ([], h)"
| "spec_run (r # rs) h =
     (case spec_request r h of (st, h1) \<Rightarrow> case spec_run rs h1 of (sts, h2) \<Rightarrow> (st # sts, h2))"

definition table_of :: "(string \<times> Schema) list \<Rightarrow> nat \<Rightarrow> TableInfo" where
  "table_of made k = \<lparr>ti_id = of_nat (Suc k), ti_name = fst (made ! k), ti_schema = snd (made ! k)\<rparr>"

definition no_tables :: tables_history where
  "no_tables = ([], \<lambda>_. None)"

section \<open>The simulation\<close>

definition ct_agrees :: "tables_history \<Rightarrow> Catalog \<Rightarrow> bool" where
  "ct_agrees h c \<longleftrightarrow>
     (case h of (made, live) \<Rightarrow>
        om_ok (ct_tables c) \<and> ct_next_id c = of_nat (Suc (length made)) \<and>
        (\<forall>name. om_find (ct_tables c) name = map_option (table_of made) (live name)) \<and>
        (\<forall>name k. live name = Some k \<longrightarrow> k < length made \<and> fst (made ! k) = name))"

lemma agrees_new: "ct_agrees no_tables new_Catalog"
  by (simp add: ct_agrees_def no_tables_def new_Catalog_def)

lemma table_of_append: "k < length made \<Longrightarrow> table_of (made @ later) k = table_of made k"
  by (simp add: table_of_def nth_append)

lemma ct_request_agrees:
  assumes "ct_agrees h c"
  shows "fst (ct_request r c) = fst (spec_request r h) \<and>
    ct_agrees (snd (spec_request r h)) (snd (ct_request r c))"
proof -
  obtain made live where h: "h = (made, live)" by fastforce
  have ok: "om_ok (ct_tables c)" and n: "ct_next_id c = of_nat (Suc (length made))"
    and find: "om_find (ct_tables c) name = map_option (table_of made) (live name)"
    and live: "live name = Some k \<Longrightarrow> k < length made \<and> fst (made ! k) = name" for name k
    using assms by (auto simp: ct_agrees_def h)
  show ?thesis
  proof (cases r)
    case (Create name schema)
    let ?t = "\<lparr>ti_id = ct_next_id c, ti_name = name, ti_schema = schema\<rparr>"
    have t: "table_of (made @ [(name, schema)]) (length made) = ?t" by (simp add: table_of_def n)
    have old: "map_option (table_of (made @ [(name, schema)])) (live m) = map_option (table_of made) (live m)" for m
      using live [of m] by (cases "live m") (simp_all add: table_of_append)
    show ?thesis
    proof (cases "live name")
      case None
      then have "ct_tables (snd (ct_request r c)) = om_put name ?t (ct_tables c)"
        using find [of name] ok by (simp add: Create ct_CreateTable_def om.emplace_new)
      moreover have "ct_next_id c + 1 = of_nat (Suc (Suc (length made)))" by (simp add: n)
      ultimately show ?thesis
        using None find ok t old live
        by (auto simp: Create h ct_agrees_def ct_CreateTable_def om_find_put nth_append intro: less_SucI)
    next
      case (Some k)
      with assms find [of name] show ?thesis by (simp add: Create h ct_CreateTable_def)
    qed
  next
    case (Drop name)
    show ?thesis
    proof (cases "live name")
      case None
      with assms find [of name] show ?thesis by (simp add: Drop h ct_DropTable_def)
    next
      case (Some k)
      with find [of name] ok om_erase_ok [of "ct_tables c" name] find live n show ?thesis
        by (auto simp: Drop h ct_agrees_def ct_DropTable_def om_find_erase)
    qed
  qed
qed

lemma ct_run_agrees:
  "ct_agrees h c \<Longrightarrow> fst (ct_run rs c) = fst (spec_run rs h) \<and> ct_agrees (snd (spec_run rs h)) (snd (ct_run rs c))"
proof (induction rs arbitrary: h c)
  case (Cons r rs)
  from ct_request_agrees [OF Cons.prems, of r] Cons.IH [of "snd (spec_request r h)" "snd (ct_request r c)"]
  show ?case by (simp add: case_prod_unfold)
qed simp

lemma om_find_member: "om_ok m \<Longrightarrow> (k, v) \<in> set m \<Longrightarrow> om_find m k = Some v"
  by (induction m) (auto simp: om_ok_Cons om_find_Cons)

lemma agrees_tables:
  assumes "ct_agrees (made, live) c"
  shows "set (ct_Tables c) = table_of made ` ran live"
proof -
  have "om_ok (ct_tables c)" using assms by (simp add: ct_agrees_def)
  then have "set (ct_Tables c) = ran (om_find (ct_tables c))"
    by (force simp: ct_Tables_def ran_def dest: om_find_member om_find_SomeD)
  moreover have "om_find (ct_tables c) = map_option (table_of made) \<circ> live"
    using assms by (auto simp: ct_agrees_def)
  ultimately show ?thesis by (auto simp: ran_def)
qed

text \<open>The history only grows, at most by one table for a request.\<close>

lemma spec_request_grows:
  "spec_request r (made, live) = (st, made', live') \<Longrightarrow> \<exists>later. made' = made @ later \<and> length later \<le> 1"
  by (cases r) (auto split: if_splits)

lemma spec_run_grows:
  "spec_run rs (made, live) = (sts, made', live') \<Longrightarrow> \<exists>later. made' = made @ later \<and> length later \<le> length rs"
proof (induction rs arbitrary: made live sts)
  case (Cons r rs)
  obtain st made1 live1 where r: "spec_request r (made, live) = (st, made1, live1)" by (metis prod_cases3)
  obtain sts' where "spec_run rs (made1, live1) = (sts', made', live')"
    using Cons.prems r by (auto split: prod.splits)
  from Cons.IH [OF this] spec_request_grows [OF r] show ?case by fastforce
qed simp

lemma spec_run_append:
  "snd (spec_run (rs @ rs') h) = snd (spec_run rs' (snd (spec_run rs h)))"
  by (induction rs arbitrary: h) (simp_all add: case_prod_unfold)

section \<open>Properties\<close>

text \<open>C39: the catalog refines the history of its requests. Every request reports what the reference
  reports; a name finds the table it stands for, with its identifier and schema, and no other name
  finds one; the list of tables is the list of these, in name order. No identifier is used twice: a
  table keeps the place in the history it was given, tables created later get later places, whatever was
  dropped, and different places have different identifiers, for fewer than 2^32 - 1 requests.\<close>

theorem catalog_refines_history:
  assumes "ct_run rs new_Catalog = (sts, c)" "spec_run rs no_tables = (sts', made, live)"
    and "length rs < 2 ^ 32 - 1"
  shows "sts = sts' \<and>
    (\<forall>name. ct_FindTable c name =
      (case live name of None \<Rightarrow> Inl (NotFound ''table does not exist'') | Some k \<Rightarrow> Inr (table_of made k))) \<and>
    set (ct_Tables c) = table_of made ` ran live \<and>
    sorted (map ti_name (ct_Tables c)) \<and> distinct (map ti_name (ct_Tables c)) \<and>
    (\<forall>before after. rs = before @ after \<longrightarrow> (\<exists>later. made = fst (snd (spec_run before no_tables)) @ later)) \<and>
    inj_on (\<lambda>k. ti_id (table_of made k)) {..<length made}"
proof -
  have a: "sts = sts'" "ct_agrees (made, live) c"
    using ct_run_agrees [OF agrees_new, of rs] assms(1,2) by simp_all
  have ok: "om_ok (ct_tables c)" and find: "\<And>name. om_find (ct_tables c) name = map_option (table_of made) (live name)"
    and live: "\<And>name k. live name = Some k \<Longrightarrow> fst (made ! k) = name"
    using a(2) by (auto simp: ct_agrees_def)
  have "ti_name t = name" if "(name, t) \<in> set (ct_tables c)" for name t
    using om_find_member [OF ok that] find [of name] live [of name] by (auto simp: table_of_def)
  then have "map ti_name (ct_Tables c) = om_keys (ct_tables c)" by (auto simp: ct_Tables_def)
  moreover have "sorted (om_keys (ct_tables c)) \<and> distinct (om_keys (ct_tables c))"
    using ok unfolding om_ok_def using strict_sorted_iff by blast
  moreover have "ct_FindTable c name =
      (case live name of None \<Rightarrow> Inl (NotFound ''table does not exist'') | Some k \<Rightarrow> Inr (table_of made k))" for name
    using find [of name] by (simp add: ct_FindTable_def split: option.split)
  moreover have "\<exists>later. made = fst (snd (spec_run before no_tables)) @ later" if "rs = before @ after" for before after
  proof -
    obtain made1 live1 where h: "snd (spec_run before no_tables) = (made1, live1)" by fastforce
    then have "snd (spec_run after (made1, live1)) = (made, live)"
      using assms(2) spec_run_append [of before after no_tables] that by simp
    then show ?thesis using h spec_run_grows [of after made1 live1] by (metis fst_conv prod.collapse)
  qed
  moreover have "inj_on (\<lambda>k. ti_id (table_of made k)) {..<length made}"
  proof -
    have "length made \<le> length rs" using spec_run_grows [of rs "[]" "\<lambda>_. None"] assms(2) by (auto simp: no_tables_def)
    then have "unat (of_nat (Suc k) :: table_id_t) = Suc k" if "k < length made" for k
      using that assms(3) by (simp add: unat_of_nat del: of_nat_Suc)
    then show ?thesis unfolding inj_on_def table_of_def by (metis Suc_inject lessThan_iff TableInfo.select_convs(1))
  qed
  ultimately show ?thesis using a agrees_tables [OF a(2)] by simp
qed

theorem catalog_refines_history_witness:
  "\<exists>c. ct_run [Create ''a'' [], Create ''b'' [], Drop ''a'', Create ''a'' []] new_Catalog = ([None, None, None, None], c) \<and>
     ct_FindTable c ''a'' = Inr \<lparr>ti_id = 3, ti_name = ''a'', ti_schema = []\<rparr>"
proof -
  let ?rs = "[Create ''a'' [], Create ''b'' [], Drop ''a'', Create ''a'' []]"
  let ?live = "(\<lambda>_. None)(''b'' \<mapsto> 1, ''a'' \<mapsto> 2)"
  obtain sts c where r: "ct_run ?rs new_Catalog = (sts, c)" by fastforce
  have "spec_run ?rs no_tables = ([None, None, None, None], [(''a'', []), (''b'', []), (''a'', [])], ?live)"
    by (simp add: no_tables_def fun_upd_twist numeral_2_eq_2)
  from catalog_refines_history [OF r this] r show ?thesis by (simp add: table_of_def)
qed

end
