(* ===== verification/Transaction_Manager.thy ===== *)
theory Transaction_Manager
  imports Status
begin

text \<open>
  The transaction manager of \<^verbatim>\<open>src/txn/transaction_manager.cpp\<close>: identifiers from a counter, the
  sets of active and of committed transactions, and the snapshot a transaction takes when it begins.
  A run is a sequence of requests on numbered handles; what became of each
  transaction is computed from the requests alone, and the manager and the snapshots are shown to say
  the same.
\<close>

record Snapshot =
  sn_xmin :: txn_id_t
  sn_xmax :: txn_id_t
  sn_active :: "txn_id_t set"

datatype TxnState = TxnActive | TxnCommitted | TxnAborted

record TxnHandle =
  th_id :: txn_id_t
  th_snapshot :: Snapshot
  th_state :: TxnState

record TransactionManager =
  tm_next_id :: txn_id_t
  tm_active :: "txn_id_t set"
  tm_committed :: "txn_id_t set"

definition new_TransactionManager :: TransactionManager where
  "new_TransactionManager = \<lparr>tm_next_id = 1, tm_active = {}, tm_committed = {}\<rparr>"

text \<open>\<^verbatim>\<open>*active_.begin()\<close> is the least element of the set.\<close>

definition oldest :: "txn_id_t set \<Rightarrow> txn_id_t \<Rightarrow> txn_id_t" where
  "oldest active next_id = (if active = {} then next_id else Min active)"

definition tm_Begin :: "TransactionManager \<Rightarrow> TxnHandle \<times> TransactionManager" where
  "tm_Begin m =
     (let id = tm_next_id m; next_id = tm_next_id m + 1 in
      (\<lparr>th_id = id,
        th_snapshot = \<lparr>sn_xmin = oldest (tm_active m) next_id, sn_xmax = next_id, sn_active = tm_active m\<rparr>,
        th_state = TxnActive\<rparr>,
       m\<lparr>tm_next_id := next_id, tm_active := insert id (tm_active m)\<rparr>))"

text \<open>A null handle is \<open>None\<close>.\<close>

definition tm_Commit :: "TransactionManager \<Rightarrow> TxnHandle option \<Rightarrow> status \<times> TxnHandle option \<times> TransactionManager" where
  "tm_Commit m txn =
     (case txn of
        None \<Rightarrow> (Some (InvalidArgument ''transaction is not active''), txn, m)
      | Some h \<Rightarrow>
          if th_state h \<noteq> TxnActive then (Some (InvalidArgument ''transaction is not active''), txn, m)
          else (None, Some (h\<lparr>th_state := TxnCommitted\<rparr>),
            m\<lparr>tm_active := tm_active m - {th_id h}, tm_committed := insert (th_id h) (tm_committed m)\<rparr>))"

definition tm_Abort :: "TransactionManager \<Rightarrow> TxnHandle option \<Rightarrow> status \<times> TxnHandle option \<times> TransactionManager" where
  "tm_Abort m txn =
     (case txn of
        None \<Rightarrow> (Some (InvalidArgument ''transaction is not active''), txn, m)
      | Some h \<Rightarrow>
          if th_state h \<noteq> TxnActive then (Some (InvalidArgument ''transaction is not active''), txn, m)
          else (None, Some (h\<lparr>th_state := TxnAborted\<rparr>), m\<lparr>tm_active := tm_active m - {th_id h}\<rparr>))"

definition tm_IsCommitted :: "TransactionManager \<Rightarrow> txn_id_t \<Rightarrow> bool" where
  "tm_IsCommitted m txn \<longleftrightarrow> txn \<in> tm_committed m"

definition tm_CurrentSnapshot :: "TransactionManager \<Rightarrow> txn_id_t \<Rightarrow> Snapshot" where
  "tm_CurrentSnapshot m self =
     \<lparr>sn_xmin = oldest (tm_active m) (tm_next_id m), sn_xmax = tm_next_id m, sn_active = tm_active m - {self}\<rparr>"

section \<open>Runs\<close>

record txn_system =
  ts_manager :: TransactionManager
  ts_handles :: "TxnHandle list"

text \<open>Requests name a transaction by its number in the order of the calls of \<^verbatim>\<open>Begin\<close>; a
  number that no call has given out yet is a null handle.\<close>

datatype txn_request = TxnBegin | TxnCommit nat | TxnAbort nat

definition txn_handle :: "txn_system \<Rightarrow> nat \<Rightarrow> TxnHandle option" where
  "txn_handle s i = (if i < length (ts_handles s) then Some (ts_handles s ! i) else None)"

definition finish ::
    "(TransactionManager \<Rightarrow> TxnHandle option \<Rightarrow> status \<times> TxnHandle option \<times> TransactionManager) \<Rightarrow> nat \<Rightarrow>
     txn_system \<Rightarrow> txn_system" where
  "finish f i s =
     (case f (ts_manager s) (txn_handle s i) of
        (_, Some h, m) \<Rightarrow> \<lparr>ts_manager = m, ts_handles = (ts_handles s)[i := h]\<rparr>
      | (_, None, m) \<Rightarrow> s\<lparr>ts_manager := m\<rparr>)"

fun txn_apply :: "txn_request \<Rightarrow> txn_system \<Rightarrow> txn_system" where
  "txn_apply TxnBegin s =
     (case tm_Begin (ts_manager s) of (h, m) \<Rightarrow> \<lparr>ts_manager = m, ts_handles = ts_handles s @ [h]\<rparr>)"
| "txn_apply (TxnCommit i) s = finish tm_Commit i s"
| "txn_apply (TxnAbort i) s = finish tm_Abort i s"

definition txn_start :: txn_system where
  "txn_start = \<lparr>ts_manager = new_TransactionManager, ts_handles = []\<rparr>"

definition txn_run :: "txn_request list \<Rightarrow> txn_system" where
  "txn_run rs = fold txn_apply rs txn_start"

section \<open>The reference\<close>

text \<open>What became of every transaction, from the requests alone: the first end counts.\<close>

fun txn_outcome :: "txn_request \<Rightarrow> TxnState list \<Rightarrow> TxnState list" where
  "txn_outcome TxnBegin sts = sts @ [TxnActive]"
| "txn_outcome (TxnCommit i) sts = (if i < length sts \<and> sts ! i = TxnActive then sts[i := TxnCommitted] else sts)"
| "txn_outcome (TxnAbort i) sts = (if i < length sts \<and> sts ! i = TxnActive then sts[i := TxnAborted] else sts)"

definition outcomes :: "txn_request list \<Rightarrow> TxnState list" where
  "outcomes rs = fold txn_outcome rs []"

text \<open>The numbers of the transactions in a state, and the identifier of number \<open>i\<close>; it is exact while
  fewer than 2^64 - 1 transactions have begun.\<close>

definition in_state :: "TxnState \<Rightarrow> TxnState list \<Rightarrow> nat set" where
  "in_state st sts = {i. i < length sts \<and> sts ! i = st}"

definition id_of :: "nat \<Rightarrow> txn_id_t" where
  "id_of i = of_nat (Suc i)"

text \<open>The snapshot of a moment: the active transactions, the least of them, and a bound \<open>n\<close> that no
  transaction of the moment reaches.\<close>

definition snapshot_at :: "nat \<Rightarrow> TxnState list \<Rightarrow> Snapshot" where
  "snapshot_at n sts =
     (let active = in_state TxnActive sts in
      \<lparr>sn_xmin = id_of (if active = {} then n else Min active), sn_xmax = id_of n, sn_active = id_of ` active\<rparr>)"

section \<open>The invariant\<close>

lemma id_of_inj: "i < 2 ^ 64 - 1 \<Longrightarrow> j < 2 ^ 64 - 1 \<Longrightarrow> id_of i = id_of j \<longleftrightarrow> i = j"
  by (simp add: id_of_def word_of_nat_eq_iff take_bit_nat_eq_self del: of_nat_Suc)

lemma unat_id_of: "i < 2 ^ 64 - 1 \<Longrightarrow> unat (id_of i) = Suc i"
  by (simp add: id_of_def unat_of_nat take_bit_nat_eq_self del: of_nat_Suc)

lemma id_of_mono: "i \<le> j \<Longrightarrow> j < 2 ^ 64 - 1 \<Longrightarrow> id_of i \<le> id_of j"
  by (simp add: word_le_nat_alt unat_id_of)

lemma Min_id_of:
  assumes "finite A" "A \<noteq> {}" "A \<subseteq> {..<n}" "n < 2 ^ 64"
  shows "Min (id_of ` A) = id_of (Min A)"
proof (rule Min_eqI)
  fix x assume "x \<in> id_of ` A"
  then obtain j where j: "j \<in> A" "x = id_of j" by blast
  then have "j < 2 ^ 64 - 1" using assms(3,4) by (auto dest: subsetD)
  with j assms(1) show "id_of (Min A) \<le> x" by (simp add: id_of_mono)
qed (use assms in auto)

lemma finite_in_state [simp]: "finite (in_state st sts)"
  by (simp add: in_state_def)

lemma in_state_below: "in_state st sts \<subseteq> {..<length sts}"
  by (auto simp: in_state_def)

lemma in_state_Nil [simp]: "in_state st [] = {}"
  by (simp add: in_state_def)

lemma in_state_append:
  "in_state st (sts @ [x]) = (if x = st then insert (length sts) (in_state st sts) else in_state st sts)"
  by (auto simp: in_state_def nth_append less_Suc_eq)

lemma in_state_update:
  "j < length sts \<Longrightarrow> in_state st (sts[j := x]) =
    (if x = st then insert j (in_state st sts) else in_state st sts - {j})"
  by (auto simp: in_state_def nth_list_update)

text \<open>Removing an identifier removes its transaction.\<close>

lemma id_of_diff:
  assumes "length sts < 2 ^ 64" "j < length sts"
  shows "id_of ` (in_state st sts - {j}) = id_of ` in_state st sts - {id_of j}"
proof -
  have "inj_on id_of {..<length sts}" using assms(1) by (auto simp: inj_on_def id_of_inj)
  from inj_on_image_set_diff [OF this, of "in_state st sts" "{j}"] in_state_below assms(2)
  show ?thesis by auto
qed

lemma oldest_is_Min:
  assumes "length sts < 2 ^ 64 - 1"
  shows "oldest (id_of ` in_state TxnActive sts) (id_of n) =
    id_of (if in_state TxnActive sts = {} then n else Min (in_state TxnActive sts))"
  using assms Min_id_of [OF finite_in_state _ in_state_below, of TxnActive sts] by (simp add: oldest_def)

text \<open>The manager and the handles say what the reference says.\<close>

definition txn_agrees :: "TxnState list \<Rightarrow> txn_system \<Rightarrow> bool" where
  "txn_agrees sts s \<longleftrightarrow>
     ts_manager s = \<lparr>tm_next_id = id_of (length sts), tm_active = id_of ` in_state TxnActive sts,
       tm_committed = id_of ` in_state TxnCommitted sts\<rparr> \<and>
     map th_state (ts_handles s) = sts \<and> map th_id (ts_handles s) = map id_of [0..<length sts]"

lemma agrees_start: "txn_agrees [] txn_start"
  by (simp add: txn_agrees_def txn_start_def new_TransactionManager_def id_of_def)

lemma begin_step:
  assumes "txn_agrees sts s" "length sts < 2 ^ 64 - 1"
  shows "txn_agrees (sts @ [TxnActive]) (txn_apply TxnBegin s) \<and>
    ts_handles (txn_apply TxnBegin s) =
      ts_handles s @ [\<lparr>th_id = id_of (length sts), th_snapshot = snapshot_at (Suc (length sts)) sts, th_state = TxnActive\<rparr>]"
proof -
  have "id_of n + 1 = id_of (Suc n)" for n by (simp add: id_of_def)
  with assms oldest_is_Min [OF assms(2), of "Suc (length sts)"] show ?thesis
    by (simp add: txn_agrees_def tm_Begin_def snapshot_at_def Let_def in_state_append)
qed

lemma finish_cases:
  "finish tm_Commit i s =
      (if i < length (ts_handles s) \<and> th_state (ts_handles s ! i) = TxnActive
       then \<lparr>ts_manager = (ts_manager s)\<lparr>tm_active := tm_active (ts_manager s) - {th_id (ts_handles s ! i)},
             tm_committed := insert (th_id (ts_handles s ! i)) (tm_committed (ts_manager s))\<rparr>,
           ts_handles = (ts_handles s)[i := (ts_handles s ! i)\<lparr>th_state := TxnCommitted\<rparr>]\<rparr>
       else s)"
  "finish tm_Abort i s =
      (if i < length (ts_handles s) \<and> th_state (ts_handles s ! i) = TxnActive
       then \<lparr>ts_manager = (ts_manager s)\<lparr>tm_active := tm_active (ts_manager s) - {th_id (ts_handles s ! i)}\<rparr>,
           ts_handles = (ts_handles s)[i := (ts_handles s ! i)\<lparr>th_state := TxnAborted\<rparr>]\<rparr>
       else s)"
  by (simp_all add: finish_def txn_handle_def tm_Commit_def tm_Abort_def)

lemma agrees_nth:
  "txn_agrees sts s \<Longrightarrow> length (ts_handles s) = length sts \<and>
    (i < length sts \<longrightarrow> th_state (ts_handles s ! i) = sts ! i \<and> th_id (ts_handles s ! i) = id_of i)"
  by (auto simp: txn_agrees_def dest: arg_cong [where f = length] arg_cong [where f = "\<lambda>xs. xs ! i"])

lemma finish_step:
  assumes "txn_agrees sts s" "length sts < 2 ^ 64"
  shows "txn_agrees (txn_outcome (TxnCommit i) sts) (finish tm_Commit i s)"
    "txn_agrees (txn_outcome (TxnAbort i) sts) (finish tm_Abort i s)"
proof -
  note nth = agrees_nth [OF assms(1)]
  have "txn_agrees (txn_outcome (TxnCommit i) sts) (finish tm_Commit i s) \<and>
      txn_agrees (txn_outcome (TxnAbort i) sts) (finish tm_Abort i s)"
  proof (cases "i < length sts \<and> sts ! i = TxnActive")
    case True
    then have "in_state TxnCommitted sts - {i} = in_state TxnCommitted sts" by (auto simp: in_state_def)
    with True nth [of i] assms id_of_diff [OF assms(2), of i] show ?thesis
      by (simp add: txn_agrees_def finish_cases in_state_update map_update list_update_same_conv)
  next
    case False
    with nth [of i] assms(1) show ?thesis by (auto simp: finish_cases)
  qed
  then show "txn_agrees (txn_outcome (TxnCommit i) sts) (finish tm_Commit i s)"
    "txn_agrees (txn_outcome (TxnAbort i) sts) (finish tm_Abort i s)" by blast+
qed

lemma outcomes_snoc [simp]: "outcomes (rs @ [r]) = txn_outcome r (outcomes rs)"
  by (simp add: outcomes_def)

lemma txn_run_snoc [simp]: "txn_run (rs @ [r]) = txn_apply r (txn_run rs)"
  by (simp add: txn_run_def)

lemma outcomes_bound: "length (outcomes rs) \<le> length rs"
proof (induction rs rule: rev_induct)
  case (snoc r rs)
  then show ?case by (cases r) simp_all
qed (simp add: outcomes_def)

lemma txn_run_agrees: "length rs < 2 ^ 64 \<Longrightarrow> txn_agrees (outcomes rs) (txn_run rs)"
proof (induction rs rule: rev_induct)
  case Nil
  then show ?case using agrees_start by (simp add: outcomes_def txn_run_def)
next
  case (snoc r rs)
  have "length (outcomes rs) < 2 ^ 64 - 1" using snoc.prems outcomes_bound [of rs] by simp
  then show ?case
    using snoc begin_step [of "outcomes rs" "txn_run rs"] finish_step [of "outcomes rs" "txn_run rs"] by (cases r) simp_all
qed

text \<open>A handle keeps its snapshot.\<close>

lemma apply_keeps_snapshot:
  "i < length (ts_handles s) \<Longrightarrow>
   i < length (ts_handles (txn_apply r s)) \<and> th_snapshot (ts_handles (txn_apply r s) ! i) = th_snapshot (ts_handles s ! i)"
  by (cases r) (auto simp: finish_cases nth_append nth_list_update split: prod.split)

lemma run_keeps_snapshot:
  "i < length (ts_handles s) \<Longrightarrow>
   th_snapshot (ts_handles (fold txn_apply rs s) ! i) = th_snapshot (ts_handles s ! i)"
proof (induction rs arbitrary: s)
  case (Cons r rs)
  then show ?case using apply_keeps_snapshot [of i s r] by simp
qed simp

section \<open>Properties\<close>

text \<open>C38: after any requests the manager says exactly what the requests amount to. The states and
  identifiers of all handles are those of the reference, a transaction counts as committed exactly when
  its first end was a commit, the current snapshot lists exactly the transactions that have begun and
  not ended, and so does, for the moment of its beginning, the snapshot every transaction was given: a
  transaction that ended before is not in it, and one that ends later stays in it.\<close>

theorem snapshots_exact:
  assumes "length rs < 2 ^ 64 - 1"
  shows "map th_state (ts_handles (txn_run rs)) = outcomes rs \<and>
    map th_id (ts_handles (txn_run rs)) = map id_of [0..<length (outcomes rs)] \<and>
    (\<forall>i < length (outcomes rs). tm_IsCommitted (ts_manager (txn_run rs)) (id_of i) \<longleftrightarrow> outcomes rs ! i = TxnCommitted) \<and>
    tm_CurrentSnapshot (ts_manager (txn_run rs)) kInvalidTxnId = snapshot_at (length (outcomes rs)) (outcomes rs) \<and>
    (\<forall>before after. rs = before @ TxnBegin # after \<longrightarrow>
       th_snapshot (ts_handles (txn_run rs) ! length (outcomes before)) =
         snapshot_at (Suc (length (outcomes before))) (outcomes before))"
proof -
  let ?s = "txn_run rs" and ?sts = "outcomes rs"
  have a: "txn_agrees ?sts ?s" using txn_run_agrees assms by simp
  have n: "length ?sts < 2 ^ 64 - 1" using outcomes_bound [of rs] assms by linarith
  have c: "tm_IsCommitted (ts_manager ?s) (id_of i) \<longleftrightarrow> ?sts ! i = TxnCommitted" if "i < length ?sts" for i
  proof -
    have "id_of k = id_of i \<longleftrightarrow> k = i" if "k < length ?sts" for k
      using n that \<open>i < length ?sts\<close> by (intro id_of_inj) simp_all
    then have "id_of i \<in> id_of ` in_state TxnCommitted ?sts \<longleftrightarrow> i \<in> in_state TxnCommitted ?sts"
      by (fastforce simp: in_state_def)
    with that a show ?thesis by (simp add: tm_IsCommitted_def txn_agrees_def in_state_def)
  qed
  have "id_of k \<noteq> kInvalidTxnId" if "k < length ?sts" for k
    using unat_id_of [of k] n that by (auto simp: kInvalidTxnId_def)
  then have "id_of ` in_state TxnActive ?sts - {kInvalidTxnId} = id_of ` in_state TxnActive ?sts"
    by (auto simp: in_state_def)
  then have now: "tm_CurrentSnapshot (ts_manager ?s) kInvalidTxnId = snapshot_at (length ?sts) ?sts"
    using a oldest_is_Min [OF n] by (simp add: txn_agrees_def tm_CurrentSnapshot_def snapshot_at_def Let_def)
  have "th_snapshot (ts_handles ?s ! length (outcomes before)) =
      snapshot_at (Suc (length (outcomes before))) (outcomes before)"
    if rs: "rs = before @ TxnBegin # after" for before after
  proof -
    have lt: "length before < 2 ^ 64 - 1" using rs assms by simp
    then have ag: "txn_agrees (outcomes before) (txn_run before)" "length (outcomes before) < 2 ^ 64 - 1"
      using txn_run_agrees outcomes_bound [of before] by simp_all
    have "ts_handles ?s ! length (outcomes before) =
        ts_handles (fold txn_apply after (txn_apply TxnBegin (txn_run before))) ! length (outcomes before)"
      by (simp add: rs txn_run_def)
    then show ?thesis
      using begin_step [OF ag] agrees_nth [OF ag(1)]
        run_keeps_snapshot [of "length (outcomes before)" "txn_apply TxnBegin (txn_run before)" after]
      by (simp add: nth_append)
  qed
  with a c now show ?thesis by (simp add: txn_agrees_def)
qed

theorem snapshots_exact_witness:
  "sn_active (th_snapshot (ts_handles (txn_run [TxnBegin, TxnBegin, TxnCommit 0, TxnBegin, TxnAbort 1]) ! 2)) = {id_of 1}"
proof -
  let ?before = "[TxnBegin, TxnBegin, TxnCommit 0]"
  have o: "outcomes ?before = [TxnCommitted, TxnActive]" by (simp add: outcomes_def)
  have "in_state TxnActive [TxnCommitted, TxnActive] = {1}" by (auto simp: in_state_def nth_Cons')
  with o have "sn_active (snapshot_at (Suc (length (outcomes ?before))) (outcomes ?before)) = {id_of 1}"
    by (simp add: snapshot_at_def Let_def)
  moreover have "\<forall>before after. ?before @ [TxnBegin, TxnAbort 1] = before @ TxnBegin # after \<longrightarrow>
      th_snapshot (ts_handles (txn_run (?before @ [TxnBegin, TxnAbort 1])) ! length (outcomes before)) =
        snapshot_at (Suc (length (outcomes before))) (outcomes before)"
    using snapshots_exact [of "?before @ [TxnBegin, TxnAbort 1]"] by simp
  then have "th_snapshot (ts_handles (txn_run (?before @ [TxnBegin, TxnAbort 1])) ! length (outcomes ?before)) =
      snapshot_at (Suc (length (outcomes ?before))) (outcomes ?before)"
    by (metis append_Cons append_Nil)
  ultimately show ?thesis using o by (simp add: numeral_2_eq_2)
qed

end
