(* ===== verification/Sql_Front.thy ===== *)
theory Sql_Front
  imports Sql_Token
begin

text \<open>
  The layered SQL front end of \<^verbatim>\<open>src/sql\<close> and \<^verbatim>\<open>src/planner\<close>, which stands beside the one in
  \<^verbatim>\<open>src/api/db.cpp\<close>: a lexer with line and column positions, the classification of a statement by
  its first word, the binder and the printed form of a plan.
\<close>

section \<open>LexSql\<close>

datatype SqlTokenKind = SqlWord | SqlNumber | SqlString | SqlOperator | SqlPunctuation | SqlParameter

record SqlToken =
  sk_kind :: SqlTokenKind
  sk_text :: string
  sk_pos :: SourcePos

definition sql_token :: "SqlTokenKind \<Rightarrow> string \<Rightarrow> u32 \<Rightarrow> u32 \<Rightarrow> SqlToken" where
  "sql_token kind s line column =
     \<lparr>sk_kind = kind, sk_text = s, sk_pos = \<lparr>pos_line = line, pos_column = column\<rparr>\<rparr>"

definition sql_symbol :: "char \<Rightarrow> bool" where
  "sql_symbol c \<longleftrightarrow> c \<in> set ''(),;=<>+-*/%''"

definition sql_punctuation :: "char \<Rightarrow> bool" where
  "sql_punctuation c \<longleftrightarrow> c \<in> set ''(),;''"

text \<open>One turn of the loop at a character that is no white space: the token, how far the column
  moves, and the rest of the text.\<close>

definition lex_token :: "string \<Rightarrow> u32 \<Rightarrow> u32 \<Rightarrow> (SqlToken \<times> u32 \<times> string) status_or" where
  "lex_token s line column =
     (let c = hd s; cs = tl s in
      if word_start c then
        (let w = c # takeWhile word_char cs in
         Inr (sql_token SqlWord w line column, of_nat (length w), dropWhile word_char cs))
      else if isdigit c then
        (let w = c # takeWhile number_char cs in
         Inr (sql_token SqlNumber w line column, of_nat (length w), dropWhile number_char cs))
      else if c = CHR 0x27 \<or> c = CHR 0x22 then
        (let v = takeWhile (\<lambda>d. d \<noteq> c) cs; rest = dropWhile (\<lambda>d. d \<noteq> c) cs in
         if rest = [] then
           Inl (SyntaxErrorAt ''unterminated quoted literal'' \<lparr>pos_line = line, pos_column = column\<rparr>)
         else
           Inr (sql_token (if c = CHR 0x27 then SqlString else SqlWord) v line column,
             of_nat (length v + 2), tl rest))
      else if c = CHR ''?'' then Inr (sql_token SqlParameter ''?'' line column, 1, cs)
      else if sql_symbol c then
        Inr (sql_token (if sql_punctuation c then SqlPunctuation else SqlOperator) [c] line column, 1, cs)
      else Inl (SyntaxErrorAt ''unexpected character'' \<lparr>pos_line = line, pos_column = column\<rparr>))"

lemma lex_token_shrinks:
  assumes "lex_token (c # cs) line column = Inr (t, n, rest)"
  shows "length rest < length (c # cs)"
proof -
  have "length (tl (dropWhile P cs)) < Suc (length cs)" for P
    using length_dropWhile_le [of P cs] by simp
  with assms show ?thesis
    by (auto simp: lex_token_def Let_def length_dropWhile_Cons split: if_splits)
qed

function lex_from :: "string \<Rightarrow> u32 \<Rightarrow> u32 \<Rightarrow> SqlToken list status_or" where
  "lex_from [] line column = Inr []"
| "lex_from (c # cs) line column =
     (if isspace c then
        (if c = CHR 0x0A then lex_from cs (line + 1) 1 else lex_from cs line (column + 1))
      else
        (case lex_token (c # cs) line column of
           Inl e \<Rightarrow> Inl e
         | Inr (t, n, rest) \<Rightarrow>
             (case lex_from rest line (column + n) of
                Inl e \<Rightarrow> Inl e
              | Inr ts \<Rightarrow> Inr (t # ts))))"
  by pat_completeness auto
termination
  by (relation "measure (\<lambda>(s, line, column). length s)") (auto dest: lex_token_shrinks)

declare lex_from.simps [simp del]

definition LexSql :: "string \<Rightarrow> SqlToken list status_or" where
  "LexSql sql = lex_from sql 1 1"

section \<open>ParseSql, BindSql\<close>

record SqlStatement =
  ss_source :: string
  ss_kind :: string

definition ParseSql :: "string \<Rightarrow> SqlStatement status_or" where
  "ParseSql sql =
     (case LexSql sql of
        Inl e \<Rightarrow> Inl e
      | Inr [] \<Rightarrow> Inl (SyntaxError ''empty SQL statement'')
      | Inr (t # _) \<Rightarrow> Inr \<lparr>ss_source = sql, ss_kind = Lower (sk_text t)\<rparr>)"

record LogicalPlan =
  lp_sql :: string
  lp_operation :: string

definition BindSql :: "SqlStatement \<Rightarrow> LogicalPlan status_or" where
  "BindSql st =
     (if ss_source st = [] then Inl (InvalidArgument ''empty SQL statement'')
      else Inr \<lparr>lp_sql = ss_source st, lp_operation = ss_kind st\<rparr>)"

section \<open>PlanNode\<close>

text \<open>A child is a shared pointer, which may be null.\<close>

datatype PlanNode = PlanNode (operation: string) (children: "PlanNode option list")

fun Explain :: "PlanNode \<Rightarrow> nat \<Rightarrow> string"
  and Explain_children :: "PlanNode option list \<Rightarrow> nat \<Rightarrow> string" where
  "Explain (PlanNode op cs) depth = replicate (depth * 2) CHR '' '' @ op @ [CHR 0x0A] @ Explain_children cs (depth + 1)"
| "Explain_children [] depth = []"
| "Explain_children (None # cs) depth = Explain_children cs depth"
| "Explain_children (Some c # cs) depth = Explain c depth @ Explain_children cs depth"

section \<open>Positions\<close>

text \<open>The line and the column a reader counts after \<open>pre\<close>.\<close>

fun after_char :: "u32 \<times> u32 \<Rightarrow> char \<Rightarrow> u32 \<times> u32" where
  "after_char (line, column) c = (if c = CHR 0x0A then (line + 1, 1) else (line, column + 1))"

definition position_after :: "string \<Rightarrow> u32 \<times> u32" where
  "position_after pre = foldl after_char (1, 1) pre"

text \<open>How the token is written in the text: as it is, or in quotes.\<close>

definition spelled :: "SqlToken \<Rightarrow> string \<Rightarrow> bool" where
  "spelled t s \<longleftrightarrow> s = sk_text t \<or> s = CHR 0x27 # sk_text t @ [CHR 0x27] \<or> s = CHR 0x22 # sk_text t @ [CHR 0x22]"

definition placed :: "string \<Rightarrow> SqlToken \<Rightarrow> bool" where
  "placed sql t \<longleftrightarrow>
     (\<exists>pre s post. sql = pre @ s @ post \<and> spelled t s \<and>
        (pos_line (sk_pos t), pos_column (sk_pos t)) = position_after pre)"

lemma foldl_after_char:
  "CHR 0x0A \<notin> set s \<Longrightarrow> foldl after_char (line, column) s = (line, column + of_nat (length s))"
  by (induction s arbitrary: column) (auto simp: ac_simps)

lemma newline_in_class: "\<not> word_start CHR 0x0A" "\<not> word_char CHR 0x0A" "\<not> isdigit CHR 0x0A" "\<not> number_char CHR 0x0A"
  "\<not> sql_symbol CHR 0x0A"
  by (simp_all add: word_start_def word_char_def number_char_def sql_symbol_def isalnum_def isalpha_def isupper_def
      islower_def isdigit_def)

lemma takeWhile_no_newline: "\<not> P CHR 0x0A \<Longrightarrow> CHR 0x0A \<notin> set (takeWhile P s)"
  using set_takeWhileD by fastforce

text \<open>One token: its spelling stands at the head of the text, and the column moves by its length.\<close>

definition token_at :: "string \<Rightarrow> u32 \<Rightarrow> u32 \<Rightarrow> SqlToken \<Rightarrow> u32 \<Rightarrow> string \<Rightarrow> bool" where
  "token_at s line column t n rest \<longleftrightarrow>
     (\<exists>w. s = w @ rest \<and> spelled t w \<and> n = of_nat (length w) \<and>
        sk_pos t = \<lparr>pos_line = line, pos_column = column\<rparr> \<and>
        (CHR 0x0A \<notin> set (sk_text t) \<longrightarrow> CHR 0x0A \<notin> set w))"

lemma token_at_plain: "token_at (w @ rest) line column (sql_token k w line column) (of_nat (length w)) rest"
  by (auto simp: token_at_def spelled_def sql_token_def)

lemma token_at_quoted:
  "c = CHR 0x27 \<or> c = CHR 0x22 \<Longrightarrow>
   token_at (c # w @ c # rest) line column (sql_token k w line column) (of_nat (length w + 2)) rest"
  unfolding token_at_def
  by (intro exI [of _ "c # w @ [c]"]) (auto simp: spelled_def sql_token_def)

lemma lex_token_spelled:
  assumes "lex_token (c # cs) line column = Inr (t, n, rest)"
  shows "token_at (c # cs) line column t n rest"
proof -
  let ?w = "takeWhile (\<lambda>d. d \<noteq> c) cs" and ?r = "dropWhile (\<lambda>d. d \<noteq> c) cs"
  show ?thesis
  proof (cases "word_start c")
    case True
    then have "t = sql_token SqlWord (c # takeWhile word_char cs) line column"
      "n = of_nat (length (c # takeWhile word_char cs))" "rest = dropWhile word_char cs"
      using assms by (simp_all add: lex_token_def)
    then show ?thesis using token_at_plain [of "c # takeWhile word_char cs" rest] by simp
  next
    case not_word: False
    show ?thesis
    proof (cases "isdigit c")
      case True
      then have "t = sql_token SqlNumber (c # takeWhile number_char cs) line column"
        "n = of_nat (length (c # takeWhile number_char cs))" "rest = dropWhile number_char cs"
        using assms not_word by (simp_all add: lex_token_def)
      then show ?thesis using token_at_plain [of "c # takeWhile number_char cs" rest] by simp
    next
      case not_number: False
      show ?thesis
      proof (cases "c = CHR 0x27 \<or> c = CHR 0x22")
        case True
        then have q: "?r \<noteq> []" "rest = tl ?r" "n = of_nat (length ?w + 2)"
          "t = sql_token (if c = CHR 0x27 then SqlString else SqlWord) ?w line column"
          using assms not_word not_number by (simp_all add: lex_token_def Let_def split: if_splits)
        have "hd ?r = c" using q(1) hd_dropWhile [of "\<lambda>d. d \<noteq> c" cs] by simp
        then have "?r = c # rest" using q(1,2) by (cases ?r) simp_all
        then obtain w where w: "?w = w" "cs = w @ c # rest"
          using takeWhile_dropWhile_id [of "\<lambda>d. d \<noteq> c" cs] by metis
        show ?thesis
          unfolding q(3,4) w(1) by (subst w(2)) (rule token_at_quoted [OF True])
      next
        case False
        then have "\<exists>k. t = sql_token k [c] line column" "n = of_nat (length [c])" "rest = cs"
          using assms not_word not_number by (auto simp: lex_token_def split: if_splits)
        then show ?thesis using token_at_plain [of "[c]" rest] by auto
      qed
    qed
  qed
qed

lemma lex_from_placed:
  assumes "lex_from s line column = Inr ts" "position_after pre = (line, column)" "sql = pre @ s"
    and "list_all (\<lambda>t. CHR 0x0A \<notin> set (sk_text t)) ts"
  shows "list_all (placed sql) ts"
  using assms
proof (induction s line column arbitrary: pre ts rule: lex_from.induct)
  case (1 line column)
  then show ?case by (simp add: lex_from.simps)
next
  case (2 c cs line column)
  show ?case
  proof (cases "isspace c")
    case True
    show ?thesis
    proof (cases "c = CHR 0x0A")
      case nl: True
      have "position_after (pre @ [c]) = (line + 1, 1)" using "2.prems"(2) nl by (simp add: position_after_def)
      with "2.IH"(1) [OF True nl] "2.prems" True nl show ?thesis by (simp add: lex_from.simps)
    next
      case False
      have "position_after (pre @ [c]) = (line, column + 1)" using "2.prems"(2) False by (simp add: position_after_def)
      with "2.IH"(2) [OF True False] "2.prems" True False show ?thesis by (simp add: lex_from.simps)
    qed
  next
    case False
    with "2.prems"(1) obtain t n rest ts' where t: "lex_token (c # cs) line column = Inr (t, n, rest)"
      and rec: "lex_from rest line (column + n) = Inr ts'" and ts: "ts = t # ts'"
      by (auto simp: lex_from.simps split: sum.splits)
    from lex_token_spelled [OF t] obtain s where s: "c # cs = s @ rest" "spelled t s" "n = of_nat (length s)"
      "sk_pos t = \<lparr>pos_line = line, pos_column = column\<rparr>" "CHR 0x0A \<notin> set (sk_text t) \<longrightarrow> CHR 0x0A \<notin> set s"
      unfolding token_at_def by blast
    have "position_after (pre @ s) = (line, column + n)"
      using "2.prems"(2,4) s(3,5) ts by (simp add: position_after_def foldl_after_char)
    then have "list_all (placed sql) ts'"
      using "2.IH"(3) [OF False t refl refl rec] "2.prems"(3,4) s(1) ts by simp
    moreover have "placed sql t" unfolding placed_def
      using "2.prems"(2,3) s(1,2,4) by (intro exI [of _ pre] exI [of _ s] exI [of _ rest]) simp
    ultimately show ?thesis using ts by simp
  qed
qed

lemma lex_token_error: "lex_token s line column = Inl e \<Longrightarrow> pl_code e = kSyntaxError"
  by (auto simp: lex_token_def Let_def SyntaxErrorAt_def error_at_def split: if_splits)

lemma lex_from_error: "lex_from s line column = Inl e \<Longrightarrow> pl_code e = kSyntaxError"
proof (induction s line column rule: lex_from.induct)
  case (2 c cs line column)
  show ?case
  proof (cases "isspace c")
    case True
    with "2.prems" "2.IH"(1,2) show ?thesis by (simp add: lex_from.simps(2) split: if_splits)
  next
    case False
    show ?thesis
    proof (cases "lex_token (c # cs) line column")
      case (Inl e')
      with "2.prems" False have "e' = e" by (simp add: lex_from.simps(2))
      with Inl show ?thesis by (simp add: lex_token_error)
    next
      case (Inr r)
      obtain t n rest where r: "r = (t, n, rest)" by (metis prod_cases3)
      with "2.prems" False Inr have "lex_from rest line (column + n) = Inl e"
        by (simp add: lex_from.simps(2) split: sum.splits)
      with "2.IH"(3) [OF False Inr r [symmetric] refl] show ?thesis .
    qed
  qed
qed (simp add: lex_from.simps)

section \<open>The printed plan\<close>

text \<open>The operations of a plan in preorder, each with its depth.\<close>

fun plan_lines :: "PlanNode \<Rightarrow> nat \<Rightarrow> (nat \<times> string) list"
  and child_lines :: "PlanNode option list \<Rightarrow> nat \<Rightarrow> (nat \<times> string) list" where
  "plan_lines (PlanNode op cs) depth = (depth, op) # child_lines cs (depth + 1)"
| "child_lines [] depth = []"
| "child_lines (None # cs) depth = child_lines cs depth"
| "child_lines (Some c # cs) depth = plan_lines c depth @ child_lines cs depth"

definition print_line :: "nat \<times> string \<Rightarrow> string" where
  "print_line = (\<lambda>(depth, op). replicate (depth * 2) CHR '' '' @ op @ [CHR 0x0A])"

lemma Explain_lines:
  "Explain p depth = concat (map print_line (plan_lines p depth))"
  "Explain_children cs depth = concat (map print_line (child_lines cs depth))"
  by (induction p depth and cs depth rule: plan_lines_child_lines.induct) (simp_all add: print_line_def)

lemma Lower_kind: "ParseSql sql = Inr st \<Longrightarrow> Lower (ss_kind st) = ss_kind st \<and> ss_source st = sql"
  by (auto simp: ParseSql_def split: sum.splits list.splits)

text \<open>A line break inside a literal is not counted: the word after it is reported on the first line.\<close>

lemma LexSql_multiline_literal:
  "map_sum id (map sk_pos) (LexSql [CHR 0x27, CHR 0x0A, CHR 0x27, CHR ''a'']) =
     Inr [\<lparr>pos_line = 1, pos_column = 1\<rparr>, \<lparr>pos_line = 1, pos_column = 4\<rparr>]"
  by code_simp

section \<open>Properties\<close>

text \<open>C40: on every text the lexer of \<^verbatim>\<open>src/sql\<close> returns tokens or a syntax error, and each token's
  line and column are those of its first character in the text, as long as no quoted literal
  contains a line break.\<close>

theorem LexSql_positions:
  "case LexSql sql of
     Inr ts \<Rightarrow> list_all (\<lambda>t. CHR 0x0A \<notin> set (sk_text t)) ts \<longrightarrow> list_all (placed sql) ts
   | Inl e \<Rightarrow> pl_code e = kSyntaxError"
proof (cases "LexSql sql")
  case (Inl e)
  then show ?thesis using lex_from_error by (simp add: LexSql_def)
next
  case (Inr ts)
  then show ?thesis using lex_from_placed [of sql 1 1 ts "[]" sql] by (simp add: LexSql_def position_after_def)
qed

theorem LexSql_positions_witness:
  "\<exists>ts. LexSql ''select id'' = Inr ts \<and> length ts = 2 \<and> list_all (placed ''select id'') ts"
proof -
  have "LexSql ''select id'' = Inr [sql_token SqlWord ''select'' 1 1, sql_token SqlWord ''id'' 1 8]"
    by code_simp
  with LexSql_positions [of "''select id''"] show ?thesis by (simp add: sql_token_def)
qed

end
