(* ===== verification/Disk_Manager.thy ===== *)
theory Disk_Manager
  imports Status Io_Env Endian Crc32c
begin

text \<open>
  The page file of \<^verbatim>\<open>src/disk/disk_manager.cpp\<close>: a header page, pages with checksums, and the free
  list threaded through the free pages. Reads and writes are at an offset of the one open stream; the
  file in the environment is what that stream shows, and the tape decides which calls fail and how
  much of a failed write arrives.
\<close>

section \<open>Reads and writes at an offset\<close>

text \<open>Writing past the end fills the gap with zeros.\<close>

definition overwrite :: "nat \<Rightarrow> bytes \<Rightarrow> bytes \<Rightarrow> bytes" where
  "overwrite off data bs =
     (if data = [] then bs
      else take off bs @ replicate (off - length bs) 0 @ data @ drop (off + length data) bs)"

definition read_at :: "string \<Rightarrow> nat \<Rightarrow> nat \<Rightarrow> env \<Rightarrow> bytes option \<times> env" where
  "read_at path off n e =
     (case io_try e of (ok, e') \<Rightarrow>
        (if ok \<and> off + n \<le> length (contents e' path) then Some (take n (drop off (contents e' path))) else None, e'))"

definition write_at :: "string \<Rightarrow> nat \<Rightarrow> bytes \<Rightarrow> env \<Rightarrow> bool \<times> env" where
  "write_at path off data e =
     (case next_io e of
        (IoOk n, e') \<Rightarrow> (True, put_file path (overwrite off data (contents e' path)) e')
      | (IoFail n m, e') \<Rightarrow> (False, put_file path (overwrite off (take n data) (contents e' path)) e'))"

section \<open>Pages and the manager\<close>

definition kPageFree :: byte where
  "kPageFree = 4"

record Page =
  pg_id :: page_id_t
  pg_bytes :: bytes

definition new_Page :: "page_id_t \<Rightarrow> Page" where
  "new_Page p = \<lparr>pg_id = p, pg_bytes = replicate kPageSize 0\<rparr>"

definition Page_Reset :: "Page \<Rightarrow> Page" where
  "Page_Reset page = page\<lparr>pg_id := kInvalidPageId, pg_bytes := replicate kPageSize 0\<rparr>"

record DiskManager =
  dm_open :: bool
  dm_path :: string
  dm_page_count :: u32
  dm_free_list_head :: page_id_t
  dm_next_txn_id :: u64
  dm_checkpoint_lsn :: u64
  dm_next_table_id :: table_id_t
  dm_next_index_id :: index_id_t
  dm_catalog_roots :: "page_id_t list"

definition new_DiskManager :: DiskManager where
  "new_DiskManager =
     \<lparr>dm_open = False, dm_path = [], dm_page_count = 0, dm_free_list_head = kInvalidPageId, dm_next_txn_id = 1,
      dm_checkpoint_lsn = 0, dm_next_table_id = 1, dm_next_index_id = 1,
      dm_catalog_roots = [kInvalidPageId, kInvalidPageId, kInvalidPageId]\<rparr>"

definition kFormatVersion :: byte where
  "kFormatVersion = 1"

definition kMagic :: bytes where
  "kMagic = bytes_of_string ''TSTONE01''"

definition PageOffset :: "page_id_t \<Rightarrow> nat" where
  "PageOffset p = unat p * kPageSize"

definition IoFailure :: "string \<Rightarrow> string \<Rightarrow> payload" where
  "IoFailure operation path = IoError (operation @ '' failed for '' @ path)"

text \<open>The stream of a manager that is not open fails every call.\<close>

definition dm_read_at :: "DiskManager \<Rightarrow> nat \<Rightarrow> env \<Rightarrow> bytes option \<times> env" where
  "dm_read_at dm off e = (if dm_open dm then read_at (dm_path dm) off kPageSize e else (None, e))"

definition dm_write_at :: "DiskManager \<Rightarrow> nat \<Rightarrow> bytes \<Rightarrow> env \<Rightarrow> bool \<times> env" where
  "dm_write_at dm off data e = (if dm_open dm then write_at (dm_path dm) off data e else (False, e))"

section \<open>The header\<close>

definition header_blank :: bytes where
  "header_blank = (kMagic @ replicate (kPageSize - 8) 0)[8 := kFormatVersion, 9 := kPageSizeLog2]"

definition header_body :: "DiskManager \<Rightarrow> bytes" where
  "header_body dm =
     (let b = StoreU32LE header_blank 12 (dm_page_count dm);
          b = StoreU32LE b 16 (dm_free_list_head dm);
          b = StoreU64LE b 20 (dm_next_txn_id dm);
          b = StoreU64LE b 28 (dm_checkpoint_lsn dm);
          b = StoreU32LE b 36 (dm_next_table_id dm);
          b = StoreU32LE b 40 (dm_next_index_id dm);
          b = StoreU32LE b 44 (dm_catalog_roots dm ! 0);
          b = StoreU32LE b 48 (dm_catalog_roots dm ! 1)
      in StoreU32LE b 52 (dm_catalog_roots dm ! 2))"

definition header_bytes :: "DiskManager \<Rightarrow> bytes" where
  "header_bytes dm = StoreU32LE (header_body dm) 4092 (Crc32c (take 4092 (header_body dm)))"

definition WriteHeaderLocked :: "DiskManager \<Rightarrow> env \<Rightarrow> status \<times> env" where
  "WriteHeaderLocked dm e =
     (if \<not> dm_open dm then (Some (IoError ''database is not open''), e)
      else
        (case dm_write_at dm 0 (header_bytes dm) e of (ok, e') \<Rightarrow>
           (if ok then None else Some (IoFailure ''write header'' (dm_path dm)), e')))"

definition load_header :: "bytes \<Rightarrow> DiskManager \<Rightarrow> DiskManager" where
  "load_header b dm =
     dm\<lparr>dm_page_count := LoadU32LE b 12, dm_free_list_head := LoadU32LE b 16, dm_next_txn_id := LoadU64LE b 20,
        dm_checkpoint_lsn := LoadU64LE b 28, dm_next_table_id := LoadU32LE b 36, dm_next_index_id := LoadU32LE b 40,
        dm_catalog_roots := [LoadU32LE b 44, LoadU32LE b 48, LoadU32LE b 52]\<rparr>"

definition ReadHeaderLocked :: "DiskManager \<Rightarrow> env \<Rightarrow> status \<times> DiskManager \<times> env" where
  "ReadHeaderLocked dm e =
     (case dm_read_at dm 0 e of
        (None, e') \<Rightarrow> (Some (IoFailure ''read header'' (dm_path dm)), dm, e')
      | (Some b, e') \<Rightarrow>
          if take 8 b \<noteq> kMagic then (Some (Incompatible ''not a tuplestone database''), dm, e')
          else if b ! 8 \<noteq> kFormatVersion \<or> b ! 9 \<noteq> kPageSizeLog2 then
            (Some (Incompatible ''unsupported database format''), dm, e')
          else if LoadU32LE b 4092 \<noteq> Crc32c (take 4092 b) then
            (Some (Corruption ''header checksum mismatch''), dm, e')
          else (None, load_header b dm, e'))"

section \<open>Opening and closing\<close>

definition dm_open_stream :: "string \<Rightarrow> bool \<Rightarrow> env \<Rightarrow> status \<times> env" where
  "dm_open_stream path create_if_missing e =
     (case open_read path e of (opened, e1) \<Rightarrow>
        if opened then (None, e1)
        else if \<not> create_if_missing then (Some (IoFailure ''open'' path), e1)
        else
          (case open_trunc path e1 of (created, e2) \<Rightarrow>
             if \<not> created then (Some (IoFailure ''create'' path), e2)
             else
               (case open_read path e2 of (reopened, e3) \<Rightarrow>
                  (if reopened then None else Some (IoFailure ''open'' path), e3))))"

text \<open>\<^verbatim>\<open>Open\<close>: a file of size zero becomes a database; a size that cannot be told counts as -1. A header
  that is refused leaves the stream open.\<close>

definition dm_Open :: "DiskManager \<Rightarrow> string \<Rightarrow> bool \<Rightarrow> env \<Rightarrow> status \<times> DiskManager \<times> env" where
  "dm_Open dm path create_if_missing e =
     (if dm_open dm then (Some (AlreadyExists ''database is already open''), dm, e)
      else
        (case dm_open_stream path create_if_missing e of
           (Some err, e1) \<Rightarrow> (Some err, dm\<lparr>dm_path := path\<rparr>, e1)
         | (None, e1) \<Rightarrow>
             (case io_try e1 of (told, e2) \<Rightarrow>
                let dm1 = dm\<lparr>dm_path := path, dm_open := True\<rparr>; n = length (contents e2 path) in
                if told \<and> n = 0 then
                  (let dm2 = dm1\<lparr>dm_page_count := 1, dm_free_list_head := kInvalidPageId, dm_next_txn_id := 1,
                        dm_next_table_id := 1, dm_next_index_id := 1\<rparr> in
                   case WriteHeaderLocked dm2 e2 of
                     (Some err, e3) \<Rightarrow> (Some err, dm2\<lparr>dm_open := False\<rparr>, e3)
                   | (None, e3) \<Rightarrow> (None, dm2, e3))
                else if \<not> told \<or> n < kPageSize \<or> n mod kPageSize \<noteq> 0 then
                  (Some (Corruption ''database file has an invalid size''), dm1\<lparr>dm_open := False\<rparr>, e2)
                else ReadHeaderLocked dm1 e2)))"

definition dm_Close :: "DiskManager \<Rightarrow> env \<Rightarrow> status \<times> DiskManager \<times> env" where
  "dm_Close dm e =
     (if \<not> dm_open dm then (None, dm, e)
      else (case WriteHeaderLocked dm e of (st, e') \<Rightarrow> (st, dm\<lparr>dm_open := False\<rparr>, e')))"

text \<open>\<^verbatim>\<open>~DiskManager\<close>\<close>

definition dm_drop :: "DiskManager \<Rightarrow> env \<Rightarrow> env" where
  "dm_drop dm e = snd (snd (dm_Close dm e))"

section \<open>Pages\<close>

definition EnsurePageLocked :: "DiskManager \<Rightarrow> page_id_t \<Rightarrow> status" where
  "EnsurePageLocked dm p =
     (if p = kInvalidPageId \<or> dm_page_count dm \<le> p then Some (OutOfRange ''page id is out of range'') else None)"

definition page_image :: "page_id_t \<Rightarrow> bytes \<Rightarrow> bytes" where
  "page_image p bs = (if p \<noteq> kHeaderPageId then StoreU32LE bs 0 (Crc32c (drop 4 bs)) else bs)"

definition WritePageLocked :: "DiskManager \<Rightarrow> page_id_t \<Rightarrow> Page \<Rightarrow> env \<Rightarrow> status \<times> env" where
  "WritePageLocked dm p page e =
     (case EnsurePageLocked dm p of
        Some err \<Rightarrow> (Some err, e)
      | None \<Rightarrow>
          (case dm_write_at dm (PageOffset p) (page_image p (pg_bytes page)) e of (ok, e') \<Rightarrow>
             (if ok then None else Some (IoFailure ''write page'' (dm_path dm)), e')))"

definition dm_WritePage :: "DiskManager \<Rightarrow> page_id_t \<Rightarrow> Page \<Rightarrow> env \<Rightarrow> status \<times> env" where
  "dm_WritePage dm p page e = WritePageLocked dm p page e"

text \<open>\<^verbatim>\<open>ReadPage\<close> into \<open>page\<close>, or into nothing when the pointer is null.\<close>

definition dm_ReadPage :: "DiskManager \<Rightarrow> page_id_t \<Rightarrow> Page option \<Rightarrow> env \<Rightarrow> status \<times> Page option \<times> env" where
  "dm_ReadPage dm p page e =
     (if page = None then (Some (InvalidArgument ''page output is null''), page, e)
      else
        (case EnsurePageLocked dm p of
           Some err \<Rightarrow> (Some err, page, e)
         | None \<Rightarrow>
             (case dm_read_at dm (PageOffset p) e of
                (None, e') \<Rightarrow> (Some (IoFailure ''read page'' (dm_path dm)), page, e')
              | (Some b, e') \<Rightarrow>
                  if p \<noteq> kHeaderPageId \<and> LoadU32LE b 0 \<noteq> Crc32c (drop 4 b) then
                    (Some (Corruption ''page checksum mismatch''), page, e')
                  else (None, Some \<lparr>pg_id = p, pg_bytes = b\<rparr>, e'))))"

definition free_page :: "page_id_t \<Rightarrow> page_id_t \<Rightarrow> Page" where
  "free_page p follower =
     (let page = new_Page p in
      page\<lparr>pg_bytes := StoreU32LE ((pg_bytes page)[4 := kPageFree]) 16 follower\<rparr>)"

text \<open>\<^verbatim>\<open>AllocatePage\<close>: the page to hand out and the state with its list or count moved on, then the
  page and the header are written.\<close>

definition dm_take_page :: "DiskManager \<Rightarrow> env \<Rightarrow> (page_id_t \<times> DiskManager) status_or \<times> env" where
  "dm_take_page dm e =
     (if dm_free_list_head dm \<noteq> kInvalidPageId then
        (case dm_read_at dm (PageOffset (dm_free_list_head dm)) e of
           (None, e') \<Rightarrow> (Inl (IoFailure ''read free page'' (dm_path dm)), e')
         | (Some b, e') \<Rightarrow> (Inr (dm_free_list_head dm, dm\<lparr>dm_free_list_head := LoadU32LE b 16\<rparr>), e'))
      else (Inr (dm_page_count dm, dm\<lparr>dm_page_count := dm_page_count dm + 1\<rparr>), e))"

definition dm_AllocatePage :: "DiskManager \<Rightarrow> env \<Rightarrow> page_id_t status_or \<times> DiskManager \<times> env" where
  "dm_AllocatePage dm e =
     (if \<not> dm_open dm then (Inl (IoError ''database is not open''), dm, e)
      else
        (case dm_take_page dm e of
           (Inl err, e1) \<Rightarrow> (Inl err, dm, e1)
         | (Inr (p, dm1), e1) \<Rightarrow>
             (case WritePageLocked dm1 p (free_page p kInvalidPageId) e1 of
                (Some err, e2) \<Rightarrow> (Inl err, dm1, e2)
              | (None, e2) \<Rightarrow>
                  (case WriteHeaderLocked dm1 e2 of
                     (Some err, e3) \<Rightarrow> (Inl err, dm1, e3)
                   | (None, e3) \<Rightarrow> (Inr p, dm1, e3)))))"

definition dm_FreePage :: "DiskManager \<Rightarrow> page_id_t \<Rightarrow> env \<Rightarrow> status \<times> DiskManager \<times> env" where
  "dm_FreePage dm p e =
     (case EnsurePageLocked dm p of
        Some err \<Rightarrow> (Some err, dm, e)
      | None \<Rightarrow>
          if p = kHeaderPageId then (Some (InvalidArgument ''cannot free header page''), dm, e)
          else
            (case WritePageLocked dm p (free_page p (dm_free_list_head dm)) e of
               (Some err, e1) \<Rightarrow> (Some err, dm, e1)
             | (None, e1) \<Rightarrow>
                 let dm1 = dm\<lparr>dm_free_list_head := p\<rparr> in
                 case WriteHeaderLocked dm1 e1 of (st, e2) \<Rightarrow> (st, dm1, e2)))"

text \<open>\<^verbatim>\<open>Sync\<close>, on POSIX: a file that cannot be opened again is taken as synced.\<close>

definition dm_Sync :: "DiskManager \<Rightarrow> env \<Rightarrow> status \<times> env" where
  "dm_Sync dm e =
     (if \<not> dm_open dm then (Some (IoError ''database is not open''), e)
      else
        (case open_read (dm_path dm) e of (opened, e1) \<Rightarrow>
           if \<not> opened then (None, e1)
           else (case io_try e1 of (synced, e2) \<Rightarrow>
             (if synced then None else Some (IoFailure ''sync'' (dm_path dm)), e2))))"

section \<open>The fault-injecting wrapper\<close>

record FaultDiskManager =
  fd_disk :: DiskManager
  fd_write_count :: nat
  fd_fail_write_at :: nat
  fd_tear_write_at :: nat

definition fd_ResetFaults :: "FaultDiskManager \<Rightarrow> FaultDiskManager" where
  "fd_ResetFaults fd = fd\<lparr>fd_fail_write_at := 0, fd_tear_write_at := 0, fd_write_count := 0\<rparr>"

definition torn_page :: "Page \<Rightarrow> Page" where
  "torn_page page =
     page\<lparr>pg_bytes := take (kPageSize div 2) (pg_bytes page) @ replicate (kPageSize div 2) 0\<rparr>"

definition fd_WritePage :: "FaultDiskManager \<Rightarrow> page_id_t \<Rightarrow> Page \<Rightarrow> env \<Rightarrow> status \<times> FaultDiskManager \<times> env" where
  "fd_WritePage fd p page e =
     (let fd1 = fd\<lparr>fd_write_count := fd_write_count fd + 1\<rparr> in
      if fd_fail_write_at fd1 \<noteq> 0 \<and> fd_write_count fd1 = fd_fail_write_at fd1 then
        (Some (IoError ''injected write failure''), fd1, e)
      else if fd_tear_write_at fd1 \<noteq> 0 \<and> fd_write_count fd1 = fd_tear_write_at fd1 then
        (case dm_WritePage (fd_disk fd1) p (torn_page page) e of (st, e') \<Rightarrow> (st, fd1, e'))
      else (case dm_WritePage (fd_disk fd1) p page e of (st, e') \<Rightarrow> (st, fd1, e')))"

definition fd_Sync :: "FaultDiskManager \<Rightarrow> env \<Rightarrow> status \<times> FaultDiskManager \<times> env" where
  "fd_Sync fd e =
     (let fd1 = fd\<lparr>fd_write_count := fd_write_count fd + 1\<rparr> in
      if fd_fail_write_at fd1 \<noteq> 0 \<and> fd_write_count fd1 = fd_fail_write_at fd1 then
        (Some (IoError ''injected sync failure''), fd1, e)
      else (case dm_Sync (fd_disk fd1) e of (st, e') \<Rightarrow> (st, fd1, e')))"

section \<open>Pages of a file\<close>

definition page_at :: "bytes \<Rightarrow> page_id_t \<Rightarrow> bytes" where
  "page_at bs p = take kPageSize (drop (PageOffset p) bs)"

lemma kPageSize_pos [simp]: "0 < kPageSize"
  by (simp add: kPageSize_def)

lemma overwrite_inside:
  "off \<le> length bs \<Longrightarrow> data \<noteq> [] \<Longrightarrow> overwrite off data bs = take off bs @ data @ drop (off + length data) bs"
  by (simp add: overwrite_def)

lemma PageOffset_eq_iff [simp]: "PageOffset p = PageOffset q \<longleftrightarrow> p = q"
  by (simp add: PageOffset_def kPageSize_def word_unat_eq_iff)

lemma nonempty_page: "length data = kPageSize \<Longrightarrow> data \<noteq> []"
  by (auto simp: kPageSize_def)

lemma page_at_overwrite:
  assumes "PageOffset p \<le> length bs" "length data = kPageSize"
  shows "page_at (overwrite (PageOffset p) data bs) q = (if q = p then data else page_at bs q)"
proof -
  let ?k = "kPageSize" and ?s = "overwrite (PageOffset p) data bs"
  have s: "?s = take (PageOffset p) bs @ data @ drop (PageOffset p + ?k) bs"
    using assms overwrite_inside [of "PageOffset p" bs data, OF _ nonempty_page] by simp
  consider "q = p" | "unat q < unat p" | "unat p < unat q" by (metis linorder_neqE_nat word_unat_eq_iff)
  then show ?thesis
  proof cases
    case 1
    then show ?thesis using assms by (simp add: page_at_def s)
  next
    case 2
    then have "PageOffset q + ?k \<le> PageOffset p"
      unfolding PageOffset_def using mult_le_mono1 [of "Suc (unat q)" "unat p" ?k] by (simp add: add.commute)
    moreover have "q \<noteq> p" using 2 by auto
    ultimately show ?thesis using assms(1) by (simp add: page_at_def s drop_take)
  next
    case 3
    then have "PageOffset p + ?k \<le> PageOffset q"
      unfolding PageOffset_def using mult_le_mono1 [of "Suc (unat p)" "unat q" ?k] by (simp add: add.commute)
    moreover have "q \<noteq> p" using 3 by auto
    ultimately show ?thesis using assms by (simp add: page_at_def s)
  qed
qed

lemma length_overwrite:
  assumes "length bs = n * kPageSize" "unat p \<le> n" "length data = kPageSize"
  shows "length (overwrite (PageOffset p) data bs) = (if unat p = n then Suc n else n) * kPageSize"
proof -
  have off: "PageOffset p \<le> length bs" using assms(1,2) by (simp add: PageOffset_def)
  show ?thesis
  proof (cases "unat p = n")
    case True
    then show ?thesis using assms off overwrite_inside [OF off nonempty_page [OF assms(3)]]
      by (simp add: PageOffset_def)
  next
    case False
    then have "Suc (unat p) \<le> n" using assms(2) by simp
    then have "PageOffset p + kPageSize \<le> length bs"
      unfolding PageOffset_def assms(1) using mult_le_mono1 [of "Suc (unat p)" n kPageSize] by (simp add: add.commute)
    then show ?thesis using assms False off overwrite_inside [OF off nonempty_page [OF assms(3)]]
      by (simp add: PageOffset_def)
  qed
qed

lemma page_at_whole:
  assumes "length bs = n * kPageSize" "unat p < n"
  shows "PageOffset p + kPageSize \<le> length bs" "length (page_at bs p) = kPageSize"
proof -
  have "Suc (unat p) * kPageSize \<le> n * kPageSize" using assms(2) by (intro mult_le_mono1) simp
  then show "PageOffset p + kPageSize \<le> length bs" using assms(1) by (simp add: PageOffset_def)
  then show "length (page_at bs p) = kPageSize" by (simp add: page_at_def)
qed

section \<open>Fields of different width\<close>

lemma u32_skip_u64: "off + 4 \<le> off' \<or> off' + 8 \<le> off \<Longrightarrow> LoadU32LE (StoreU64LE b off' v) off = LoadU32LE b off"
  by (rule u32le.load_local) (auto simp: u64le.store_elsewhere)

lemma u64_skip_u32: "off + 8 \<le> off' \<or> off' + 4 \<le> off \<Longrightarrow> LoadU64LE (StoreU32LE b off' v) off = LoadU64LE b off"
  by (rule u64le.load_local) (auto simp: u32le.store_elsewhere)

lemmas field_simps_le =
  u32le.load_store u64le.load_store u32le.load_skip_store u64le.load_skip_store u32_skip_u64 u64_skip_u32
  u32le.store_elsewhere u64le.store_elsewhere u32le.take_store u64le.take_store u32le.drop_store

lemma length_kMagic [simp]: "length kMagic = 8"
  by (simp add: kMagic_def)

lemma header_blank_facts [simp]:
  "length header_blank = kPageSize" "take 8 header_blank = kMagic" "header_blank ! 8 = kFormatVersion"
  "header_blank ! 9 = kPageSizeLog2"
  by (simp_all add: header_blank_def kPageSize_def)

lemma length_header_body [simp]: "length (header_body dm) = kPageSize"
  by (simp add: header_body_def Let_def)

lemma length_header_bytes [simp]: "length (header_bytes dm) = kPageSize"
  by (simp add: header_bytes_def)

lemma page_size_num: "kPageSize = 4096"
  by (simp add: kPageSize_def)

lemma length_page_image [simp]: "length (page_image p bs) = length bs"
  by (simp add: page_image_def)

lemma load_header_body:
  assumes "length (dm_catalog_roots dm) = 3"
  shows "load_header (header_body dm) dm' = dm\<lparr>dm_open := dm_open dm', dm_path := dm_path dm'\<rparr>"
proof -
  obtain a b c where "dm_catalog_roots dm = [a, b, c]"
    using assms by (auto simp: numeral_3_eq_3 length_Suc_conv)
  then show ?thesis
    by (cases dm; cases dm') (simp add: load_header_def header_body_def Let_def field_simps_le page_size_num)
qed

lemma header_body_start: "take 8 (header_body dm) = kMagic" "header_body dm ! 8 = kFormatVersion"
    "header_body dm ! 9 = kPageSizeLog2"
  by (simp_all add: header_body_def Let_def field_simps_le)

lemma header_checks:
  shows "take 8 (header_bytes dm) = kMagic" "header_bytes dm ! 8 = kFormatVersion"
    "header_bytes dm ! 9 = kPageSizeLog2"
    "LoadU32LE (header_bytes dm) 4092 = Crc32c (take 4092 (header_bytes dm))"
    "load_header (header_bytes dm) dm' = load_header (header_body dm) dm'"
  by (simp_all add: header_bytes_def field_simps_le page_size_num load_header_def header_body_start)

section \<open>Without faults\<close>

definition dm_ready :: "DiskManager \<Rightarrow> env \<Rightarrow> bool" where
  "dm_ready dm e \<longleftrightarrow>
     dm_open dm \<and> 0 < dm_page_count dm \<and> length (dm_catalog_roots dm) = 3 \<and>
     length (contents e (dm_path dm)) = unat (dm_page_count dm) * kPageSize"

definition disk_page :: "DiskManager \<Rightarrow> env \<Rightarrow> page_id_t \<Rightarrow> bytes" where
  "disk_page dm e p = page_at (contents e (dm_path dm)) p"

lemma dm_write_at_faultless:
  "tape e = [] \<Longrightarrow> dm_open dm \<Longrightarrow>
   dm_write_at dm off data e = (True, put_file (dm_path dm) (overwrite off data (contents e (dm_path dm))) e)"
  by (simp add: dm_write_at_def write_at_def)

lemma dm_read_at_faultless:
  "tape e = [] \<Longrightarrow> dm_ready dm e \<Longrightarrow> p < dm_page_count dm \<Longrightarrow>
   dm_read_at dm (PageOffset p) e = (Some (disk_page dm e p), e)"
  using page_at_whole(1) [of "contents e (dm_path dm)" "unat (dm_page_count dm)" p]
  by (simp add: dm_read_at_def read_at_def dm_ready_def disk_page_def page_at_def word_less_nat_alt)

text \<open>A page written at \<open>p\<close>, up to the first page behind the end.\<close>

lemma put_page:
  assumes "length (contents e path) = n * kPageSize" "unat p \<le> n" "length data = kPageSize"
    and "e' = put_file path (overwrite (PageOffset p) data (contents e path)) e"
  shows "page_at (contents e' path) q = (if q = p then data else page_at (contents e path) q)"
    and "length (contents e' path) = (if unat p = n then Suc n else n) * kPageSize"
    and "tape e' = tape e"
  using assms page_at_overwrite [of p "contents e path" data q] length_overwrite [of "contents e path" n p data]
  by (simp_all add: PageOffset_def)

lemma PageOffset_0: "PageOffset 0 = 0"
  by (simp add: PageOffset_def)

lemma WriteHeader_faultless:
  assumes "tape e = []" "dm_open dm"
  shows "WriteHeaderLocked dm e =
    (None, put_file (dm_path dm) (overwrite (PageOffset 0) (header_bytes dm) (contents e (dm_path dm))) e)"
  using assms by (simp add: WriteHeaderLocked_def dm_write_at_faultless PageOffset_0)

lemma EnsurePage_iff: "EnsurePageLocked dm p = None \<longleftrightarrow> p \<noteq> kInvalidPageId \<and> p < dm_page_count dm"
  by (auto simp: EnsurePageLocked_def not_le)

lemma WritePage_faultless:
  assumes "tape e = []" "dm_open dm" "p \<noteq> kInvalidPageId" "p < dm_page_count dm"
  shows "WritePageLocked dm p page e =
    (None, put_file (dm_path dm) (overwrite (PageOffset p) (page_image p (pg_bytes page)) (contents e (dm_path dm))) e)"
proof -
  have "EnsurePageLocked dm p = None" using assms(3,4) EnsurePage_iff by blast
  then show ?thesis unfolding WritePageLocked_def by (simp add: dm_write_at_faultless [OF assms(1,2)])
qed

lemma page_image_checks:
  assumes "length bs = kPageSize" "p \<noteq> kHeaderPageId"
  shows "LoadU32LE (page_image p bs) 0 = Crc32c (drop 4 (page_image p bs))"
    and "drop 4 (page_image p bs) = drop 4 bs"
  using assms u32le.load_store [of 0 bs "Crc32c (drop 4 bs)"] u32le.drop_store [of 0 4 bs]
  by (simp_all add: page_image_def page_size_num)

lemma ReadPage_faultless:
  assumes "tape e = []" "dm_ready dm e" "p \<noteq> kInvalidPageId" "p < dm_page_count dm" "p \<noteq> kHeaderPageId"
  shows "dm_ReadPage dm p (Some page) e =
    (if LoadU32LE (disk_page dm e p) 0 = Crc32c (drop 4 (disk_page dm e p))
     then (None, Some \<lparr>pg_id = p, pg_bytes = disk_page dm e p\<rparr>, e)
     else (Some (Corruption ''page checksum mismatch''), Some page, e))"
proof -
  have "EnsurePageLocked dm p = None" using assms(3,4) EnsurePage_iff by blast
  then show ?thesis using assms(5) unfolding dm_ReadPage_def by (simp add: dm_read_at_faultless [OF assms(1,2,4)])
qed

lemma ReadHeader_after_WriteHeader:
  assumes "tape e = []" "dm_ready dm e" "WriteHeaderLocked dm e = (st, e')" "dm_path dm' = dm_path dm" "dm_open dm'"
  shows "ReadHeaderLocked dm' e' = (None, dm, e')" "dm_ready dm e'" "tape e' = []"
    "st = None" "p \<noteq> 0 \<Longrightarrow> disk_page dm e' p = disk_page dm e p"
proof -
  let ?path = "dm_path dm" and ?n = "unat (dm_page_count dm)"
  have r: "dm_open dm" "0 < ?n" "length (contents e ?path) = ?n * kPageSize" "length (dm_catalog_roots dm) = 3"
    using assms(2) by (simp_all add: dm_ready_def word_less_nat_alt)
  have e': "st = None" "e' = put_file ?path (overwrite (PageOffset 0) (header_bytes dm) (contents e ?path)) e"
    using assms(1,3) r(1) WriteHeader_faultless by simp_all
  note put = put_page [OF r(3) _ length_header_bytes e'(2)]
  have len: "length (contents e' ?path) = ?n * kPageSize" using put(2) r(2) by simp
  have "page_at (contents e' ?path) 0 = header_bytes dm" using put(1) [of 0] by simp
  moreover have "kPageSize \<le> length (contents e' ?path)" using len r(2) by simp
  ultimately have "dm_read_at dm' 0 e' = (Some (header_bytes dm), e')"
    using put(3) assms(1,4,5) by (simp add: dm_read_at_def read_at_def page_at_def PageOffset_0)
  moreover have "load_header (header_bytes dm) dm' = dm"
    using header_checks(5) load_header_body [OF r(4), of dm'] assms(4,5) r(1) by simp
  ultimately show "ReadHeaderLocked dm' e' = (None, dm, e')"
    using header_checks(1-4) [of dm] by (simp add: ReadHeaderLocked_def)
  show "dm_ready dm e'" using assms(2) len by (simp add: dm_ready_def)
  show "tape e' = []" using put(3) assms(1) by simp
  show "st = None" by (rule e'(1))
  show "disk_page dm e' p = disk_page dm e p" if "p \<noteq> 0" using put(1) that by (simp add: disk_page_def)
qed

section \<open>The free list\<close>

text \<open>The pages threaded from \<open>head\<close> on through the links in the pages.\<close>

fun free_chain :: "(page_id_t \<Rightarrow> bytes) \<Rightarrow> page_id_t \<Rightarrow> page_id_t list \<Rightarrow> bool" where
  "free_chain pages head [] \<longleftrightarrow> head = kInvalidPageId"
| "free_chain pages head (p # ps) \<longleftrightarrow>
     head = p \<and> p \<noteq> kInvalidPageId \<and> free_chain pages (LoadU32LE (pages p) 16) ps"

lemma free_chain_cong:
  "free_chain pages head ps \<Longrightarrow> (\<And>p. p \<in> set ps \<Longrightarrow> pages' p = pages p) \<Longrightarrow> free_chain pages' head ps"
  by (induction pages head ps rule: free_chain.induct) auto

definition dm_free :: "DiskManager \<Rightarrow> env \<Rightarrow> page_id_t list \<Rightarrow> bool" where
  "dm_free dm e ps \<longleftrightarrow>
     dm_ready dm e \<and> free_chain (disk_page dm e) (dm_free_list_head dm) ps \<and> distinct ps \<and>
     list_all (\<lambda>p. p \<noteq> kHeaderPageId \<and> p < dm_page_count dm) ps"

lemma length_free_page [simp]: "length (pg_bytes (free_page p q)) = kPageSize"
  by (simp add: free_page_def new_Page_def Let_def)

lemma free_page_link:
  assumes "p \<noteq> kHeaderPageId"
  shows "LoadU32LE (page_image p (pg_bytes (free_page p q))) 16 = q"
proof -
  have "16 + 4 \<le> length ((pg_bytes (new_Page p))[4 := kPageFree])" by (simp add: new_Page_def page_size_num)
  then show ?thesis using assms
    by (simp add: page_image_def free_page_def Let_def u32le.load_skip_store u32le.load_store)
qed

text \<open>A page and then the header are written, as \<^verbatim>\<open>AllocatePage\<close> and \<^verbatim>\<open>FreePage\<close> both do.\<close>

lemma write_page_and_header:
  assumes "tape e = []" "dm_open dm" "p \<noteq> kInvalidPageId" "p < dm_page_count dm" "p \<noteq> kHeaderPageId"
    and "length (contents e (dm_path dm)) = n * kPageSize" "unat p \<le> n" "0 < n" "length (pg_bytes page) = kPageSize"
    and "WritePageLocked dm p page e = (st, e2)" "dm_path dm1 = dm_path dm" "dm_open dm1"
    and "WriteHeaderLocked dm1 e2 = (st', e3)"
  shows "st = None" "st' = None" "tape e3 = []"
    "length (contents e3 (dm_path dm)) = (if unat p = n then Suc n else n) * kPageSize"
    "q \<noteq> kHeaderPageId \<Longrightarrow> disk_page dm e3 q = (if q = p then page_image p (pg_bytes page) else disk_page dm e q)"
proof -
  let ?path = "dm_path dm" and ?m = "if unat p = n then Suc n else n"
  have w: "st = None" "e2 = put_file ?path (overwrite (PageOffset p) (page_image p (pg_bytes page)) (contents e ?path)) e"
    using assms(10) WritePage_faultless [OF assms(1-4)] by simp_all
  have "length (page_image p (pg_bytes page)) = kPageSize" using assms(9) by simp
  note p2 = put_page [OF assms(6,7) this w(2)]
  have h: "st' = None" "e3 = put_file ?path (overwrite (PageOffset 0) (header_bytes dm1) (contents e2 ?path)) e2"
    using assms(11-13) WriteHeader_faultless [of e2 dm1] p2(3) assms(1) by simp_all
  note p3 = put_page [OF p2(2) _ length_header_bytes h(2)]
  show "st = None" "st' = None" by (rule w(1), rule h(1))
  show "tape e3 = []" using p3(3) p2(3) assms(1) by simp
  have "unat (0 :: page_id_t) \<noteq> ?m" using assms(8) by simp
  then show "length (contents e3 ?path) = ?m * kPageSize" using p3(2) by (simp split: if_splits)
  show "disk_page dm e3 q = (if q = p then page_image p (pg_bytes page) else disk_page dm e q)"
    if "q \<noteq> kHeaderPageId"
    using p3(1) [of q] p2(1) [of q] that by (simp add: disk_page_def kHeaderPageId_def)
qed

lemma disk_page_update [simp]:
  "disk_page (dm\<lparr>dm_free_list_head := p\<rparr>) = disk_page dm" "disk_page (dm\<lparr>dm_page_count := n\<rparr>) = disk_page dm"
  by (simp_all add: disk_page_def fun_eq_iff)

lemma dm_Free_outcome:
  assumes "tape e = []" "dm_ready dm e" "p \<noteq> kHeaderPageId" "p \<noteq> kInvalidPageId" "p < dm_page_count dm"
    and "dm_FreePage dm p e = (st, dm', e')"
  shows "st = None" "tape e' = []" "dm' = dm\<lparr>dm_free_list_head := p\<rparr>" "dm_ready dm' e'"
    "q \<noteq> kHeaderPageId \<Longrightarrow> disk_page dm e' q =
      (if q = p then page_image p (pg_bytes (free_page p (dm_free_list_head dm))) else disk_page dm e q)"
    "dm_free dm e ps \<Longrightarrow> p \<notin> set ps \<Longrightarrow> dm_free dm' e' (p # ps)"
proof -
  let ?n = "unat (dm_page_count dm)" and ?dm = "dm\<lparr>dm_free_list_head := p\<rparr>"
  have r: "dm_ready dm e" "dm_open dm" "length (contents e (dm_path dm)) = ?n * kPageSize" "unat p < ?n" "0 < ?n"
    using assms(2,5) by (auto simp: dm_ready_def word_less_nat_alt)
  have "EnsurePageLocked dm p = None" using assms(4,5) EnsurePage_iff by blast
  then have ensure: "EnsurePageLocked dm p = None" .
  obtain st1 e1 where w: "WritePageLocked dm p (free_page p (dm_free_list_head dm)) e = (st1, e1)"
    by (metis prod.exhaust)
  obtain st2 e2 where h: "WriteHeaderLocked ?dm e1 = (st2, e2)" by (metis prod.exhaust)
  have path: "dm_path ?dm = dm_path dm" "dm_open ?dm" using r(2) by simp_all
  note s = write_page_and_header [OF assms(1) r(2) assms(4,5,3) r(3) less_imp_le [OF r(4)] r(5) length_free_page w path h]
  have "dm_FreePage dm p e = (None, ?dm, e2)"
    using ensure assms(3) w h s(1,2) by (simp add: dm_FreePage_def Let_def)
  then have x: "st = None" "dm' = ?dm" "e' = e2" using assms(6) by simp_all
  show "st = None" "dm' = ?dm" by (rule x)+
  show "tape e' = []" using s(3) x(3) by simp
  show ready: "dm_ready dm' e'" using r s(4) x by (simp add: dm_ready_def)
  show pages: "disk_page dm e' q =
      (if q = p then page_image p (pg_bytes (free_page p (dm_free_list_head dm))) else disk_page dm e q)"
    if "q \<noteq> kHeaderPageId" for q using s(5) [OF that] x(3) by simp
  show "dm_free dm' e' (p # ps)" if "dm_free dm e ps" "p \<notin> set ps"
  proof -
    have free: "free_chain (disk_page dm e) (dm_free_list_head dm) ps" "distinct ps"
      "list_all (\<lambda>p. p \<noteq> kHeaderPageId \<and> p < dm_page_count dm) ps"
      using that(1) by (simp_all add: dm_free_def)
    have "free_chain (disk_page dm e') (dm_free_list_head dm) ps"
      by (rule free_chain_cong [OF free(1)]) (use free(3) that pages in \<open>auto simp: list_all_iff\<close>)
    moreover have "LoadU32LE (disk_page dm e' p) 16 = dm_free_list_head dm"
      using pages [OF assms(3)] free_page_link [OF assms(3)] by simp
    ultimately show ?thesis
      using ready that free(2,3) assms(3-5) unfolding x(2) by (simp add: dm_free_def)
  qed
qed

lemma dm_Allocate_head:
  assumes "tape e = []" "dm_ready dm e" "dm_free_list_head dm = p" "p \<noteq> kInvalidPageId" "p \<noteq> kHeaderPageId"
    and "p < dm_page_count dm" "dm_AllocatePage dm e = (res, dm', e')"
  shows "res = Inr p" "tape e' = []" "dm_ready dm' e'" "dm_page_count dm' = dm_page_count dm" "dm_path dm' = dm_path dm"
    "q \<noteq> kHeaderPageId \<Longrightarrow> q \<noteq> p \<Longrightarrow> disk_page dm e' q = disk_page dm e q"
    "disk_page dm e' p = page_image p (pg_bytes (free_page p kInvalidPageId))"
    "dm_free_list_head dm' = LoadU32LE (disk_page dm e p) 16"
proof -
  let ?n = "unat (dm_page_count dm)" and ?dm = "dm\<lparr>dm_free_list_head := LoadU32LE (disk_page dm e p) 16\<rparr>"
  note f = assms(2-6)
  have r: "dm_open dm" "length (contents e (dm_path dm)) = ?n * kPageSize" "unat p < ?n" "0 < ?n"
    using f by (auto simp: dm_ready_def word_less_nat_alt)
  have t: "dm_take_page dm e = (Inr (p, ?dm), e)"
    using f by (simp add: dm_take_page_def dm_read_at_faultless [OF assms(1) f(1,5)])
  obtain st1 e1 where w: "WritePageLocked ?dm p (free_page p kInvalidPageId) e = (st1, e1)" by (metis prod.exhaust)
  obtain st2 e2 where h: "WriteHeaderLocked ?dm e1 = (st2, e2)" by (metis prod.exhaust)
  note s = write_page_and_header [of e ?dm p ?n, OF assms(1) _ f(3) _ f(4) _ _ r(4) length_free_page w refl _ h,
      simplified, OF f(5) r(2) less_imp_le [OF r(3)] r(1)]
  have x: "res = Inr p" "dm' = ?dm" "e' = e2" using assms(7) t w h s(1,2) r(1) by (simp_all add: dm_AllocatePage_def)
  have pages: "disk_page dm e' q = (if q = p then page_image p (pg_bytes (free_page p kInvalidPageId)) else disk_page dm e q)"
    if "q \<noteq> kHeaderPageId" for q using s(5) [OF that] x(3) by (simp add: disk_page_def)
  show "res = Inr p" "dm_page_count dm' = dm_page_count dm" "dm_path dm' = dm_path dm"
    "dm_free_list_head dm' = LoadU32LE (disk_page dm e p) 16"
    using x by simp_all
  show "tape e' = []" using s(3) x(3) by simp
  show "disk_page dm e' q = disk_page dm e q" if "q \<noteq> kHeaderPageId" "q \<noteq> p" using pages that by simp
  show "disk_page dm e' p = page_image p (pg_bytes (free_page p kInvalidPageId))" using pages f(4) by simp
  show "dm_ready dm' e'" using f r s(4) x by (simp add: dm_ready_def)
qed

lemma dm_Allocate_reuse:
  assumes "tape e = []" "dm_free dm e (p # ps)" "dm_AllocatePage dm e = (res, dm', e')"
  shows "dm_free dm' e' ps"
proof -
  have f: "dm_ready dm e" "dm_free_list_head dm = p" "p \<noteq> kInvalidPageId" "p \<noteq> kHeaderPageId" "p < dm_page_count dm"
    and ps: "free_chain (disk_page dm e) (LoadU32LE (disk_page dm e p) 16) ps" "distinct ps" "p \<notin> set ps"
      "list_all (\<lambda>p. p \<noteq> kHeaderPageId \<and> p < dm_page_count dm) ps"
    using assms(2) by (auto simp: dm_free_def)
  note s = dm_Allocate_head [OF assms(1) f assms(3)]
  have "disk_page dm' e' = disk_page dm e'" using s(5) by (simp add: disk_page_def fun_eq_iff)
  then have "free_chain (disk_page dm' e') (LoadU32LE (disk_page dm e p) 16) ps"
    by (intro free_chain_cong [OF ps(1)]) (use ps(3,4) s(6) in \<open>auto simp: list_all_iff\<close>)
  then show ?thesis using s(3,4,8) ps by (simp add: dm_free_def)
qed

lemma dm_Allocate_extend:
  assumes "tape e = []" "dm_free dm e []" "dm_page_count dm < kInvalidPageId" "dm_AllocatePage dm e = (res, dm', e')"
  shows "res = Inr (dm_page_count dm)" "tape e' = []" "dm_free dm' e' []" "dm_page_count dm' = dm_page_count dm + 1"
    "dm_path dm' = dm_path dm" "q \<noteq> kHeaderPageId \<Longrightarrow> q \<noteq> dm_page_count dm \<Longrightarrow> disk_page dm e' q = disk_page dm e q"
proof -
  let ?p = "dm_page_count dm" and ?n = "unat (dm_page_count dm)" and ?dm = "dm\<lparr>dm_page_count := dm_page_count dm + 1\<rparr>"
  have f: "dm_ready dm e" "dm_free_list_head dm = kInvalidPageId" using assms(2) by (auto simp: dm_free_def)
  have r: "dm_open dm" "length (contents e (dm_path dm)) = ?n * kPageSize" "0 < ?n" "?p \<noteq> kHeaderPageId"
    using f by (auto simp: dm_ready_def word_less_nat_alt kHeaderPageId_def)
  have up: "unat (?p + 1) = Suc ?n"
  proof -
    have "kInvalidPageId = - 1" by (simp add: kInvalidPageId_def)
    with assms(3) have "?p + 1 \<noteq> 0" by (auto simp: eq_neg_iff_add_eq_0 [symmetric])
    then show ?thesis by (simp add: unatSuc add.commute)
  qed
  have t: "dm_take_page dm e = (Inr (?p, ?dm), e)" using f(2) by (simp add: dm_take_page_def)
  obtain st1 e1 where w: "WritePageLocked ?dm ?p (free_page ?p kInvalidPageId) e = (st1, e1)" by (metis prod.exhaust)
  obtain st2 e2 where h: "WriteHeaderLocked ?dm e1 = (st2, e2)" by (metis prod.exhaust)
  have lt: "?p < ?p + 1" using up by (simp add: word_less_nat_alt)
  have ne: "?p \<noteq> kInvalidPageId" using assms(3) by auto
  note s = write_page_and_header [of e ?dm ?p ?n, OF assms(1) _ ne _ r(4) _ _ r(3) length_free_page w refl _ h,
      simplified, OF lt r(2) r(1)]
  have x: "res = Inr ?p" "dm' = ?dm" "e' = e2" using assms(4) t w h s(1,2) r(1) by (simp_all add: dm_AllocatePage_def)
  show "res = Inr ?p" "dm_page_count dm' = ?p + 1" "dm_path dm' = dm_path dm" using x by simp_all
  show "tape e' = []" using s(3) x(3) by simp
  show "disk_page dm e' q = disk_page dm e q" if "q \<noteq> kHeaderPageId" "q \<noteq> ?p"
    using s(5) that x(3) by (simp add: disk_page_def)
  show "dm_free dm' e' []"
    using f s(4) x up r(3) by (simp add: dm_free_def dm_ready_def word_less_nat_alt)
qed


section \<open>The contract of a page store\<close>

text \<open>What a client relies on, faults or not: \<open>stored\<close> is the contents of the readable pages without
  their checksum field. Reading changes no page and delivers the stored contents; writing changes one
  page at most, and stores it when it reports success.\<close>

locale page_store =
  fixes read_page :: "'d \<Rightarrow> page_id_t \<Rightarrow> Page option \<Rightarrow> 'e \<Rightarrow> status \<times> Page option \<times> 'e"
    and write_page :: "'d \<Rightarrow> page_id_t \<Rightarrow> Page \<Rightarrow> 'e \<Rightarrow> status \<times> 'e"
    and stored :: "'d \<Rightarrow> 'e \<Rightarrow> page_id_t \<Rightarrow> bytes option"
    and usable :: "'d \<Rightarrow> 'e \<Rightarrow> bool"
  assumes read_keeps: "usable d e \<Longrightarrow> read_page d p (Some page) e = (st, out, e') \<Longrightarrow>
      usable d e' \<and> stored d e' = stored d e"
    and read_delivers: "usable d e \<Longrightarrow> read_page d p (Some page) e = (None, out, e') \<Longrightarrow>
      \<exists>got. out = Some got \<and> length (pg_bytes got) = kPageSize \<and>
        (p \<noteq> kHeaderPageId \<longrightarrow> stored d e p = Some (drop 4 (pg_bytes got)))"
    and write_usable: "usable d e \<Longrightarrow> length (pg_bytes page) = kPageSize \<Longrightarrow>
      write_page d p page e = (st, e') \<Longrightarrow> usable d e'"
    and write_others: "usable d e \<Longrightarrow> length (pg_bytes page) = kPageSize \<Longrightarrow>
      write_page d p page e = (st, e') \<Longrightarrow> q \<noteq> p \<Longrightarrow> stored d e' q = stored d e q"
    and write_stores: "usable d e \<Longrightarrow> length (pg_bytes page) = kPageSize \<Longrightarrow>
      write_page d p page e = (None, e') \<Longrightarrow> p \<noteq> kHeaderPageId \<Longrightarrow> stored d e' p = Some (drop 4 (pg_bytes page))"
    and header_hidden: "stored d e kHeaderPageId = None"
begin

lemma write_updates:
  assumes "usable d e" "length (pg_bytes page) = kPageSize" "write_page d p page e = (None, e')" "p \<noteq> kHeaderPageId"
  shows "stored d e' = (stored d e)(p \<mapsto> drop 4 (pg_bytes page))"
  using write_others [OF assms(1-3)] write_stores [OF assms] by auto

lemma write_clean:
  assumes "usable d e" "length (pg_bytes page) = kPageSize" "write_page d p page e = (None, e')"
    and "p \<noteq> kHeaderPageId \<Longrightarrow> stored d e p = Some (drop 4 (pg_bytes page))"
  shows "stored d e' = stored d e"
proof (cases "p = kHeaderPageId")
  case True
  have "stored d e' q = stored d e q" for q
    using write_others [OF assms(1-3), of q] header_hidden True by (cases "q = p") simp_all
  then show ?thesis by blast
next
  case False
  from write_updates [OF assms(1-3) False] assms(4) [OF False] show ?thesis by auto
qed

end

definition disk_stored :: "DiskManager \<Rightarrow> env \<Rightarrow> page_id_t \<Rightarrow> bytes option" where
  "disk_stored dm e p =
     (if p \<noteq> kHeaderPageId \<and> EnsurePageLocked dm p = None \<and>
         LoadU32LE (disk_page dm e p) 0 = Crc32c (drop 4 (disk_page dm e p))
      then Some (drop 4 (disk_page dm e p)) else None)"

lemma overwrite_part:
  assumes "length bs = n * kPageSize" "unat p < n" "length data \<le> kPageSize"
  shows "length (overwrite (PageOffset p) data bs) = length bs"
    and "q \<noteq> p \<Longrightarrow> page_at (overwrite (PageOffset p) data bs) q = page_at bs q"
proof -
  let ?k = "kPageSize" and ?s = "overwrite (PageOffset p) data bs"
  have inside: "PageOffset p + ?k \<le> length bs" using page_at_whole(1) [OF assms(1,2)] .
  have s: "?s = take (PageOffset p) bs @ data @ drop (PageOffset p + length data) bs"
    using inside by (simp add: overwrite_def)
  then show "length ?s = length bs" using inside assms(3) by simp
  show "page_at ?s q = page_at bs q" if "q \<noteq> p"
  proof (cases "unat q < unat p")
    case True
    then have "PageOffset q + ?k \<le> PageOffset p"
      unfolding PageOffset_def using mult_le_mono1 [of "Suc (unat q)" "unat p" ?k] by (simp add: add.commute)
    then show ?thesis using inside by (simp add: page_at_def s drop_take)
  next
    case False
    with that have "unat p < unat q" by (metis linorder_neqE_nat word_unat_eq_iff)
    then have "PageOffset p + ?k \<le> PageOffset q"
      unfolding PageOffset_def using mult_le_mono1 [of "Suc (unat p)" "unat q" ?k] by (simp add: add.commute)
    then have "PageOffset p + length data \<le> PageOffset q" using assms(3) by simp
    then show ?thesis using inside by (simp add: page_at_def s)
  qed
qed

lemma contents_tape: "fs e' = fs e \<Longrightarrow> contents e' = contents e"
  by (simp add: contents_def fun_eq_iff)

lemma dm_read_at_keeps:
  "dm_read_at dm off e = (res, e') \<Longrightarrow> contents e' = contents e"
  by (auto simp: dm_read_at_def read_at_def contents_io_try split: if_splits prod.splits)

lemma dm_read_at_page:
  assumes "dm_read_at dm (PageOffset p) e = (Some bs, e')"
  shows "bs = disk_page dm e p \<and> length bs = kPageSize"
  using assms
  by (auto simp: dm_read_at_def read_at_def disk_page_def page_at_def contents_io_try split: if_splits prod.splits)

lemma disk_stored_cong: "contents e' = contents e \<Longrightarrow> disk_stored dm e' = disk_stored dm e \<and> dm_ready dm e' = dm_ready dm e"
  by (simp add: disk_stored_def disk_page_def dm_ready_def fun_eq_iff)

lemma dm_WritePage_keeps:
  assumes "dm_ready dm e" "length (pg_bytes page) = kPageSize" "dm_WritePage dm p page e = (st, e')"
  shows "dm_ready dm e'" "q \<noteq> p \<Longrightarrow> disk_page dm e' q = disk_page dm e q"
    "st = None \<Longrightarrow> EnsurePageLocked dm p = None \<and> disk_page dm e' p = page_image p (pg_bytes page)"
proof -
  let ?n = "unat (dm_page_count dm)" and ?path = "dm_path dm" and ?img = "page_image p (pg_bytes page)"
  have r: "dm_open dm" "length (contents e ?path) = ?n * kPageSize" using assms(1) by (simp_all add: dm_ready_def)
  have "dm_ready dm e' \<and> (q \<noteq> p \<longrightarrow> disk_page dm e' q = disk_page dm e q) \<and>
    (st = None \<longrightarrow> EnsurePageLocked dm p = None \<and> disk_page dm e' p = ?img)"
  proof (cases "EnsurePageLocked dm p")
    case (Some err)
    with assms(1,3) show ?thesis by (auto simp: dm_WritePage_def WritePageLocked_def)
  next
    case None
    then have p: "unat p < ?n" using EnsurePage_iff word_less_nat_alt by metis
    obtain io e1 where io: "next_io e = (io, e1)" by (metis prod.exhaust)
    define m where "m = (case io of IoOk _ \<Rightarrow> kPageSize | IoFail k _ \<Rightarrow> k)"
    have len: "length ?img = kPageSize" using assms(2) by simp
    have e': "e' = put_file ?path (overwrite (PageOffset p) (take m ?img) (contents e1 ?path)) e1"
      "st = None \<Longrightarrow> take m ?img = ?img"
      using assms(3) None io r(1) len
      by (auto simp: dm_WritePage_def WritePageLocked_def dm_write_at_def write_at_def m_def split: io_outcome.splits)
    have c: "contents e1 ?path = contents e ?path" using contents_next_io [OF io] by simp
    have tl: "length (take m ?img) \<le> kPageSize" using len by simp
    note o = overwrite_part [OF r(2) p tl]
    have "dm_ready dm e'" using assms(1) o(1) by (simp add: dm_ready_def e'(1) c)
    moreover have "q \<noteq> p \<longrightarrow> disk_page dm e' q = disk_page dm e q" using o(2) by (simp add: disk_page_def e'(1) c)
    moreover have "disk_page dm e' p = ?img" if "st = None"
      using e'(2) [OF that] page_at_overwrite [of p "contents e ?path" ?img p] len page_at_whole(1) [OF r(2) p]
      by (simp add: disk_page_def e'(1) c)
    ultimately show ?thesis using None by blast
  qed
  then show "dm_ready dm e'" "q \<noteq> p \<Longrightarrow> disk_page dm e' q = disk_page dm e q"
    "st = None \<Longrightarrow> EnsurePageLocked dm p = None \<and> disk_page dm e' p = ?img" by blast+
qed

lemma dm_ReadPage_cases:
  assumes "dm_ReadPage dm p (Some page) e = (st, out, e')"
  shows "contents e' = contents e \<and>
    (st = None \<longrightarrow> out = Some \<lparr>pg_id = p, pg_bytes = disk_page dm e p\<rparr> \<and> length (disk_page dm e p) = kPageSize \<and>
      (p \<noteq> kHeaderPageId \<longrightarrow> disk_stored dm e p = Some (drop 4 (disk_page dm e p))))"
proof (cases "EnsurePageLocked dm p")
  case None
  obtain res e1 where rd: "dm_read_at dm (PageOffset p) e = (res, e1)" by (metis prod.exhaust)
  then have "contents e1 = contents e" by (rule dm_read_at_keeps)
  moreover have "bs = disk_page dm e p \<and> length bs = kPageSize" if "res = Some bs" for bs
    using dm_read_at_page rd that by simp
  ultimately show ?thesis
    using assms None rd by (auto simp: dm_ReadPage_def disk_stored_def split: option.splits if_splits)
qed (use assms in \<open>auto simp: dm_ReadPage_def\<close>)

interpretation disk: page_store dm_ReadPage dm_WritePage disk_stored dm_ready
proof
  fix dm e p st out e' and page :: Page
  show "dm_ready dm e \<Longrightarrow> dm_ReadPage dm p (Some page) e = (st, out, e') \<Longrightarrow>
      dm_ready dm e' \<and> disk_stored dm e' = disk_stored dm e"
    using dm_ReadPage_cases disk_stored_cong by metis
  show "dm_ready dm e \<Longrightarrow> dm_ReadPage dm p (Some page) e = (None, out, e') \<Longrightarrow>
      \<exists>got. out = Some got \<and> length (pg_bytes got) = kPageSize \<and>
        (p \<noteq> kHeaderPageId \<longrightarrow> disk_stored dm e p = Some (drop 4 (pg_bytes got)))"
    using dm_ReadPage_cases [of dm p page e None out e'] by auto
next
  fix dm :: DiskManager and e e' :: env and p q :: page_id_t and st :: status and page :: Page
  assume a: "dm_ready dm e" "length (pg_bytes page) = kPageSize"
  show "dm_WritePage dm p page e = (st, e') \<Longrightarrow> dm_ready dm e'" by (rule dm_WritePage_keeps(1) [OF a])
  show "disk_stored dm e' q = disk_stored dm e q" if "dm_WritePage dm p page e = (st, e')" "q \<noteq> p"
    using dm_WritePage_keeps(2) [OF a that] by (simp add: disk_stored_def)
  show "disk_stored dm e' p = Some (drop 4 (pg_bytes page))"
    if "dm_WritePage dm p page e = (None, e')" "p \<noteq> kHeaderPageId"
    using dm_WritePage_keeps(3) [OF a that(1)] page_image_checks [OF a(2) that(2)] that(2)
    by (simp add: disk_stored_def)
next
  show "disk_stored dm e kHeaderPageId = None" for dm e by (simp add: disk_stored_def)
qed

section \<open>Properties\<close>

text \<open>A manager on a file with a header and two pages, of which the second is free.\<close>

definition sample_disk_env :: env where
  "sample_disk_env = \<lparr>fs = [''p'' \<mapsto> []], tape = [], errtext = []\<rparr>"

definition sample_disk :: "DiskManager \<times> env" where
  "sample_disk = snd (dm_Open new_DiskManager ''p'' True sample_disk_env)"

lemma sample_disk_free: "dm_free (fst sample_disk) (snd sample_disk) []" "tape (snd sample_disk) = []"
  "dm_page_count (fst sample_disk) = 1"
proof -
  let ?dm = "new_DiskManager\<lparr>dm_path := ''p'', dm_open := True, dm_page_count := 1\<rparr>"
  have t: "tape sample_disk_env = []" "contents sample_disk_env ''p'' = []"
    by (simp_all add: sample_disk_env_def contents_def)
  obtain st e' where h: "WriteHeaderLocked ?dm sample_disk_env = (st, e')" by (metis prod.exhaust)
  have e': "st = None" "e' = put_file ''p'' (overwrite (PageOffset 0) (header_bytes ?dm) []) sample_disk_env"
    using WriteHeader_faultless [OF t(1), of ?dm] h t(2) by simp_all
  have "length (overwrite (PageOffset 0) (header_bytes ?dm) []) = kPageSize"
    using length_overwrite [of "[]" 0 0 "header_bytes ?dm"] by simp
  then have "dm_ready ?dm e'" using e'(2) by (simp add: dm_ready_def new_DiskManager_def)
  moreover have sd: "sample_disk = (?dm, e')"
    using t h e'(1)
    by (simp add: sample_disk_def dm_Open_def dm_open_stream_def open_read_def sample_disk_env_def
        new_DiskManager_def Let_def)
  moreover have "dm_free_list_head ?dm = kInvalidPageId" "dm_page_count ?dm = 1"
    by (simp_all add: new_DiskManager_def)
  moreover have "tape e' = []" using e'(2) t(1) by simp
  ultimately show "dm_free (fst sample_disk) (snd sample_disk) []" "tape (snd sample_disk) = []"
    "dm_page_count (fst sample_disk) = 1"
    unfolding sd fst_conv snd_conv dm_free_def by simp_all
qed

text \<open>C33: the page allocator implements a stack of free pages. Without faults, allocation takes the
  page on top of the stack, or a new page behind the end when the stack is empty and page numbers last,
  and freeing a page that is in use pushes it; both leave the contents of every other page as they
  were.\<close>

theorem allocator_refines_stack:
  assumes "tape e = []" "dm_free dm e ps"
  shows "(case dm_AllocatePage dm e of (res, dm', e') \<Rightarrow>
      case ps of
        p # rest \<Rightarrow> res = Inr p \<and> dm_free dm' e' rest \<and> dm_page_count dm' = dm_page_count dm \<and>
          (\<forall>q. q \<noteq> kHeaderPageId \<and> q \<noteq> p \<longrightarrow> disk_page dm e' q = disk_page dm e q)
      | [] \<Rightarrow> dm_page_count dm < kInvalidPageId \<longrightarrow>
          res = Inr (dm_page_count dm) \<and> dm_free dm' e' [] \<and> dm_page_count dm' = dm_page_count dm + 1 \<and>
          (\<forall>q. q \<noteq> kHeaderPageId \<and> q < dm_page_count dm \<longrightarrow> disk_page dm e' q = disk_page dm e q)) \<and>
    (p \<noteq> kHeaderPageId \<and> p \<noteq> kInvalidPageId \<and> p < dm_page_count dm \<and> p \<notin> set ps \<longrightarrow>
      (case dm_FreePage dm p e of (st, dm', e') \<Rightarrow>
        st = None \<and> dm_free dm' e' (p # ps) \<and>
        (\<forall>q. q \<noteq> kHeaderPageId \<and> q \<noteq> p \<longrightarrow> disk_page dm e' q = disk_page dm e q)))"
proof -
  have ready: "dm_ready dm e" using assms(2) by (simp add: dm_free_def)
  obtain res dm1 e1 where a: "dm_AllocatePage dm e = (res, dm1, e1)" by (metis prod_cases3)
  obtain st dm2 e2 where f: "dm_FreePage dm p e = (st, dm2, e2)" by (metis prod_cases3)
  have alloc: "case ps of
        p # rest \<Rightarrow> res = Inr p \<and> dm_free dm1 e1 rest \<and> dm_page_count dm1 = dm_page_count dm \<and>
          (\<forall>q. q \<noteq> kHeaderPageId \<and> q \<noteq> p \<longrightarrow> disk_page dm e1 q = disk_page dm e q)
      | [] \<Rightarrow> dm_page_count dm < kInvalidPageId \<longrightarrow>
          res = Inr (dm_page_count dm) \<and> dm_free dm1 e1 [] \<and> dm_page_count dm1 = dm_page_count dm + 1 \<and>
          (\<forall>q. q \<noteq> kHeaderPageId \<and> q < dm_page_count dm \<longrightarrow> disk_page dm e1 q = disk_page dm e q)"
  proof (cases ps)
    case Nil
    then show ?thesis using dm_Allocate_extend [OF assms(1) _ _ a] assms(2) by auto
  next
    case (Cons q rest)
    then have "dm_free_list_head dm = q" "q \<noteq> kInvalidPageId" "q \<noteq> kHeaderPageId" "q < dm_page_count dm"
      using assms(2) by (auto simp: dm_free_def)
    with Cons show ?thesis
      using dm_Allocate_head [OF assms(1) ready _ _ _ _ a] dm_Allocate_reuse [OF assms(1) _ a] assms(2) by simp
  qed
  have "st = None \<and> dm_free dm2 e2 (p # ps) \<and>
      (\<forall>q. q \<noteq> kHeaderPageId \<and> q \<noteq> p \<longrightarrow> disk_page dm e2 q = disk_page dm e q)"
    if "p \<noteq> kHeaderPageId" "p \<noteq> kInvalidPageId" "p < dm_page_count dm" "p \<notin> set ps"
    using dm_Free_outcome(1,5,6) [OF assms(1) ready that(1-3) f] assms(2) that(4) by simp
  with alloc show ?thesis by (simp add: a f)
qed

theorem allocator_refines_stack_witness:
  "\<exists>dm e. dm_AllocatePage (fst sample_disk) (snd sample_disk) = (Inr 1, dm, e) \<and> dm_free dm e []"
proof -
  obtain res dm e where a: "dm_AllocatePage (fst sample_disk) (snd sample_disk) = (res, dm, e)" by (metis prod_cases3)
  from allocator_refines_stack [OF sample_disk_free(2,1), of 0] show ?thesis
    by (simp add: a sample_disk_free(3) kInvalidPageId_def)
qed

text \<open>a page written is read back. Without faults, a page within the file reads afterwards as it was
  written, but for its first four bytes, which hold the checksum; and every other page keeps its
  contents.\<close>

theorem page_write_read:
  assumes "tape e = []" "dm_ready dm e" "p \<noteq> kHeaderPageId" "p \<noteq> kInvalidPageId" "p < dm_page_count dm"
    and "length (pg_bytes page) = kPageSize"
  shows "\<exists>e' bs. dm_WritePage dm p page e = (None, e') \<and> tape e' = [] \<and> dm_ready dm e' \<and>
    dm_ReadPage dm p (Some anything) e' = (None, Some \<lparr>pg_id = p, pg_bytes = bs\<rparr>, e') \<and>
    drop 4 bs = drop 4 (pg_bytes page) \<and> length bs = kPageSize \<and>
    (\<forall>q. q \<noteq> p \<longrightarrow> disk_page dm e' q = disk_page dm e q)"
proof -
  let ?n = "unat (dm_page_count dm)" and ?img = "page_image p (pg_bytes page)"
  let ?e = "put_file (dm_path dm) (overwrite (PageOffset p) ?img (contents e (dm_path dm))) e"
  have r: "dm_open dm" "length (contents e (dm_path dm)) = ?n * kPageSize" "unat p < ?n"
    using assms(2,5) by (auto simp: dm_ready_def word_less_nat_alt)
  have len: "length ?img = kPageSize" using assms(6) by simp
  note put = put_page [OF r(2) less_imp_le [OF r(3)] len refl]
  have pages: "disk_page dm ?e q = (if q = p then ?img else disk_page dm e q)" for q
    using put(1) by (simp add: disk_page_def)
  have ready: "dm_ready dm ?e" using assms(2) put(2) r(3) by (simp add: dm_ready_def)
  have t: "tape ?e = []" using assms(1) by simp
  have "dm_ReadPage dm p (Some anything) ?e = (None, Some \<lparr>pg_id = p, pg_bytes = ?img\<rparr>, ?e)"
    using ReadPage_faultless [OF t ready assms(4,5,3)] page_image_checks(1) [OF assms(6,3)] pages by simp
  moreover have "dm_WritePage dm p page e = (None, ?e)"
    by (simp add: dm_WritePage_def WritePage_faultless [OF assms(1) r(1) assms(4,5)])
  moreover have "\<forall>q. q \<noteq> p \<longrightarrow> disk_page dm ?e q = disk_page dm e q" using pages by simp
  ultimately show ?thesis using t ready page_image_checks(2) [OF assms(6,3)] len by blast
qed

theorem page_write_read_witness:
  "\<exists>dm e e'. dm_AllocatePage (fst sample_disk) (snd sample_disk) = (Inr 1, dm, e) \<and>
     dm_WritePage dm 1 (new_Page 1) e = (None, e')"
proof -
  obtain res dm e where a: "dm_AllocatePage (fst sample_disk) (snd sample_disk) = (res, dm, e)" by (metis prod_cases3)
  have lt: "dm_page_count (fst sample_disk) < kInvalidPageId" by (simp add: sample_disk_free(3) kInvalidPageId_def)
  note x = dm_Allocate_extend [OF sample_disk_free(2,1) lt a]
  have "\<exists>e' bs. dm_WritePage dm 1 (new_Page 1) e = (None, e') \<and> tape e' = [] \<and> dm_ready dm e' \<and>
    dm_ReadPage dm 1 (Some (new_Page 1)) e' = (None, Some \<lparr>pg_id = 1, pg_bytes = bs\<rparr>, e') \<and>
    drop 4 bs = drop 4 (pg_bytes (new_Page 1)) \<and> length bs = kPageSize \<and>
    (\<forall>q. q \<noteq> 1 \<longrightarrow> disk_page dm e' q = disk_page dm e q)"
    using x sample_disk_free(3)
    by (intro page_write_read) (simp_all add: dm_free_def kHeaderPageId_def kInvalidPageId_def new_Page_def)
  with a x(1) sample_disk_free(3) show ?thesis by auto
qed

lemma LoadU32LE_le_load: "4 \<le> length bs \<Longrightarrow> LoadU32LE bs 0 = le_load (take 4 bs)"
  by (rule bit_word_eqI)
    (auto simp: LoadU32LE_def numeral_eq_Suc less_Suc_eq_le Suc_le_length_iff)

lemma LoadU32LE_inj:
  assumes "4 \<le> length bs" "4 \<le> length cs" "LoadU32LE bs 0 = LoadU32LE cs 0"
  shows "take 4 bs = take 4 cs"
  using assms le_load_inj [of "take 4 bs" "take 4 cs", where 'a = 32] by (simp add: LoadU32LE_le_load)

text \<open>damage to a stored page is noticed. When up to four consecutive bytes of a page that carries
  a valid checksum change, be it in its contents or in the checksum, reading the page reports
  corruption and leaves the caller's page alone.\<close>

theorem page_damage_detected:
  assumes "tape e = []" "dm_ready dm e" "p \<noteq> kHeaderPageId" "p \<noteq> kInvalidPageId" "p < dm_page_count dm"
    and "length good = kPageSize" "LoadU32LE good 0 = Crc32c (drop 4 good)"
    and "good = pre @ old @ post" "disk_page dm e p = pre @ new @ post"
    and "length new = length old" "length old \<le> 4" "new \<noteq> old" "length pre + length old \<le> 4 \<or> 4 \<le> length pre"
  shows "dm_ReadPage dm p (Some page) e = (Some (Corruption ''page checksum mismatch''), Some page, e)"
proof -
  let ?bad = "pre @ new @ post"
  have "LoadU32LE ?bad 0 \<noteq> Crc32c (drop 4 ?bad)"
  proof (cases "4 \<le> length pre")
    case True
    then have "take 4 ?bad = take 4 good" using assms(8) by simp
    then have "LoadU32LE ?bad 0 = LoadU32LE good 0"
      by (intro u32le.load_local) (metis add_0 nth_take)
    moreover have "Crc32c (drop 4 ?bad) \<noteq> Crc32c (drop 4 good)"
      using True assms(8,10-12) Crc32c_burst [of new old "drop 4 pre" post] by auto
    ultimately show ?thesis using assms(7) by simp
  next
    case False
    then have "length pre + length old \<le> 4" using assms(13) by simp
    then have "drop 4 ?bad = drop 4 good" using assms(8,10) by simp
    moreover have "take 4 ?bad \<noteq> take 4 good" using assms(8,10,12) \<open>length pre + length old \<le> 4\<close> by auto
    then have "LoadU32LE ?bad 0 \<noteq> LoadU32LE good 0"
      using LoadU32LE_inj [of ?bad good] assms(6,8,10) by (auto simp: page_size_num)
    ultimately show ?thesis using assms(7) by simp
  qed
  then show ?thesis using ReadPage_faultless [OF assms(1,2,4,5,3)] assms(9) by simp
qed

lemma sample_disk_page:
  "\<exists>dm e. dm_AllocatePage (fst sample_disk) (snd sample_disk) = (Inr 1, dm, e) \<and> tape e = [] \<and> dm_free dm e [] \<and>
    dm_page_count dm = 2"
proof -
  obtain res dm e where a: "dm_AllocatePage (fst sample_disk) (snd sample_disk) = (res, dm, e)" by (metis prod_cases3)
  have lt: "dm_page_count (fst sample_disk) < kInvalidPageId" by (simp add: sample_disk_free(3) kInvalidPageId_def)
  from dm_Allocate_extend [OF sample_disk_free(2,1) lt a] a show ?thesis by (simp add: sample_disk_free(3))
qed

theorem page_damage_detected_witness:
  "\<exists>dm e page. dm_ReadPage dm 1 (Some page) e = (Some (Corruption ''page checksum mismatch''), Some page, e)"
proof -
  obtain dm e where a: "tape e = []" "dm_free dm e []" "dm_page_count dm = 2" using sample_disk_page by blast
  let ?good = "page_image 1 (pg_bytes (new_Page 1))"
  let ?bad = "take 100 ?good @ [?good ! 100 + 1] @ drop 101 ?good"
  let ?e = "put_file (dm_path dm) (overwrite (PageOffset 1) ?bad (contents e (dm_path dm))) e"
  have n: "length (contents e (dm_path dm)) = 2 * kPageSize" "dm_ready dm e"
    using a(2,3) by (simp_all add: dm_free_def dm_ready_def)
  have good: "length ?good = kPageSize" by (simp add: new_Page_def)
  then have bad: "length ?bad = kPageSize" by (simp add: page_size_num)
  have one: "unat (1 :: page_id_t) \<le> 2" "(1 :: page_id_t) \<noteq> kHeaderPageId" "(1 :: page_id_t) \<noteq> kInvalidPageId"
    by (simp_all add: kHeaderPageId_def kInvalidPageId_def)
  note put = put_page [OF n(1) one(1) bad refl]
  have ready: "dm_ready dm ?e" using n(2) put(2) a(3) by (simp add: dm_ready_def)
  have check: "LoadU32LE ?good 0 = Crc32c (drop 4 ?good)"
    by (rule page_image_checks(1)) (simp_all add: new_Page_def kHeaderPageId_def)
  have split: "?good = take 100 ?good @ [?good ! 100] @ drop 101 ?good"
    using good id_take_nth_drop [of 100 ?good] by (simp add: page_size_num)
  have "dm_ReadPage dm 1 (Some (new_Page 1)) ?e =
      (Some (Corruption ''page checksum mismatch''), Some (new_Page 1), ?e)"
  proof (rule page_damage_detected [OF _ ready one(2,3) _ good check split])
    show "disk_page dm ?e 1 = ?bad" using put(1) by (simp add: disk_page_def)
    show "length (take 100 ?good) + length [?good ! 100] \<le> 4 \<or> 4 \<le> length (take 100 ?good)"
      using good by (simp add: page_size_num)
  qed (use a in simp_all)
  then show ?thesis by blast
qed

text \<open>C34: a manager that is closed and opened again is the same manager. Without faults, closing writes
  the header, and opening the file with a new object restores every field the header holds: the page
  count, the free list, the counters and the catalog roots.\<close>

theorem reopen_restores_manager:
  assumes "tape e = []" "dm_free dm e ps"
  shows "\<exists>e'. dm_Close dm e = (None, dm\<lparr>dm_open := False\<rparr>, e') \<and>
    dm_Open new_DiskManager (dm_path dm) create e' = (None, dm, e') \<and> dm_free dm e' ps"
proof -
  have ready: "dm_ready dm e" "dm_open dm" using assms(2) by (simp_all add: dm_free_def dm_ready_def)
  obtain st e' where w: "WriteHeaderLocked dm e = (st, e')" by (metis prod.exhaust)
  let ?new = "new_DiskManager\<lparr>dm_path := dm_path dm, dm_open := True\<rparr>"
  have "dm_path ?new = dm_path dm" "dm_open ?new" by simp_all
  note s = ReadHeader_after_WriteHeader [OF assms(1) ready(1) w this]
  let ?n = "length (contents e' (dm_path dm))"
  have "?n = unat (dm_page_count dm) * kPageSize" "0 < unat (dm_page_count dm)"
    using s(2) by (simp_all add: dm_ready_def word_less_nat_alt)
  then have n: "?n \<noteq> 0" "\<not> ?n < kPageSize" "?n mod kPageSize = 0" by simp_all
  have "fs e' (dm_path dm) \<noteq> None" using n(1) by (cases "fs e' (dm_path dm)") (simp_all add: contents_def)
  then have os: "dm_open_stream (dm_path dm) create e' = (None, e')"
    using s(3) by (simp add: dm_open_stream_def open_read_def)
  have "dm_Open new_DiskManager (dm_path dm) create e' = ReadHeaderLocked ?new e'"
    unfolding dm_Open_def os using s(3) n by (simp add: Let_def) (simp add: new_DiskManager_def)
  then have "dm_Open new_DiskManager (dm_path dm) create e' = (None, dm, e')" using s(1) by simp
  moreover have "dm_Close dm e = (None, dm\<lparr>dm_open := False\<rparr>, e')"
    using ready(2) w s(4) by (simp add: dm_Close_def)
  moreover have free: "free_chain (disk_page dm e) (dm_free_list_head dm) ps" "distinct ps"
      "list_all (\<lambda>p. p \<noteq> kHeaderPageId \<and> p < dm_page_count dm) ps"
    using assms(2) by (simp_all add: dm_free_def)
  then have "free_chain (disk_page dm e') (dm_free_list_head dm) ps"
    by (intro free_chain_cong [OF free(1)]) (auto simp: list_all_iff kHeaderPageId_def s(5))
  then have "dm_free dm e' ps" using s(2) free(2,3) by (simp add: dm_free_def)
  ultimately show ?thesis by blast
qed

theorem reopen_restores_manager_witness:
  "\<exists>dm e dm' e'. dm_Close (fst sample_disk) (snd sample_disk) = (None, dm, e) \<and>
     dm_Open new_DiskManager (dm_path (fst sample_disk)) False e = (None, dm', e') \<and> dm_page_count dm' = 1"
  using reopen_restores_manager [OF sample_disk_free(2,1), of False] sample_disk_free(3) by blast

text \<open>opening a file that is no TupleStone database destroys its start. A file of the right size
  with another magic number is refused, but the stream stays open, and the destructor of the manager
  then writes a fresh header over the first page.\<close>

theorem refused_file_is_overwritten:
  assumes "tape e = []" "fs e path = Some bs" "length bs = Suc n * kPageSize" "take 8 bs \<noteq> kMagic"
  shows "\<exists>dm e'. dm_Open new_DiskManager path create e = (Some (Incompatible ''not a tuplestone database''), dm, e') \<and>
    (\<exists>bs'. fs (dm_drop dm e') path = Some bs' \<and> take 8 bs' = kMagic)"
proof -
  let ?dm = "new_DiskManager\<lparr>dm_path := path, dm_open := True\<rparr>"
  have c: "contents e path = bs" using assms(2) by (simp add: contents_def)
  have len: "length bs \<noteq> 0" "\<not> length bs < kPageSize" "length bs mod kPageSize = 0"
    using assms(3) by (auto simp: page_size_num)
  have rd: "dm_read_at ?dm 0 e = (Some (take kPageSize bs), e)"
    using len assms(1) c by (simp add: dm_read_at_def read_at_def)
  have "take 8 (take kPageSize bs) \<noteq> kMagic" using assms(4) by (simp add: page_size_num)
  with rd have "ReadHeaderLocked ?dm e = (Some (Incompatible ''not a tuplestone database''), ?dm, e)"
    by (simp add: ReadHeaderLocked_def)
  then have o: "dm_Open new_DiskManager path create e = (Some (Incompatible ''not a tuplestone database''), ?dm, e)"
    using assms(1,2) len c by (simp add: dm_Open_def dm_open_stream_def open_read_def new_DiskManager_def Let_def)
  obtain st e1 where w: "WriteHeaderLocked ?dm e = (st, e1)" by (metis prod.exhaust)
  then have e1: "e1 = put_file path (overwrite (PageOffset 0) (header_bytes ?dm) bs) e"
    using WriteHeader_faultless [OF assms(1), of ?dm] c by simp
  have "dm_drop ?dm e = e1" using w by (simp add: dm_drop_def dm_Close_def)
  moreover have "take 8 (overwrite (PageOffset 0) (header_bytes ?dm) bs) = kMagic"
    using header_checks(1) [of ?dm] nonempty_page [of "header_bytes ?dm"]
    by (simp add: overwrite_inside PageOffset_0 page_size_num)
  ultimately show ?thesis using o e1 by auto
qed

theorem refused_file_is_overwritten_witness:
  "\<exists>dm e'. dm_Open new_DiskManager ''x'' True (sample_disk_env\<lparr>fs := [''x'' \<mapsto> replicate kPageSize 7]\<rparr>) =
      (Some (Incompatible ''not a tuplestone database''), dm, e') \<and>
    (\<exists>bs'. fs (dm_drop dm e') ''x'' = Some bs' \<and> take 8 bs' = kMagic)"
proof -
  have "take 8 (replicate kPageSize (7 :: byte)) ! 0 \<noteq> kMagic ! 0"
    by (simp add: page_size_num kMagic_def byte_of_char_def)
  then have magic: "take 8 (replicate kPageSize (7 :: byte)) \<noteq> kMagic" by metis
  show ?thesis
    by (rule refused_file_is_overwritten [OF _ _ _ magic, where n = 0]) (simp_all add: sample_disk_env_def)
qed

text \<open>a page freed twice is handed out twice. Freeing a page does not check that it is in use; after
  two calls for the same page the free list is a loop through that page, and the next two allocations
  both return it.\<close>

theorem double_free_allocates_twice:
  assumes "tape e = []" "dm_ready dm e" "p \<noteq> kHeaderPageId" "p \<noteq> kInvalidPageId" "p < dm_page_count dm"
  shows "\<exists>dm1 e1 dm2 e2 dm3 e3 dm4 e4.
    dm_FreePage dm p e = (None, dm1, e1) \<and> dm_FreePage dm1 p e1 = (None, dm2, e2) \<and>
    dm_AllocatePage dm2 e2 = (Inr p, dm3, e3) \<and> dm_AllocatePage dm3 e3 = (Inr p, dm4, e4)"
proof -
  obtain st1 dm1 e1 where f1: "dm_FreePage dm p e = (st1, dm1, e1)" by (metis prod_cases3)
  note s1 = dm_Free_outcome [OF assms f1]
  have p1: "p < dm_page_count dm1" using assms(5) s1(3) by simp
  obtain st2 dm2 e2 where f2: "dm_FreePage dm1 p e1 = (st2, dm2, e2)" by (metis prod_cases3)
  note s2 = dm_Free_outcome [OF s1(2,4) assms(3,4) p1 f2]
  have h2: "dm_free_list_head dm2 = p" "p < dm_page_count dm2" using s2(3) p1 by simp_all
  obtain r3 dm3 e3 where a3: "dm_AllocatePage dm2 e2 = (r3, dm3, e3)" by (metis prod_cases3)
  note s3 = dm_Allocate_head [OF s2(2,4) h2(1) assms(4,3) h2(2) a3]
  have "disk_page dm2 e2 p = page_image p (pg_bytes (free_page p p))"
    using s2(5) [OF assms(3)] s1(3) s2(3) by simp
  then have h3: "dm_free_list_head dm3 = p" "p < dm_page_count dm3"
    using s3(4,8) free_page_link [OF assms(3)] h2(2) by simp_all
  obtain r4 dm4 e4 where a4: "dm_AllocatePage dm3 e3 = (r4, dm4, e4)" by (metis prod_cases3)
  note s4 = dm_Allocate_head [OF s3(2,3) h3(1) assms(4,3) h3(2) a4]
  show ?thesis using f1 f2 a3 a4 s1(1) s2(1) s3(1) s4(1) by blast
qed

theorem double_free_allocates_twice_witness:
  "\<exists>dm e dm' e'. dm_AllocatePage dm e = (Inr 1, dm', e') \<and> (\<exists>dm'' e''. dm_AllocatePage dm' e' = (Inr 1, dm'', e''))"
proof -
  obtain dm e where a: "tape e = []" "dm_free dm e []" "dm_page_count dm = 2" using sample_disk_page by blast
  have "\<exists>dm1 e1 dm2 e2 dm3 e3 dm4 e4.
    dm_FreePage dm 1 e = (None, dm1, e1) \<and> dm_FreePage dm1 1 e1 = (None, dm2, e2) \<and>
    dm_AllocatePage dm2 e2 = (Inr 1, dm3, e3) \<and> dm_AllocatePage dm3 e3 = (Inr 1, dm4, e4)"
    using a by (intro double_free_allocates_twice) (simp_all add: dm_free_def kHeaderPageId_def kInvalidPageId_def)
  then show ?thesis by blast
qed

end
