(* ===== verification/Buffer_Pool.thy ===== *)
theory Buffer_Pool
  imports Disk_Manager "HOL-Library.Multiset"
begin

text \<open>
  The buffer pool of \<^verbatim>\<open>src/buffer/buffer_pool_manager.cpp\<close>: frames that cache pages of the disk manager,
  the page table, and the guards that pin pages. The pool owns the state of the disk manager it points
  to; the pointer may be null, and a call through the null pointer is the result \<open>None\<close> of the
  operations that do not check it. A guard holds the index of its frame for the pointer to its page.
\<close>

section \<open>Frames, the pool and guards\<close>

record Frame =
  fr_page :: Page
  fr_pin_count :: nat
  fr_dirty :: bool
  fr_age :: u64

record BufferPool =
  bp_disk :: "DiskManager option"
  bp_frames :: "Frame list"
  bp_table :: "page_id_t \<Rightarrow> nat option"
  bp_clock :: u64

record PageGuard =
  gd_manager :: bool
  gd_page_id :: page_id_t
  gd_page :: "nat option"
  gd_writable :: bool

definition new_Frame :: Frame where
  "new_Frame = \<lparr>fr_page = new_Page kInvalidPageId, fr_pin_count = 0, fr_dirty = False, fr_age = 0\<rparr>"

definition new_BufferPool :: "nat \<Rightarrow> DiskManager option \<Rightarrow> BufferPool" where
  "new_BufferPool pool_size disk =
     \<lparr>bp_disk = disk, bp_frames = replicate pool_size new_Frame, bp_table = (\<lambda>_. None), bp_clock = 0\<rparr>"

definition no_guard :: PageGuard where
  "no_guard = \<lparr>gd_manager = False, gd_page_id = kInvalidPageId, gd_page = None, gd_writable = False\<rparr>"

definition new_guard :: "page_id_t \<Rightarrow> nat \<Rightarrow> bool \<Rightarrow> PageGuard" where
  "new_guard p i writable = \<lparr>gd_manager = True, gd_page_id = p, gd_page = Some i, gd_writable = writable\<rparr>"

definition gd_valid :: "PageGuard \<Rightarrow> bool" where
  "gd_valid g \<longleftrightarrow> gd_page g \<noteq> None"

definition set_frame :: "nat \<Rightarrow> Frame \<Rightarrow> BufferPool \<Rightarrow> BufferPool" where
  "set_frame i f pool = pool\<lparr>bp_frames := (bp_frames pool)[i := f]\<rparr>"

section \<open>The victim\<close>

fun oldest_frame :: "nat \<Rightarrow> Frame list \<Rightarrow> nat \<times> u64 \<Rightarrow> nat \<times> u64" where
  "oldest_frame i [] acc = acc"
| "oldest_frame i (f # rest) (victim, oldest) =
     oldest_frame (Suc i) rest
       (if fr_pin_count f = 0 \<and> pg_id (fr_page f) \<noteq> kInvalidPageId \<and> fr_age f < oldest then (i, fr_age f)
        else (victim, oldest))"

fun first_unpinned :: "nat \<Rightarrow> Frame list \<Rightarrow> nat option" where
  "first_unpinned i [] = None"
| "first_unpinned i (f # rest) = (if fr_pin_count f = 0 then Some i else first_unpinned (Suc i) rest)"

definition VictimLocked :: "BufferPool \<Rightarrow> nat option" where
  "VictimLocked pool =
     (let n = length (bp_frames pool); victim = fst (oldest_frame 0 (bp_frames pool) (n, 0xFFFFFFFFFFFFFFFF)) in
      if victim = n then first_unpinned 0 (bp_frames pool) else Some victim)"

section \<open>Fetching\<close>

text \<open>The frame is emptied: a dirty page is written back first, and stays when that fails.\<close>

definition evict_frame :: "nat \<Rightarrow> DiskManager \<Rightarrow> BufferPool \<Rightarrow> env \<Rightarrow> status \<times> BufferPool \<times> env" where
  "evict_frame i dm pool e =
     (let f = bp_frames pool ! i; p = pg_id (fr_page f); empty = f\<lparr>fr_page := Page_Reset (fr_page f)\<rparr> in
      if p = kInvalidPageId then (None, set_frame i empty pool, e)
      else
        (case if fr_dirty f then dm_WritePage dm p (fr_page f) e else (None, e) of
           (Some err, e1) \<Rightarrow> (Some err, pool, e1)
         | (None, e1) \<Rightarrow> (None, set_frame i empty (pool\<lparr>bp_table := (bp_table pool)(p := None)\<rparr>), e1)))"

text \<open>The page is read into the empty frame; a failed read leaves it empty.\<close>

definition load_frame ::
  "nat \<Rightarrow> page_id_t \<Rightarrow> bool \<Rightarrow> DiskManager \<Rightarrow> BufferPool \<Rightarrow> env \<Rightarrow> PageGuard status_or \<times> BufferPool \<times> env" where
  "load_frame i p writable dm pool e =
     (let f = bp_frames pool ! i in
      case dm_ReadPage dm p (Some (fr_page f)) e of
        (Some err, _, e1) \<Rightarrow> (Inl err, pool, e1)
      | (None, None, e1) \<Rightarrow> (Inl (InvalidArgument ''page output is null''), pool, e1)
      | (None, Some page, e1) \<Rightarrow>
          (Inr (new_guard p i writable),
           set_frame i \<lparr>fr_page = page\<lparr>pg_id := p\<rparr>, fr_pin_count = 1, fr_dirty = False, fr_age = bp_clock pool + 1\<rparr>
             (pool\<lparr>bp_table := (bp_table pool)(p \<mapsto> i), bp_clock := bp_clock pool + 1\<rparr>), e1))"

definition pin_frame :: "nat \<Rightarrow> BufferPool \<Rightarrow> BufferPool" where
  "pin_frame i pool =
     (let f = bp_frames pool ! i in
      set_frame i (f\<lparr>fr_pin_count := fr_pin_count f + 1, fr_age := bp_clock pool + 1\<rparr>)
        (pool\<lparr>bp_clock := bp_clock pool + 1\<rparr>))"

definition bp_FetchPage ::
  "BufferPool \<Rightarrow> page_id_t \<Rightarrow> bool \<Rightarrow> env \<Rightarrow> PageGuard status_or \<times> BufferPool \<times> env" where
  "bp_FetchPage pool p writable e =
     (case bp_disk pool of
        None \<Rightarrow> (Inl (InvalidArgument ''buffer pool has no disk manager''), pool, e)
      | Some dm \<Rightarrow>
          (case bp_table pool p of
             Some i \<Rightarrow> (Inr (new_guard p i writable), pin_frame i pool, e)
           | None \<Rightarrow>
               (case VictimLocked pool of
                  None \<Rightarrow> (Inl (OutOfMemory ''all buffer pages are pinned''), pool, e)
                | Some i \<Rightarrow>
                    (case evict_frame i dm pool e of
                       (Some err, pool1, e1) \<Rightarrow> (Inl err, pool1, e1)
                     | (None, pool1, e1) \<Rightarrow> load_frame i p writable dm pool1 e1))))"

text \<open>\<open>out\<close> is the caller's identifier, \<open>None\<close> for the null pointer.\<close>

definition bp_NewPage ::
  "BufferPool \<Rightarrow> page_id_t option \<Rightarrow> env \<Rightarrow> PageGuard status_or \<times> page_id_t option \<times> BufferPool \<times> env" where
  "bp_NewPage pool out e =
     (case (out, bp_disk pool) of
        (Some _, Some dm) \<Rightarrow>
          (case dm_AllocatePage dm e of
             (Inl err, dm1, e1) \<Rightarrow> (Inl err, out, pool\<lparr>bp_disk := Some dm1\<rparr>, e1)
           | (Inr p, dm1, e1) \<Rightarrow>
               (case bp_FetchPage (pool\<lparr>bp_disk := Some dm1\<rparr>) p True e1 of
                  (Inl err, pool2, e2) \<Rightarrow>
                    (case dm_FreePage dm1 p e2 of (_, dm3, e3) \<Rightarrow>
                       (Inl err, out, pool2\<lparr>bp_disk := Some dm3\<rparr>, e3))
                | (Inr g, pool2, e2) \<Rightarrow> (Inr g, Some p, pool2, e2)))
      | _ \<Rightarrow> (Inl (InvalidArgument ''invalid new-page request''), out, pool, e))"

section \<open>Releasing, flushing and deleting\<close>

definition bp_Release :: "BufferPool \<Rightarrow> page_id_t \<Rightarrow> bool \<Rightarrow> BufferPool" where
  "bp_Release pool p dirty =
     (case bp_table pool p of
        None \<Rightarrow> pool
      | Some i \<Rightarrow>
          (let f = bp_frames pool ! i in
           set_frame i (f\<lparr>fr_pin_count := (if fr_pin_count f > 0 then fr_pin_count f - 1 else fr_pin_count f),
             fr_dirty := fr_dirty f \<or> dirty\<rparr>) pool))"

definition bp_UnpinPage :: "BufferPool \<Rightarrow> page_id_t \<Rightarrow> bool \<Rightarrow> status \<times> BufferPool" where
  "bp_UnpinPage pool p dirty = (None, bp_Release pool p dirty)"

definition gd_Drop :: "PageGuard \<Rightarrow> BufferPool \<Rightarrow> PageGuard \<times> BufferPool" where
  "gd_Drop g pool =
     (g\<lparr>gd_manager := False, gd_page := None, gd_page_id := kInvalidPageId\<rparr>,
      if gd_manager g \<and> gd_page g \<noteq> None then bp_Release pool (gd_page_id g) (gd_writable g) else pool)"

text \<open>Move assignment between two different guards: the target, the emptied source and the pool.\<close>

definition gd_assign :: "PageGuard \<Rightarrow> PageGuard \<Rightarrow> BufferPool \<Rightarrow> PageGuard \<times> PageGuard \<times> BufferPool" where
  "gd_assign g other pool =
     (\<lparr>gd_manager = gd_manager other, gd_page_id = gd_page_id other, gd_page = gd_page other,
       gd_writable = gd_writable other\<rparr>,
      other\<lparr>gd_manager := False, gd_page := None, gd_page_id := kInvalidPageId\<rparr>,
      snd (gd_Drop g pool))"

text \<open>The owner of a guard writes the bytes of its page.\<close>

definition gd_bytes :: "PageGuard \<Rightarrow> BufferPool \<Rightarrow> bytes" where
  "gd_bytes g pool = (case gd_page g of None \<Rightarrow> [] | Some i \<Rightarrow> pg_bytes (fr_page (bp_frames pool ! i)))"

definition gd_write :: "PageGuard \<Rightarrow> bytes \<Rightarrow> BufferPool \<Rightarrow> BufferPool" where
  "gd_write g bs pool =
     (case gd_page g of
        None \<Rightarrow> pool
      | Some i \<Rightarrow>
          (let f = bp_frames pool ! i in set_frame i (f\<lparr>fr_page := (fr_page f)\<lparr>pg_bytes := bs\<rparr>\<rparr>) pool))"

definition bp_FlushPage :: "BufferPool \<Rightarrow> page_id_t \<Rightarrow> env \<Rightarrow> (status \<times> BufferPool \<times> env) option" where
  "bp_FlushPage pool p e =
     (case bp_table pool p of
        None \<Rightarrow> Some (Some (NotFound ''page is not cached''), pool, e)
      | Some i \<Rightarrow>
          (case bp_disk pool of
             None \<Rightarrow> None
           | Some dm \<Rightarrow>
               (let f = bp_frames pool ! i in
                case dm_WritePage dm p (fr_page f) e of
                  (Some err, e1) \<Rightarrow> Some (Some err, pool, e1)
                | (None, e1) \<Rightarrow> Some (None, set_frame i (f\<lparr>fr_dirty := False\<rparr>) pool, e1))))"

fun flush_frames :: "nat list \<Rightarrow> BufferPool \<Rightarrow> env \<Rightarrow> (status \<times> BufferPool \<times> env) option" where
  "flush_frames [] pool e = Some (None, pool, e)"
| "flush_frames (i # is) pool e =
     (let f = bp_frames pool ! i in
      if pg_id (fr_page f) \<noteq> kInvalidPageId \<and> fr_dirty f then
        (case bp_disk pool of
           None \<Rightarrow> None
         | Some dm \<Rightarrow>
             (case dm_WritePage dm (pg_id (fr_page f)) (fr_page f) e of
                (Some err, e1) \<Rightarrow> Some (Some err, pool, e1)
              | (None, e1) \<Rightarrow> flush_frames is (set_frame i (f\<lparr>fr_dirty := False\<rparr>) pool) e1))
      else flush_frames is pool e)"

definition bp_FlushAllPages :: "BufferPool \<Rightarrow> env \<Rightarrow> (status \<times> BufferPool \<times> env) option" where
  "bp_FlushAllPages pool e = flush_frames [0..<length (bp_frames pool)] pool e"

definition free_on_disk :: "BufferPool \<Rightarrow> page_id_t \<Rightarrow> env \<Rightarrow> (status \<times> BufferPool \<times> env) option" where
  "free_on_disk pool p e =
     (case bp_disk pool of
        None \<Rightarrow> None
      | Some dm \<Rightarrow>
          (case dm_FreePage dm p e of (st, dm1, e1) \<Rightarrow> Some (st, pool\<lparr>bp_disk := Some dm1\<rparr>, e1)))"

definition bp_DeletePage :: "BufferPool \<Rightarrow> page_id_t \<Rightarrow> env \<Rightarrow> (status \<times> BufferPool \<times> env) option" where
  "bp_DeletePage pool p e =
     (case bp_table pool p of
        None \<Rightarrow> free_on_disk pool p e
      | Some i \<Rightarrow>
          (let f = bp_frames pool ! i in
           if fr_pin_count f \<noteq> 0 then Some (Some (InvalidArgument ''cannot delete a pinned page''), pool, e)
           else free_on_disk (set_frame i (f\<lparr>fr_page := Page_Reset (fr_page f), fr_dirty := False\<rparr>)
             (pool\<lparr>bp_table := (bp_table pool)(p := None)\<rparr>)) p e))"

definition bp_Size :: "BufferPool \<Rightarrow> nat" where
  "bp_Size pool = length (bp_frames pool)"

definition bp_PinnedPages :: "BufferPool \<Rightarrow> nat" where
  "bp_PinnedPages pool = length (filter (\<lambda>f. fr_pin_count f \<noteq> 0) (bp_frames pool))"

text \<open>\<^verbatim>\<open>~BufferPoolManager\<close>\<close>

definition bp_drop :: "BufferPool \<Rightarrow> env \<Rightarrow> env option" where
  "bp_drop pool e = map_option (\<lambda>(st, pool', e'). e') (bp_FlushAllPages pool e)"

section \<open>The disk manager under faults\<close>

lemma EnsurePage_same_count [simp]:
  "EnsurePageLocked (dm\<lparr>dm_free_list_head := h\<rparr>) p = EnsurePageLocked dm p"
  by (simp add: EnsurePageLocked_def)

lemma disk_stored_free_list [simp]:
  "disk_stored (dm\<lparr>dm_free_list_head := h\<rparr>) e = disk_stored dm e" "dm_ready (dm\<lparr>dm_free_list_head := h\<rparr>) e = dm_ready dm e"
  by (simp_all add: fun_eq_iff disk_stored_def disk_page_def dm_ready_def)

lemma WriteHeader_keeps:
  assumes "dm_ready dm e" "WriteHeaderLocked dm e = (st, e')"
  shows "dm_ready dm e' \<and> disk_stored dm e' = disk_stored dm e"
proof -
  let ?n = "unat (dm_page_count dm)" and ?path = "dm_path dm" and ?h = "header_bytes dm"
  have r: "dm_open dm" "length (contents e ?path) = ?n * kPageSize" "unat (0 :: page_id_t) < ?n"
    using assms(1) by (simp_all add: dm_ready_def word_less_nat_alt)
  obtain io e1 where io: "next_io e = (io, e1)" by (metis prod.exhaust)
  define m where "m = (case io of IoOk _ \<Rightarrow> kPageSize | IoFail k _ \<Rightarrow> k)"
  have e': "e' = put_file ?path (overwrite (PageOffset 0) (take m ?h) (contents e1 ?path)) e1"
    using assms(2) io r(1)
    by (auto simp: WriteHeaderLocked_def dm_write_at_def write_at_def m_def PageOffset_0 split: io_outcome.splits)
  have c: "contents e1 ?path = contents e ?path" using contents_next_io [OF io] by simp
  have "length (take m ?h) \<le> kPageSize" by simp
  note o = overwrite_part [OF r(2,3) this]
  have "disk_page dm e' q = disk_page dm e q" if "q \<noteq> 0" for q
    using o(2) [OF that] by (simp add: disk_page_def e' c)
  then have "disk_stored dm e' = disk_stored dm e"
    by (auto simp: fun_eq_iff disk_stored_def kHeaderPageId_def)
  then show ?thesis using assms(1) o(1) by (simp add: dm_ready_def e' c)
qed

lemma free_page_body: "length (pg_bytes (free_page p q)) = kPageSize"
  by simp

lemma dm_FreePage_keeps:
  assumes "dm_ready dm e" "dm_FreePage dm p e = (st, dm', e')"
  shows "dm_ready dm' e' \<and> (q \<noteq> p \<longrightarrow> disk_stored dm' e' q = disk_stored dm e q)"
proof (cases "EnsurePageLocked dm p \<noteq> None \<or> p = kHeaderPageId")
  case True
  then show ?thesis using assms by (auto simp: dm_FreePage_def split: option.splits)
next
  case False
  let ?page = "free_page p (dm_free_list_head dm)"
  obtain st1 e1 where w: "dm_WritePage dm p ?page e = (st1, e1)" by (metis prod.exhaust)
  note k = disk.write_usable [OF assms(1) free_page_body w] disk.write_others [OF assms(1) free_page_body w]
  show ?thesis
  proof (cases st1)
    case (Some err)
    then show ?thesis using assms(2) False w k by (auto simp: dm_FreePage_def dm_WritePage_def)
  next
    case None
    let ?dm = "dm\<lparr>dm_free_list_head := p\<rparr>"
    obtain st2 e2 where h: "WriteHeaderLocked ?dm e1 = (st2, e2)" by (metis prod.exhaust)
    have "dm' = ?dm" "e' = e2" using assms(2) False w None h by (auto simp: dm_FreePage_def dm_WritePage_def)
    then show ?thesis using WriteHeader_keeps [OF _ h] k by simp
  qed
qed

lemma contents_cong_ready: "contents e' = contents e \<Longrightarrow> dm_ready dm e \<Longrightarrow> dm_ready dm e'"
  by (simp add: dm_ready_def)

text \<open>An allocation that reports success, whatever failed before it.\<close>

lemma dm_take_page_shape:
  assumes "dm_take_page dm e = (Inr (p, dm1), e1)"
  shows "contents e1 = contents e \<and>
    ((\<exists>h. dm1 = dm\<lparr>dm_free_list_head := h\<rparr>) \<or> p = dm_page_count dm \<and> dm1 = dm\<lparr>dm_page_count := p + 1\<rparr>)"
  using assms
  by (auto simp: dm_take_page_def dest: dm_read_at_keeps split: if_splits option.splits prod.splits)

lemma dm_extend_keeps:
  assumes "dm_ready dm e" "p = dm_page_count dm" "page = free_page p kInvalidPageId"
    and "WritePageLocked (dm\<lparr>dm_page_count := p + 1\<rparr>) p page e = (st, e')"
    and "st = None \<or> dm_ready (dm\<lparr>dm_page_count := p + 1\<rparr>) e'"
  shows "dm_ready (dm\<lparr>dm_page_count := p + 1\<rparr>) e' \<and>
    disk_stored (dm\<lparr>dm_page_count := p + 1\<rparr>) e' = (disk_stored dm e)(p \<mapsto> drop 4 (pg_bytes page))"
proof -
  let ?dm = "dm\<lparr>dm_page_count := p + 1\<rparr>" and ?n = "unat p" and ?path = "dm_path dm"
  let ?img = "page_image p (pg_bytes page)"
  have r: "dm_open dm" "length (contents e ?path) = ?n * kPageSize" "p \<noteq> kHeaderPageId"
    using assms(1,2) by (auto simp: dm_ready_def kHeaderPageId_def)
  have "p + 1 \<noteq> 0"
  proof
    assume p0: "p + 1 = 0"
    then obtain x where x: "EnsurePageLocked ?dm p = Some x" by (simp add: EnsurePageLocked_def)
    have "st \<noteq> None" using assms(4) unfolding WritePageLocked_def x by auto
    moreover have "\<not> dm_ready ?dm e'" using p0 by (simp add: dm_ready_def)
    ultimately show False using assms(5) by blast
  qed
  then have up: "unat (p + 1) = Suc ?n" by (simp add: unatSuc add.commute)
  then have p: "p \<noteq> kInvalidPageId" "p < p + 1" using \<open>p + 1 \<noteq> 0\<close> by (auto simp: kInvalidPageId_def word_less_nat_alt)
  have ens: "EnsurePageLocked ?dm p = None" using p by (simp add: EnsurePage_iff)
  have len: "length ?img = kPageSize" using assms(3) by simp
  obtain io e1 where io: "next_io e = (io, e1)" by (metis prod.exhaust)
  define m where "m = (case io of IoOk _ \<Rightarrow> kPageSize | IoFail k _ \<Rightarrow> k)"
  have e': "e' = put_file ?path (overwrite (PageOffset p) (take m ?img) (contents e1 ?path)) e1"
    "st = None \<Longrightarrow> m = kPageSize"
    using assms(4) ens io r(1) len
    by (auto simp: WritePageLocked_def dm_write_at_def write_at_def m_def split: io_outcome.splits)
  have c: "contents e1 ?path = contents e ?path" using contents_next_io [OF io(1)] by simp
  have "length (overwrite (PageOffset p) (take m ?img) (contents e ?path)) = Suc ?n * kPageSize" if "st \<noteq> None"
    using assms(5) that e'(1) c up by (simp add: dm_ready_def)
  then have "kPageSize \<le> m" if "st \<noteq> None"
    using that r(2) len by (auto simp: overwrite_def PageOffset_def split: if_splits)
  then have "take m ?img = ?img" using e'(2) len by auto
  then have "e' = put_file ?path (overwrite (PageOffset p) ?img (contents e1 ?path)) e1" using e'(1) by simp
  note put = put_page [OF r(2) [folded c] order_refl len this]
  have ready: "dm_ready ?dm e'" using assms(1) put(2) up by (simp add: dm_ready_def word_less_nat_alt)
  have "disk_stored ?dm e' q = disk_stored dm e q" if "q \<noteq> p" for q
  proof -
    have "disk_page ?dm e' q = disk_page dm e q" using put(1) [of q] that by (simp add: disk_page_def c)
    moreover have "EnsurePageLocked ?dm q = None \<longleftrightarrow> EnsurePageLocked dm q = None"
      using that up by (auto simp: EnsurePage_iff assms(2) [symmetric] word_less_nat_alt less_Suc_eq dest: word_unat_eq_iff [THEN iffD2])
    ultimately show ?thesis by (simp add: disk_stored_def)
  qed
  moreover have "disk_stored ?dm e' p = Some (drop 4 (pg_bytes page))"
    using put(1) [of p] page_image_checks [of "pg_bytes page" p] ens r(3) assms(3)
    by (simp add: disk_stored_def disk_page_def)
  ultimately show ?thesis using ready by auto
qed

lemma dm_AllocatePage_keeps:
  assumes "dm_ready dm e" "dm_AllocatePage dm e = (Inr p, dm', e')"
  shows "dm_ready dm' e' \<and> (\<forall>q. q \<noteq> p \<longrightarrow> disk_stored dm' e' q = disk_stored dm e q) \<and>
    (p \<noteq> kHeaderPageId \<longrightarrow> disk_stored dm' e' p = Some (drop 4 (pg_bytes (free_page p kInvalidPageId))))"
proof -
  let ?page = "free_page p kInvalidPageId"
  obtain e1 e2 where t: "dm_take_page dm e = (Inr (p, dm'), e1)"
    and w: "WritePageLocked dm' p ?page e1 = (None, e2)" and h: "WriteHeaderLocked dm' e2 = (None, e')"
    using assms(2) by (auto simp: dm_AllocatePage_def split: if_splits prod.splits sum.splits option.splits)
  have c: "contents e1 = contents e" and shape: "(\<exists>h. dm' = dm\<lparr>dm_free_list_head := h\<rparr>) \<or>
      p = dm_page_count dm \<and> dm' = dm\<lparr>dm_page_count := p + 1\<rparr>"
    using dm_take_page_shape [OF t] by blast+
  have e1: "dm_ready dm e1" "disk_stored dm e1 = disk_stored dm e"
    using disk_stored_cong [OF c] assms(1) by simp_all
  have "dm_ready dm' e2 \<and> (\<forall>q. q \<noteq> p \<longrightarrow> disk_stored dm' e2 q = disk_stored dm e q) \<and>
    (p \<noteq> kHeaderPageId \<longrightarrow> disk_stored dm' e2 p = Some (drop 4 (pg_bytes ?page)))"
    using shape
  proof
    assume "\<exists>h. dm' = dm\<lparr>dm_free_list_head := h\<rparr>"
    then have same: "dm_ready dm' e1" "disk_stored dm' e1 = disk_stored dm e1" using e1 by auto
    have "dm_WritePage dm' p ?page e1 = (None, e2)" using w by (simp add: dm_WritePage_def)
    note k = same(1) free_page_body this
    show ?thesis
      using disk.write_usable [OF k] disk.write_others [OF k] disk.write_stores [OF k] same(2) e1(2) by simp
  next
    assume "p = dm_page_count dm \<and> dm' = dm\<lparr>dm_page_count := p + 1\<rparr>"
    then show ?thesis using dm_extend_keeps [OF e1(1), of p ?page None e2] w e1(2) by simp
  qed
  then show ?thesis using WriteHeader_keeps [OF _ h] by simp
qed

text \<open>The page an allocation takes: the head of the free list, or the next page of the file.\<close>

definition next_page :: "DiskManager \<Rightarrow> page_id_t" where
  "next_page dm = (if dm_free_list_head dm \<noteq> kInvalidPageId then dm_free_list_head dm else dm_page_count dm)"

lemma dm_take_page_next: "dm_take_page dm e = (Inr (p, dm1), e1) \<Longrightarrow> p = next_page dm"
  by (auto simp: dm_take_page_def next_page_def split: if_splits option.splits prod.splits)

text \<open>An allocation that fails and does not leave half a page at the end of the file.\<close>

lemma dm_AllocatePage_fails_keeps:
  assumes "dm_ready dm e" "dm_AllocatePage dm e = (Inl err, dm', e')" "dm_ready dm' e'" "q \<noteq> next_page dm"
  shows "disk_stored dm' e' q = disk_stored dm e q"
proof -
  have "dm_open dm" using assms(1) by (simp add: dm_ready_def)
  obtain res e1 where t: "dm_take_page dm e = (res, e1)" by (metis prod.exhaust)
  show ?thesis
  proof (cases res)
    case (Inl x)
    have "contents e1 = contents e"
      using t Inl by (auto simp: dm_take_page_def dest: dm_read_at_keeps split: if_splits option.splits prod.splits)
    moreover have "dm' = dm" "e' = e1" using assms(2) t Inl \<open>dm_open dm\<close> by (simp_all add: dm_AllocatePage_def)
    ultimately show ?thesis using disk_stored_cong [of e1 e dm] by simp
  next
    case (Inr x)
    obtain p dm1 where x: "x = (p, dm1)" by (metis prod.exhaust)
    note t' = t [unfolded Inr x]
    let ?page = "free_page p kInvalidPageId"
    obtain st e2 where w: "WritePageLocked dm1 p ?page e1 = (st, e2)" by (metis prod.exhaust)
    obtain st3 e3 where h: "WriteHeaderLocked dm1 e2 = (st3, e3)" by (metis prod.exhaust)
    have d: "dm' = dm1" "e' = (if st = None then e3 else e2)"
      using assms(2) t' w h unfolding dm_AllocatePage_def by (cases st; cases st3; simp add: \<open>dm_open dm\<close>)+
    have c: "contents e1 = contents e" and shape: "(\<exists>h. dm1 = dm\<lparr>dm_free_list_head := h\<rparr>) \<or>
        p = dm_page_count dm \<and> dm1 = dm\<lparr>dm_page_count := p + 1\<rparr>"
      using dm_take_page_shape [OF t'] by blast+
    have e1: "dm_ready dm e1" "disk_stored dm e1 = disk_stored dm e" using disk_stored_cong [OF c] assms(1) by simp_all
    have qp: "q \<noteq> p" using assms(4) dm_take_page_next [OF t'] by simp
    have "dm_ready dm1 e2 \<and> disk_stored dm1 e2 q = disk_stored dm e q"
      using shape
    proof
      assume "\<exists>h. dm1 = dm\<lparr>dm_free_list_head := h\<rparr>"
      then have same: "dm_ready dm1 e1" "disk_stored dm1 e1 = disk_stored dm e1" using e1 by auto
      have "dm_WritePage dm1 p ?page e1 = (st, e2)" using w by (simp add: dm_WritePage_def)
      note k = same(1) free_page_body this
      show ?thesis using disk.write_usable [OF k] disk.write_others [OF k qp] same(2) e1(2) by simp
    next
      assume s: "p = dm_page_count dm \<and> dm1 = dm\<lparr>dm_page_count := p + 1\<rparr>"
      have "st = None \<or> dm_ready (dm\<lparr>dm_page_count := p + 1\<rparr>) e2" using assms(3) d s by (cases st) auto
      then show ?thesis using dm_extend_keeps [OF e1(1), of p ?page st e2] w e1(2) s qp by simp
    qed
    then show ?thesis using WriteHeader_keeps [OF _ h] d by (auto split: if_splits)
  qed
qed

section \<open>The invariant\<close>

text \<open>The page table lists the cached pages; a guard holds the frame of its page; a frame counts the
  guards on it; and a clean frame nobody may write agrees with the disk. \<open>gs\<close> are the live guards.\<close>

abbreviation frame_id :: "BufferPool \<Rightarrow> nat \<Rightarrow> page_id_t" where
  "frame_id pool i \<equiv> pg_id (fr_page (bp_frames pool ! i))"

definition guards_on :: "nat \<Rightarrow> PageGuard list \<Rightarrow> PageGuard list" where
  "guards_on i gs = filter (\<lambda>g. gd_page g = Some i) gs"

definition table_ok :: "BufferPool \<Rightarrow> bool" where
  "table_ok pool \<longleftrightarrow>
     (\<forall>q i. bp_table pool q = Some i \<longleftrightarrow> q \<noteq> kInvalidPageId \<and> i < length (bp_frames pool) \<and> frame_id pool i = q)"

definition guard_ok :: "BufferPool \<Rightarrow> PageGuard \<Rightarrow> bool" where
  "guard_ok pool g \<longleftrightarrow> gd_manager g \<and> gd_page g \<noteq> None \<and> bp_table pool (gd_page_id g) = gd_page g"

definition in_sync :: "DiskManager \<Rightarrow> env \<Rightarrow> Page \<Rightarrow> bool" where
  "in_sync dm e page \<longleftrightarrow>
     pg_id page = kInvalidPageId \<or> pg_id page = kHeaderPageId \<or>
     disk_stored dm e (pg_id page) = Some (drop 4 (pg_bytes page))"

definition frame_ok :: "PageGuard list \<Rightarrow> DiskManager \<Rightarrow> env \<Rightarrow> nat \<Rightarrow> Frame \<Rightarrow> bool" where
  "frame_ok gs dm e i f \<longleftrightarrow>
     length (pg_bytes (fr_page f)) = kPageSize \<and> fr_pin_count f = length (guards_on i gs) \<and>
     (fr_dirty f \<or> (\<exists>g \<in> set (guards_on i gs). gd_writable g) \<or> in_sync dm e (fr_page f))"

definition pool_ok :: "PageGuard list \<Rightarrow> DiskManager \<Rightarrow> BufferPool \<Rightarrow> env \<Rightarrow> bool" where
  "pool_ok gs dm pool e \<longleftrightarrow>
     bp_disk pool = Some dm \<and> dm_ready dm e \<and> table_ok pool \<and> (\<forall>g \<in> set gs. guard_ok pool g) \<and>
     (\<forall>i < length (bp_frames pool). frame_ok gs dm e i (bp_frames pool ! i))"

text \<open>What the pool and the disk together hold at a page, without its checksum field.\<close>

definition pool_view :: "DiskManager \<Rightarrow> BufferPool \<Rightarrow> env \<Rightarrow> page_id_t \<Rightarrow> bytes option" where
  "pool_view dm pool e q =
     (case bp_table pool q of
        Some i \<Rightarrow> Some (drop 4 (pg_bytes (fr_page (bp_frames pool ! i))))
      | None \<Rightarrow> disk_stored dm e q)"

definition same_memory :: "(page_id_t \<Rightarrow> bytes option) \<Rightarrow> (page_id_t \<Rightarrow> bytes option) \<Rightarrow> bool" where
  "same_memory M M' \<longleftrightarrow> (\<forall>q. q \<noteq> kHeaderPageId \<longrightarrow> M q = M' q)"

lemma same_memory_refl [simp, intro]: "same_memory M M"
  by (simp add: same_memory_def)

lemma same_memory_trans [trans]: "same_memory M M' \<Longrightarrow> same_memory M' M'' \<Longrightarrow> same_memory M M''"
  by (simp add: same_memory_def)

lemma set_frame_simps [simp]:
  "bp_disk (set_frame i f pool) = bp_disk pool" "bp_table (set_frame i f pool) = bp_table pool"
  "bp_clock (set_frame i f pool) = bp_clock pool" "length (bp_frames (set_frame i f pool)) = length (bp_frames pool)"
  "bp_frames (set_frame i f (pool\<lparr>bp_table := t\<rparr>)) = bp_frames (set_frame i f pool)"
  "bp_frames (set_frame i f (pool\<lparr>bp_clock := c\<rparr>)) = bp_frames (set_frame i f pool)"
  by (simp_all add: set_frame_def)

lemma nth_set_frame:
  "i < length (bp_frames pool) \<Longrightarrow> bp_frames (set_frame i f pool) ! j = (if j = i then f else bp_frames pool ! j)"
  by (simp add: set_frame_def)

lemma length_Reset [simp]: "length (pg_bytes (Page_Reset page)) = kPageSize" "pg_id (Page_Reset page) = kInvalidPageId"
  by (simp_all add: Page_Reset_def)

lemma guards_on_Cons [simp]: "guards_on i (g # gs) = (if gd_page g = Some i then g # guards_on i gs else guards_on i gs)"
  by (simp add: guards_on_def)

lemma table_ok_D:
  assumes "table_ok pool" "bp_table pool q = Some i"
  shows "q \<noteq> kInvalidPageId" "i < length (bp_frames pool)" "frame_id pool i = q"
  using assms unfolding table_ok_def by blast+

lemma table_ok_I: "table_ok pool \<Longrightarrow> i < length (bp_frames pool) \<Longrightarrow> frame_id pool i \<noteq> kInvalidPageId \<Longrightarrow>
  bp_table pool (frame_id pool i) = Some i"
  unfolding table_ok_def by blast

lemma pool_ok_D:
  assumes "pool_ok gs dm pool e"
  shows "bp_disk pool = Some dm" "dm_ready dm e" "table_ok pool" "g \<in> set gs \<Longrightarrow> guard_ok pool g"
    "i < length (bp_frames pool) \<Longrightarrow> frame_ok gs dm e i (bp_frames pool ! i)"
  using assms unfolding pool_ok_def by blast+

text \<open>No guard holds a page the table does not list.\<close>

lemma no_guards_off_table:
  assumes "pool_ok gs dm pool e" "i < length (bp_frames pool)" "frame_id pool i = kInvalidPageId"
  shows "guards_on i gs = []"
proof (rule ccontr)
  assume "guards_on i gs \<noteq> []"
  then obtain g where "g \<in> set gs" "gd_page g = Some i" by (auto simp: guards_on_def filter_empty_conv)
  then have "bp_table pool (gd_page_id g) = Some i" using pool_ok_D(4) [OF assms(1)] by (auto simp: guard_ok_def)
  then show False using table_ok_D [OF pool_ok_D(3) [OF assms(1)]] assms(3) by metis
qed

section \<open>The victim is unpinned\<close>

lemma oldest_frame_spec:
  assumes "oldest_frame i rest (victim, oldest) = (v, a)"
  shows "(v = victim \<and> a = oldest \<or>
      (\<exists>j < length rest. v = i + j \<and> fr_pin_count (rest ! j) = 0 \<and> pg_id (fr_page (rest ! j)) \<noteq> kInvalidPageId \<and>
        a = fr_age (rest ! j) \<and> a < oldest)) \<and>
    a \<le> oldest \<and>
    (\<forall>f \<in> set rest. fr_pin_count f = 0 \<and> pg_id (fr_page f) \<noteq> kInvalidPageId \<longrightarrow> a \<le> fr_age f)"
  using assms
proof (induction i rest "(victim, oldest)" arbitrary: victim oldest rule: oldest_frame.induct)
  case (2 i f rest victim oldest)
  let ?new = "fr_pin_count f = 0 \<and> pg_id (fr_page f) \<noteq> kInvalidPageId \<and> fr_age f < oldest"
  let ?acc = "if ?new then (i, fr_age f) else (victim, oldest)"
  obtain v0 a0 where acc: "?acc = (v0, a0)" by (metis prod.exhaust)
  have "oldest_frame (Suc i) rest (v0, a0) = (v, a)" using 2(2) acc by simp
  note IH = 2(1) [OF acc this]
  have low: "a0 \<le> oldest" using acc by (auto split: if_splits)
  have first: "fr_pin_count f = 0 \<and> pg_id (fr_page f) \<noteq> kInvalidPageId \<longrightarrow> a0 \<le> fr_age f"
    using acc by (auto split: if_splits simp: not_less)
  from IH low first show ?case
  proof (intro conjI)
    show "a \<le> oldest" using IH low by auto
    show "\<forall>f \<in> set (f # rest). fr_pin_count f = 0 \<and> pg_id (fr_page f) \<noteq> kInvalidPageId \<longrightarrow> a \<le> fr_age f"
      using IH first by auto
    from IH consider "v = v0" "a = a0" |
      j where "j < length rest" "v = Suc i + j" "fr_pin_count (rest ! j) = 0"
        "pg_id (fr_page (rest ! j)) \<noteq> kInvalidPageId" "a = fr_age (rest ! j)" "a < a0" by blast
    then show "v = victim \<and> a = oldest \<or>
      (\<exists>j < length (f # rest). v = i + j \<and> fr_pin_count ((f # rest) ! j) = 0 \<and>
        pg_id (fr_page ((f # rest) ! j)) \<noteq> kInvalidPageId \<and> a = fr_age ((f # rest) ! j) \<and> a < oldest)"
    proof cases
      case 1
      then show ?thesis using acc by (cases ?new) (auto intro: exI [of _ 0])
    next
      case (2 j)
      then show ?thesis using low by (intro disjI2 exI [of _ "Suc j"]) auto
    qed
  qed
qed simp

lemma first_unpinned_spec:
  "case first_unpinned i rest of
     None \<Rightarrow> \<forall>f \<in> set rest. fr_pin_count f \<noteq> 0
   | Some v \<Rightarrow> \<exists>j < length rest. v = i + j \<and> fr_pin_count (rest ! j) = 0"
proof (induction i rest rule: first_unpinned.induct)
  case (2 i f rest)
  show ?case
  proof (cases "fr_pin_count f = 0")
    case True
    then show ?thesis by (auto intro: exI [of _ 0])
  next
    case False
    show ?thesis
    proof (cases "first_unpinned (Suc i) rest")
      case None
      then show ?thesis using 2 False by simp
    next
      case (Some v)
      then obtain j where "j < length rest" "v = Suc i + j" "fr_pin_count (rest ! j) = 0" using 2 False by auto
      then show ?thesis using Some False by (auto intro!: exI [of _ "Suc j"])
    qed
  qed
qed simp

lemma VictimLocked_unpinned:
  assumes "VictimLocked pool = Some i"
  shows "i < length (bp_frames pool) \<and> fr_pin_count (bp_frames pool ! i) = 0"
proof -
  let ?n = "length (bp_frames pool)"
  obtain v a where o: "oldest_frame 0 (bp_frames pool) (?n, 0xFFFFFFFFFFFFFFFF) = (v, a)" by (metis prod.exhaust)
  show ?thesis
  proof (cases "v = ?n")
    case True
    then show ?thesis using assms o first_unpinned_spec [where i = 0 and rest = "bp_frames pool"] by (simp add: VictimLocked_def)
  next
    case False
    then show ?thesis using assms o oldest_frame_spec [OF o] by (simp add: VictimLocked_def)
  qed
qed

text \<open>Among the unpinned cached pages the victim is the one used last longest ago.\<close>

lemma VictimLocked_oldest:
  assumes "VictimLocked pool = Some i" "f \<in> set (bp_frames pool)" "fr_pin_count f = 0"
    and "pg_id (fr_page f) \<noteq> kInvalidPageId" "fr_age f < 0xFFFFFFFFFFFFFFFF"
  shows "frame_id pool i \<noteq> kInvalidPageId \<and> fr_age (bp_frames pool ! i) \<le> fr_age f"
proof -
  let ?n = "length (bp_frames pool)"
  obtain v a where o: "oldest_frame 0 (bp_frames pool) (?n, 0xFFFFFFFFFFFFFFFF) = (v, a)" by (metis prod.exhaust)
  note spec = oldest_frame_spec [OF o]
  have "a \<le> fr_age f" using spec assms(2-4) by blast
  then have "a \<noteq> 0xFFFFFFFFFFFFFFFF" using assms(5) by auto
  then obtain j where j: "j < ?n" "v = j" "frame_id pool j \<noteq> kInvalidPageId" "a = fr_age (bp_frames pool ! j)"
    using spec by auto
  then have "i = v" using assms(1) o by (simp add: VictimLocked_def)
  then show ?thesis using j \<open>a \<le> fr_age f\<close> by simp
qed

lemma VictimLocked_None: "VictimLocked pool = None \<longleftrightarrow> (\<forall>f \<in> set (bp_frames pool). fr_pin_count f \<noteq> 0)"
proof
  let ?n = "length (bp_frames pool)"
  obtain v a where o: "oldest_frame 0 (bp_frames pool) (?n, 0xFFFFFFFFFFFFFFFF) = (v, a)" by (metis prod.exhaust)
  show "\<forall>f \<in> set (bp_frames pool). fr_pin_count f \<noteq> 0" if "VictimLocked pool = None"
    using that o first_unpinned_spec [where i = 0 and rest = "bp_frames pool"] by (auto simp: VictimLocked_def split: if_splits)
  show "VictimLocked pool = None" if all: "\<forall>f \<in> set (bp_frames pool). fr_pin_count f \<noteq> 0"
  proof (cases "VictimLocked pool")
    case (Some i)
    then show ?thesis using VictimLocked_unpinned [OF Some] all nth_mem by blast
  qed simp
qed

section \<open>Every step keeps the invariant\<close>

lemma guard_ok_table: "bp_table pool' = bp_table pool \<Longrightarrow> guard_ok pool' g = guard_ok pool g"
  by (simp add: guard_ok_def)

lemma table_ok_update:
  assumes "table_ok pool" "i < length (bp_frames pool)" "pg_id (fr_page f) = frame_id pool i"
    and "bp_frames pool' = bp_frames (set_frame i f pool)" "bp_table pool' = bp_table pool"
  shows "table_ok pool'"
  using assms by (auto simp: table_ok_def nth_set_frame)

text \<open>A frame changes and its page stays in place.\<close>

lemma update_frame_ok:
  assumes "pool_ok gs dm pool e" "i < length (bp_frames pool)" "pg_id (fr_page f) = frame_id pool i"
    and "frame_ok gs' dm e i f" "\<And>j. j \<noteq> i \<Longrightarrow> guards_on j gs' = guards_on j gs"
    and "\<And>g. g \<in> set gs' \<Longrightarrow> g \<in> set gs \<or> guard_ok pool g"
    and "bp_frames pool' = bp_frames (set_frame i f pool)" "bp_table pool' = bp_table pool" "bp_disk pool' = bp_disk pool"
  shows "pool_ok gs' dm pool' e"
proof -
  have "guard_ok pool' g" if "g \<in> set gs'" for g
    using pool_ok_D(4) [OF assms(1)] assms(6) [OF that] guard_ok_table [OF assms(8)] by auto
  moreover have "frame_ok gs' dm e j (bp_frames pool' ! j)" if "j < length (bp_frames pool')" for j
    using pool_ok_D(5) [OF assms(1), of j] that assms(2,4,5,7) by (auto simp: nth_set_frame frame_ok_def)
  ultimately show ?thesis
    using pool_ok_D(1-3) [OF assms(1)] table_ok_update [OF _ assms(2,3,7,8)] assms(9) by (simp add: pool_ok_def)
qed

text \<open>Its contents are what the memory holds there.\<close>

lemma pool_view_update:
  assumes "table_ok pool" "i < length (bp_frames pool)"
    and "bp_frames pool' = bp_frames (set_frame i f pool)" "bp_table pool' = bp_table pool"
  shows "pool_view dm pool' e =
    (if frame_id pool i = kInvalidPageId then pool_view dm pool e
     else (pool_view dm pool e)(frame_id pool i \<mapsto> drop 4 (pg_bytes (fr_page f))))"
proof
  fix q
  have new: "pool_view dm pool' e q = (if bp_table pool q = Some i then Some (drop 4 (pg_bytes (fr_page f)))
      else pool_view dm pool e q)"
    using assms(2-4) by (simp add: pool_view_def nth_set_frame split: option.split)
  have "bp_table pool q = Some i \<longleftrightarrow> frame_id pool i \<noteq> kInvalidPageId \<and> q = frame_id pool i"
    using table_ok_D [OF assms(1), of q i] table_ok_I [OF assms(1,2)] by blast
  then show "pool_view dm pool' e q =
    (if frame_id pool i = kInvalidPageId then pool_view dm pool e
     else (pool_view dm pool e)(frame_id pool i \<mapsto> drop 4 (pg_bytes (fr_page f)))) q"
    by (simp add: new)
qed

lemma pool_view_keep:
  assumes "table_ok pool" "i < length (bp_frames pool)" "pg_bytes (fr_page f) = pg_bytes (fr_page (bp_frames pool ! i))"
    and "bp_frames pool' = bp_frames (set_frame i f pool)" "bp_table pool' = bp_table pool"
  shows "pool_view dm pool' e = pool_view dm pool e"
  using pool_view_update [OF assms(1,2,4,5), of dm e] assms(3) table_ok_I [OF assms(1,2)]
  by (auto simp: fun_eq_iff pool_view_def)

text \<open>Writing a cached page to the disk, whether it succeeds or not.\<close>

lemma write_cached:
  assumes "pool_ok gs dm pool e" "bp_table pool p = Some i"
    and "dm_WritePage dm p (fr_page (bp_frames pool ! i)) e = (st, e')"
  shows "st = None \<Longrightarrow> in_sync dm e' (fr_page (bp_frames pool ! i))"
    "pool_view dm pool e' = pool_view dm pool e"
    "frame_ok gs dm e' i (bp_frames pool ! i) \<Longrightarrow> pool_ok gs dm pool e'"
    "q \<noteq> p \<Longrightarrow> disk_stored dm e' q = disk_stored dm e q"
proof -
  let ?f = "bp_frames pool ! i"
  note t = table_ok_D [OF pool_ok_D(3) [OF assms(1)] assms(2)]
  have len: "length (pg_bytes (fr_page ?f)) = kPageSize"
    using pool_ok_D(5) [OF assms(1) t(2)] by (simp add: frame_ok_def)
  note k = pool_ok_D(2) [OF assms(1)] len assms(3)
  note others = disk.write_others [OF k]
  show "in_sync dm e' (fr_page ?f)" if "st = None"
    using disk.write_stores [of dm e "fr_page ?f" p e'] k that t(3) by (auto simp: in_sync_def)
  show "disk_stored dm e' q = disk_stored dm e q" if "q \<noteq> p" by (rule others [OF that])
  show "pool_view dm pool e' = pool_view dm pool e"
  proof
    fix q
    show "pool_view dm pool e' q = pool_view dm pool e q"
      using assms(2) others [of q] by (cases "q = p") (simp_all add: pool_view_def split: option.split)
  qed
  show "pool_ok gs dm pool e'" if i: "frame_ok gs dm e' i ?f"
  proof -
    have "frame_ok gs dm e' j (bp_frames pool ! j)" if j: "j < length (bp_frames pool)" for j
    proof (cases "j = i")
      case False
      have "frame_id pool j \<noteq> p"
        using table_ok_I [OF pool_ok_D(3) [OF assms(1)] j] False assms(2) t(1) by auto
      then show ?thesis
        using pool_ok_D(5) [OF assms(1) j] others by (auto simp: frame_ok_def in_sync_def)
    qed (use i in simp)
    then show ?thesis using pool_ok_D(1,3,4) [OF assms(1)] disk.write_usable [OF k] by (simp add: pool_ok_def)
  qed
qed

text \<open>An unpinned page leaves the cache.\<close>

lemma drop_cached:
  assumes "pool_ok gs dm pool e" "bp_table pool p = Some i" "fr_pin_count (bp_frames pool ! i) = 0"
    and "pg_id (fr_page f) = kInvalidPageId" "length (pg_bytes (fr_page f)) = kPageSize" "fr_pin_count f = 0"
    and "pool' = set_frame i f (pool\<lparr>bp_table := (bp_table pool)(p := None)\<rparr>)"
  shows "pool_ok gs dm pool' e" "pool_view dm pool' e = (pool_view dm pool e)(p := disk_stored dm e p)"
proof -
  note t = table_ok_D [OF pool_ok_D(3) [OF assms(1)] assms(2)]
  have table: "bp_table pool' = (bp_table pool)(p := None)" "length (bp_frames pool') = length (bp_frames pool)"
    and frames: "bp_frames pool' ! j = (if j = i then f else bp_frames pool ! j)" for j
    using assms(7) t(2) by (simp_all add: nth_set_frame)
  have none: "guards_on i gs = []"
    using pool_ok_D(5) [OF assms(1) t(2)] assms(3) by (simp add: frame_ok_def)
  have unique: "q = p" if "bp_table pool q = Some i" for q
    using table_ok_D(3) [OF pool_ok_D(3) [OF assms(1)] that] t(3) by simp
  have "guard_ok pool' g" if g: "g \<in> set gs" for g
  proof -
    have ok: "guard_ok pool g" using pool_ok_D(4) [OF assms(1) g] .
    then have "gd_page_id g \<noteq> p" using none g assms(2) by (auto simp: guard_ok_def guards_on_def filter_empty_conv)
    then show ?thesis using ok table by (simp add: guard_ok_def)
  qed
  moreover have "table_ok pool'"
  proof -
    have "bp_table pool' q = Some j \<longleftrightarrow> q \<noteq> kInvalidPageId \<and> j < length (bp_frames pool') \<and> frame_id pool' j = q" for q j
    proof (cases "j = i")
      case True
      then show ?thesis using table(1) frames assms(4) unique [of q] by auto
    next
      case False
      then have "bp_table pool p \<noteq> Some j" using assms(2) by simp
      then show ?thesis
        using False table frames pool_ok_D(3) [OF assms(1)] unfolding table_ok_def by (metis fun_upd_apply option.distinct(1))
    qed
    then show ?thesis unfolding table_ok_def by blast
  qed
  moreover have "frame_ok gs dm e j (bp_frames pool' ! j)" if "j < length (bp_frames pool')" for j
    using pool_ok_D(5) [OF assms(1), of j] that table frames assms(4-6) none
    by (auto simp: frame_ok_def in_sync_def)
  ultimately show "pool_ok gs dm pool' e" using pool_ok_D(1,2) [OF assms(1)] assms(7) by (simp add: pool_ok_def)
  show "pool_view dm pool' e = (pool_view dm pool e)(p := disk_stored dm e p)"
  proof
    fix q
    show "pool_view dm pool' e q = ((pool_view dm pool e)(p := disk_stored dm e p)) q"
      using table(1) frames unique [of q]
      by (cases "q = p") (simp_all add: pool_view_def split: option.split, blast)
  qed
qed

lemma evict_keeps:
  assumes "pool_ok gs dm pool e" "i < length (bp_frames pool)" "fr_pin_count (bp_frames pool ! i) = 0"
    and "evict_frame i dm pool e = (st, pool', e')"
  shows "pool_ok gs dm pool' e' \<and> same_memory (pool_view dm pool' e') (pool_view dm pool e) \<and>
    length (bp_frames pool') = length (bp_frames pool) \<and> (bp_table pool q = None \<longrightarrow> bp_table pool' q = None) \<and>
    (st = None \<longrightarrow> frame_id pool' i = kInvalidPageId)"
proof -
  let ?f = "bp_frames pool ! i" and ?p = "frame_id pool i"
  let ?empty = "?f\<lparr>fr_page := Page_Reset (fr_page ?f)\<rparr>"
  note ok = pool_ok_D [OF assms(1)]
  show ?thesis
  proof (cases "?p = kInvalidPageId")
    case True
    then have x: "st = None" "pool' = set_frame i ?empty pool" "e' = e"
      using assms(4) by (simp_all add: evict_frame_def Let_def)
    have "frame_ok gs dm e i ?empty" using ok(5) [OF assms(2)] by (simp add: frame_ok_def in_sync_def)
    then have "pool_ok gs dm pool' e'"
      unfolding x by (rule update_frame_ok [OF assms(1,2), rotated]) (use True in simp_all)
    moreover have "pool_view dm pool' e' = pool_view dm pool e"
      using pool_view_update [OF ok(3) assms(2), of pool' ?empty dm e] True x by simp
    ultimately show ?thesis using x assms(2) by (simp add: nth_set_frame)
  next
    case False
    then have p: "bp_table pool ?p = Some i" using table_ok_I [OF ok(3) assms(2)] by simp
    obtain st1 e1 where w: "(if fr_dirty ?f then dm_WritePage dm ?p (fr_page ?f) e else (None, e)) = (st1, e1)"
      by (metis prod.exhaust)
    have kept: "pool_ok gs dm pool e1 \<and> pool_view dm pool e1 = pool_view dm pool e \<and>
      (st1 = None \<longrightarrow> in_sync dm e1 (fr_page ?f))"
    proof (cases "fr_dirty ?f")
      case True
      note k = write_cached [OF assms(1) p]
      have "frame_ok gs dm e1 i ?f" using ok(5) [OF assms(2)] True by (simp add: frame_ok_def)
      then show ?thesis using k [of st1 e1] w True by simp
    next
      case False
      have "guards_on i gs = []" using ok(5) [OF assms(2)] assms(3) by (simp add: frame_ok_def)
      then show ?thesis using ok(5) [OF assms(2)] False w assms(1) by (simp add: frame_ok_def)
    qed
    show ?thesis
    proof (cases st1)
      case (Some err)
      then have "st = Some err" "pool' = pool" "e' = e1"
        using assms(4) False w by (simp_all add: evict_frame_def Let_def)
      then show ?thesis using kept by simp
    next
      case None
      let ?pool = "set_frame i ?empty (pool\<lparr>bp_table := (bp_table pool)(?p := None)\<rparr>)"
      have x: "st = None" "pool' = ?pool" "e' = e1"
        using assms(4) False w None by (simp_all add: evict_frame_def Let_def)
      have "pool_ok gs dm pool e1" using kept by blast
      note d = drop_cached [OF this p assms(3), of ?empty ?pool, simplified, OF assms(3)]
      have "disk_stored dm e1 ?p = pool_view dm pool e ?p" if "?p \<noteq> kHeaderPageId"
        using kept None False that p by (simp add: in_sync_def pool_view_def)
      then have "same_memory (pool_view dm ?pool e1) (pool_view dm pool e)"
        using d(2) kept by (simp add: same_memory_def)
      then show ?thesis using d(1) x assms(2,3) by (simp add: nth_set_frame)
    qed
  qed
qed

definition pool_shows :: "(page_id_t \<Rightarrow> bytes option) \<Rightarrow> PageGuard list \<Rightarrow> BufferPool \<Rightarrow> env \<Rightarrow> bool" where
  "pool_shows M gs pool e \<longleftrightarrow>
     (\<exists>dm. pool_ok gs dm pool e \<and> same_memory (pool_view dm pool e) M)"

lemma pool_showsI: "pool_ok gs dm pool e \<Longrightarrow> same_memory (pool_view dm pool e) M \<Longrightarrow> pool_shows M gs pool e"
  by (auto simp: pool_shows_def)

lemma load_keeps:
  assumes "pool_ok gs dm pool e" "i < length (bp_frames pool)" "frame_id pool i = kInvalidPageId" "bp_table pool p = None"
    and "load_frame i p writable dm pool e = (res, pool', e')"
  shows "case res of
      Inl _ \<Rightarrow> pool' = pool \<and> pool_ok gs dm pool e' \<and> pool_view dm pool e' = pool_view dm pool e
    | Inr g \<Rightarrow> g = new_guard p i writable \<and> pool_ok (g # gs) dm pool' e' \<and>
        same_memory (pool_view dm pool' e') (pool_view dm pool e)"
proof -
  let ?f = "bp_frames pool ! i"
  note ok = pool_ok_D [OF assms(1)]
  obtain st out e1 where rd: "dm_ReadPage dm p (Some (fr_page ?f)) e = (st, out, e1)" by (metis prod_cases3)
  note keeps = disk.read_keeps [OF ok(2) rd]
  have "pool_view dm pool e1 = pool_view dm pool e"
    unfolding pool_view_def [abs_def] keeps [THEN conjunct2] ..
  moreover have "pool_ok gs dm pool e1"
    using ok keeps by (simp add: pool_ok_def frame_ok_def in_sync_def)
  ultimately have same: "pool_ok gs dm pool e1" "pool_view dm pool e1 = pool_view dm pool e" by simp_all
  show ?thesis
  proof (cases st)
    case (Some err)
    then have "res = Inl err" "pool' = pool" "e' = e1" using assms(5) rd by (simp_all add: load_frame_def Let_def)
    then show ?thesis using same by simp
  next
    case None
    obtain got where got: "out = Some got" "length (pg_bytes got) = kPageSize"
      "p \<noteq> kHeaderPageId \<longrightarrow> disk_stored dm e p = Some (drop 4 (pg_bytes got))"
      using disk.read_delivers [OF ok(2) rd [unfolded None]] by blast
    have "p \<noteq> kInvalidPageId"
      using rd None EnsurePage_iff [of dm p] by (auto simp: dm_ReadPage_def split: option.splits)
    let ?new = "\<lparr>fr_page = got\<lparr>pg_id := p\<rparr>, fr_pin_count = 1, fr_dirty = False, fr_age = bp_clock pool + 1\<rparr>"
    let ?g = "new_guard p i writable"
    let ?pool = "set_frame i ?new (pool\<lparr>bp_table := (bp_table pool)(p \<mapsto> i), bp_clock := bp_clock pool + 1\<rparr>)"
    have x: "res = Inr ?g" "pool' = ?pool" "e' = e1" using assms(5) rd None got(1) by (simp_all add: load_frame_def Let_def)
    have frames: "bp_frames ?pool ! j = (if j = i then ?new else bp_frames pool ! j)" for j
      using assms(2) by (simp add: nth_set_frame)
    have empty: "bp_table pool q \<noteq> Some i" for q using table_ok_D [OF ok(3), of q i] assms(3) by blast
    have "guards_on i gs = []" by (rule no_guards_off_table [OF assms(1-3)])
    then have "frame_ok (?g # gs) dm e1 j (bp_frames ?pool ! j)" if "j < length (bp_frames pool)" for j
      using pool_ok_D(5) [OF same(1) that] frames [of j] got keeps
      by (cases "j = i") (auto simp: frame_ok_def new_guard_def in_sync_def)
    moreover have "table_ok ?pool"
    proof -
      have "bp_table ?pool q = Some j \<longleftrightarrow> q \<noteq> kInvalidPageId \<and> j < length (bp_frames ?pool) \<and> frame_id ?pool j = q" for q j
      proof (cases "j = i")
        case True
        then show ?thesis using frames assms(2) \<open>p \<noteq> kInvalidPageId\<close> empty [of q] by auto
      next
        case False
        have "bp_table pool p \<noteq> Some j" using assms(4) by simp
        then show ?thesis using False frames [of j] ok(3) unfolding table_ok_def
          by (auto split: if_splits)
      qed
      then show ?thesis unfolding table_ok_def by blast
    qed
    moreover have "guard_ok ?pool g" if "g \<in> set (?g # gs)" for g
    proof (cases "g \<in> set gs")
      case True
      then show ?thesis using ok(4) assms(4) by (fastforce simp: guard_ok_def)
    next
      case False
      then show ?thesis using that by (simp add: guard_ok_def new_guard_def)
    qed
    ultimately have pool: "pool_ok (?g # gs) dm ?pool e1"
      using ok(1) keeps by (simp add: pool_ok_def)
    have "pool_view dm ?pool e1 q = pool_view dm pool e q" if "q \<noteq> kHeaderPageId" for q
      using that frames got(3) keeps empty [of q] assms(4)
      by (cases "q = p") (auto simp: pool_view_def split: option.split)
    then show ?thesis using x pool by (simp add: same_memory_def)
  qed
qed

lemma pin_keeps:
  assumes "pool_ok gs dm pool e" "bp_table pool p = Some i"
  shows "pool_ok (new_guard p i writable # gs) dm (pin_frame i pool) e \<and>
    pool_view dm (pin_frame i pool) e = pool_view dm pool e"
proof -
  let ?f = "bp_frames pool ! i" and ?g = "new_guard p i writable"
  let ?new = "?f\<lparr>fr_pin_count := fr_pin_count ?f + 1, fr_age := bp_clock pool + 1\<rparr>"
  note ok = pool_ok_D [OF assms(1)] and t = table_ok_D [OF pool_ok_D(3) [OF assms(1)] assms(2)]
  have pin: "pin_frame i pool = set_frame i ?new (pool\<lparr>bp_clock := bp_clock pool + 1\<rparr>)"
    by (simp add: pin_frame_def Let_def)
  have f: "frame_ok (?g # gs) dm e i ?new"
    using ok(5) [OF t(2)] by (auto simp: frame_ok_def new_guard_def)
  have "guard_ok pool g" if "g \<in> set (?g # gs)" "g \<notin> set gs" for g
    using that assms(2) by (simp add: guard_ok_def new_guard_def)
  then have "pool_ok (?g # gs) dm (pin_frame i pool) e"
    by (intro update_frame_ok [OF assms(1) t(2) _ f]) (auto simp: pin new_guard_def)
  moreover have "pool_view dm (pin_frame i pool) e = pool_view dm pool e"
    by (rule pool_view_keep [OF ok(3) t(2), of ?new]) (simp_all add: pin)
  ultimately show ?thesis by blast
qed

lemma fetch_keeps:
  assumes "pool_ok gs dm pool e" "bp_FetchPage pool p writable e = (res, pool', e')"
  shows "same_memory (pool_view dm pool' e') (pool_view dm pool e) \<and>
    (case res of
       Inl _ \<Rightarrow> pool_ok gs dm pool' e' \<and> bp_table pool p = None \<and> bp_table pool' p = None
     | Inr g \<Rightarrow> pool_ok (g # gs) dm pool' e' \<and> gd_page_id g = p \<and> gd_writable g = writable)"
proof -
  note ok = pool_ok_D [OF assms(1)]
  show ?thesis
  proof (cases "bp_table pool p")
    case (Some i)
    then show ?thesis using assms(2) ok(1) pin_keeps [OF assms(1) Some, of writable]
      by (auto simp: bp_FetchPage_def new_guard_def)
  next
    case None
    show ?thesis
    proof (cases "VictimLocked pool")
      case None
      then show ?thesis using assms \<open>bp_table pool p = None\<close> ok(1) by (auto simp: bp_FetchPage_def)
    next
      case (Some i)
      obtain st pool1 e1 where ev: "evict_frame i dm pool e = (st, pool1, e1)" by (metis prod_cases3)
      have v: "i < length (bp_frames pool)" "fr_pin_count (bp_frames pool ! i) = 0"
        using VictimLocked_unpinned [OF Some] by simp_all
      note k = evict_keeps [OF assms(1) v ev, of p]
      show ?thesis
      proof (cases st)
        case (Some err)
        then show ?thesis using assms(2) None \<open>VictimLocked pool = Some i\<close> ok(1) ev k by (auto simp: bp_FetchPage_def)
      next
        case None': None
        have ld: "load_frame i p writable dm pool1 e1 = (res, pool', e')"
          using assms(2) None \<open>VictimLocked pool = Some i\<close> ok(1) ev None' by (simp add: bp_FetchPage_def)
        have pre: "pool_ok gs dm pool1 e1" "i < length (bp_frames pool1)" "frame_id pool1 i = kInvalidPageId"
          "bp_table pool1 p = None" using k v(1) None None' by simp_all
        have mem: "same_memory (pool_view dm pool1 e1) (pool_view dm pool e)" using k by blast
        show ?thesis
        proof (cases res)
          case (Inl err)
          then show ?thesis using load_keeps [OF pre ld] mem None pre(4) by simp
        next
          case (Inr g)
          then show ?thesis using load_keeps [OF pre ld] mem
            by (auto simp: new_guard_def intro: same_memory_trans)
        qed
      qed
    qed
  qed
qed

lemma guard_frame:
  assumes "pool_ok gs dm pool e" "g \<in> set gs"
  obtains i where "gd_page g = Some i" "bp_table pool (gd_page_id g) = Some i" "i < length (bp_frames pool)"
    "frame_id pool i = gd_page_id g" "gd_page_id g \<noteq> kInvalidPageId" "gd_manager g"
proof -
  obtain i where i: "gd_page g = Some i" "bp_table pool (gd_page_id g) = Some i" "gd_manager g"
    using pool_ok_D(4) [OF assms] by (auto simp: guard_ok_def)
  show ?thesis by (rule that) (use i table_ok_D [OF pool_ok_D(3) [OF assms(1)] i(2)] in simp_all)
qed

lemma write_keeps:
  assumes "pool_ok gs dm pool e" "g \<in> set gs" "gd_writable g" "length bs = kPageSize"
  shows "pool_ok gs dm (gd_write g bs pool) e"
    "pool_view dm (gd_write g bs pool) e = (pool_view dm pool e)(gd_page_id g \<mapsto> drop 4 bs)"
proof -
  obtain i where i: "gd_page g = Some i" "i < length (bp_frames pool)" "frame_id pool i = gd_page_id g"
    "gd_page_id g \<noteq> kInvalidPageId"
    using guard_frame [OF assms(1,2)] by metis
  let ?f = "bp_frames pool ! i"
  let ?new = "?f\<lparr>fr_page := (fr_page ?f)\<lparr>pg_bytes := bs\<rparr>\<rparr>"
  have w: "gd_write g bs pool = set_frame i ?new pool" using i(1) by (simp add: gd_write_def Let_def)
  have "g \<in> set (guards_on i gs)" using assms(2) i(1) by (simp add: guards_on_def)
  then have f: "frame_ok gs dm e i ?new"
    using pool_ok_D(5) [OF assms(1) i(2)] assms(3,4) by (auto simp: frame_ok_def)
  show "pool_ok gs dm (gd_write g bs pool) e"
    by (rule update_frame_ok [OF assms(1) i(2) _ f]) (auto simp: w)
  show "pool_view dm (gd_write g bs pool) e = (pool_view dm pool e)(gd_page_id g \<mapsto> drop 4 bs)"
    using pool_view_update [OF pool_ok_D(3) [OF assms(1)] i(2), of "set_frame i ?new pool" ?new dm e] i(3,4) by (simp add: w)
qed

lemma guards_on_remove1: "guards_on i (remove1 g gs) = (if gd_page g = Some i then remove1 g (guards_on i gs) else guards_on i gs)"
  by (simp add: guards_on_def filter_remove1 remove1_idem)

lemma drop_keeps:
  assumes "pool_ok gs dm pool e" "g \<in> set gs"
  shows "pool_ok (remove1 g gs) dm (snd (gd_Drop g pool)) e"
    "pool_view dm (snd (gd_Drop g pool)) e = pool_view dm pool e"
proof -
  obtain i where i: "gd_page g = Some i" "i < length (bp_frames pool)" "bp_table pool (gd_page_id g) = Some i" "gd_manager g"
    using guard_frame [OF assms(1,2)] by metis
  let ?f = "bp_frames pool ! i" and ?on = "guards_on i gs"
  let ?new = "?f\<lparr>fr_pin_count := (if fr_pin_count ?f > 0 then fr_pin_count ?f - 1 else fr_pin_count ?f),
      fr_dirty := fr_dirty ?f \<or> gd_writable g\<rparr>"
  have w: "snd (gd_Drop g pool) = set_frame i ?new pool"
    using i by (simp add: gd_Drop_def bp_Release_def Let_def)
  have on: "g \<in> set ?on" using assms(2) i(1) by (simp add: guards_on_def)
  have old: "frame_ok gs dm e i ?f" by (rule pool_ok_D(5) [OF assms(1) i(2)])
  have count: "fr_pin_count ?new = length (guards_on i (remove1 g gs))"
    using old on i(1) by (auto simp: frame_ok_def guards_on_remove1 length_remove1 length_pos_if_in_set)
  have "fr_dirty ?new \<or> (\<exists>h \<in> set (guards_on i (remove1 g gs)). gd_writable h) \<or> in_sync dm e (fr_page ?new)"
  proof -
    have "\<exists>h \<in> set (remove1 g ?on). gd_writable h" if "h \<in> set ?on" "gd_writable h" "\<not> gd_writable g" for h
    proof -
      have "h \<noteq> g" using that(2,3) by auto
      then show ?thesis using that(1,2) by (intro bexI [of _ h]) (simp_all add: in_set_remove1)
    qed
    then show ?thesis using old i(1) by (auto simp: frame_ok_def guards_on_remove1)
  qed
  then have f: "frame_ok (remove1 g gs) dm e i ?new" using old count by (simp add: frame_ok_def)
  show "pool_ok (remove1 g gs) dm (snd (gd_Drop g pool)) e"
    by (rule update_frame_ok [OF assms(1) i(2) _ f])
      (auto simp: w i(1) guards_on_remove1 dest: set_mp [OF set_remove1_subset])
  show "pool_view dm (snd (gd_Drop g pool)) e = pool_view dm pool e"
    by (rule pool_view_keep [OF pool_ok_D(3) [OF assms(1)] i(2), of ?new]) (simp_all add: w)
qed

lemma clean_keeps:
  assumes "pool_ok gs dm pool e" "i < length (bp_frames pool)" "in_sync dm e (fr_page (bp_frames pool ! i))"
  shows "pool_ok gs dm (set_frame i ((bp_frames pool ! i)\<lparr>fr_dirty := False\<rparr>) pool) e"
    "pool_view dm (set_frame i ((bp_frames pool ! i)\<lparr>fr_dirty := False\<rparr>) pool) e = pool_view dm pool e"
proof -
  let ?new = "(bp_frames pool ! i)\<lparr>fr_dirty := False\<rparr>"
  have f: "frame_ok gs dm e i ?new" using pool_ok_D(5) [OF assms(1,2)] assms(3) by (simp add: frame_ok_def)
  show "pool_ok gs dm (set_frame i ?new pool) e"
    by (rule update_frame_ok [OF assms(1,2) _ f]) simp_all
  show "pool_view dm (set_frame i ?new pool) e = pool_view dm pool e"
    by (rule pool_view_keep [OF pool_ok_D(3) [OF assms(1)] assms(2), of ?new]) simp_all
qed

text \<open>A page that agrees with the disk can be written again: a write that tears leaves the same bytes.\<close>

lemma overwrite_same:
  assumes "take (length img) (drop off bs) = img"
  shows "overwrite off (take m img) bs = bs"
proof (cases "take m img = []")
  case False
  let ?k = "length (take m img)"
  have "img \<noteq> []" using False by auto
  then have "0 < length (drop off bs)" using assms by (metis length_greater_0_conv take_Nil)
  then have off: "off < length bs" by simp
  have "take m img = take ?k (drop off bs)" using assms by (metis length_take min.commute take_take)
  then have "take m img @ drop (off + ?k) bs = drop off bs" by (metis add.commute append_take_drop_id drop_drop)
  then show ?thesis using False off by (simp add: overwrite_def)
qed (simp add: overwrite_def)

lemma disk_page_image:
  assumes "disk_stored dm e p = Some (drop 4 bs)" "length bs = kPageSize" "length (disk_page dm e p) = kPageSize"
  shows "disk_page dm e p = page_image p bs"
proof -
  let ?dp = "disk_page dm e p" and ?img = "page_image p bs"
  have d: "p \<noteq> kHeaderPageId" "LoadU32LE ?dp 0 = Crc32c (drop 4 ?dp)" "drop 4 ?dp = drop 4 bs"
    using assms(1) by (auto simp: disk_stored_def split: if_splits)
  note c = page_image_checks [OF assms(2) d(1)]
  have "take 4 ?dp = take 4 ?img"
    by (rule LoadU32LE_inj) (use assms c d in \<open>simp_all add: page_size_num\<close>)
  then show ?thesis using d(3) c(2) by (metis append_take_drop_id)
qed

lemma rewrite_same_page:
  assumes "dm_ready dm e" "disk_stored dm e p = Some (drop 4 (pg_bytes page))" "length (pg_bytes page) = kPageSize"
    and "dm_WritePage dm p page e = (st, e')"
  shows "disk_stored dm e' = disk_stored dm e"
proof -
  let ?n = "unat (dm_page_count dm)" and ?path = "dm_path dm" and ?img = "page_image p (pg_bytes page)"
  have r: "dm_open dm" "length (contents e ?path) = ?n * kPageSize" using assms(1) by (simp_all add: dm_ready_def)
  have ens: "EnsurePageLocked dm p = None" using assms(2) by (simp add: disk_stored_def split: if_splits)
  then have p: "unat p < ?n" using EnsurePage_iff word_less_nat_alt by metis
  have "length (disk_page dm e p) = kPageSize" using page_at_whole(2) [OF r(2) p] by (simp add: disk_page_def)
  then have img: "disk_page dm e p = ?img" by (rule disk_page_image [OF assms(2,3)])
  obtain io e1 where io: "next_io e = (io, e1)" by (metis prod.exhaust)
  define m where "m = (case io of IoOk _ \<Rightarrow> kPageSize | IoFail k _ \<Rightarrow> k)"
  have len: "length ?img = kPageSize" using assms(3) by simp
  have e': "e' = put_file ?path (overwrite (PageOffset p) (take m ?img) (contents e1 ?path)) e1"
    using assms(4) ens io r(1) len
    by (auto simp: dm_WritePage_def WritePageLocked_def dm_write_at_def write_at_def m_def split: io_outcome.splits)
  have c: "contents e1 ?path = contents e ?path" using contents_next_io [OF io] by simp
  have "overwrite (PageOffset p) (take m ?img) (contents e ?path) = contents e ?path"
    by (rule overwrite_same) (use img len in \<open>simp add: disk_page_def page_at_def\<close>)
  then have "contents e' ?path = contents e ?path" using c by (simp add: e')
  then show ?thesis by (simp add: fun_eq_iff disk_stored_def disk_page_def)
qed

lemma write_back_keeps:
  assumes "pool_ok gs dm pool e" "bp_table pool p = Some i"
    and "dm_WritePage dm p (fr_page (bp_frames pool ! i)) e = (st, e')"
  shows "pool_ok gs dm pool e'" "pool_view dm pool e' = pool_view dm pool e"
    "st = None \<Longrightarrow> in_sync dm e' (fr_page (bp_frames pool ! i))"
proof -
  let ?f = "bp_frames pool ! i"
  note k = write_cached [OF assms]
  note t = table_ok_D [OF pool_ok_D(3) [OF assms(1)] assms(2)]
  have old: "frame_ok gs dm e i ?f" by (rule pool_ok_D(5) [OF assms(1) t(2)])
  show "pool_view dm pool e' = pool_view dm pool e" "st = None \<Longrightarrow> in_sync dm e' (fr_page ?f)"
    by (rule k)+
  have "in_sync dm e' (fr_page ?f)" if "in_sync dm e (fr_page ?f)"
  proof (cases "p = kHeaderPageId")
    case False
    have stored: "disk_stored dm e p = Some (drop 4 (pg_bytes (fr_page ?f)))"
      using that False t by (simp add: in_sync_def)
    have len: "length (pg_bytes (fr_page ?f)) = kPageSize" using old by (simp add: frame_ok_def)
    show ?thesis using rewrite_same_page [OF pool_ok_D(2) [OF assms(1)] stored len assms(3)] that by (simp add: in_sync_def)
  qed (use t in \<open>simp add: in_sync_def\<close>)
  then have "frame_ok gs dm e' i ?f" using old unfolding frame_ok_def by blast
  then show "pool_ok gs dm pool e'" by (rule k(3))
qed

lemma flush_keeps:
  assumes "pool_ok gs dm pool e" "bp_FlushPage pool p e = Some (st, pool', e')"
  shows "pool_ok gs dm pool' e' \<and> pool_view dm pool' e' = pool_view dm pool e"
proof (cases "bp_table pool p")
  case None
  then show ?thesis using assms by (auto simp: bp_FlushPage_def)
next
  case (Some i)
  note ok = pool_ok_D [OF assms(1)] and t = table_ok_D [OF pool_ok_D(3) [OF assms(1)] Some]
  obtain st1 e1 where w: "dm_WritePage dm p (fr_page (bp_frames pool ! i)) e = (st1, e1)" by (metis prod.exhaust)
  have x: "st = st1" "e' = e1"
    "pool' = (if st1 = None then set_frame i ((bp_frames pool ! i)\<lparr>fr_dirty := False\<rparr>) pool else pool)"
    using assms(2) Some ok(1) w by (auto simp: bp_FlushPage_def Let_def split: option.splits)
  note k = write_back_keeps [OF assms(1) Some w]
  show ?thesis using x k clean_keeps [OF k(1) t(2) k(3)] by simp
qed

lemma flush_frames_keeps:
  assumes "pool_ok gs dm pool e" "set is \<subseteq> {..<length (bp_frames pool)}" "flush_frames is pool e = Some (st, pool', e')"
  shows "pool_ok gs dm pool' e' \<and> pool_view dm pool' e' = pool_view dm pool e \<and>
    length (bp_frames pool') = length (bp_frames pool) \<and>
    (\<forall>j. fr_dirty (bp_frames pool' ! j) \<longrightarrow> fr_dirty (bp_frames pool ! j)) \<and>
    (st = None \<longrightarrow> (\<forall>j \<in> set is. frame_id pool' j = kInvalidPageId \<or> \<not> fr_dirty (bp_frames pool' ! j))) \<and>
    (\<forall>j. frame_id pool' j = frame_id pool j)"
  using assms
proof (induction "is" pool e rule: flush_frames.induct)
  case (2 i "is" pool e)
  let ?f = "bp_frames pool ! i" and ?p = "frame_id pool i"
  note ok = pool_ok_D [OF 2(3)]
  have i: "i < length (bp_frames pool)" using 2(4) by simp
  have sub: "set is \<subseteq> {..<length (bp_frames pool)}" using 2(4) by simp
  show ?case
  proof (cases "?p \<noteq> kInvalidPageId \<and> fr_dirty ?f")
    case False
    then have run: "flush_frames is pool e = Some (st, pool', e')" using 2(5) by (auto simp: Let_def)
    note IH = 2(2) [OF refl False 2(3) sub run]
    show ?thesis using IH False by (auto simp: Let_def)
  next
    case True
    then have t: "bp_table pool ?p = Some i" using table_ok_I [OF ok(3) i] by simp
    obtain st1 e1 where w: "dm_WritePage dm ?p (fr_page ?f) e = (st1, e1)" by (metis prod.exhaust)
    note k = write_back_keeps [OF 2(3) t w]
    show ?thesis
    proof (cases st1)
      case (Some err)
      then have "st = Some err" "pool' = pool" "e' = e1" using 2(5) True ok(1) w by (auto simp: Let_def)
      then show ?thesis using k True by simp
    next
      case None
      let ?pool = "set_frame i (?f\<lparr>fr_dirty := False\<rparr>) pool"
      have run: "flush_frames is ?pool e1 = Some (st, pool', e')" using 2(5) True ok(1) w None by (simp add: Let_def)
      have c: "in_sync dm e1 (fr_page ?f)" using k(3) True None by simp
      note ck = clean_keeps [OF k(1) i c]
      have ok': "pool_ok gs dm ?pool e1" using ck(1) True by simp
      have sub': "set is \<subseteq> {..<length (bp_frames ?pool)}" using sub by simp
      note IH = 2(1) [OF refl True ok(1) w [symmetric] None ok' sub' run]
      have f: "bp_frames ?pool ! j = (if j = i then ?f\<lparr>fr_dirty := False\<rparr> else bp_frames pool ! j)" for j
        using i by (simp add: nth_set_frame)
      have "pool_view dm pool' e' = pool_view dm pool e" using IH ck(2) k(2) True by simp
      moreover have "frame_id pool' j = frame_id pool j" for j using IH f [of j] by (cases "j = i") simp_all
      moreover have "fr_dirty (bp_frames pool' ! j) \<longrightarrow> fr_dirty (bp_frames pool ! j)" for j
        using IH f [of j] True by (cases "j = i") auto
      moreover have "\<not> fr_dirty (bp_frames pool' ! i)" using IH f [of i] by auto
      ultimately show ?thesis using IH by auto
    qed
  qed
qed simp

text \<open>The disk manager moves on while the page it works on is not cached.\<close>

lemma change_disk:
  assumes "pool_ok gs dm pool e" "bp_table pool p = None" "dm_ready dm' e'"
    and "\<And>q. q \<noteq> p \<Longrightarrow> disk_stored dm' e' q = disk_stored dm e q"
  shows "pool_ok gs dm' (pool\<lparr>bp_disk := Some dm'\<rparr>) e'"
    "q \<noteq> p \<Longrightarrow> pool_view dm' (pool\<lparr>bp_disk := Some dm'\<rparr>) e' q = pool_view dm pool e q"
    "pool_view dm' (pool\<lparr>bp_disk := Some dm'\<rparr>) e' p = disk_stored dm' e' p"
proof -
  note ok = pool_ok_D [OF assms(1)]
  have "frame_ok gs dm' e' i (bp_frames pool ! i)" if i: "i < length (bp_frames pool)" for i
  proof -
    have "frame_id pool i = kInvalidPageId \<or> frame_id pool i \<noteq> p" using table_ok_I [OF ok(3) i] assms(2) by auto
    then show ?thesis using ok(5) [OF i] assms(4) by (auto simp: frame_ok_def in_sync_def)
  qed
  then show "pool_ok gs dm' (pool\<lparr>bp_disk := Some dm'\<rparr>) e'"
    using ok(3,4) assms(3) by (simp add: pool_ok_def table_ok_def guard_ok_def)
  show "pool_view dm' (pool\<lparr>bp_disk := Some dm'\<rparr>) e' q = pool_view dm pool e q" if "q \<noteq> p"
    using assms(4) [OF that] by (simp add: pool_view_def split: option.split)
  show "pool_view dm' (pool\<lparr>bp_disk := Some dm'\<rparr>) e' p = disk_stored dm' e' p"
    using assms(2) by (simp add: pool_view_def)
qed

lemma free_on_disk_keeps:
  assumes "pool_ok gs dm pool e" "bp_table pool p = None" "free_on_disk pool p e = Some (st, pool', e')"
  shows "\<exists>dm'. pool_ok gs dm' pool' e' \<and> bp_table pool' p = None \<and>
    (\<forall>q. q \<noteq> p \<longrightarrow> pool_view dm' pool' e' q = pool_view dm pool e q)"
proof -
  note ok = pool_ok_D [OF assms(1)]
  obtain st1 dm1 e1 where fr: "dm_FreePage dm p e = (st1, dm1, e1)" by (metis prod_cases3)
  have x: "pool' = pool\<lparr>bp_disk := Some dm1\<rparr>" "e' = e1" using assms(3) ok(1) fr by (simp_all add: free_on_disk_def)
  have k: "dm_ready dm1 e1" "\<And>q. q \<noteq> p \<Longrightarrow> disk_stored dm1 e1 q = disk_stored dm e q"
    using dm_FreePage_keeps [OF ok(2) fr] by blast+
  show ?thesis using change_disk [OF assms(1,2) k] x assms(2) by auto
qed

lemma delete_keeps:
  assumes "pool_ok gs dm pool e" "bp_DeletePage pool p e = Some (st, pool', e')"
  shows "if p \<in> gd_page_id ` set gs then st \<noteq> None \<and> pool' = pool \<and> e' = e
    else \<exists>dm'. pool_ok gs dm' pool' e' \<and> bp_table pool' p = None \<and>
      (\<forall>q. q \<noteq> p \<longrightarrow> pool_view dm' pool' e' q = pool_view dm pool e q)"
proof (cases "bp_table pool p")
  case None
  have "p \<notin> gd_page_id ` set gs"
    using pool_ok_D(4) [OF assms(1)] None by (force simp: guard_ok_def)
  moreover have "free_on_disk pool p e = Some (st, pool', e')" using assms(2) None by (simp add: bp_DeletePage_def)
  ultimately show ?thesis using free_on_disk_keeps [OF assms(1) None] by simp
next
  case (Some i)
  let ?f = "bp_frames pool ! i"
  note ok = pool_ok_D [OF assms(1)] and t = table_ok_D [OF pool_ok_D(3) [OF assms(1)] Some]
  show ?thesis
  proof (cases "fr_pin_count ?f = 0")
    case False
    then have "guards_on i gs \<noteq> []" using ok(5) [OF t(2)] by (auto simp: frame_ok_def)
    then obtain g where g: "g \<in> set gs" "gd_page g = Some i" by (auto simp: guards_on_def filter_empty_conv)
    then have "bp_table pool (gd_page_id g) = Some i" using ok(4) by (auto simp: guard_ok_def)
    then have "gd_page_id g = p" using table_ok_D(3) [OF ok(3)] t(3) by metis
    then have "p \<in> gd_page_id ` set gs" using g(1) by blast
    then show ?thesis using assms(2) Some False by (auto simp: bp_DeletePage_def Let_def)
  next
    case True
    let ?new = "?f\<lparr>fr_page := Page_Reset (fr_page ?f), fr_dirty := False\<rparr>"
    let ?pool = "set_frame i ?new (pool\<lparr>bp_table := (bp_table pool)(p := None)\<rparr>)"
    have "guards_on i gs = []" using ok(5) [OF t(2)] True by (simp add: frame_ok_def)
    then have none: "p \<notin> gd_page_id ` set gs"
      using ok(4) Some by (auto simp: guard_ok_def guards_on_def filter_empty_conv)
    have d: "pool_ok gs dm ?pool e" "pool_view dm ?pool e = (pool_view dm pool e)(p := disk_stored dm e p)"
      using drop_cached [OF assms(1) Some True, of ?new ?pool] True by simp_all
    have fr: "free_on_disk ?pool p e = Some (st, pool', e')"
      using assms(2) Some True by (simp add: bp_DeletePage_def Let_def)
    have "bp_table ?pool p = None" by simp
    from free_on_disk_keeps [OF d(1) this fr] obtain dm' where
      "pool_ok gs dm' pool' e'" "bp_table pool' p = None" "\<forall>q. q \<noteq> p \<longrightarrow> pool_view dm' pool' e' q = pool_view dm ?pool e q"
      by blast
    then show ?thesis using d(2) none by auto
  qed
qed

text \<open>The contents of a page that was just allocated.\<close>

definition fresh_page :: "page_id_t \<Rightarrow> bytes" where
  "fresh_page p = drop 4 (pg_bytes (free_page p kInvalidPageId))"

lemma new_keeps:
  assumes "pool_ok gs dm pool e" "bp_NewPage pool out e = (Inr g, out', pool', e')" "bp_table pool (gd_page_id g) = None"
  shows "\<exists>dm'. pool_ok (g # gs) dm' pool' e' \<and>
    same_memory (pool_view dm' pool' e') ((pool_view dm pool e)(gd_page_id g \<mapsto> fresh_page (gd_page_id g))) \<and>
    out' = Some (gd_page_id g) \<and> gd_writable g"
proof -
  note ok = pool_ok_D [OF assms(1)]
  obtain p dm1 e1 where al: "dm_AllocatePage dm e = (Inr p, dm1, e1)"
    and fe: "bp_FetchPage (pool\<lparr>bp_disk := Some dm1\<rparr>) p True e1 = (Inr g, pool', e')" and o': "out' = Some p"
    using assms(2) ok(1) by (auto simp: bp_NewPage_def split: option.splits prod.splits sum.splits)
  have k: "dm_ready dm1 e1" "\<And>q. q \<noteq> p \<Longrightarrow> disk_stored dm1 e1 q = disk_stored dm e q"
    "p \<noteq> kHeaderPageId \<Longrightarrow> disk_stored dm1 e1 p = Some (fresh_page p)"
    using dm_AllocatePage_keeps [OF ok(2) al] unfolding fresh_page_def by blast+
  have gp: "gd_page_id g = p"
  proof (cases "bp_table pool p")
    case (Some i)
    then show ?thesis using fe by (auto simp: bp_FetchPage_def new_guard_def)
  next
    case None
    note c = change_disk(1) [OF assms(1) None k(1,2)]
    show ?thesis using fetch_keeps [OF c fe] by simp
  qed
  have none: "bp_table pool p = None" using assms(3) gp by simp
  note c = change_disk [OF assms(1) none k(1,2)]
  note f = fetch_keeps [OF c(1) fe]
  let ?view = "pool_view dm1 (pool\<lparr>bp_disk := Some dm1\<rparr>) e1"
  have "same_memory ?view ((pool_view dm pool e)(p \<mapsto> fresh_page p))"
    using c(2,3) k(3) by (simp add: same_memory_def)
  then have "same_memory (pool_view dm1 pool' e') ((pool_view dm pool e)(p \<mapsto> fresh_page p))"
    using f by (blast intro: same_memory_trans)
  then show ?thesis using f gp o' by auto
qed

text \<open>A page that was deleted and fetched again is still cached when its number is handed out again.
  The new guard shows the cached bytes.\<close>

lemma change_disk_held:
  assumes "pool_ok gs dm pool e" "bp_table pool p = Some i" "g \<in> set gs" "gd_page g = Some i" "gd_writable g"
    and "dm_ready dm' e'" "\<And>q. q \<noteq> p \<Longrightarrow> disk_stored dm' e' q = disk_stored dm e q"
  shows "pool_ok gs dm' (pool\<lparr>bp_disk := Some dm'\<rparr>) e'"
    "pool_view dm' (pool\<lparr>bp_disk := Some dm'\<rparr>) e' = pool_view dm pool e"
proof -
  note ok = pool_ok_D [OF assms(1)] and t = table_ok_D [OF pool_ok_D(3) [OF assms(1)] assms(2)]
  have held: "g \<in> set (guards_on i gs)" using assms(3,4) by (simp add: guards_on_def)
  have "frame_ok gs dm' e' j (bp_frames pool ! j)" if j: "j < length (bp_frames pool)" for j
  proof (cases "j = i")
    case True
    then show ?thesis using ok(5) [OF j] held assms(5) by (auto simp: frame_ok_def)
  next
    case False
    have "frame_id pool j = kInvalidPageId \<or> frame_id pool j \<noteq> p"
      using table_ok_I [OF ok(3) j] assms(2) False by auto
    then show ?thesis using ok(5) [OF j] assms(7) by (auto simp: frame_ok_def in_sync_def)
  qed
  then show "pool_ok gs dm' (pool\<lparr>bp_disk := Some dm'\<rparr>) e'"
    using ok(3,4) assms(6) by (simp add: pool_ok_def table_ok_def guard_ok_def)
  show "pool_view dm' (pool\<lparr>bp_disk := Some dm'\<rparr>) e' = pool_view dm pool e"
  proof (rule ext)
    fix q show "pool_view dm' (pool\<lparr>bp_disk := Some dm'\<rparr>) e' q = pool_view dm pool e q"
      using assms(2,7) by (cases "q = p") (simp_all add: pool_view_def split: option.split)
  qed
qed

lemma new_cached_keeps:
  assumes "pool_ok gs dm pool e" "bp_NewPage pool out e = (Inr g, out', pool', e')" "bp_table pool (gd_page_id g) = Some i"
  shows "\<exists>dm'. pool_ok (g # gs) dm' pool' e' \<and> pool_view dm' pool' e' = pool_view dm pool e"
proof -
  note ok = pool_ok_D [OF assms(1)]
  obtain p dm1 e1 where al: "dm_AllocatePage dm e = (Inr p, dm1, e1)"
    and fe: "bp_FetchPage (pool\<lparr>bp_disk := Some dm1\<rparr>) p True e1 = (Inr g, pool', e')" and o': "out' = Some p"
    using assms(2) ok(1) by (auto simp: bp_NewPage_def split: option.splits prod.splits sum.splits)
  have k: "dm_ready dm1 e1" "\<And>q. q \<noteq> p \<Longrightarrow> disk_stored dm1 e1 q = disk_stored dm e q"
    using dm_AllocatePage_keeps [OF ok(2) al] by blast+
  have gp: "gd_page_id g = p"
  proof (cases "bp_table pool p")
    case (Some i)
    then show ?thesis using fe by (auto simp: bp_FetchPage_def new_guard_def)
  next
    case None
    note c = change_disk(1) [OF assms(1) None k(1,2)]
    show ?thesis using fetch_keeps [OF c fe] by simp
  qed
  then have some: "bp_table pool p = Some i" using assms(3) by simp
  have x: "g = new_guard p i True" "pool' = (pin_frame i pool)\<lparr>bp_disk := Some dm1\<rparr>" "e' = e1"
    using fe some by (cases pool, auto simp: bp_FetchPage_def pin_frame_def set_frame_def Let_def)+
  note pin = pin_keeps [OF assms(1) some, of True]
  have "bp_table (pin_frame i pool) p = Some i" using some by (simp add: pin_frame_def set_frame_def Let_def)
  from change_disk_held [OF conjunct1 [OF pin] this _ _ _ k, of "new_guard p i True"]
  show ?thesis using pin x by (auto simp: new_guard_def)
qed

text \<open>A new page that could not be allocated, and one that found no frame and is given back.\<close>

lemma new_fails_keeps:
  assumes "pool_ok gs dm pool e" "dm_AllocatePage dm e = (Inr p, dm1, e1)"
    and "bp_NewPage pool (Some q) e = (Inl err, out', pool', e')"
  shows "\<exists>dm'. pool_ok gs dm' pool' e' \<and> bp_table pool' p = None \<and>
    (\<forall>q. q \<noteq> p \<and> q \<noteq> kHeaderPageId \<longrightarrow> pool_view dm' pool' e' q = pool_view dm pool e q)"
proof -
  note ok = pool_ok_D [OF assms(1)]
  obtain pool2 e2 st dm3 e3 where fe: "bp_FetchPage (pool\<lparr>bp_disk := Some dm1\<rparr>) p True e1 = (Inl err, pool2, e2)"
    and fr: "dm_FreePage dm1 p e2 = (st, dm3, e3)" and x: "pool' = pool2\<lparr>bp_disk := Some dm3\<rparr>" "e' = e3"
    using assms(2,3) ok(1) by (auto simp: bp_NewPage_def split: prod.splits sum.splits)
  have none: "bp_table pool p = None" using fe by (cases "bp_table pool p") (simp_all add: bp_FetchPage_def)
  have k: "dm_ready dm1 e1" "\<And>q. q \<noteq> p \<Longrightarrow> disk_stored dm1 e1 q = disk_stored dm e q"
    using dm_AllocatePage_keeps [OF ok(2) assms(2)] by blast+
  note c = change_disk [OF assms(1) none k]
  note f = fetch_keeps [OF c(1) fe, simplified]
  have ok2: "pool_ok gs dm1 pool2 e2" "bp_table pool2 p = None" using f by simp_all
  have k3: "dm_ready dm3 e3" "\<And>q. q \<noteq> p \<Longrightarrow> disk_stored dm3 e3 q = disk_stored dm1 e2 q"
    using dm_FreePage_keeps [OF pool_ok_D(2) [OF ok2(1)] fr] by blast+
  have c3: "pool_ok gs dm3 pool' e'" "\<And>r. r \<noteq> p \<Longrightarrow> pool_view dm3 pool' e' r = pool_view dm1 pool2 e2 r"
    using change_disk [OF ok2 k3] x by blast+
  have "pool_view dm3 pool' e' r = pool_view dm pool e r" if "r \<noteq> p" "r \<noteq> kHeaderPageId" for r
    using c3(2) [OF that(1)] c(2) that f unfolding same_memory_def by metis
  then show ?thesis using c3(1) ok2(2) x by auto
qed

lemma allocation_fails_keeps:
  assumes "pool_ok gs dm pool e" "dm_AllocatePage dm e = (Inl err, dm1, e1)" "bp_table pool (next_page dm) = None"
    and "dm_ready dm1 e1" "bp_NewPage pool (Some q) e = (res, out', pool', e')"
  shows "pool_ok gs dm1 pool' e' \<and> bp_table pool' (next_page dm) = None \<and>
    (\<forall>q. q \<noteq> next_page dm \<longrightarrow> pool_view dm1 pool' e' q = pool_view dm pool e q)"
proof -
  note ok = pool_ok_D [OF assms(1)]
  have x: "pool' = pool\<lparr>bp_disk := Some dm1\<rparr>" "e' = e1" using assms(2,5) ok(1) by (simp_all add: bp_NewPage_def)
  note k = dm_AllocatePage_fails_keeps [OF ok(2) assms(2,4)]
  show ?thesis using change_disk [OF assms(1,3,4) k] x assms(3) by simp
qed

lemma gd_assign_shape: "gd_assign h g pool = (k, src, pool') \<Longrightarrow> k = g \<and> pool' = snd (gd_Drop h pool)"
  by (auto simp: gd_assign_def)

section \<open>Runs of the pool\<close>

text \<open>What the clients of a pool do, with failing calls of the disk on the way. \<open>M\<close> is the memory they
  see: it changes where a writable guard is written, where a page is created, and at the page of a
  deletion or of a creation that failed: its cached bytes are gone, also when the deletion reports an
  error, and what the disk has takes their place. Two failures of an allocation are left out: the one
  that leaves half a page at the end of the file, and the one that takes from the free list a page
  that a client fetched after its deletion. \<^verbatim>\<open>UnpinPage\<close>, which gives back the pin of a guard behind
  its back, is no step of a client with guards.\<close>

inductive pool_run :: "(page_id_t \<Rightarrow> bytes option) \<Rightarrow> PageGuard list \<Rightarrow> BufferPool \<Rightarrow> env \<Rightarrow> bool" where
  start: "dm_ready dm e \<Longrightarrow> pool_run (disk_stored dm e) [] (new_BufferPool n (Some dm)) e"
| fetch: "pool_run M gs pool e \<Longrightarrow> bp_FetchPage pool p w e = (Inr g, pool', e') \<Longrightarrow> pool_run M (g # gs) pool' e'"
| fetch_fails: "pool_run M gs pool e \<Longrightarrow> bp_FetchPage pool p w e = (Inl err, pool', e') \<Longrightarrow> pool_run M gs pool' e'"
| write_page: "pool_run M gs pool e \<Longrightarrow> g \<in> set gs \<Longrightarrow> gd_writable g \<Longrightarrow> length bs = kPageSize \<Longrightarrow>
    pool_run (M(gd_page_id g \<mapsto> drop 4 bs)) gs (gd_write g bs pool) e"
| drop_guard: "pool_run M gs pool e \<Longrightarrow> g \<in> set gs \<Longrightarrow> pool_run M (remove1 g gs) (snd (gd_Drop g pool)) e"
| assign: "pool_run M gs pool e \<Longrightarrow> h \<in> set gs \<Longrightarrow> g \<in> set (remove1 h gs) \<Longrightarrow>
    gd_assign h g pool = (k, src, pool') \<Longrightarrow> pool_run M (k # remove1 g (remove1 h gs)) pool' e"
| flush: "pool_run M gs pool e \<Longrightarrow> bp_FlushPage pool p e = Some (st, pool', e') \<Longrightarrow> pool_run M gs pool' e'"
| flush_all: "pool_run M gs pool e \<Longrightarrow> bp_FlushAllPages pool e = Some (st, pool', e') \<Longrightarrow> pool_run M gs pool' e'"
| new: "pool_run M gs pool e \<Longrightarrow> bp_NewPage pool out e = (Inr g, out', pool', e') \<Longrightarrow>
    bp_table pool (gd_page_id g) = None \<Longrightarrow>
    pool_run (M(gd_page_id g \<mapsto> fresh_page (gd_page_id g))) (g # gs) pool' e'"
| new_cached: "pool_run M gs pool e \<Longrightarrow> bp_NewPage pool out e = (Inr g, out', pool', e') \<Longrightarrow>
    bp_table pool (gd_page_id g) = Some i \<Longrightarrow> pool_run M (g # gs) pool' e'"
| new_null: "pool_run M gs pool e \<Longrightarrow> bp_NewPage pool None e = (res, out', pool', e') \<Longrightarrow> pool_run M gs pool' e'"
| new_fails: "pool_run M gs pool e \<Longrightarrow> dm_AllocatePage (the (bp_disk pool)) e = (Inr p, dm1, e1) \<Longrightarrow>
    bp_NewPage pool (Some q) e = (Inl err, out', pool', e') \<Longrightarrow>
    pool_run (M(p := disk_stored (the (bp_disk pool')) e' p)) gs pool' e'"
| allocation_fails: "pool_run M gs pool e \<Longrightarrow> bp_disk pool = Some dm \<Longrightarrow> dm_AllocatePage dm e = (Inl err, dm1, e1) \<Longrightarrow>
    bp_table pool (next_page dm) = None \<Longrightarrow> dm_ready dm1 e1 \<Longrightarrow>
    bp_NewPage pool (Some q) e = (res, out', pool', e') \<Longrightarrow>
    pool_run (M(next_page dm := disk_stored dm1 e' (next_page dm))) gs pool' e'"
| delete: "pool_run M gs pool e \<Longrightarrow> bp_DeletePage pool p e = Some (st, pool', e') \<Longrightarrow> p \<notin> gd_page_id ` set gs \<Longrightarrow>
    pool_run (M(p := disk_stored (the (bp_disk pool')) e' p)) gs pool' e'"
| delete_refused: "pool_run M gs pool e \<Longrightarrow> bp_DeletePage pool p e = Some (st, pool', e') \<Longrightarrow> p \<in> gd_page_id ` set gs \<Longrightarrow>
    pool_run M gs pool' e'"

lemma pool_ok_start: "dm_ready dm e \<Longrightarrow> pool_ok [] dm (new_BufferPool n (Some dm)) e"
  by (auto simp: pool_ok_def new_BufferPool_def table_ok_def frame_ok_def guards_on_def in_sync_def
      new_Frame_def new_Page_def)

lemma guard_lists:
  assumes "g \<in> set gs"
  shows "length (guards_on i (g # remove1 g gs)) = length (guards_on i gs)"
    "set (guards_on i (g # remove1 g gs)) = set (guards_on i gs)" "set (g # remove1 g gs) = set gs"
proof -
  have all: "mset (g # remove1 g gs) = mset gs" using assms by simp
  then have on: "mset (guards_on i (g # remove1 g gs)) = mset (guards_on i gs)"
    unfolding guards_on_def mset_filter by simp
  show "length (guards_on i (g # remove1 g gs)) = length (guards_on i gs)"
    "set (guards_on i (g # remove1 g gs)) = set (guards_on i gs)" "set (g # remove1 g gs) = set gs"
    by (rule mset_eq_length [OF on], rule mset_eq_setD [OF on], rule mset_eq_setD [OF all])
qed

lemma pool_ok_reorder: "g \<in> set gs \<Longrightarrow> pool_ok gs dm pool e \<Longrightarrow> pool_ok (g # remove1 g gs) dm pool e"
  unfolding pool_ok_def frame_ok_def guard_lists .

lemma uncached_view: "bp_table pool p = None \<Longrightarrow> pool_view dm pool e p = disk_stored dm e p"
  by (simp add: pool_view_def)

lemma pool_run_shows:
  assumes "pool_run M gs pool e"
  shows "pool_shows M gs pool e"
  using assms
proof (induction rule: pool_run.induct)
  case (start dm e n)
  have "pool_view dm (new_BufferPool n (Some dm)) e = disk_stored dm e"
    by (simp add: pool_view_def new_BufferPool_def fun_eq_iff)
  then show ?case using pool_showsI [OF pool_ok_start [OF start, of n], of "disk_stored dm e"] by simp
next
  case (fetch M gs pool e p w g pool' e')
  then obtain dm where d: "pool_ok gs dm pool e" "same_memory (pool_view dm pool e) M" by (auto simp: pool_shows_def)
  show ?case using fetch_keeps [OF d(1) fetch.hyps(2)] d(2) by (auto intro: pool_showsI same_memory_trans)
next
  case (fetch_fails M gs pool e p w err pool' e')
  then obtain dm where d: "pool_ok gs dm pool e" "same_memory (pool_view dm pool e) M" by (auto simp: pool_shows_def)
  show ?case using fetch_keeps [OF d(1) fetch_fails.hyps(2)] d(2) by (auto intro: pool_showsI same_memory_trans)
next
  case (write_page M gs pool e g bs)
  then obtain dm where d: "pool_ok gs dm pool e" "same_memory (pool_view dm pool e) M" by (auto simp: pool_shows_def)
  note k = write_keeps [OF d(1) write_page.hyps(2-4)]
  show ?case by (rule pool_showsI [OF k(1)]) (use k(2) d(2) in \<open>simp add: same_memory_def\<close>)
next
  case (drop_guard M gs pool e g)
  then obtain dm where d: "pool_ok gs dm pool e" "same_memory (pool_view dm pool e) M" by (auto simp: pool_shows_def)
  note k = drop_keeps [OF d(1) drop_guard.hyps(2)]
  show ?case by (rule pool_showsI [OF k(1)]) (use k(2) d(2) in simp)
next
  case (assign M gs pool e h g k src pool')
  then obtain dm where d: "pool_ok gs dm pool e" "same_memory (pool_view dm pool e) M" by (auto simp: pool_shows_def)
  have x: "k = g" "pool' = snd (gd_Drop h pool)" using gd_assign_shape [OF assign.hyps(4)] by simp_all
  note dk = drop_keeps [OF d(1) assign.hyps(2)]
  show ?case unfolding x
    by (rule pool_showsI [OF pool_ok_reorder [OF assign.hyps(3) dk(1)]]) (use dk(2) d(2) in simp)
next
  case (flush M gs pool e p st pool' e')
  then obtain dm where d: "pool_ok gs dm pool e" "same_memory (pool_view dm pool e) M" by (auto simp: pool_shows_def)
  show ?case using flush_keeps [OF d(1) flush.hyps(2)] d(2) by (auto intro: pool_showsI)
next
  case (flush_all M gs pool e st pool' e')
  then obtain dm where d: "pool_ok gs dm pool e" "same_memory (pool_view dm pool e) M" by (auto simp: pool_shows_def)
  have "set [0..<length (bp_frames pool)] \<subseteq> {..<length (bp_frames pool)}" by auto
  from flush_frames_keeps [OF d(1) this flush_all.hyps(2) [unfolded bp_FlushAllPages_def]]
  show ?case using d(2) by (auto intro: pool_showsI)
next
  case (new M gs pool e out g out' pool' e')
  then obtain dm where d: "pool_ok gs dm pool e" "same_memory (pool_view dm pool e) M" by (auto simp: pool_shows_def)
  obtain dm' where k: "pool_ok (g # gs) dm' pool' e'"
    "same_memory (pool_view dm' pool' e') ((pool_view dm pool e)(gd_page_id g \<mapsto> fresh_page (gd_page_id g)))"
    using new_keeps [OF d(1) new.hyps(2,3)] by blast
  show ?case by (rule pool_showsI [OF k(1)]) (use k(2) d(2) in \<open>simp add: same_memory_def\<close>)
next
  case (new_cached M gs pool e out g out' pool' e' i)
  then obtain dm where d: "pool_ok gs dm pool e" "same_memory (pool_view dm pool e) M" by (auto simp: pool_shows_def)
  show ?case using new_cached_keeps [OF d(1) new_cached.hyps(2,3)] d(2) by (auto intro: pool_showsI)
next
  case (new_null M gs pool e res out' pool' e')
  then show ?case by (simp add: bp_NewPage_def)
next
  case (new_fails M gs pool e p dm1 e1 q err out' pool' e')
  then obtain dm where d: "pool_ok gs dm pool e" "same_memory (pool_view dm pool e) M" by (auto simp: pool_shows_def)
  have al: "dm_AllocatePage dm e = (Inr p, dm1, e1)" using new_fails.hyps(2) pool_ok_D(1) [OF d(1)] by simp
  obtain dm' where k: "pool_ok gs dm' pool' e'" "bp_table pool' p = None"
    "\<forall>q. q \<noteq> p \<and> q \<noteq> kHeaderPageId \<longrightarrow> pool_view dm' pool' e' q = pool_view dm pool e q"
    using new_fails_keeps [OF d(1) al new_fails.hyps(3)] by blast
  show ?case
    by (rule pool_showsI [OF k(1)]) (use k(2,3) d(2) pool_ok_D(1) [OF k(1)] in \<open>simp add: same_memory_def uncached_view\<close>)
next
  case (allocation_fails M gs pool e dm err dm1 e1 q res out' pool' e')
  then obtain dm' where d: "pool_ok gs dm' pool e" "same_memory (pool_view dm' pool e) M" by (auto simp: pool_shows_def)
  have "dm' = dm" using allocation_fails.hyps(2) pool_ok_D(1) [OF d(1)] by simp
  note k = allocation_fails_keeps [OF d(1) [unfolded this] allocation_fails.hyps(3-6)]
  show ?case
    by (rule pool_showsI [OF conjunct1 [OF k]]) (use k d(2) \<open>dm' = dm\<close> in \<open>simp add: same_memory_def uncached_view\<close>)
next
  case (delete M gs pool e p st pool' e')
  then obtain dm where d: "pool_ok gs dm pool e" "same_memory (pool_view dm pool e) M" by (auto simp: pool_shows_def)
  obtain dm' where k: "pool_ok gs dm' pool' e'" "bp_table pool' p = None"
    "\<forall>q. q \<noteq> p \<longrightarrow> pool_view dm' pool' e' q = pool_view dm pool e q"
    using delete_keeps [OF d(1) delete.hyps(2)] delete.hyps(3) by auto
  show ?case
    by (rule pool_showsI [OF k(1)]) (use k(2,3) d(2) pool_ok_D(1) [OF k(1)] in \<open>simp add: same_memory_def uncached_view\<close>)
next
  case (delete_refused M gs pool e p st pool' e')
  then obtain dm where d: "pool_ok gs dm pool e" by (auto simp: pool_shows_def)
  show ?case using delete_keeps [OF d delete_refused.hyps(2)] delete_refused by auto
qed

lemma flush_all_stores:
  assumes "pool_ok gs dm pool e" "same_memory (pool_view dm pool e) M" "bp_FlushAllPages pool e = Some (None, pool', e')"
    and "\<forall>g \<in> set gs. \<not> gd_writable g"
  shows "bp_disk pool' = Some dm" "same_memory (disk_stored dm e') M"
proof -
  let ?n = "length (bp_frames pool)"
  have "set [0..<?n] \<subseteq> {..<?n}" by auto
  note k = flush_frames_keeps [OF assms(1) this assms(3) [unfolded bp_FlushAllPages_def]]
  then have ok: "pool_ok gs dm pool' e'" and len: "length (bp_frames pool') = ?n" by blast+
  show "bp_disk pool' = Some dm" using pool_ok_D(1) [OF ok] .
  have "disk_stored dm e' q = pool_view dm pool' e' q" if "q \<noteq> kHeaderPageId" for q
  proof (cases "bp_table pool' q")
    case (Some i)
    note t = table_ok_D [OF pool_ok_D(3) [OF ok] Some]
    have "\<not> fr_dirty (bp_frames pool' ! i)" using k t len by auto
    then have "in_sync dm e' (fr_page (bp_frames pool' ! i))"
      using pool_ok_D(5) [OF ok t(2)] assms(4) by (auto simp: frame_ok_def guards_on_def)
    then show ?thesis using t that Some by (simp add: in_sync_def pool_view_def)
  qed (simp add: pool_view_def)
  then show "same_memory (disk_stored dm e') M" using k assms(2) by (simp add: same_memory_def)
qed

lemma fetch_keeps_size:
  assumes "bp_FetchPage pool p w e = (res, pool', e')"
  shows "bp_Size pool' = bp_Size pool"
proof -
  have ev: "length (bp_frames pool') = length (bp_frames pool)" if "evict_frame i dm pool e = (st, pool', e')"
    for i dm pool e st pool' e'
    using that by (auto simp: evict_frame_def Let_def split: if_splits option.splits prod.splits)
  have ld: "length (bp_frames pool') = length (bp_frames pool)" if "load_frame i p w dm pool e = (res, pool', e')"
    for i dm pool e pool' e'
    using that by (auto simp: load_frame_def Let_def split: option.splits prod.splits)
  have pin: "length (bp_frames (pin_frame i pool)) = length (bp_frames pool)" for i
    by (simp add: pin_frame_def Let_def)
  show ?thesis using assms pin
    by (auto simp: bp_FetchPage_def bp_Size_def dest!: ev ld split: option.splits prod.splits)
qed

section \<open>Properties\<close>

text \<open>A page that was allocated on a fresh disk, and a pool of one frame.\<close>

lemma sample_fetch:
  "\<exists>dm e g pool e'. dm_ready dm e \<and> disk_stored dm e 1 = Some (fresh_page 1) \<and>
     bp_FetchPage (new_BufferPool 1 (Some dm)) 1 True e = (Inr g, pool, e')"
proof -
  obtain res dm e where al: "dm_AllocatePage (fst sample_disk) (snd sample_disk) = (res, dm, e)" by (metis prod_cases3)
  have one: "(1 :: page_id_t) < kInvalidPageId" "(1 :: page_id_t) \<noteq> kInvalidPageId" "(1 :: page_id_t) \<noteq> kHeaderPageId"
    by (simp_all add: kInvalidPageId_def kHeaderPageId_def)
  note x = dm_Allocate_extend [OF sample_disk_free(2,1) _ al, unfolded sample_disk_free(3), OF one(1)]
  have ready: "dm_ready (fst sample_disk) (snd sample_disk)" "dm_ready dm e"
    using sample_disk_free(1) x(3) by (simp_all add: dm_free_def)
  have stored: "disk_stored dm e 1 = Some (fresh_page 1)"
    using dm_AllocatePage_keeps [OF ready(1), of 1 dm e] al x(1) one(3) by (simp add: fresh_page_def)
  let ?pool = "new_BufferPool 1 (Some dm)"
  have "VictimLocked ?pool = Some 0"
    by (simp add: VictimLocked_def new_BufferPool_def new_Frame_def new_Page_def)
  moreover obtain st pool1 e1 where ev: "evict_frame 0 dm ?pool e = (st, pool1, e1)" by (metis prod_cases3)
  moreover have "st = None" "e1 = e" using ev
    by (auto simp: evict_frame_def new_BufferPool_def new_Frame_def new_Page_def)
  moreover have "EnsurePageLocked dm 1 = None" "LoadU32LE (disk_page dm e 1) 0 = Crc32c (drop 4 (disk_page dm e 1))"
    using stored by (simp_all add: disk_stored_def split: if_splits)
  then have "dm_ReadPage dm 1 (Some page) e = (None, Some \<lparr>pg_id = 1, pg_bytes = disk_page dm e 1\<rparr>, e)" for page
    using ReadPage_faultless [OF x(2) ready(2) one(2) _ one(3)] EnsurePage_iff [of dm 1] by simp
  then have "fst (load_frame 0 1 True dm pool1 e) = Inr (new_guard 1 0 True)" by (simp add: load_frame_def Let_def)
  moreover have "bp_disk ?pool = Some dm" "bp_table ?pool 1 = None" by (simp_all add: new_BufferPool_def)
  ultimately have "fst (bp_FetchPage ?pool 1 True e) = Inr (new_guard 1 0 True)"
    by (simp add: bp_FetchPage_def)
  then show ?thesis using ready(2) stored by (metis prod.exhaust_sel)
qed

text \<open>C30: the pool is transparent. However clients fetch, write, release, create, flush and delete pages,
  however small the pool is, and with failing calls of the disk on the way (the runs of \<open>pool_run\<close>,
  which says what is left out), every guard shows the bytes last written to its page; a fetch that
  succeeds shows them too; and a flush of all pages that reports success while no writable guard is live
  leaves exactly this memory on the disk. A new page shows its fresh contents, or what is cached of its
  number when a client fetched it after its deletion. A deletion of a page nobody holds throws the
  cached bytes away, and what the disk has counts from then on, also when it reports an error. Checksum
  fields and the header page are not part of the memory.\<close>

theorem pool_is_transparent:
  assumes "pool_run M gs pool e"
  shows "(\<forall>g \<in> set gs. gd_page_id g \<noteq> kHeaderPageId \<longrightarrow> M (gd_page_id g) = Some (drop 4 (gd_bytes g pool))) \<and>
    (bp_FetchPage pool p w e = (Inr new, pool1, e1) \<longrightarrow>
       gd_page_id new = p \<and> (p \<noteq> kHeaderPageId \<longrightarrow> M p = Some (drop 4 (gd_bytes new pool1)))) \<and>
    (bp_FlushAllPages pool e = Some (None, pool2, e2) \<and> (\<forall>g \<in> set gs. \<not> gd_writable g) \<longrightarrow>
       (\<exists>dm. bp_disk pool2 = Some dm \<and> (\<forall>q. q \<noteq> kHeaderPageId \<longrightarrow> disk_stored dm e2 q = M q)))"
proof -
  have shown: "M (gd_page_id g) = Some (drop 4 (gd_bytes g pool))"
    if run: "pool_run M gs pool e" and g: "g \<in> set gs" "gd_page_id g \<noteq> kHeaderPageId" for gs pool e g
  proof -
    obtain dm where d: "pool_ok gs dm pool e" "same_memory (pool_view dm pool e) M"
      using pool_run_shows [OF run] by (auto simp: pool_shows_def)
    obtain i where i: "gd_page g = Some i" "bp_table pool (gd_page_id g) = Some i"
      using guard_frame [OF d(1) g(1)] by metis
    then have "pool_view dm pool e (gd_page_id g) = Some (drop 4 (gd_bytes g pool))"
      by (simp add: pool_view_def gd_bytes_def)
    then show ?thesis using d(2) g(2) by (simp add: same_memory_def)
  qed
  obtain dm where d: "pool_ok gs dm pool e" "same_memory (pool_view dm pool e) M"
    using pool_run_shows [OF assms] by (auto simp: pool_shows_def)
  have "gd_page_id new = p \<and> (p \<noteq> kHeaderPageId \<longrightarrow> M p = Some (drop 4 (gd_bytes new pool1)))"
    if "bp_FetchPage pool p w e = (Inr new, pool1, e1)"
    using fetch_keeps [OF d(1) that] shown [OF pool_run.fetch [OF assms that], of new] by auto
  moreover have "\<exists>dm. bp_disk pool2 = Some dm \<and> (\<forall>q. q \<noteq> kHeaderPageId \<longrightarrow> disk_stored dm e2 q = M q)"
    if "bp_FlushAllPages pool e = Some (None, pool2, e2)" "\<forall>g \<in> set gs. \<not> gd_writable g"
    using flush_all_stores [OF d that] by (simp add: same_memory_def)
  ultimately show ?thesis using shown [OF assms] by blast
qed

theorem pool_is_transparent_witness:
  "\<exists>dm e g pool e'. bp_FetchPage (new_BufferPool 1 (Some dm)) 1 True e = (Inr g, pool, e') \<and> gd_page_id g = 1 \<and>
     drop 4 (gd_bytes g pool) = fresh_page 1"
proof -
  obtain dm e g pool e' where s: "dm_ready dm e" "disk_stored dm e 1 = Some (fresh_page 1)"
    "bp_FetchPage (new_BufferPool 1 (Some dm)) 1 True e = (Inr g, pool, e')"
    using sample_fetch by metis
  have "(1 :: page_id_t) \<noteq> kHeaderPageId" by (simp add: kHeaderPageId_def)
  then have "gd_page_id g = 1 \<and> drop 4 (gd_bytes g pool) = fresh_page 1"
    using pool_is_transparent [OF pool_run.start [OF s(1), of 1], where p = 1 and w = True] s(2,3)
    by (metis option.inject)
  then show ?thesis using s(3) by blast
qed

text \<open>The pinned frames and the pages the live guards hold.\<close>

abbreviation pinned_frames :: "BufferPool \<Rightarrow> nat set" where
  "pinned_frames pool \<equiv> {i. i < length (bp_frames pool) \<and> fr_pin_count (bp_frames pool ! i) \<noteq> 0}"

lemma pinned_iff_held:
  assumes "pool_ok gs dm pool e" "i < length (bp_frames pool)"
  shows "fr_pin_count (bp_frames pool ! i) \<noteq> 0 \<longleftrightarrow> (\<exists>g \<in> set gs. gd_page g = Some i)"
proof -
  have "fr_pin_count (bp_frames pool ! i) = length (guards_on i gs)"
    using pool_ok_D(5) [OF assms] by (simp add: frame_ok_def)
  then show ?thesis by (simp add: guards_on_def filter_empty_conv)
qed

lemma pinned_cached:
  assumes "pool_ok gs dm pool e" "i \<in> pinned_frames pool"
  shows "bp_table pool (frame_id pool i) = Some i"
proof -
  have "guards_on i gs \<noteq> []"
    using pinned_iff_held [OF assms(1), of i] assms(2) by (auto simp: guards_on_def filter_empty_conv)
  then show ?thesis
    using no_guards_off_table [OF assms(1), of i] table_ok_I [OF pool_ok_D(3) [OF assms(1)], of i] assms(2) by blast
qed

lemma pinned_pages:
  assumes "pool_ok gs dm pool e"
  shows "frame_id pool ` pinned_frames pool = gd_page_id ` set gs"
proof (intro set_eqI iffI)
  fix q assume "q \<in> frame_id pool ` pinned_frames pool"
  then obtain i where i: "i \<in> pinned_frames pool" "q = frame_id pool i" by auto
  then obtain g where g: "g \<in> set gs" "gd_page g = Some i" using pinned_iff_held [OF assms, of i] by auto
  obtain j where "gd_page g = Some j" "frame_id pool j = gd_page_id g" using guard_frame [OF assms g(1)] .
  then show "q \<in> gd_page_id ` set gs" using g i(2) by simp
next
  fix q assume "q \<in> gd_page_id ` set gs"
  then obtain g where g: "g \<in> set gs" "q = gd_page_id g" by auto
  obtain i where i: "gd_page g = Some i" "i < length (bp_frames pool)" "frame_id pool i = gd_page_id g"
    using guard_frame [OF assms g(1)] .
  have "i \<in> pinned_frames pool" using pinned_iff_held [OF assms i(2)] i(1,2) g(1) by auto
  then have "frame_id pool i \<in> frame_id pool ` pinned_frames pool" by (rule imageI)
  then show "q \<in> frame_id pool ` pinned_frames pool" using i(3) g(2) by simp
qed

lemma count_pinned:
  assumes "pool_ok gs dm pool e"
  shows "bp_PinnedPages pool = card (pinned_frames pool)" "bp_PinnedPages pool = card (gd_page_id ` set gs)"
proof -
  show pins: "bp_PinnedPages pool = card (pinned_frames pool)"
    unfolding bp_PinnedPages_def length_filter_conv_card by (rule refl)
  have "inj_on (frame_id pool) (pinned_frames pool)"
  proof (rule inj_onI)
    fix i j assume a: "i \<in> pinned_frames pool" "j \<in> pinned_frames pool" "frame_id pool i = frame_id pool j"
    have "Some i = Some j"
      using pinned_cached [OF assms a(1)] pinned_cached [OF assms a(2)] unfolding a(3) by (rule trans [OF sym])
    then show "i = j" by (rule option.inject [THEN iffD1])
  qed
  then show "bp_PinnedPages pool = card (gd_page_id ` set gs)"
    using card_image [of "frame_id pool" "pinned_frames pool"] pins pinned_pages [OF assms] by simp
qed

lemma fetch_keeps_guards:
  assumes "pool_ok gs dm pool e" "bp_FetchPage pool p w e = (res, pool', e')" "g \<in> set gs"
  shows "guard_ok pool' g \<and>
    (gd_page_id g \<noteq> kHeaderPageId \<longrightarrow> drop 4 (gd_bytes g pool') = drop 4 (gd_bytes g pool))"
proof -
  note f = fetch_keeps [OF assms(1,2)]
  obtain gs' where gs': "pool_ok gs' dm pool' e'" "g \<in> set gs'" using f assms(3) by (cases res) auto
  obtain i where i: "gd_page g = Some i" "bp_table pool (gd_page_id g) = Some i"
    using guard_frame [OF assms(1,3)] .
  have ok: "guard_ok pool' g" by (rule pool_ok_D(4) [OF gs'])
  have "pool_view dm pool' e' (gd_page_id g) = pool_view dm pool e (gd_page_id g)" if "gd_page_id g \<noteq> kHeaderPageId"
    using f that by (simp add: same_memory_def)
  then show ?thesis using ok i by (simp add: guard_ok_def pool_view_def gd_bytes_def)
qed

lemma full_pool_refuses:
  assumes "pool_ok gs dm pool e" "bp_FetchPage pool p w e = (res, pool', e')"
    and "card (gd_page_id ` set gs) = bp_Size pool" "p \<notin> gd_page_id ` set gs"
  shows "res = Inl (OutOfMemory ''all buffer pages are pinned'') \<and> pool' = pool \<and> e' = e"
proof -
  note ok = pool_ok_D [OF assms(1)]
  have "card (pinned_frames pool) = card {..<length (bp_frames pool)}"
    using assms(3) count_pinned [OF assms(1)] by (simp add: bp_Size_def)
  moreover have "pinned_frames pool \<subseteq> {..<length (bp_frames pool)}" by auto
  ultimately have every: "pinned_frames pool = {..<length (bp_frames pool)}"
    by (intro card_subset_eq) simp_all
  have "fr_pin_count f \<noteq> 0" if "f \<in> set (bp_frames pool)" for f
    using that every by (auto simp: in_set_conv_nth)
  then have "VictimLocked pool = None" by (simp add: VictimLocked_None)
  moreover have "bp_table pool p = None"
  proof (cases "bp_table pool p")
    case (Some i)
    note t = table_ok_D [OF ok(3) Some]
    then have "p \<in> frame_id pool ` pinned_frames pool" using every by auto
    then show ?thesis using assms(4) pinned_pages [OF assms(1)] by simp
  qed
  ultimately show ?thesis using assms(2) ok(1) by (simp add: bp_FetchPage_def)
qed

text \<open>C31: guards pin their pages. The number of pinned frames is the number of different pages that live
  guards hold; no fetch, whatever it evicts, takes the frame of a live guard away; when every frame is
  pinned the fetch of another page fails and changes nothing; and a page that a guard holds cannot be
  deleted.\<close>

theorem guards_pin_pages:
  assumes "pool_run M gs pool e"
  shows "bp_PinnedPages pool = card (gd_page_id ` set gs) \<and>
    (bp_FetchPage pool p w e = (res, pool1, e1) \<longrightarrow>
       (\<forall>g \<in> set gs. guard_ok pool1 g \<and>
          (gd_page_id g \<noteq> kHeaderPageId \<longrightarrow> drop 4 (gd_bytes g pool1) = drop 4 (gd_bytes g pool))) \<and>
       (card (gd_page_id ` set gs) = bp_Size pool \<and> p \<notin> gd_page_id ` set gs \<longrightarrow>
          res = Inl (OutOfMemory ''all buffer pages are pinned'') \<and> pool1 = pool \<and> e1 = e)) \<and>
    (bp_DeletePage pool p e = Some (st, pool2, e2) \<and> p \<in> gd_page_id ` set gs \<longrightarrow> st \<noteq> None \<and> pool2 = pool \<and> e2 = e)"
proof -
  obtain dm where d: "pool_ok gs dm pool e" using pool_run_shows [OF assms] by (auto simp: pool_shows_def)
  have "(\<forall>g \<in> set gs. guard_ok pool1 g \<and>
          (gd_page_id g \<noteq> kHeaderPageId \<longrightarrow> drop 4 (gd_bytes g pool1) = drop 4 (gd_bytes g pool))) \<and>
       (card (gd_page_id ` set gs) = bp_Size pool \<and> p \<notin> gd_page_id ` set gs \<longrightarrow>
          res = Inl (OutOfMemory ''all buffer pages are pinned'') \<and> pool1 = pool \<and> e1 = e)"
    if fe: "bp_FetchPage pool p w e = (res, pool1, e1)"
    by (rule conjI, rule ballI, erule fetch_keeps_guards [OF d fe], rule impI, erule conjE, rule full_pool_refuses [OF d fe])
  moreover have "bp_DeletePage pool p e = Some (st, pool2, e2) \<and> p \<in> gd_page_id ` set gs \<longrightarrow>
      st \<noteq> None \<and> pool2 = pool \<and> e2 = e"
    using delete_keeps [OF d, of p st pool2 e2] by auto
  ultimately show ?thesis using count_pinned(2) [OF d] by blast
qed

theorem guards_pin_pages_witness:
  "\<exists>dm e g pool e'. bp_FetchPage (new_BufferPool 1 (Some dm)) 1 True e = (Inr g, pool, e') \<and> bp_PinnedPages pool = 1 \<and>
     (\<forall>res pool1 e1. bp_FetchPage pool 2 False e' = (res, pool1, e1) \<longrightarrow>
        res = Inl (OutOfMemory ''all buffer pages are pinned''))"
proof -
  obtain dm e g pool e' where s: "dm_ready dm e" "bp_FetchPage (new_BufferPool 1 (Some dm)) 1 True e = (Inr g, pool, e')"
    using sample_fetch by metis
  note start = pool_run.start [OF s(1), of 1]
  note run = pool_run.fetch [OF start s(2)]
  have g: "gd_page_id g = 1" using fetch_keeps [OF pool_ok_start [OF s(1)] s(2)] by simp
  have "bp_Size pool = 1" using fetch_keeps_size [OF s(2)] by (simp add: bp_Size_def new_BufferPool_def)
  then show ?thesis using guards_pin_pages [OF run, where p = 2 and w = False] s(2) g by fastforce
qed

end
