(* ===== verification/Lruk_Replacer.thy ===== *)
theory Lruk_Replacer
  imports TS_Prelude "HOL-Library.AList" "HOL-Library.Multiset"
begin

text \<open>
  The LRU-K replacer of \<^verbatim>\<open>src/buffer/lruk_replacer.cpp\<close>. The entries are an association list in the
  order in which an iteration over the unordered map meets them; nothing proved here depends on that
  order. The reference keeps the whole access history of every frame; the replacer keeps the last
  \<open>k\<close> times of it.
\<close>

record Entry =
  re_accesses :: "u64 list"
  re_evictable :: bool

record LRUKReplacer =
  lr_capacity :: nat
  lr_k :: nat
  lr_clock :: u64
  lr_entries :: "(nat \<times> Entry) list"

definition new_LRUKReplacer :: "nat \<Rightarrow> nat \<Rightarrow> LRUKReplacer" where
  "new_LRUKReplacer capacity k =
     \<lparr>lr_capacity = capacity, lr_k = (if k = 0 then 1 else k), lr_clock = 0, lr_entries = []\<rparr>"

definition lr_entry :: "LRUKReplacer \<Rightarrow> nat \<Rightarrow> Entry" where
  "lr_entry lr frame =
     (case map_of (lr_entries lr) frame of Some e \<Rightarrow> e | None \<Rightarrow> \<lparr>re_accesses = [], re_evictable = False\<rparr>)"

definition lr_RecordAccess :: "nat \<Rightarrow> LRUKReplacer \<Rightarrow> LRUKReplacer" where
  "lr_RecordAccess frame lr =
     (if lr_capacity lr \<le> length (lr_entries lr) \<and> map_of (lr_entries lr) frame = None then lr
      else
        let e = lr_entry lr frame; now = lr_clock lr + 1; accesses = re_accesses e @ [now];
            e' = e\<lparr>re_accesses := (if lr_k lr < length accesses then tl accesses else accesses)\<rparr> in
        lr\<lparr>lr_clock := now, lr_entries := AList.update frame e' (lr_entries lr)\<rparr>)"

definition lr_SetEvictable :: "nat \<Rightarrow> bool \<Rightarrow> LRUKReplacer \<Rightarrow> LRUKReplacer" where
  "lr_SetEvictable frame evictable lr =
     (let e = (lr_entry lr frame)\<lparr>re_evictable := evictable\<rparr> in
      if re_accesses e = [] then
        let now = lr_clock lr + 1 in
        lr\<lparr>lr_clock := now, lr_entries := AList.update frame (e\<lparr>re_accesses := [now]\<rparr>) (lr_entries lr)\<rparr>
      else lr\<lparr>lr_entries := AList.update frame e (lr_entries lr)\<rparr>)"

text \<open>The loop of \<^verbatim>\<open>Evict\<close>: the victim so far, its oldest kept time, whether it has \<open>k\<close> accesses,
  and whether there is one.\<close>

definition evict_step :: "nat \<Rightarrow> nat \<times> u64 \<times> bool \<times> bool \<Rightarrow> nat \<times> Entry \<Rightarrow> nat \<times> u64 \<times> bool \<times> bool" where
  "evict_step k = (\<lambda>(victim, oldest, oldest_has_k, found) (frame, e).
     if \<not> re_evictable e then (victim, oldest, oldest_has_k, found)
     else
       let has_k = k \<le> length (re_accesses e); kth_recent = hd (re_accesses e) in
       if \<not> found \<or> (\<not> has_k \<and> oldest_has_k) \<or> (has_k = oldest_has_k \<and> kth_recent < oldest)
       then (frame, kth_recent, has_k, True)
       else (victim, oldest, oldest_has_k, found))"

definition lr_Evict :: "LRUKReplacer \<Rightarrow> nat option \<times> LRUKReplacer" where
  "lr_Evict lr =
     (case foldl (evict_step (lr_k lr)) (0, - 1, False, False) (lr_entries lr) of (victim, _, _, found) \<Rightarrow>
        if \<not> found then (None, lr)
        else (Some victim, lr\<lparr>lr_entries := filter (\<lambda>p. fst p \<noteq> victim) (lr_entries lr)\<rparr>))"

definition lr_Remove :: "nat \<Rightarrow> LRUKReplacer \<Rightarrow> LRUKReplacer" where
  "lr_Remove frame lr = lr\<lparr>lr_entries := filter (\<lambda>p. fst p \<noteq> frame) (lr_entries lr)\<rparr>"

definition lr_Size :: "LRUKReplacer \<Rightarrow> nat" where
  "lr_Size lr = length (filter (\<lambda>p. re_evictable (snd p)) (lr_entries lr))"

section \<open>What the loop finds\<close>

text \<open>The order of eviction: fewer than \<open>k\<close> accesses first, then the oldest kept time.\<close>

definition evicted_before :: "nat \<Rightarrow> Entry \<Rightarrow> Entry \<Rightarrow> bool" where
  "evicted_before k d e \<longleftrightarrow>
     (length (re_accesses d) < k \<and> k \<le> length (re_accesses e)) \<or>
     ((length (re_accesses d) < k \<longleftrightarrow> length (re_accesses e) < k) \<and> hd (re_accesses d) < hd (re_accesses e))"

definition best_of :: "nat \<Rightarrow> (nat \<times> Entry) list \<Rightarrow> nat \<times> u64 \<times> bool \<times> bool \<Rightarrow> bool" where
  "best_of k ps = (\<lambda>(victim, oldest, oldest_has_k, found).
     if found then
       \<exists>e. (victim, e) \<in> set ps \<and> re_evictable e \<and> oldest = hd (re_accesses e) \<and>
         oldest_has_k = (k \<le> length (re_accesses e)) \<and>
         (\<forall>(f, d) \<in> set ps. re_evictable d \<longrightarrow> \<not> evicted_before k d e)
     else \<forall>(f, d) \<in> set ps. \<not> re_evictable d)"

lemma evicted_before_order:
  "\<not> evicted_before k e e"
  "evicted_before k d e \<Longrightarrow> \<not> evicted_before k e d"
  "\<not> evicted_before k d e \<Longrightarrow> evicted_before k c e \<Longrightarrow> \<not> evicted_before k d c"
  by (auto simp: evicted_before_def)

lemma best_of_intro:
  "(victim, e) \<in> set ps \<Longrightarrow> re_evictable e \<Longrightarrow>
   (\<And>f d. (f, d) \<in> set ps \<Longrightarrow> re_evictable d \<Longrightarrow> \<not> evicted_before k d e) \<Longrightarrow>
   best_of k ps (victim, hd (re_accesses e), k \<le> length (re_accesses e), True)"
  unfolding best_of_def by auto

lemma best_of_step:
  assumes "best_of k ps (victim, oldest, has, found)"
  shows "best_of k (ps @ [(f, d)]) (evict_step k (victim, oldest, has, found) (f, d))"
proof -
  consider "\<not> re_evictable d" | "re_evictable d" "\<not> found" | "re_evictable d" "found" by blast
  then show ?thesis
  proof cases
    case 1
    then have "evict_step k (victim, oldest, has, found) (f, d) = (victim, oldest, has, found)"
      by (simp add: evict_step_def)
    with assms 1 show ?thesis by (auto simp: best_of_def)
  next
    case 2
    then have "evict_step k (victim, oldest, has, found) (f, d) =
        (f, hd (re_accesses d), k \<le> length (re_accesses d), True)"
      by (simp add: evict_step_def Let_def)
    moreover have "\<not> re_evictable c" if "(g, c) \<in> set ps" for g c
      using assms 2(2) that by (auto simp: best_of_def)
    ultimately show ?thesis
      using 2(1) evicted_before_order(1) by (auto intro!: best_of_intro)
  next
    case 3
    with assms obtain e where e: "(victim, e) \<in> set ps" "re_evictable e" "oldest = hd (re_accesses e)"
      "has = (k \<le> length (re_accesses e))"
      and least: "\<And>g c. (g, c) \<in> set ps \<Longrightarrow> re_evictable c \<Longrightarrow> \<not> evicted_before k c e"
      by (auto simp: best_of_def)
    have step: "evict_step k (victim, oldest, has, found) (f, d) =
        (if evicted_before k d e then (f, hd (re_accesses d), k \<le> length (re_accesses d), True)
         else (victim, hd (re_accesses e), k \<le> length (re_accesses e), True))"
      using 3 e(3,4) by (auto simp: evict_step_def Let_def evicted_before_def not_le)
    show ?thesis
    proof (cases "evicted_before k d e")
      case True
      have "\<not> evicted_before k c d" if "(g, c) \<in> set (ps @ [(f, d)])" "re_evictable c" for g c
        using that least evicted_before_order(1) [of k d] evicted_before_order(3) [of k c e d] evicted_before_order(2,3) True
        by (metis Un_iff empty_iff empty_set insert_iff list.simps(15) prod.inject set_append)
      with True 3(1) show ?thesis unfolding step by (auto intro!: best_of_intro)
    next
      case False
      with e(1,2) least show ?thesis unfolding step by (auto intro!: best_of_intro)
    qed
  qed
qed

lemma best_of_loop: "best_of k ps (foldl (evict_step k) (0, - 1, False, False) ps)"
proof (induction ps rule: rev_induct)
  case Nil
  show ?case by (simp add: best_of_def)
next
  case (snoc p ps)
  obtain victim oldest has found where
    st: "foldl (evict_step k) (0, - 1, False, False) ps = (victim, oldest, has, found)" by (metis prod_cases4)
  obtain f d where "p = (f, d)" by (cases p)
  with snoc st show ?case by (simp add: best_of_step)
qed

section \<open>The invariant\<close>

text \<open>Frames have one entry each, every entry keeps between one and \<open>k\<close> times in increasing order, up
  to the clock, and no two entries share a time.\<close>

definition lr_ok :: "LRUKReplacer \<Rightarrow> bool" where
  "lr_ok lr \<longleftrightarrow>
     0 < lr_k lr \<and> distinct (map fst (lr_entries lr)) \<and>
     (\<forall>(f, e) \<in> set (lr_entries lr). re_accesses e \<noteq> [] \<and> length (re_accesses e) \<le> lr_k lr \<and>
        (\<forall>t \<in> set (re_accesses e). t \<le> lr_clock lr)) \<and>
     (\<forall>(f, e) \<in> set (lr_entries lr). \<forall>(g, d) \<in> set (lr_entries lr).
        f \<noteq> g \<longrightarrow> set (re_accesses e) \<inter> set (re_accesses d) = {})"

lemma lr_ok_new: "lr_ok (new_LRUKReplacer capacity k)"
  by (simp add: lr_ok_def new_LRUKReplacer_def)

lemma lr_ok_entry:
  assumes "lr_ok lr" "(f, e) \<in> set (lr_entries lr)"
  shows "re_accesses e \<noteq> []" "length (re_accesses e) \<le> lr_k lr" "\<forall>t \<in> set (re_accesses e). t \<le> lr_clock lr"
    "map_of (lr_entries lr) f = Some e"
  using assms by (auto simp: lr_ok_def)

lemma lr_ok_disjoint:
  assumes "lr_ok lr" "(f, e) \<in> set (lr_entries lr)" "(g, d) \<in> set (lr_entries lr)" "f \<noteq> g"
  shows "set (re_accesses e) \<inter> set (re_accesses d) = {}"
  using assms unfolding lr_ok_def by blast

lemma lr_Evict_outcome:
  assumes "lr_ok lr" "lr_Evict lr = (res, lr')"
  shows "case res of
      None \<Rightarrow> lr' = lr \<and> (\<forall>(f, e) \<in> set (lr_entries lr). \<not> re_evictable e)
    | Some victim \<Rightarrow> \<exists>e. map_of (lr_entries lr) victim = Some e \<and> re_evictable e \<and>
        lr_entries lr' = filter (\<lambda>p. fst p \<noteq> victim) (lr_entries lr) \<and>
        (\<forall>f d. map_of (lr_entries lr) f = Some d \<and> re_evictable d \<and> f \<noteq> victim \<longrightarrow> evicted_before (lr_k lr) e d)"
proof -
  obtain victim oldest has found where
    st: "foldl (evict_step (lr_k lr)) (0, - 1, False, False) (lr_entries lr) = (victim, oldest, has, found)"
    by (metis prod_cases4)
  have b: "best_of (lr_k lr) (lr_entries lr) (victim, oldest, has, found)" using best_of_loop st by metis
  show ?thesis
  proof (cases found)
    case False
    with assms(2) st b show ?thesis by (auto simp: lr_Evict_def best_of_def)
  next
    case True
    then obtain e where e: "(victim, e) \<in> set (lr_entries lr)" "re_evictable e"
      "\<forall>(f, d) \<in> set (lr_entries lr). re_evictable d \<longrightarrow> \<not> evicted_before (lr_k lr) d e"
      using b by (auto simp: best_of_def)
    have m: "map_of (lr_entries lr) victim = Some e" using lr_ok_entry(4) [OF assms(1) e(1)] .
    have "evicted_before (lr_k lr) e d"
      if d: "map_of (lr_entries lr) f = Some d" "re_evictable d" "f \<noteq> victim" for f d
    proof -
      have mem: "(f, d) \<in> set (lr_entries lr)" using d(1) by (rule map_of_SomeD)
      have "re_accesses d \<noteq> []" using lr_ok_entry(1) [OF assms(1) mem] .
      moreover have "re_accesses e \<noteq> []" using lr_ok_entry(1) [OF assms(1) e(1)] .
      moreover have "set (re_accesses e) \<inter> set (re_accesses d) = {}"
        using lr_ok_disjoint [OF assms(1) e(1) mem] d(3) by simp
      ultimately have "hd (re_accesses d) \<noteq> hd (re_accesses e)" by (metis disjoint_iff hd_in_set)
      moreover have "\<not> evicted_before (lr_k lr) d e" using e(3) mem d(2) by blast
      ultimately show ?thesis by (auto simp: evicted_before_def not_less)
    qed
    moreover have "res = Some victim" "lr_entries lr' = filter (\<lambda>p. fst p \<noteq> victim) (lr_entries lr)"
      using True assms(2) st by (auto simp: lr_Evict_def)
    ultimately show ?thesis using m e(2) by auto
  qed
qed

section \<open>Runs with the whole history\<close>

datatype lr_op = Access nat | Mark nat bool | Evict | Remove nat

fun lr_apply :: "lr_op \<Rightarrow> LRUKReplacer \<Rightarrow> LRUKReplacer" where
  "lr_apply (Access f) lr = lr_RecordAccess f lr"
| "lr_apply (Mark f b) lr = lr_SetEvictable f b lr"
| "lr_apply Evict lr = snd (lr_Evict lr)"
| "lr_apply (Remove f) lr = lr_Remove f lr"

text \<open>The history of every frame: all times recorded for it since it got its entry, the earliest first.\<close>

type_synonym history = "nat \<Rightarrow> u64 list"

fun note_op :: "lr_op \<Rightarrow> LRUKReplacer \<Rightarrow> history \<Rightarrow> history" where
  "note_op (Access f) lr hist =
     (if lr_capacity lr \<le> length (lr_entries lr) \<and> map_of (lr_entries lr) f = None then hist
      else hist(f := hist f @ [lr_clock lr + 1]))"
| "note_op (Mark f b) lr hist =
     (if map_of (lr_entries lr) f = None then hist(f := [lr_clock lr + 1]) else hist)"
| "note_op Evict lr hist = (case fst (lr_Evict lr) of None \<Rightarrow> hist | Some f \<Rightarrow> hist(f := []))"
| "note_op (Remove f) lr hist = hist(f := [])"

fun lr_run :: "lr_op list \<Rightarrow> LRUKReplacer \<times> history \<Rightarrow> LRUKReplacer \<times> history" where
  "lr_run [] s = s"
| "lr_run (op # ops) (lr, hist) = lr_run ops (lr_apply op lr, note_op op lr hist)"

definition last_times :: "nat \<Rightarrow> u64 list \<Rightarrow> u64 list" where
  "last_times k ts = drop (length ts - k) ts"

definition keeps_history :: "LRUKReplacer \<Rightarrow> history \<Rightarrow> bool" where
  "keeps_history lr hist \<longleftrightarrow>
     (\<forall>f. case map_of (lr_entries lr) f of
        None \<Rightarrow> hist f = []
      | Some e \<Rightarrow> hist f \<noteq> [] \<and> re_accesses e = last_times (lr_k lr) (hist f))"

lemma last_times_snoc:
  "0 < k \<Longrightarrow> last_times k (ts @ [t]) =
    (let new = last_times k ts @ [t] in if k < length new then tl new else new)"
proof (cases "length ts < k")
  case False
  assume "0 < k"
  with False have "drop (length ts - k) ts \<noteq> []" by simp
  then have "tl (drop (length ts - k) ts @ [t]) = tl (drop (length ts - k) ts) @ [t]" by simp
  with False \<open>0 < k\<close> show ?thesis by (simp add: last_times_def Suc_diff_le drop_Suc tl_drop)
qed (simp add: last_times_def)

lemma set_last_times: "set (last_times k ts) \<subseteq> set ts"
  by (simp add: last_times_def set_drop_subset)

lemma length_last_times: "length (last_times k ts) = min k (length ts)"
  by (simp add: last_times_def)

text \<open>The invariant by lookups.\<close>

lemma lr_ok_iff:
  "lr_ok lr \<longleftrightarrow>
     0 < lr_k lr \<and> distinct (map fst (lr_entries lr)) \<and>
     (\<forall>f e. map_of (lr_entries lr) f = Some e \<longrightarrow>
        re_accesses e \<noteq> [] \<and> length (re_accesses e) \<le> lr_k lr \<and> (\<forall>t \<in> set (re_accesses e). t \<le> lr_clock lr)) \<and>
     (\<forall>f e g d. map_of (lr_entries lr) f = Some e \<longrightarrow> map_of (lr_entries lr) g = Some d \<longrightarrow> f \<noteq> g \<longrightarrow>
        set (re_accesses e) \<inter> set (re_accesses d) = {})"
proof (cases "distinct (map fst (lr_entries lr))")
  case True
  note mem = map_of_eq_Some_iff [OF True]
  show ?thesis unfolding lr_ok_def mem by blast
qed (simp add: lr_ok_def)

text \<open>Replacing the entry of one frame by one whose times are its old ones or the next tick.\<close>

lemma lr_ok_update:
  assumes ok: "lr_ok lr" and tick: "lr_clock lr + 1 \<noteq> 0" "clock = lr_clock lr \<or> clock = lr_clock lr + 1"
    and e: "re_accesses e \<noteq> []" "length (re_accesses e) \<le> lr_k lr"
    and new: "set (re_accesses e) \<subseteq> set (re_accesses (lr_entry lr f)) \<union> (if clock = lr_clock lr then {} else {clock})"
  shows "lr_ok (lr\<lparr>lr_clock := clock, lr_entries := AList.update f e (lr_entries lr)\<rparr>)"
proof -
  let ?m = "map_of (lr_entries lr)"
  note k = ok [unfolded lr_ok_iff]
  have le: "lr_clock lr \<le> clock" using tick word_less_succ [of "lr_clock lr"] by auto
  have times: "t \<le> clock" if "?m g = Some d" "t \<in> set (re_accesses d)" for g d t
    using k that le order_trans by blast
  have old: "t \<in> set (re_accesses (lr_entry lr f)) \<Longrightarrow> \<exists>d. ?m f = Some d \<and> t \<in> set (re_accesses d)" for t
    by (auto simp: lr_entry_def split: option.splits)
  have e_times: "t \<le> clock" if "t \<in> set (re_accesses e)" for t
  proof (cases "t \<in> set (re_accesses (lr_entry lr f))")
    case True
    then show ?thesis using old times by blast
  next
    case False
    with new that have "t = clock" by (auto split: if_splits)
    then show ?thesis by simp
  qed
  have e_apart: "set (re_accesses e) \<inter> set (re_accesses d) = {}" if "?m g = Some d" "g \<noteq> f" for g d
  proof -
    have "t \<notin> set (re_accesses d)" if "t \<in> set (re_accesses (lr_entry lr f))" for t
      using old [OF that] k \<open>?m g = Some d\<close> \<open>g \<noteq> f\<close> by blast
    moreover have "clock \<notin> set (re_accesses d)" if "clock \<noteq> lr_clock lr"
      using that tick word_less_succ [of "lr_clock lr"] k \<open>?m g = Some d\<close> by (metis leD)
    ultimately show ?thesis using new by (auto split: if_splits)
  qed
  show ?thesis
    unfolding lr_ok_iff
    using k e e_times e_apart times by (auto simp: distinct_update update_conv' split: if_splits)
qed

lemma lr_ok_filter: "lr_ok lr \<Longrightarrow> lr_ok (lr\<lparr>lr_entries := filter P (lr_entries lr)\<rparr>)"
  unfolding lr_ok_def by (auto simp: distinct_map_filter) blast+

definition lru_good :: "nat \<Rightarrow> LRUKReplacer \<times> history \<Rightarrow> bool" where
  "lru_good n s \<longleftrightarrow> (case s of (lr, hist) \<Rightarrow> lr_ok lr \<and> keeps_history lr hist \<and> unat (lr_clock lr) \<le> n)"

lemma keeps_history_entry:
  assumes "keeps_history lr hist"
  shows "re_accesses (lr_entry lr f) = last_times (lr_k lr) (hist f)"
    "hist f = [] \<longleftrightarrow> map_of (lr_entries lr) f = None"
  using spec [OF assms [unfolded keeps_history_def], of f]
  by (auto simp: lr_entry_def last_times_def split: option.splits)

lemma keeps_history_update:
  assumes "keeps_history lr hist" "h \<noteq> []" "re_accesses e = last_times (lr_k lr) h"
  shows "keeps_history (lr\<lparr>lr_clock := clock, lr_entries := AList.update f e (lr_entries lr)\<rparr>) (hist(f := h))"
  unfolding keeps_history_def
proof
  fix g
  show "case map_of (lr_entries (lr\<lparr>lr_clock := clock, lr_entries := AList.update f e (lr_entries lr)\<rparr>)) g of
      None \<Rightarrow> (hist(f := h)) g = []
    | Some e' \<Rightarrow> (hist(f := h)) g \<noteq> [] \<and>
        re_accesses e' = last_times (lr_k (lr\<lparr>lr_clock := clock, lr_entries := AList.update f e (lr_entries lr)\<rparr>)) ((hist(f := h)) g)"
    using assms(2,3) spec [OF assms(1) [unfolded keeps_history_def], of g]
    by (cases "g = f") (simp_all add: update_conv' split: option.splits)
qed

lemma keeps_history_filter:
  assumes "keeps_history lr hist"
  shows "keeps_history (lr\<lparr>lr_entries := filter (\<lambda>p. fst p \<noteq> f) (lr_entries lr)\<rparr>) (hist(f := []))"
  unfolding keeps_history_def
proof
  fix g
  have m: "map_of (filter (\<lambda>p. fst p \<noteq> f) es) g = (if g = f then None else map_of es g)"
    for es :: "(nat \<times> Entry) list" and g
    by (induction es) auto
  show "case map_of (lr_entries (lr\<lparr>lr_entries := filter (\<lambda>p. fst p \<noteq> f) (lr_entries lr)\<rparr>)) g of
      None \<Rightarrow> (hist(f := [])) g = []
    | Some e \<Rightarrow> (hist(f := [])) g \<noteq> [] \<and>
        re_accesses e = last_times (lr_k (lr\<lparr>lr_entries := filter (\<lambda>p. fst p \<noteq> f) (lr_entries lr)\<rparr>)) ((hist(f := [])) g)"
    using spec [OF assms [unfolded keeps_history_def], of g]
    by (cases "g = f") (simp_all add: m split: option.splits)
qed

lemma lr_access_good:
  assumes "lru_good n (lr, hist)" "Suc n < 2 ^ 64"
  shows "lru_good (Suc n) (lr_RecordAccess f lr, note_op (Access f) lr hist)"
proof (cases "lr_capacity lr \<le> length (lr_entries lr) \<and> map_of (lr_entries lr) f = None")
  case True
  with assms(1) show ?thesis by (simp add: lru_good_def lr_RecordAccess_def)
next
  case False
  have ok: "lr_ok lr" "keeps_history lr hist" "unat (lr_clock lr) \<le> n" using assms(1) by (simp_all add: lru_good_def)
  have k: "0 < lr_k lr" using ok(1) by (simp add: lr_ok_def)
  let ?now = "lr_clock lr + 1" and ?h = "hist f @ [lr_clock lr + 1]"
  let ?e = "(lr_entry lr f)\<lparr>re_accesses := last_times (lr_k lr) ?h\<rparr>"
  have tick: "?now \<noteq> 0" and now: "unat ?now \<le> Suc n"
    using ok(3) assms(2) by (simp_all add: unat_eq_zero unat_word_ariths word_unat_eq_iff)
  have run: "lr_RecordAccess f lr = lr\<lparr>lr_clock := ?now, lr_entries := AList.update f ?e (lr_entries lr)\<rparr>"
    unfolding lr_RecordAccess_def if_not_P [OF False]
    by (simp add: Let_def last_times_snoc [OF k] keeps_history_entry(1) [OF ok(2)])
  have "last_times (lr_k lr) ?h \<noteq> []" using k by (simp add: last_times_def)
  moreover have "set (last_times (lr_k lr) ?h) \<subseteq> set (re_accesses (lr_entry lr f)) \<union> {?now}"
  proof -
    have "set (last_times (lr_k lr) ?h) \<subseteq> set (last_times (lr_k lr) (hist f)) \<union> {?now}"
      unfolding last_times_snoc [OF k] Let_def
      by (cases "last_times (lr_k lr) (hist f)") auto
    then show ?thesis by (simp add: keeps_history_entry(1) [OF ok(2)])
  qed
  moreover have "?now \<noteq> lr_clock lr" by simp
  ultimately have "lr_ok (lr_RecordAccess f lr)"
    unfolding run by (intro lr_ok_update [OF ok(1) tick]) (auto simp: length_last_times)
  moreover have "keeps_history (lr_RecordAccess f lr) (hist(f := ?h))"
    unfolding run by (rule keeps_history_update [OF ok(2)]) simp_all
  moreover have "note_op (Access f) lr hist = hist(f := ?h)"
    unfolding note_op.simps if_not_P [OF False] ..
  ultimately show ?thesis using now unfolding lru_good_def run by simp
qed

lemma lr_mark_good:
  assumes "lru_good n (lr, hist)" "Suc n < 2 ^ 64"
  shows "lru_good (Suc n) (lr_SetEvictable f b lr, note_op (Mark f b) lr hist)"
proof -
  have ok: "lr_ok lr" "keeps_history lr hist" "unat (lr_clock lr) \<le> n" using assms(1) by (simp_all add: lru_good_def)
  have k: "0 < lr_k lr" using ok(1) by (simp add: lr_ok_def)
  let ?now = "lr_clock lr + 1"
  have tick: "?now \<noteq> 0" and now: "unat ?now \<le> Suc n"
    using ok(3) assms(2) by (simp_all add: unat_eq_zero unat_word_ariths word_unat_eq_iff)
  show ?thesis
  proof (cases "map_of (lr_entries lr) f")
    case None
    let ?e = "\<lparr>re_accesses = [?now], re_evictable = b\<rparr>"
    have run: "lr_SetEvictable f b lr = lr\<lparr>lr_clock := ?now, lr_entries := AList.update f ?e (lr_entries lr)\<rparr>"
      using None by (simp add: lr_SetEvictable_def lr_entry_def Let_def)
    have "lr_ok (lr_SetEvictable f b lr)"
      unfolding run using k by (intro lr_ok_update [OF ok(1) tick]) simp_all
    moreover have "keeps_history (lr_SetEvictable f b lr) (hist(f := [?now]))"
      unfolding run using k by (intro keeps_history_update [OF ok(2)]) (simp_all add: last_times_def)
    ultimately show ?thesis using None now by (simp add: lru_good_def run)
  next
    case (Some e)
    let ?e = "e\<lparr>re_evictable := b\<rparr>"
    have e: "lr_entry lr f = e" "re_accesses e \<noteq> []" "length (re_accesses e) \<le> lr_k lr"
      using Some ok(1) by (auto simp: lr_entry_def lr_ok_iff)
    then have run: "lr_SetEvictable f b lr = lr\<lparr>lr_clock := lr_clock lr, lr_entries := AList.update f ?e (lr_entries lr)\<rparr>"
      by (simp add: lr_SetEvictable_def Let_def)
    have "lr_ok (lr_SetEvictable f b lr)"
      unfolding run using e by (intro lr_ok_update [OF ok(1) tick]) simp_all
    moreover have "keeps_history (lr_SetEvictable f b lr) (hist(f := hist f))"
      unfolding run using Some keeps_history_entry [OF ok(2), of f] e(1)
      by (intro keeps_history_update [OF ok(2)]) simp_all
    ultimately show ?thesis using Some ok(3) by (simp add: lru_good_def run)
  qed
qed

lemma lr_apply_good:
  assumes "lru_good n (lr, hist)" "Suc n < 2 ^ 64"
  shows "lru_good (Suc n) (lr_apply op lr, note_op op lr hist)"
proof (cases op)
  case (Access f)
  with lr_access_good [OF assms] show ?thesis by simp
next
  case (Mark f b)
  with lr_mark_good [OF assms] show ?thesis by simp
next
  case Evict
  have "snd (lr_Evict lr) = (case fst (lr_Evict lr) of None \<Rightarrow> lr | Some f \<Rightarrow> lr_Remove f lr)"
    by (auto simp: lr_Evict_def lr_Remove_def split: prod.split)
  with Evict assms(1) show ?thesis
    by (auto simp: lru_good_def lr_Remove_def lr_ok_filter keeps_history_filter split: option.split)
next
  case (Remove f)
  with assms(1) show ?thesis by (auto simp: lru_good_def lr_Remove_def lr_ok_filter keeps_history_filter)
qed

lemma lr_run_good:
  "lru_good n s \<Longrightarrow> n + length ops < 2 ^ 64 \<Longrightarrow> lru_good (n + length ops) (lr_run ops s)"
proof (induction ops arbitrary: n s)
  case (Cons op ops)
  obtain lr hist where s: "s = (lr, hist)" by (cases s)
  from Cons lr_apply_good [of n lr hist op] show ?case by (auto simp: s dest!: Cons.IH [of "Suc n"])
qed simp

section \<open>Properties\<close>

lemma lru_good_new: "lru_good 0 (new_LRUKReplacer capacity k, \<lambda>_. [])"
  by (simp add: lru_good_def lr_ok_new keeps_history_def) (simp add: new_LRUKReplacer_def)

text \<open>C35: the replacer evicts by backward k-distance. After any sequence of fewer than 2^64 calls, an
  eviction takes an evictable frame and compares no other evictable frame ahead of it: frames with fewer
  than \<open>k\<close> accesses in their whole history go first, and among equals the one whose k-th last access (or
  whose first, when there are fewer) is the oldest; it reports that there is no victim exactly when no
  frame is evictable. The kept times are the last \<open>k\<close> of the history, so the choice does not depend on
  the order in which the entries are visited.\<close>

theorem eviction_by_k_distance:
  assumes "lr_run ops (new_LRUKReplacer capacity k, \<lambda>_. []) = (lr, hist)" "length ops < 2 ^ 64"
    and "lr_Evict lr = (res, lr')"
  shows "case res of
      None \<Rightarrow> lr_Size lr = 0
    | Some victim \<Rightarrow> re_evictable (lr_entry lr victim) \<and> hist victim \<noteq> [] \<and>
        (\<forall>f. f \<noteq> victim \<and> hist f \<noteq> [] \<and> re_evictable (lr_entry lr f) \<longrightarrow>
           (length (hist victim) < lr_k lr \<and> lr_k lr \<le> length (hist f)) \<or>
           ((length (hist victim) < lr_k lr \<longleftrightarrow> length (hist f) < lr_k lr) \<and>
              hd (last_times (lr_k lr) (hist victim)) < hd (last_times (lr_k lr) (hist f))))"
proof -
  have good: "lr_ok lr" "keeps_history lr hist"
    using lr_run_good [OF lru_good_new, of ops capacity k] assms(1,2) by (simp_all add: lru_good_def)
  note out = lr_Evict_outcome [OF good(1) assms(3)]
  show ?thesis
  proof (cases res)
    case None
    with out have "filter (\<lambda>p. re_evictable (snd p)) (lr_entries lr) = []"
      by (auto simp: filter_empty_conv)
    with None show ?thesis by (simp add: lr_Size_def)
  next
    case (Some victim)
    with out obtain e where e: "map_of (lr_entries lr) victim = Some e" "re_evictable e"
      and least: "\<And>f d. map_of (lr_entries lr) f = Some d \<Longrightarrow> re_evictable d \<Longrightarrow> f \<noteq> victim \<Longrightarrow>
        evicted_before (lr_k lr) e d"
      by auto
    have times: "re_accesses d = last_times (lr_k lr) (hist f)" if "map_of (lr_entries lr) f = Some d" for f d
      using keeps_history_entry(1) [OF good(2), of f] that by (simp add: lr_entry_def)
    have "(length (hist victim) < lr_k lr \<and> lr_k lr \<le> length (hist f)) \<or>
           ((length (hist victim) < lr_k lr \<longleftrightarrow> length (hist f) < lr_k lr) \<and>
              hd (last_times (lr_k lr) (hist victim)) < hd (last_times (lr_k lr) (hist f)))"
      if f: "f \<noteq> victim" "hist f \<noteq> []" "re_evictable (lr_entry lr f)" for f
    proof -
      obtain d where d: "map_of (lr_entries lr) f = Some d"
        using f(2) keeps_history_entry(2) [OF good(2), of f] by auto
      with f(3) have "re_evictable d" by (simp add: lr_entry_def)
      from least [OF d this f(1)] show ?thesis
        by (auto simp: evicted_before_def times [OF d] times [OF e(1)] length_last_times)
    qed
    then show ?thesis
      using Some e keeps_history_entry(2) [OF good(2), of victim] by (auto simp: lr_entry_def)
  qed
qed

theorem eviction_by_k_distance_witness:
  "\<exists>lr lr'. fst (lr_run [Access 1, Access 2, Access 1, Mark 1 True, Mark 2 True] (new_LRUKReplacer 4 2, \<lambda>_. [])) = lr \<and>
     lr_Evict lr = (Some 2, lr')"
proof -
  let ?ops = "[Access 1, Access 2, Access 1, Mark 1 True, Mark 2 True]"
  obtain lr hist where r: "lr_run ?ops (new_LRUKReplacer 4 2, \<lambda>_. []) = (lr, hist)" by (metis prod.exhaust)
  obtain res lr' where e: "lr_Evict lr = (res, lr')" by (metis prod.exhaust)
  have lr: "lr_k lr = 2" "lr_entries lr = [(1, \<lparr>re_accesses = [1, 3], re_evictable = True\<rparr>),
      (2, \<lparr>re_accesses = [2], re_evictable = True\<rparr>)]" and h: "hist 1 = [1, 3]" "hist 2 = [2]"
    using r by (auto simp: new_LRUKReplacer_def lr_RecordAccess_def lr_SetEvictable_def lr_entry_def Let_def)
  have ops: "length ?ops < 2 ^ 64" by simp
  have p: "case res of
      None \<Rightarrow> lr_Size lr = 0
    | Some victim \<Rightarrow> re_evictable (lr_entry lr victim) \<and> hist victim \<noteq> [] \<and>
        (\<forall>f. f \<noteq> victim \<and> hist f \<noteq> [] \<and> re_evictable (lr_entry lr f) \<longrightarrow>
           (length (hist victim) < lr_k lr \<and> lr_k lr \<le> length (hist f)) \<or>
           ((length (hist victim) < lr_k lr \<longleftrightarrow> length (hist f) < lr_k lr) \<and>
              hd (last_times (lr_k lr) (hist victim)) < hd (last_times (lr_k lr) (hist f))))"
    by (rule eviction_by_k_distance [OF r ops e])
  have "lr_Size lr = 2" using lr(2) by (simp add: lr_Size_def)
  with p have "res \<noteq> None" by (cases res) simp_all
  then obtain v where v: "res = Some v" by blast
  have e2: "re_evictable (lr_entry lr 2)" "re_evictable (lr_entry lr v) \<Longrightarrow> v = 1 \<or> v = 2"
    using lr(2) by (auto simp: lr_entry_def split: if_splits)
  have "v = 2"
  proof (rule ccontr)
    assume "v \<noteq> 2"
    with p v e2 have "v = 1" by simp
    with p v have "\<forall>f. f \<noteq> 1 \<and> hist f \<noteq> [] \<and> re_evictable (lr_entry lr f) \<longrightarrow>
        length (hist 1) < lr_k lr \<and> lr_k lr \<le> length (hist f) \<or>
        (length (hist 1) < lr_k lr) = (length (hist f) < lr_k lr) \<and>
        hd (last_times (lr_k lr) (hist 1)) < hd (last_times (lr_k lr) (hist f))"
      by simp
    from spec [OF this, of 2] e2(1) lr(1) h show False by simp
  qed
  with e v r show ?thesis by auto
qed

end
