(* ===== verification/Cli_Shell.thy ===== *)
theory Cli_Shell
  imports Engine
begin

text \<open>
  The command line shell, \<^verbatim>\<open>src/cli/main.cpp\<close>: a loop over input lines that prints tables and
  schemas, runs scripts and executes SQL on one connection. A line comes with the microseconds the
  clock shows for it. Output is a list of what goes to the two streams; an accessor applied to a value
  of another type throws, and nothing catches it.
\<close>

datatype printed = Out string | Err string

abbreviation nl :: string where
  "nl \<equiv> [CHR 0x0A]"

definition err_line :: "payload \<Rightarrow> printed" where
  "err_line err = Err (status_ToString (Some err) @ nl)"

section \<open>Command text\<close>

definition cli_TrimLower :: "string \<Rightarrow> string" where
  "cli_TrimLower text =
     map tolower (rev (dropWhile (\<lambda>c. isspace c \<or> c = CHR '';'') (rev (dropWhile isspace text))))"

definition IsQuery :: "string \<Rightarrow> bool" where
  "IsQuery sql = (let command = cli_TrimLower sql in starts_with command ''select'' \<or> starts_with command ''explain'')"

section \<open>Printing results\<close>

fun joined :: "string list \<Rightarrow> string" where
  "joined [] = []"
| "joined [s] = s"
| "joined (s # t # ss) = s @ '' | '' @ joined (t # ss)"

definition rs_left :: "ResultSet \<Rightarrow> nat" where
  "rs_left rs = (case rs of None \<Rightarrow> 0 | Some r \<Rightarrow> length (ri_rows r) - ri_index r)"

lemma rs_Next_left: "rs_Next rs = (Inr True, rs') \<Longrightarrow> rs_left rs' < rs_left rs"
  by (auto simp: rs_Next_def rs_left_def split: option.splits if_splits)

definition row_text :: "ResultSet \<Rightarrow> string" where
  "row_text rs = joined (map (\<lambda>i. value_ToString (rs_Get rs (int i))) [0..<length (rs_schema rs)])"

function print_rows :: "ResultSet \<Rightarrow> printed list" where
  "print_rows rs =
     (case rs_Next rs of
        (Inl err, rs') \<Rightarrow> [err_line err]
      | (Inr again, rs') \<Rightarrow> if again then Out (row_text rs' @ nl) # print_rows rs' else [])"
  by pat_completeness auto
termination
  by (relation "measure rs_left") (auto dest: rs_Next_left [OF sym])

definition PrintResult :: "ResultSet \<Rightarrow> printed list" where
  "PrintResult rs = Out (joined (map col_name (rs_schema rs)) @ nl) # print_rows rs"

section \<open>Printing schemas\<close>

text \<open>\<^verbatim>\<open>static_cast<TypeId>\<close> keeps the low byte of the integer.\<close>

definition TypeName :: "sqlvalue \<Rightarrow> string" where
  "TypeName v =
     (case v of
        VInteger n \<Rightarrow>
          (let c = (ucast n :: byte) in
           if c = type_code TBoolean then ''BOOLEAN'' else if c = type_code TInteger then ''INTEGER''
           else if c = type_code TReal then ''REAL'' else if c = type_code TText then ''TEXT''
           else if c = type_code TBlob then ''BLOB'' else if c = type_code TNull then ''NULL'' else ''?'')
      | _ \<Rightarrow> ''?'')"

text \<open>The first loop of \<^verbatim>\<open>PrintSchema\<close>: what it prints, the table found, and whether it threw.\<close>

function find_table :: "string \<Rightarrow> ResultSet \<Rightarrow> u64 \<Rightarrow> printed list \<times> u64 \<times> bool" where
  "find_table requested rs table_id =
     (case rs_Next rs of
        (Inl err, rs') \<Rightarrow> ([], table_id, False)
      | (Inr again, rs') \<Rightarrow>
          if \<not> again then ([], table_id, False)
          else if requested = [] then
            (case (AsInteger (rs_Get rs' 0), AsText (rs_Get rs' 1)) of
               (Some n, Some name) \<Rightarrow> (case find_table requested rs' n of (out, r) \<Rightarrow> (Out (name @ nl) # out, r))
             | _ \<Rightarrow> ([], table_id, True))
          else
            (case AsText (rs_Get rs' 1) of
               None \<Rightarrow> ([], table_id, True)
             | Some name \<Rightarrow>
                 if name = requested then
                   (case AsInteger (rs_Get rs' 0) of None \<Rightarrow> ([], table_id, True) | Some n \<Rightarrow> ([], n, False))
                 else find_table requested rs' table_id))"
  by pat_completeness auto
termination
  by (relation "measure (\<lambda>(requested, rs, table_id). rs_left rs)") (auto dest: rs_Next_left [OF sym])

text \<open>One line of a schema; \<^verbatim>\<open>None\<close> when an accessor throws.\<close>

definition column_text :: "ResultSet \<Rightarrow> string option" where
  "column_text rs =
     (case (AsInteger (rs_Get rs 1), AsText (rs_Get rs 2), AsBoolean (rs_Get rs 4), AsBoolean (rs_Get rs 5)) of
        (Some ordinal, Some name, Some nullable, Some primary) \<Rightarrow>
          Some (''  '' @ int_to_string (sint ordinal) @ '': '' @ name @ '' '' @ TypeName (rs_Get rs 3) @
            (if nullable then [] else '' NOT NULL'') @ (if primary then '' PRIMARY KEY'' else []) @ nl)
      | _ \<Rightarrow> None)"

function print_columns :: "u64 \<Rightarrow> ResultSet \<Rightarrow> printed list \<times> bool" where
  "print_columns table_id rs =
     (case rs_Next rs of
        (Inl err, rs') \<Rightarrow> ([], False)
      | (Inr again, rs') \<Rightarrow>
          if \<not> again then ([], False)
          else
            (case AsInteger (rs_Get rs' 0) of
               None \<Rightarrow> ([], True)
             | Some n \<Rightarrow>
                 if n \<noteq> table_id then print_columns table_id rs'
                 else
                   (case column_text rs' of
                      None \<Rightarrow> ([], True)
                    | Some t \<Rightarrow> (case print_columns table_id rs' of (out, threw) \<Rightarrow> (Out t # out, threw)))))"
  by pat_completeness auto
termination
  by (relation "measure (\<lambda>(table_id, rs). rs_left rs)") (auto dest: rs_Next_left [OF sym])

text \<open>What a step of the shell acts on.\<close>

record shell =
  sh_db :: Database
  sh_cn :: Connection
  sh_env :: env
  sh_timer :: bool

definition sh_Query :: "string \<Rightarrow> shell \<Rightarrow> ResultSet status_or \<times> shell" where
  "sh_Query sql s =
     (case cn_Query sql (sh_db s) (sh_cn s) (sh_env s) of (r, db, cn, e) \<Rightarrow>
        (r, s\<lparr>sh_db := db, sh_cn := cn, sh_env := e\<rparr>))"

definition sh_Execute :: "string \<Rightarrow> shell \<Rightarrow> status \<times> shell" where
  "sh_Execute sql s =
     (case cn_Execute sql (sh_db s) (sh_cn s) (sh_env s) of (st, db, cn, e) \<Rightarrow>
        (st, s\<lparr>sh_db := db, sh_cn := cn, sh_env := e\<rparr>))"

definition tables_query :: string where
  "tables_query = ''SELECT table_id, name FROM tuplestone_tables''"

definition columns_query :: string where
  "columns_query = ''SELECT table_id, ordinal, name, type, nullable, is_primary FROM tuplestone_columns''"

definition PrintSchema :: "string \<Rightarrow> shell \<Rightarrow> printed list \<times> bool \<times> shell" where
  "PrintSchema requested s =
     (case sh_Query tables_query s of
        (Inl err, s1) \<Rightarrow> ([err_line err], False, s1)
      | (Inr tables, s1) \<Rightarrow>
          (case find_table requested tables (- 1) of (out, table_id, threw) \<Rightarrow>
             if threw \<or> requested = [] then (out, threw, s1)
             else if table_id <s 0 then (out @ [Err (''table not found: '' @ requested @ nl)], False, s1)
             else
               (case sh_Query columns_query s1 of
                  (Inl err, s2) \<Rightarrow> (out @ [err_line err], False, s2)
                | (Inr detailed, s2) \<Rightarrow>
                    (case print_columns table_id detailed of (out2, threw2) \<Rightarrow> (out @ out2, threw2, s2)))))"

section \<open>Scripts\<close>

text \<open>The lines \<^verbatim>\<open>getline\<close> reads from a text.\<close>

fun lines_from :: "string \<Rightarrow> string \<Rightarrow> string list" where
  "lines_from acc [] = (if acc = [] then [] else [rev acc])"
| "lines_from acc (c # cs) = (if c = CHR 0x0A then rev acc # lines_from [] cs else lines_from (c # acc) cs)"

fun run_script :: "string list \<Rightarrow> shell \<Rightarrow> printed list \<times> shell" where
  "run_script [] s = ([], s)"
| "run_script (stmt # rest) s =
     (if stmt = [] then run_script rest s
      else
        (case sh_Execute stmt s of (st, s1) \<Rightarrow>
         case run_script rest s1 of (out, s2) \<Rightarrow>
           ((case st of None \<Rightarrow> [] | Some err \<Rightarrow> [err_line err]) @ out, s2)))"

definition read_script :: "string \<Rightarrow> shell \<Rightarrow> printed list \<times> shell" where
  "read_script path s =
     (case open_read path (sh_env s) of (opened, e) \<Rightarrow>
        let s1 = s\<lparr>sh_env := e\<rparr> in
        if \<not> opened then ([Err (''cannot read script file'' @ nl)], s1)
        else run_script (lines_from [] (string_of_bytes (contents e path))) s1)"

section \<open>The loop\<close>

datatype shell_end = Goes_on | Quit | Threw

definition run_statement :: "string \<Rightarrow> shell \<Rightarrow> printed list \<times> shell" where
  "run_statement line s =
     (if IsQuery line then
        (case sh_Query line s of
           (Inl err, s1) \<Rightarrow> ([err_line err], s1)
         | (Inr rs, s1) \<Rightarrow> (PrintResult rs, s1))
      else
        (case sh_Execute line s of
           (Some err, s1) \<Rightarrow> ([err_line err], s1)
         | (None, s1) \<Rightarrow> ([], s1)))"

definition help_text :: string where
  "help_text = ''.tables  .schema [TABLE]  .timer on|off  .read FILE  .quit'' @ nl"

definition end_of :: "bool \<Rightarrow> shell_end" where
  "end_of threw = (if threw then Threw else Goes_on)"

definition shell_line :: "string \<Rightarrow> nat \<Rightarrow> shell \<Rightarrow> printed list \<times> shell_end \<times> shell" where
  "shell_line line elapsed s =
     (let command = cli_TrimLower line in
      if command = ''.quit'' \<or> command = ''.exit'' then ([], Quit, s)
      else if command = ''.help'' then ([Out help_text], Goes_on, s)
      else if command = ''.timer on'' \<or> command = ''.timer off'' then
        ([], Goes_on, s\<lparr>sh_timer := (command = ''.timer on'')\<rparr>)
      else if command = ''.tables'' then
        (case PrintSchema [] s of (out, threw, s1) \<Rightarrow> (out, end_of threw, s1))
      else if starts_with command ''.schema'' then
        (case PrintSchema (dropWhile isspace (if 7 < length command then drop 7 command else [])) s of
           (out, threw, s1) \<Rightarrow> (out, end_of threw, s1))
      else if starts_with command ''.read '' then
        (case read_script (drop 6 line) s of (out, s1) \<Rightarrow> (out, Goes_on, s1))
      else if line = [] then ([], Goes_on, s)
      else
        (case run_statement line s of (out, s1) \<Rightarrow>
           (out @ (if sh_timer s1 then [Out (''time: '' @ int_to_string (int elapsed) @ '' us'' @ nl)] else []),
            Goes_on, s1)))"

fun shell_run :: "(string \<times> nat) list \<Rightarrow> shell \<Rightarrow> printed list \<times> shell_end \<times> shell" where
  "shell_run [] s = ([Out ''tuplestone> ''], Quit, s)"
| "shell_run ((line, elapsed) # rest) s =
     (case shell_line line elapsed s of
        (out, Goes_on, s1) \<Rightarrow>
          (case shell_run rest s1 of (out2, fin, s2) \<Rightarrow> (Out ''tuplestone> '' # out @ out2, fin, s2))
      | (out, fin, s1) \<Rightarrow> (Out ''tuplestone> '' # out, fin, s1))"

text \<open>\<^verbatim>\<open>main\<close>: the exit code is \<open>None\<close> when an exception ended the program; then nothing is closed.\<close>

definition shell_main :: "string option \<Rightarrow> (string \<times> nat) list \<Rightarrow> env \<Rightarrow> printed list \<times> nat option \<times> env" where
  "shell_main arg lines e =
     (let path = (case arg of Some p \<Rightarrow> p | None \<Rightarrow> ''tuplestone.db'') in
      case db_Open path default_Options e of
        (Inl err, e1) \<Rightarrow> ([err_line err], Some 1, e1)
      | (Inr db, e1) \<Rightarrow>
          (case db_Connect db of
             Inl err \<Rightarrow> ([err_line err], Some 1, db_drop db e1)
           | Inr cn \<Rightarrow>
               (case shell_run lines \<lparr>sh_db = db, sh_cn = cn, sh_env = e1, sh_timer = False\<rparr> of
                  (out, fin, s) \<Rightarrow>
                    if fin = Threw then (out, None, sh_env s)
                    else (case db_Close (sh_db s) (sh_env s) of (_, db2, e2) \<Rightarrow> (out, Some 0, db_drop db2 e2)))))"

section \<open>The loops\<close>

lemma cli_TrimLower_eq: "cli_TrimLower s = TrimLower s"
  by (simp add: cli_TrimLower_def TrimLower_def Lower_def)

text \<open>A fresh result prints its header and its rows, in order.\<close>

lemma print_rows_from:
  assumes "list_all (\<lambda>row. length row = length (ri_schema r)) (ri_rows r)" "\<not> ri_closed r" "ri_index r \<le> length (ri_rows r)"
  shows "print_rows (Some r) =
    map (\<lambda>row. Out (joined (map value_ToString row) @ nl)) (drop (ri_index r) (ri_rows r))"
  using assms
proof (induction "Some r" arbitrary: r rule: print_rows.induct)
  case (1 r)
  show ?case
  proof (cases "ri_index r = length (ri_rows r)")
    case True
    then show ?thesis using 1(3) by (simp add: rs_Next_def)
  next
    case False
    let ?r = "r\<lparr>ri_index := ri_index r + 1\<rparr>" and ?row = "ri_rows r ! ri_index r"
    have i: "ri_index r < length (ri_rows r)" using False 1(4) by simp
    then have next_row: "rs_Next (Some r) = (Inr True, Some ?r)" using 1(3) by (simp add: rs_Next_def)
    have "length ?row = length (ri_schema r)" using 1(2) i by (simp add: list_all_length)
    then have "map (\<lambda>i. value_ToString (rs_Get (Some ?r) (int i))) [0..<length (ri_schema r)] = map value_ToString ?row"
      using i by (intro nth_equalityI) (simp_all add: rs_Get_def)
    then have "row_text (Some ?r) = joined (map value_ToString ?row)" by (simp add: row_text_def rs_schema_def)
    moreover have "print_rows (Some ?r) =
        map (\<lambda>row. Out (joined (map value_ToString row) @ nl)) (drop (ri_index r + 1) (ri_rows r))"
      using 1(1) [OF next_row [symmetric] refl TrueI] 1(2,3) i by simp
    ultimately show ?thesis
      using next_row i by (subst print_rows.simps) (simp add: Cons_nth_drop_Suc [symmetric] del: print_rows.simps)
  qed
qed

lemma PrintResult_new:
  assumes "list_all (\<lambda>row. length row = length schema) rows"
  shows "PrintResult (new_result schema rows) =
    Out (joined (map col_name schema) @ nl) # map (\<lambda>row. Out (joined (map value_ToString row) @ nl)) rows"
  using print_rows_from [of "\<lparr>ri_schema = schema, ri_rows = rows, ri_index = 0, ri_closed = False\<rparr>"] assms
  by (simp add: PrintResult_def new_result_def rs_schema_def del: print_rows.simps)

text \<open>A path is taken from the line as it was typed, not from the trimmed command: blanks before the
  command shift it.\<close>

lemma read_takes_raw_line:
  "shell_line ''  .read setup.sql'' t s =
     (case read_script ''d setup.sql'' s of (out, s1) \<Rightarrow> (out, Goes_on, s1))"
proof -
  have "cli_TrimLower ''  .read setup.sql'' = ''.read setup.sql''" by code_simp
  then show ?thesis by (simp add: shell_line_def starts_with_def)
qed

section \<open>Sessions on the engine\<close>

definition shell_engine :: "shell \<Rightarrow> engine" where
  "shell_engine s = \<lparr>en_db = sh_db s, en_conns = [sh_cn s], en_env = sh_env s\<rparr>"

definition line_op :: "string \<Rightarrow> operation" where
  "line_op line = (if IsQuery line then Run 0 line [] else Exec 0 line)"

lemma sh_Query_engine: "shell_engine (snd (sh_Query sql s)) = apply_op (Run 0 sql []) (shell_engine s)"
  by (simp add: sh_Query_def cn_Query_def shell_engine_def on_connection_def split: prod.split)

lemma sh_Execute_engine: "shell_engine (snd (sh_Execute sql s)) = apply_op (Exec 0 sql) (shell_engine s)"
  by (simp add: sh_Execute_def shell_engine_def on_connection_def split: prod.split)

lemma run_statement_engine: "shell_engine (snd (run_statement line s)) = apply_op (line_op line) (shell_engine s)"
  using sh_Query_engine [of line s] sh_Execute_engine [of line s]
  by (auto simp: run_statement_def line_op_def split: prod.split sum.split option.split simp del: apply_op.simps)

text \<open>A line that is not a command of the shell.\<close>

definition sql_line :: "string \<Rightarrow> bool" where
  "sql_line line \<longleftrightarrow> \<not> starts_with (cli_TrimLower line) ''.''"

lemma shell_line_sql:
  assumes "sql_line line" "shell_line line t s = (out, fin, s')"
  shows "fin = Goes_on \<and> shell_engine s' = (if line = [] then shell_engine s else apply_op (line_op line) (shell_engine s))"
proof -
  obtain c cs where "cli_TrimLower line = [] \<or> cli_TrimLower line = c # cs \<and> c \<noteq> CHR ''.''"
    using assms(1) by (cases "cli_TrimLower line") (auto simp: sql_line_def starts_with_def)
  then have x: "shell_line line t s =
      (if line = [] then ([], Goes_on, s)
       else (case run_statement line s of (out, s1) \<Rightarrow>
           (out @ (if sh_timer s1 then [Out (''time: '' @ int_to_string (int t) @ '' us'' @ nl)] else []), Goes_on, s1)))"
    unfolding shell_line_def Let_def starts_with_def by (elim disjE conjE) (simp_all only:, simp_all)
  show ?thesis
  proof (cases "line = []")
    case False
    obtain out1 s1 where r: "run_statement line s = (out1, s1)" by (metis prod.exhaust)
    then have "fin = Goes_on" "s' = s1" using x assms(2) False by simp_all
    then show ?thesis using run_statement_engine [of line s] r False by simp
  qed (use x assms(2) in simp)
qed

section \<open>Constraints\<close>

definition shell_valid :: "shell \<Rightarrow> bool" where
  "shell_valid s \<longleftrightarrow> conn_valid (sh_db s) (sh_cn s)"

lemma sh_Query_valid: "shell_valid s \<Longrightarrow> sh_Query sql s = (r, s') \<Longrightarrow> shell_valid s'"
  using ExecuteSql_valid by (fastforce simp: shell_valid_def sh_Query_def cn_Query_def split: prod.splits)

lemma sh_Execute_valid: "shell_valid s \<Longrightarrow> sh_Execute sql s = (st, s') \<Longrightarrow> shell_valid s'"
  using cn_Execute_valid by (fastforce simp: shell_valid_def sh_Execute_def split: prod.splits)

lemma PrintSchema_valid:
  assumes "shell_valid s" "PrintSchema requested s = (out, threw, s')"
  shows "shell_valid s'"
proof -
  obtain r1 s1 where q1: "sh_Query tables_query s = (r1, s1)" by (metis prod.exhaust)
  obtain r2 s2 where q2: "sh_Query columns_query s1 = (r2, s2)" by (metis prod.exhaust)
  have "s' = s1 \<or> s' = s2"
    using assms(2) q1 q2
    by (auto simp: PrintSchema_def split: sum.splits prod.splits if_splits simp del: find_table.simps print_columns.simps)
  moreover note v1 = sh_Query_valid [OF assms(1) q1]
  moreover have "shell_valid s2" by (rule sh_Query_valid [OF v1 q2])
  ultimately show ?thesis by blast
qed

lemma run_script_valid: "shell_valid s \<Longrightarrow> run_script ss s = (out, s') \<Longrightarrow> shell_valid s'"
proof (induction ss s arbitrary: out rule: run_script.induct)
  case (2 stmt rest s)
  obtain st s1 where x: "sh_Execute stmt s = (st, s1)" by (metis prod.exhaust)
  obtain out1 s2 where r: "run_script rest s1 = (out1, s2)" by (metis prod.exhaust)
  show ?case
  proof (cases "stmt = []")
    case True
    then show ?thesis using 2 by simp
  next
    case False
    then have "s2 = s'" using 2(4) x r by simp
    then show ?thesis using 2(2) [OF False x [symmetric] sh_Execute_valid [OF 2(3) x]] r by simp
  qed
qed simp

lemma shell_line_valid:
  assumes "shell_valid s" "shell_line line t s = (out, fin, s')"
  shows "shell_valid s'"
proof -
  have timer: "shell_valid (s\<lparr>sh_timer := b\<rparr>)" "shell_valid (s\<lparr>sh_env := e\<rparr>)" for b e
    using assms(1) by (simp_all add: shell_valid_def)
  have stmt: "shell_valid s1" if "run_statement l s = (out1, s1)" for l out1 s1
    using that assms(1) by (auto simp: run_statement_def dest: sh_Query_valid sh_Execute_valid
        split: if_splits prod.splits sum.splits option.splits)
  have script: "shell_valid s1" if "read_script path s = (out1, s1)" for path out1 s1
    using that timer by (auto simp: read_script_def Let_def dest: run_script_valid split: prod.splits if_splits)
  obtain o1 t1 s1 where p1: "PrintSchema [] s = (o1, t1, s1)" by (metis prod_cases3)
  let ?req = "dropWhile isspace (if 7 < length (cli_TrimLower line) then drop 7 (cli_TrimLower line) else [])"
  obtain o2 t2 s2 where p2: "PrintSchema ?req s = (o2, t2, s2)" by (metis prod_cases3)
  obtain o3 s3 where p3: "read_script (drop 6 line) s = (o3, s3)" by (metis prod.exhaust)
  obtain o4 s4 where p4: "run_statement line s = (o4, s4)" by (metis prod.exhaust)
  have "s' \<in> {s, s1, s2, s3, s4} \<or> (\<exists>b. s' = s\<lparr>sh_timer := b\<rparr>)"
    using assms(2) p1 p2 p3 p4 unfolding shell_line_def Let_def by (auto split: if_splits)
  then show ?thesis
    using assms(1) PrintSchema_valid [OF assms(1) p1] PrintSchema_valid [OF assms(1) p2] script [OF p3] stmt [OF p4] timer
    by auto
qed

section \<open>Properties\<close>

text \<open>C32: a session of SQL is a run of the engine. When no line is a command of the shell, the shell reads
  to the end of its input and leaves the database, the connection and the files as the engine does that
  executes the non-empty lines in order on one connection, the queries through \<^verbatim>\<open>Query\<close> and all
  other text through \<^verbatim>\<open>Execute\<close>.\<close>

theorem shell_runs_statements:
  assumes "list_all (\<lambda>(line, t). sql_line line) input" "shell_run input s = (out, fin, s')"
  shows "fin = Quit \<and>
    shell_engine s' = run_ops (map line_op (filter (\<lambda>line. line \<noteq> []) (map fst input))) (shell_engine s)"
  using assms
proof (induction input arbitrary: s out)
  case (Cons entry rest)
  obtain line t where e: "entry = (line, t)" by (metis prod.exhaust)
  obtain out1 fin1 s1 where l: "shell_line line t s = (out1, fin1, s1)" by (metis prod_cases3)
  obtain out2 fin2 s2 where r: "shell_run rest s1 = (out2, fin2, s2)" by (metis prod_cases3)
  have "sql_line line" using Cons.prems(1) e by simp
  note x = shell_line_sql [OF this l]
  have "fin = fin2 \<and> s' = s2" using Cons.prems(2) e l r x by simp
  then show ?case using Cons.IH [of s1 out2] Cons.prems(1) e r x by (auto simp: split: if_splits)
qed simp

definition sample_shell :: shell where
  "sample_shell = \<lparr>sh_db = sample_db, sh_cn = new_Connection, sh_env = sample_env, sh_timer = False\<rparr>"

theorem shell_runs_statements_witness:
  "\<exists>out s'. shell_run [(''begin'', 0), ([], 0), (''select 1'', 7)] sample_shell = (out, Quit, s') \<and>
     shell_engine s' = run_ops [Exec 0 ''begin'', Run 0 ''select 1'' []] (shell_engine sample_shell)"
proof -
  let ?input = "[(''begin'', 0 :: nat), ([], 0), (''select 1'', 7)]"
  obtain out fin s' where r: "shell_run ?input sample_shell = (out, fin, s')" by (metis prod_cases3)
  have "list_all (\<lambda>(line, t). sql_line line) ?input" by code_simp
  note x = shell_runs_statements [OF this r]
  have "map line_op (filter (\<lambda>line. line \<noteq> []) (map fst ?input)) = [Exec 0 ''begin'', Run 0 ''select 1'' []]"
    by code_simp
  then show ?thesis using x r by metis
qed

text \<open>nothing typed into the shell breaks a column constraint. Whatever the input is, commands and
  scripts with any contents included, and whatever fails on the way, the shared and the private tables
  still meet their constraints afterwards.\<close>

theorem shell_keeps_constraints:
  assumes "conn_valid (sh_db s) (sh_cn s)" "shell_run input s = (out, fin, s')"
  shows "conn_valid (sh_db s') (sh_cn s')"
  using assms
proof (induction input arbitrary: s out)
  case (Cons entry rest)
  obtain line t where e: "entry = (line, t)" by (metis prod.exhaust)
  obtain out1 fin1 s1 where l: "shell_line line t s = (out1, fin1, s1)" by (metis prod_cases3)
  obtain out2 fin2 s2 where r: "shell_run rest s1 = (out2, fin2, s2)" by (metis prod_cases3)
  have v: "conn_valid (sh_db s1) (sh_cn s1)"
    using shell_line_valid [OF _ l] Cons.prems(1) by (simp add: shell_valid_def)
  have "s' = s1 \<or> fin = fin2 \<and> s' = s2" using Cons.prems(2) e l r by (cases fin1) simp_all
  then show ?case using Cons.IH [OF v] r v by blast
qed simp

theorem shell_keeps_constraints_witness:
  "\<exists>out fin s'. shell_run [(''.read f'', 0), (''.tables'', 0)] sample_shell = (out, fin, s') \<and>
     conn_valid (sh_db s') (sh_cn s')"
proof -
  obtain out fin s' where r: "shell_run [(''.read f'', 0), (''.tables'', 0)] sample_shell = (out, fin, s')"
    by (metis prod_cases3)
  have "conn_valid (sh_db sample_shell) (sh_cn sample_shell)"
    by (simp add: sample_shell_def conn_valid_def new_Connection_def sample_db_def new_Database_def db_valid_def tables_ok_def)
  from shell_keeps_constraints [OF this r] r show ?thesis by blast
qed

end
