(* ===== verification/Common_Utils.thy ===== *)
theory Common_Utils
  imports Endian Sql_Value B_Plus_Tree "HOL-Library.Sublist"
begin

text \<open>
  Helpers of \<^verbatim>\<open>src/common\<close> beside the rest: slices of bytes with their order (\<^verbatim>\<open>slice.h\<close>), the
  logger (\<^verbatim>\<open>logger.cpp\<close>), the report of a failed assertion (\<^verbatim>\<open>assert.cpp\<close>), and doubles in byte
  buffers (\<^verbatim>\<open>endian.h\<close>).
\<close>

section \<open>Slices\<close>

text \<open>A view of \<open>sl_size\<close> bytes of a buffer from \<open>sl_offset\<close> on.\<close>

record Slice =
  sl_buffer :: bytes
  sl_offset :: nat
  sl_size :: nat

definition new_Slice :: "bytes \<Rightarrow> Slice" where
  "new_Slice bs = \<lparr>sl_buffer = bs, sl_offset = 0, sl_size = length bs\<rparr>"

definition sl_at :: "Slice \<Rightarrow> nat \<Rightarrow> byte" where
  "sl_at s i = sl_buffer s ! (sl_offset s + i)"

definition sl_empty :: "Slice \<Rightarrow> bool" where
  "sl_empty s \<longleftrightarrow> sl_size s = 0"

definition sl_ToString :: "Slice \<Rightarrow> string" where
  "sl_ToString s = string_of_bytes (take (sl_size s) (drop (sl_offset s) (sl_buffer s)))"

definition sl_Sub :: "Slice \<Rightarrow> nat \<Rightarrow> nat \<Rightarrow> Slice" where
  "sl_Sub s off n = s\<lparr>sl_offset := sl_offset s + off, sl_size := n\<rparr>"

text \<open>The size is unsigned and wraps when more than the slice is removed.\<close>

definition sl_RemovePrefix :: "Slice \<Rightarrow> nat \<Rightarrow> Slice" where
  "sl_RemovePrefix s n = s\<lparr>sl_offset := sl_offset s + n, sl_size := (sl_size s + 2 ^ 64 - n) mod 2 ^ 64\<rparr>"

text \<open>The sign of \<^verbatim>\<open>memcmp\<close> of \<open>n\<close> bytes.\<close>

fun memcmp_sign :: "bytes \<Rightarrow> bytes \<Rightarrow> nat \<Rightarrow> int" where
  "memcmp_sign (x # xs) (y # ys) (Suc n) = (if x < y then -1 else if y < x then 1 else memcmp_sign xs ys n)"
| "memcmp_sign _ _ _ = 0"

definition sl_Compare :: "Slice \<Rightarrow> Slice \<Rightarrow> int" where
  "sl_Compare a b =
     (let n = (if sl_size a < sl_size b then sl_size a else sl_size b);
          r = (if n \<noteq> 0 then memcmp_sign (drop (sl_offset a) (sl_buffer a)) (drop (sl_offset b) (sl_buffer b)) n else 0) in
      if r \<noteq> 0 then r
      else if sl_size a = sl_size b then 0
      else if sl_size a < sl_size b then -1 else 1)"

definition sl_StartsWith :: "Slice \<Rightarrow> Slice \<Rightarrow> bool" where
  "sl_StartsWith s pre \<longleftrightarrow> sl_size pre \<le> sl_size s \<and> sl_Compare (sl_Sub s 0 (sl_size pre)) pre = 0"

definition sl_equal :: "Slice \<Rightarrow> Slice \<Rightarrow> bool" where
  "sl_equal a b \<longleftrightarrow> sl_Compare a b = 0"

definition sl_less :: "Slice \<Rightarrow> Slice \<Rightarrow> bool" where
  "sl_less a b \<longleftrightarrow> sl_Compare a b < 0"

definition sl_less_eq :: "Slice \<Rightarrow> Slice \<Rightarrow> bool" where
  "sl_less_eq a b \<longleftrightarrow> sl_Compare a b \<le> 0"

definition sl_view :: "Slice \<Rightarrow> bytes" where
  "sl_view s = take (sl_size s) (drop (sl_offset s) (sl_buffer s))"

definition sl_ok :: "Slice \<Rightarrow> bool" where
  "sl_ok s \<longleftrightarrow> sl_offset s + sl_size s \<le> length (sl_buffer s)"

lemma sl_view_Sub: "sl_ok s \<Longrightarrow> off + n \<le> sl_size s \<Longrightarrow>
  sl_ok (sl_Sub s off n) \<and> sl_view (sl_Sub s off n) = take n (drop off (sl_view s))"
  by (simp add: sl_ok_def sl_view_def sl_Sub_def drop_take add.commute min_def)

lemma sl_view_RemovePrefix:
  assumes "sl_ok s" "n \<le> sl_size s" "sl_size s < 2 ^ 64"
  shows "sl_ok (sl_RemovePrefix s n) \<and> sl_view (sl_RemovePrefix s n) = drop n (sl_view s)"
proof -
  have "(sl_size s + 2 ^ 64 - n) mod 2 ^ 64 = sl_size s - n"
    using assms(2,3) by (simp add: mod_if)
  then show ?thesis using assms(1,2) by (simp add: sl_ok_def sl_view_def sl_RemovePrefix_def drop_take add.commute)
qed

text \<open>Comparing the common length and then the sizes is comparing lexicographically.\<close>

lemma memcmp_sign_take: "memcmp_sign xs ys n = memcmp_sign (take n xs) (take n ys) n"
  by (induction xs ys n rule: memcmp_sign.induct) simp_all

lemma memcmp_lexicographic:
  "(let r = memcmp_sign xs ys (min (length xs) (length ys)) in
    if r \<noteq> 0 then r else if length xs = length ys then 0 else if length xs < length ys then -1 else 1) =
   (if xs < ys then -1 else if xs = ys then 0 else 1)"
proof (induction xs arbitrary: ys)
  case Nil
  then show ?case by (cases ys) simp_all
next
  case (Cons x xs)
  show ?case
  proof (cases ys)
    case (Cons y ys')
    consider "x < y" | "y < x" | "x = y" by (metis linorder_less_linear)
    then show ?thesis
    proof cases
      case 3
      define r where "r = memcmp_sign xs ys' (min (length xs) (length ys'))"
      have "memcmp_sign (x # xs) ys (min (length (x # xs)) (length ys)) = r" using 3 by (simp add: Cons r_def)
      moreover have "(if r \<noteq> 0 then r else if length xs = length ys' then 0 else if length xs < length ys' then -1 else 1) =
          (if xs < ys' then -1 else if xs = ys' then 0 else 1)"
        using Cons.IH [of ys'] by (simp only: Let_def r_def)
      ultimately show ?thesis using 3 by (auto simp: Cons Let_def split: if_splits)
    qed (auto simp: Cons Let_def)
  qed simp
qed

lemma sl_Compare_view:
  assumes "sl_ok a" "sl_ok b"
  shows "sl_Compare a b = (if sl_view a < sl_view b then -1 else if sl_view a = sl_view b then 0 else 1)"
proof -
  have len: "length (sl_view a) = sl_size a" "length (sl_view b) = sl_size b"
    using assms by (simp_all add: sl_view_def sl_ok_def)
  let ?n = "min (sl_size a) (sl_size b)"
  let ?m = "memcmp_sign (drop (sl_offset a) (sl_buffer a)) (drop (sl_offset b) (sl_buffer b)) ?n"
  have "?m = memcmp_sign (sl_view a) (sl_view b) ?n"
    by (subst (1 2) memcmp_sign_take) (simp add: sl_view_def min.commute min.left_commute)
  moreover have "(if ?n \<noteq> 0 then ?m else 0) = ?m" by (cases ?n) simp_all
  ultimately have r: "(if ?n \<noteq> 0 then ?m else 0) = memcmp_sign (sl_view a) (sl_view b) ?n" by simp
  have n: "(if sl_size a < sl_size b then sl_size a else sl_size b) = ?n" by simp
  have "sl_Compare a b =
      (let r = memcmp_sign (sl_view a) (sl_view b) ?n in
       if r \<noteq> 0 then r else if sl_size a = sl_size b then 0 else if sl_size a < sl_size b then -1 else 1)"
    unfolding sl_Compare_def Let_def n r ..
  then show ?thesis using memcmp_lexicographic [of "sl_view a" "sl_view b"] unfolding len by (rule trans)
qed

text \<open>The order of slices is the lexicographic order of their bytes.\<close>

lemma slice_order:
  assumes "sl_ok a" "sl_ok b"
  shows "sl_equal a b \<longleftrightarrow> sl_view a = sl_view b" "sl_less a b \<longleftrightarrow> sl_view a < sl_view b"
    "sl_less_eq a b \<longleftrightarrow> sl_view a \<le> sl_view b" "sl_StartsWith a b \<longleftrightarrow> prefix (sl_view b) (sl_view a)"
proof -
  note c = sl_Compare_view [OF assms]
  show "sl_equal a b \<longleftrightarrow> sl_view a = sl_view b" "sl_less a b \<longleftrightarrow> sl_view a < sl_view b"
    "sl_less_eq a b \<longleftrightarrow> sl_view a \<le> sl_view b"
    using c by (auto simp: sl_equal_def sl_less_def sl_less_eq_def)
  have len: "length (sl_view a) = sl_size a" "length (sl_view b) = sl_size b"
    using assms by (simp_all add: sl_view_def sl_ok_def)
  show "sl_StartsWith a b \<longleftrightarrow> prefix (sl_view b) (sl_view a)"
  proof (cases "sl_size b \<le> sl_size a")
    case True
    then have sub: "sl_ok (sl_Sub a 0 (sl_size b))" "sl_view (sl_Sub a 0 (sl_size b)) = take (sl_size b) (sl_view a)"
      using sl_view_Sub [OF assms(1), of 0 "sl_size b"] by simp_all
    have "sl_StartsWith a b \<longleftrightarrow> take (sl_size b) (sl_view a) = sl_view b"
      using True sl_Compare_view [OF sub(1) assms(2)] sub(2) by (auto simp: sl_StartsWith_def)
    also have "\<dots> \<longleftrightarrow> prefix (sl_view b) (sl_view a)"
      using len by (metis append_eq_conv_conj prefix_def take_is_prefix)
    finally show ?thesis .
  next
    case False
    then show ?thesis using len prefix_length_le [of "sl_view b" "sl_view a"] by (auto simp: sl_StartsWith_def)
  qed
qed

section \<open>The logger\<close>

datatype LogLevel = LogTrace | LogDebug | LogInfo | LogWarn | LogError | LogOff

fun level_code :: "LogLevel \<Rightarrow> nat" where
  "level_code LogTrace = 0"
| "level_code LogDebug = 1"
| "level_code LogInfo = 2"
| "level_code LogWarn = 3"
| "level_code LogError = 4"
| "level_code LogOff = 5"

fun LogLevelName :: "LogLevel \<Rightarrow> string" where
  "LogLevelName LogTrace = ''TRACE''"
| "LogLevelName LogDebug = ''DEBUG''"
| "LogLevelName LogInfo = ''INFO''"
| "LogLevelName LogWarn = ''WARN''"
| "LogLevelName LogError = ''ERROR''"
| "LogLevelName LogOff = ''OFF''"

text \<open>The result and the caller's level afterwards.\<close>

definition ParseLogLevel :: "string \<Rightarrow> LogLevel \<Rightarrow> bool \<times> LogLevel" where
  "ParseLogLevel text out =
     (let lowered = map tolower text in
      if lowered = ''trace'' then (True, LogTrace)
      else if lowered = ''debug'' then (True, LogDebug)
      else if lowered = ''info'' then (True, LogInfo)
      else if lowered = ''warn'' \<or> lowered = ''warning'' then (True, LogWarn)
      else if lowered = ''error'' then (True, LogError)
      else if lowered = ''off'' \<or> lowered = ''none'' then (True, LogOff)
      else (False, out))"

definition BaseName :: "string \<Rightarrow> string" where
  "BaseName path = rev (takeWhile (\<lambda>c. c \<noteq> CHR ''/'' \<and> c \<noteq> CHR 0x5C) (rev path))"

text \<open>The stream is the text written to it, or none.\<close>

record Logger =
  lg_level :: LogLevel
  lg_stream :: "string option"

definition new_Logger :: "string option \<Rightarrow> string \<Rightarrow> Logger" where
  "new_Logger level_variable stderr_text =
     \<lparr>lg_level = (case level_variable of None \<Rightarrow> LogInfo | Some v \<Rightarrow> snd (ParseLogLevel v LogInfo)),
      lg_stream = Some stderr_text\<rparr>"

definition lg_SetLevel :: "LogLevel \<Rightarrow> Logger \<Rightarrow> Logger" where
  "lg_SetLevel level lg = lg\<lparr>lg_level := level\<rparr>"

definition lg_SetStream :: "string option \<Rightarrow> Logger \<Rightarrow> Logger" where
  "lg_SetStream stream lg = lg\<lparr>lg_stream := stream\<rparr>"

definition lg_Enabled :: "LogLevel \<Rightarrow> Logger \<Rightarrow> bool" where
  "lg_Enabled level lg \<longleftrightarrow> level_code (lg_level lg) \<le> level_code level"

text \<open>\<^verbatim>\<open>fprintf\<close> with \<^verbatim>\<open>%-5s\<close> fills up to five columns, and \<^verbatim>\<open>%.*s\<close> stops at a zero byte.\<close>

definition c_text :: "string \<Rightarrow> string" where
  "c_text = takeWhile (\<lambda>c. c \<noteq> CHR 0x00)"

definition log_record :: "LogLevel \<Rightarrow> string \<Rightarrow> int \<Rightarrow> string \<Rightarrow> string" where
  "log_record level file line message =
     ''['' @ LogLevelName level @ replicate (5 - length (LogLevelName level)) (CHR '' '') @ ''] '' @
     c_text (BaseName file) @ '':'' @ int_to_string line @ '': '' @ c_text message @ [CHR 0x0A]"

definition lg_Log :: "LogLevel \<Rightarrow> string \<Rightarrow> int \<Rightarrow> string \<Rightarrow> Logger \<Rightarrow> Logger" where
  "lg_Log level file line message lg =
     (case lg_stream lg of
        None \<Rightarrow> lg
      | Some written \<Rightarrow> lg\<lparr>lg_stream := Some (written @ log_record level file line message)\<rparr>)"

text \<open>
  \<^verbatim>\<open>std::vsnprintf\<close>, given the text the format and its arguments stand for, or none for an encoding
  error: its result is the length of the whole text, or negative when that is no \<^verbatim>\<open>int\<close>; into
  a buffer of \<open>n\<close> bytes it writes what fits before a zero byte.
\<close>

definition vsnprintf_result :: "string option \<Rightarrow> int" where
  "vsnprintf_result formatted =
     (case formatted of None \<Rightarrow> - 1 | Some s \<Rightarrow> if length s \<le> 2147483647 then int (length s) else - 1)"

definition vsnprintf_write :: "nat \<Rightarrow> string option \<Rightarrow> string \<Rightarrow> string" where
  "vsnprintf_write n formatted buffer =
     (case formatted of
        None \<Rightarrow> buffer
      | Some s \<Rightarrow>
          if n = 0 then buffer
          else (let written = take (n - 1) s @ [CHR 0x00] in written @ drop (length written) buffer))"

text \<open>
  The string is measured, resized, and written together with its terminator, the last element of the
  buffer here, which is not a part of the result.
\<close>

definition StringPrintf :: "string option \<Rightarrow> string" where
  "StringPrintf formatted =
     (let needed = vsnprintf_result formatted in
      if 0 < needed
      then butlast (vsnprintf_write (nat needed + 1) formatted (replicate (nat needed + 1) (CHR 0x00)))
      else [])"

text \<open>The macro \<^verbatim>\<open>TUPLESTONE_LOG\<close>: a disabled level formats nothing.\<close>

definition log_macro :: "LogLevel \<Rightarrow> string \<Rightarrow> int \<Rightarrow> string option \<Rightarrow> Logger \<Rightarrow> Logger" where
  "log_macro level file line formatted lg =
     (if lg_Enabled level lg then lg_Log level file line (StringPrintf formatted) lg else lg)"

text \<open>The measured buffer takes the whole text, whatever its length, unless it has more bytes than an \<^verbatim>\<open>int\<close>.\<close>

lemma StringPrintf_text:
  "StringPrintf formatted = (case formatted of Some s \<Rightarrow> if length s \<le> 2147483647 then s else [] | None \<Rightarrow> [])"
  by (auto simp: StringPrintf_def vsnprintf_result_def vsnprintf_write_def Let_def split: option.split)

lemma lower_level_names:
  "map tolower ''TRACE'' = ''trace''" "map tolower ''DEBUG'' = ''debug''" "map tolower ''INFO'' = ''info''"
  "map tolower ''WARN'' = ''warn''" "map tolower ''ERROR'' = ''error''" "map tolower ''OFF'' = ''off''"
  by code_simp+

lemma ParseLogLevel_name: "ParseLogLevel (LogLevelName level) out = (True, level)"
  by (cases level) (simp_all only: LogLevelName.simps ParseLogLevel_def Let_def lower_level_names, simp_all)

lemma ParseLogLevel_rejects: "fst (ParseLogLevel text out) = False \<Longrightarrow> snd (ParseLogLevel text out) = out"
  by (auto simp: ParseLogLevel_def Let_def split: if_splits)

lemma BaseName_no_separator: "CHR ''/'' \<notin> set (BaseName path) \<and> CHR 0x5C \<notin> set (BaseName path)"
  by (auto simp: BaseName_def dest: set_takeWhileD)

lemma suffix_BaseName: "suffix (BaseName path) path"
  unfolding BaseName_def by (metis rev_rev_ident suffix_to_prefix takeWhile_is_prefix)

section \<open>A failed assertion\<close>

text \<open>What \<^verbatim>\<open>AssertionFailed\<close> writes before it aborts; the message may be null.\<close>

definition assertion_report :: "string \<Rightarrow> int \<Rightarrow> string \<Rightarrow> string \<Rightarrow> string option \<Rightarrow> string" where
  "assertion_report file line func expr message =
     (let newline = [CHR 0x0A] in
      newline @ ''tuplestone: assertion failed'' @ newline @
      ''  at       '' @ file @ '':'' @ int_to_string line @ newline @
      ''  in       '' @ func @ newline @
      ''  expected '' @ expr @ newline @
      ''  message  '' @ (case message of Some m \<Rightarrow> m | None \<Rightarrow> ''(none)'') @ newline)"

section \<open>Doubles in byte buffers\<close>

definition DoubleToBits :: "double \<Rightarrow> u64" where
  "DoubleToBits d = dbl_bits d"

definition BitsToDouble :: "u64 \<Rightarrow> double" where
  "BitsToDouble b = Double b"

definition StoreF64LE :: "bytes \<Rightarrow> nat \<Rightarrow> double \<Rightarrow> bytes" where
  "StoreF64LE b off v = StoreU64LE b off (DoubleToBits v)"

definition LoadF64LE :: "bytes \<Rightarrow> nat \<Rightarrow> double" where
  "LoadF64LE b off = BitsToDouble (LoadU64LE b off)"

lemma LoadF64LE_StoreF64LE: "off + 8 \<le> length b \<Longrightarrow> LoadF64LE (StoreF64LE b off v) off = v"
  by (simp add: LoadF64LE_def StoreF64LE_def DoubleToBits_def BitsToDouble_def u64le.load_store)

end
