(* ===== verification/Crash_History.thy ===== *)
theory Crash_History
  imports Engine
begin

text \<open>
  Durability of whole histories: any sequence of operations of any connections, and a crash at any
  point of the last one. \<open>acknowledged\<close> is what the clients of the database were told to be durable,
  the shared tables at the last operation that acknowledged a write or at the last checkpoint; the
  lemmas show that this is what a reopened database finds, but for the two losses the theorems name: a
  data file whose flush failed, and a checkpoint that removed the data file and could not replace it.
\<close>

section \<open>A durable state\<close>

definition db_durable :: "Options \<Rightarrow> Database \<Rightarrow> env \<Rightarrow> Tables \<Rightarrow> bool" where
  "db_durable opts db e D \<longleftrightarrow>
     tape e = [] \<and> (\<exists>rs. db_ready db e rs) \<and> sync_on_commit (db_options db) \<and> create_if_missing opts \<and>
     reopened (db_path db) opts e = Inr D"

lemma db_ready_memory [simp]:
  "db_ready (db\<lparr>db_tables := ts\<rparr>) e rs = db_ready db e rs"
  "db_ready (db\<lparr>db_generation := g\<rparr>) e rs = db_ready db e rs"
  by (simp_all add: db_ready_def)

lemma db_durable_memory [simp]:
  "db_durable opts (db\<lparr>db_tables := ts\<rparr>) e D = db_durable opts db e D"
  "db_durable opts (db\<lparr>db_generation := g\<rparr>) e D = db_durable opts db e D"
  by (simp_all add: db_durable_def)

lemma snapshot_loads: "snapshot_fits ts \<Longrightarrow> LoadTablesBytes (SerializeTables ts) = Inr ts"
  using LoadTablesBytes_append [of ts "[]"] by (simp add: snapshot_fits_def)

text \<open>Persisting without faults makes the tables durable.\<close>

lemma Persist_durable:
  assumes "db_durable opts db e D" "snapshot_fits ts" "PersistCommittedTables db ts e = (st, db', e')"
  shows "st = None \<and> db_durable opts db' e' ts"
proof -
  obtain rs where d: "tape e = []" "db_ready db e rs" "sync_on_commit (db_options db)" "create_if_missing opts"
    "reopened (db_path db) opts e = Inr D" using assms(1) by (auto simp: db_durable_def)
  obtain db1 e1 where p: "PersistCommittedTables db ts e = (None, db1, e1)"
    and f: "fs e1 (db_path db) = Some (SerializeTables ts)" "tape e1 = []"
    using Persist_faultless [OF d(1,2) assms(2)] by blast
  have x: "st = None" "db' = db1" "e' = e1" using p assms(3) by simp_all
  have "reopened (db_path db) opts e' = Inr ts"
    using commit_outcome_loads [OF p d(2,3) assms(2) d(4,5) f(1)] x by simp
  moreover have "\<exists>rs. db_ready db' e' rs"
    using Persist_cases [OF assms(3) d(2,3) refl] x(1) by auto
  moreover have "db_path db' = db_path db" "db_options db' = db_options db" using wal_store.keeps [OF assms(3)] by simp_all
  ultimately show ?thesis using x f(2) d(3,4) by (simp add: db_durable_def)
qed

text \<open>Persisting with faults leaves one or the other.\<close>

definition with_faults :: "io_outcome list \<Rightarrow> env \<Rightarrow> env" where
  "with_faults t e = e\<lparr>tape := t\<rparr>"

lemma db_ready_faults [simp]: "db_ready db (with_faults t e) rs = db_ready db e rs"
  by (simp add: db_ready_def lm_holds_def log_image_def contents_def with_faults_def)

lemma reopened_faults [simp]: "reopened path opts (with_faults t e) = reopened path opts e"
  by (simp add: reopened_def crash_def with_faults_def)

lemma Persist_crash:
  assumes "db_durable opts db e D" "snapshot_fits ts" "PersistCommittedTables db ts (with_faults t e) = (st, db', e')"
  shows "reopened (db_path db) opts e' \<in> {Inr D, Inr ts} \<or>
    torn_data (db_path db) ts (save_env db ts (with_faults t e)) e'"
proof -
  obtain rs where d: "db_ready db e rs" "sync_on_commit (db_options db)" "create_if_missing opts"
    "reopened (db_path db) opts e = Inr D" using assms(1) by (auto simp: db_durable_def)
  from commit_outcome [OF assms(3) _ d(2) assms(2) d(3)] d show ?thesis by auto
qed

section \<open>One operation\<close>

lemma ExecuteSql_shape:
  assumes "ExecuteSql sql params db cn e = (r, db', cn', e')"
  shows "(\<not> statement_writes sql params db cn \<and> e' = e \<and> (\<exists>ts. db' = db\<lparr>db_tables := ts\<rparr>)) \<or>
    (statement_writes sql params db cn \<and>
      (\<exists>ts g st. PersistCommittedTables (db\<lparr>db_tables := ts, db_generation := g\<rparr>) ts e = (st, db', e') \<and> db_tables db' = ts))"
proof (cases "cn_tables cn")
  case None
  show ?thesis
  proof (cases "oc_persist (exec_sql sql params (working_tables db cn))")
    case True
    let ?ts = "oc_tables (exec_sql sql params (working_tables db cn))"
    obtain st db2 e2 where p: "PersistCommittedTables (db\<lparr>db_tables := ?ts, db_generation := db_generation db + 1\<rparr>) ?ts e =
        (st, db2, e2)" by (metis prod_cases3)
    then have "db' = db2" "e' = e2"
      using assms None True by (simp_all add: ExecuteSql_def put_tables_def persist_def Let_def)
    moreover have "db_tables db2 = ?ts" using wal_store.installed [OF p] by simp
    ultimately show ?thesis using p None True by (auto simp: statement_writes_def)
  next
    case False
    then show ?thesis using assms None by (auto simp: ExecuteSql_def put_tables_def statement_writes_def Let_def)
  qed
next
  case (Some ts)
  have "db\<lparr>db_tables := db_tables db\<rparr> = db" by simp
  then show ?thesis using ExecuteSql_isolated(1,2) [OF Some assms] Some by (metis option.distinct(1) statement_writes_def)
qed

lemma commit_tables_shape:
  assumes "commit_tables ts db cn e = (st, db', cn', e')"
  shows "(db_generation db \<noteq> cn_generation cn \<and> e' = e \<and> db' = db) \<or>
    (db_generation db = cn_generation cn \<and>
      (\<exists>us g st. PersistCommittedTables (db\<lparr>db_tables := us, db_generation := g\<rparr>) us e = (st, db', e') \<and> db_tables db' = us))"
proof (cases "db_generation db = cn_generation cn")
  case True
  let ?us = "RefreshCatalog ts"
  obtain st2 db2 e2 where p: "PersistCommittedTables (db\<lparr>db_tables := ?us, db_generation := db_generation db + 1\<rparr>) ?us e =
      (st2, db2, e2)" by (metis prod_cases3)
  then have "db' = db2" "e' = e2" using assms True by (simp_all add: commit_tables_def Let_def)
  moreover have "db_tables db2 = ?us" using wal_store.installed [OF p] by simp
  ultimately show ?thesis using p True by auto
qed (use assms in \<open>auto simp: commit_tables_def\<close>)

text \<open>An operation of a connection keeps the files, or persists the shared tables it leaves.\<close>

definition quiet :: "Database \<Rightarrow> env \<Rightarrow> Database \<Rightarrow> env \<Rightarrow> bool" where
  "quiet db e db' e' \<longleftrightarrow> e' = e \<and> (\<exists>ts. db' = db\<lparr>db_tables := ts\<rparr>)"

definition persists :: "Database \<Rightarrow> env \<Rightarrow> Database \<Rightarrow> env \<Rightarrow> bool" where
  "persists db e db' e' \<longleftrightarrow>
     (\<exists>ts g st. PersistCommittedTables (db\<lparr>db_tables := ts, db_generation := g\<rparr>) ts e = (st, db', e') \<and> db_tables db' = ts)"

lemma quiet_refl [simp]: "quiet db e db e"
proof -
  have "db = db\<lparr>db_tables := db_tables db\<rparr>" by simp
  then show ?thesis unfolding quiet_def by blast
qed

lemma cn_Execute_shape:
  assumes "cn_Execute sql db cn e = (st, db', cn', e')"
  shows "if execute_writes sql db cn then persists db e db' e' else quiet db e db' e'"
proof -
  consider "TrimLower sql = ''begin''" | "TrimLower sql = ''rollback''" | "TrimLower sql = ''commit''"
    | "TrimLower sql \<notin> {''begin'', ''rollback'', ''commit''}" by blast
  then show ?thesis
  proof cases
    case 3
    show ?thesis
    proof (cases "cn_tables cn")
      case None
      then show ?thesis using assms 3 by (simp add: cn_Execute_def execute_writes_def)
    next
      case (Some ts)
      then have "commit_tables ts db cn e = (st, db', cn', e')" using assms 3 by (simp add: cn_Execute_def)
      from commit_tables_shape [OF this] show ?thesis
        using 3 Some by (auto simp: execute_writes_def persists_def)
    qed
  next
    case 4
    obtain r where "ExecuteSql sql [] db cn e = (r, db', cn', e')"
      using assms 4 by (auto simp: cn_Execute_def split: prod.splits)
    from ExecuteSql_shape [OF this] show ?thesis
      using 4 by (auto simp: execute_writes_def quiet_def persists_def)
  qed (use assms in \<open>auto simp: cn_Execute_def execute_writes_def split: if_splits\<close>)
qed

lemma op_shape:
  assumes "op \<noteq> Check"
  shows "if op_writes op s then persists (en_db s) (en_env s) (en_db (apply_op op s)) (en_env (apply_op op s))
    else quiet (en_db s) (en_env s) (en_db (apply_op op s)) (en_env (apply_op op s))"
proof (cases op)
  case (Run i sql params)
  obtain r db cn e where x: "ExecuteSql sql params (en_db s) (en_conns s ! i) (en_env s) = (r, db, cn, e)"
    by (metis prod_cases4)
  from ExecuteSql_shape [OF x] x show ?thesis by (auto simp: Run on_connection_def quiet_def persists_def)
next
  case (Exec i sql)
  obtain st db cn e where x: "cn_Execute sql (en_db s) (en_conns s ! i) (en_env s) = (st, db, cn, e)"
    by (metis prod_cases4)
  from cn_Execute_shape [OF x] x show ?thesis by (simp add: Exec on_connection_def)
next
  case (Start i)
  then show ?thesis by (simp add: on_connection_def split: prod.split)
next
  case Connect
  then show ?thesis by (simp split: sum.split)
qed (use assms in simp)

lemma op_durable:
  assumes "db_durable opts (en_db s) (en_env s) D" "snapshot_fits (db_tables (en_db (apply_op op s)))"
  shows "db_durable opts (en_db (apply_op op s)) (en_env (apply_op op s))
    (if op_writes op s \<or> op = Check then db_tables (en_db (apply_op op s)) else D)"
proof (cases "op = Check")
  case True
  let ?db = "en_db s" and ?e = "en_env s"
  obtain rs where d: "tape ?e = []" "db_ready ?db ?e rs" "sync_on_commit (db_options ?db)" "create_if_missing opts"
    using assms(1) by (auto simp: db_durable_def)
  obtain db' e' where c: "db_Checkpoint ?db ?e = (None, db', e')" "tape e' = []"
    "fs e' (db_path ?db) = Some (SerializeTables (db_tables ?db))"
    using db_Checkpoint_faultless [OF d(1,2)] by blast
  note k = db_Checkpoint_ok [OF c(1) d(2)]
  have p: "db_path ?db \<noteq> []" using d(2) by (simp add: db_ready_def)
  have same: "db_path db' = db_path ?db" "db_options db' = db_options ?db"
    using c(1) by (auto simp: db_Checkpoint_def split: if_splits prod.splits option.splits)
  have fits: "snapshot_fits (db_tables ?db)" using assms(2) True c(1) k(3) by simp
  have "reopened (db_path ?db) opts e' = Inr (db_tables ?db)"
    using k(2) c(3) snapshot_loads [OF fits]
    by (simp add: reopened_eq [OF p] recovered_tables_def data_tables_def replay_start_def)
  then have "db_durable opts db' e' (db_tables db')"
    using k(1,3) c(2) same d(3,4) by (auto simp: db_durable_def)
  then show ?thesis using True c(1) by simp
next
  case False
  note shape = op_shape [OF False, of s]
  let ?db = "en_db (apply_op op s)" and ?e = "en_env (apply_op op s)"
  show ?thesis
  proof (cases "op_writes op s")
    case True
    then obtain g st where p: "PersistCommittedTables ((en_db s)\<lparr>db_tables := db_tables ?db, db_generation := g\<rparr>)
        (db_tables ?db) (en_env s) = (st, ?db, ?e)"
      using shape unfolding persists_def by auto
    have "db_durable opts ((en_db s)\<lparr>db_tables := db_tables ?db, db_generation := g\<rparr>) (en_env s) D"
      using assms(1) by simp
    from Persist_durable [OF this assms(2) p] show ?thesis using True by simp
  next
    case False': False
    then obtain ts where "?e = en_env s" "?db = (en_db s)\<lparr>db_tables := ts\<rparr>" using shape by (auto simp: quiet_def)
    then show ?thesis using assms(1) False False' by simp
  qed
qed

text \<open>
  A checkpoint under faults. The log is what it was or empty, and empty only behind a data file that was
  saved; so the only losses are a data file whose flush failed and one that was removed before its
  replacement failed.
\<close>

lemma lm_Truncate_log:
  assumes "lm_Truncate lm e = (st, lm', e')" "lm_pending lm = []"
  shows "contents e' (lm_path lm) \<in> {contents e (lm_path lm), []}" "q \<noteq> lm_path lm \<Longrightarrow> fs e' q = fs e q"
proof -
  have "stream_flush p [] e = (ok, pending, e1) \<Longrightarrow> pending = [] \<and> contents e1 p = contents e p \<and> (q \<noteq> p \<longrightarrow> fs e1 q = fs e q)"
    for p ok pending e e1
    by (auto simp: stream_flush_def contents_next_io split: prod.splits io_outcome.splits)
  note flush = this
  have close: "contents (stream_close p [] e) p = contents e p" "q \<noteq> p \<longrightarrow> fs (stream_close p [] e) q = fs e q" for p e
    using flush [of p e] by (metis prod.collapse stream_close_def)+
  have sync: "SyncFile p e = (st, e') \<Longrightarrow> fs e' = fs e" for p e st e' by (rule SyncFile_fs)
  have "contents e' (lm_path lm) \<in> {contents e (lm_path lm), []} \<and> (q \<noteq> lm_path lm \<longrightarrow> fs e' q = fs e q)"
  proof (cases "lm_open lm")
    case False
    with assms show ?thesis by (simp add: lm_Truncate_def)
  next
    case True
    obtain ok pending e1 where f: "stream_flush (lm_path lm) [] e = (ok, pending, e1)" by (metis prod_cases3)
    let ?e2 = "stream_close (lm_path lm) [] e1"
    have 2: "contents ?e2 (lm_path lm) = contents e (lm_path lm)" "q \<noteq> lm_path lm \<longrightarrow> fs ?e2 q = fs e q"
      using flush [OF f] close by simp_all
    obtain ok3 e3 where t: "open_trunc (lm_path lm) ?e2 = (ok3, e3)" by fastforce
    have 3: "contents e3 (lm_path lm) = (if ok3 then [] else contents e (lm_path lm))" "q \<noteq> lm_path lm \<longrightarrow> fs e3 q = fs e q"
      using t 2 by (auto simp: open_trunc_def contents_io_try split: prod.splits if_splits dest: io_try_fs)
    obtain ok4 e4 where a: "open_append (lm_path lm) e3 = (ok4, e4)" by fastforce
    have 4: "contents e4 (lm_path lm) = contents e3 (lm_path lm)" "q \<noteq> lm_path lm \<longrightarrow> fs e4 q = fs e3 q"
      using a by (auto simp: open_append_def contents_io_try split: prod.splits if_splits dest: io_try_fs)
    obtain st5 e5 where y: "SyncFile (lm_path lm) e4 = (st5, e5)" by fastforce
    have "fs e5 = fs e4" using sync [OF y] .
    then have 5: "contents e5 = contents e4" by (simp add: contents_def fun_eq_iff)
    have "e' \<in> {e3, e4, e5}" "\<not> ok3 \<longrightarrow> e' = e3"
      using assms True f t a y flush [OF f] by (auto simp: lm_Truncate_def Let_def split: if_splits)
    with 3 4 5 \<open>fs e5 = fs e4\<close> show ?thesis by auto
  qed
  then show "contents e' (lm_path lm) \<in> {contents e (lm_path lm), []}" "q \<noteq> lm_path lm \<Longrightarrow> fs e' q = fs e q" by blast+
qed

lemma Checkpoint_crash:
  assumes "db_durable opts db e D" "snapshot_fits (db_tables db)" "db_Checkpoint db (with_faults t e) = (st, db', e')"
  shows "reopened (db_path db) opts e' \<in> {Inr D, Inr (db_tables db)} \<or>
    torn_data (db_path db) (db_tables db) (with_faults t e) e' \<or>
    st \<noteq> None \<and> fs e' (db_path db) = None \<and> reopened (db_path db) opts e' = Inr []"
proof -
  let ?q = "db_path db" and ?p = "wal_path (db_path db)" and ?e = "with_faults t e"
  obtain rs where d: "db_ready db e rs" "create_if_missing opts" "reopened ?q opts e = Inr D"
    using assms(1) by (auto simp: db_durable_def)
  have q: "?q \<noteq> []" and rs: "list_all record_fits rs" and w: "contents e ?p = encode_log rs"
    and lm: "lm_path (db_wal db) = ?p" "lm_pending (db_wal db) = []"
    using d(1) by (auto simp: db_ready_def lm_holds_def log_image_def)
  have same: "fs ?e = fs e" by (simp add: with_faults_def)
  have D: "recovered_tables opts (fs e ?q) rs = Inr D"
    using d(3) by (simp add: reopened_eq [OF q] w ReadRecords_encode_log [OF rs])
  then obtain t0 where t0: "data_tables opts (fs e ?q) = Inr t0" by (auto simp: recovered_tables_def split: sum.splits)
  have fits: "tables_fit (db_tables db)" using assms(2) by (simp add: snapshot_fits_def)
  obtain st1 e1 where sv: "SaveTables ?q (db_tables db) ?e = (st1, e1)" by fastforce
  have log1: "contents e1 ?p = encode_log rs"
    using SaveTables_other [OF sv, of ?p] w by (simp add: contents_def same)
  have end1: "fs e' ?q = fs e1 ?q" "contents e' ?p = encode_log rs \<or> st1 = None \<and> contents e' ?p = []"
    "st1 \<noteq> None \<longrightarrow> st \<noteq> None"
    using assms(3) d(1) sv log1 lm lm_Truncate_log [of "db_wal db" e1 _ _ e']
    by (auto simp: db_Checkpoint_def db_ready_def split: option.splits prod.splits)
  then have read: "ReadRecords (contents e' ?p) = rs \<or> st1 = None \<and> ReadRecords (contents e' ?p) = []"
    using ReadRecords_encode_log [OF rs] by auto
  show ?thesis
  proof (cases "torn_data ?q (db_tables db) ?e e'")
    case False
    have new: "data_tables opts (Some (SerializeTables (db_tables db))) = Inr (db_tables db)"
      using LoadTablesBytes_append [of "db_tables db" "[]"] fits by (simp add: data_tables_def)
    have gone: "data_tables opts None = Inr []" using d(2) by (simp add: data_tables_def)
    have "fs e' ?q = Some (SerializeTables (db_tables db)) \<or>
        st1 \<noteq> None \<and> (fs e' ?q = fs e ?q \<or> fs e' ?q = None)"
      using SaveTables_outcome [OF sv] False end1(1) by (auto simp: torn_data_def same)
    then show ?thesis
    proof (elim disjE conjE)
      assume "fs e' ?q = Some (SerializeTables (db_tables db))"
      moreover have "recovered_tables opts (Some (SerializeTables (db_tables db))) [] = Inr (db_tables db)"
        using new by (simp add: recovered_tables_def replay_start_def)
      ultimately show ?thesis
        using recovered_tables_log [OF D new] read by (auto simp: reopened_eq [OF q])
    next
      assume "st1 \<noteq> None" "fs e' ?q = fs e ?q"
      then show ?thesis using D read by (auto simp: reopened_eq [OF q])
    next
      assume "st1 \<noteq> None" "fs e' ?q = None"
      then show ?thesis
        using recovered_tables_log [OF D gone] read end1(3)
        by (cases "log_recovers rs") (auto simp: reopened_eq [OF q])
    qed
  qed simp
qed

text \<open>The environment in which an operation writes the data file.\<close>

definition saving_env :: "operation \<Rightarrow> engine \<Rightarrow> Tables \<Rightarrow> env" where
  "saving_env op s ts = (if op = Check then en_env s else save_env (en_db s) ts (en_env s))"

lemma op_crash:
  assumes "db_durable opts (en_db s) (en_env s) D"
    and "faulty = s\<lparr>en_env := with_faults t (en_env s)\<rparr>" "s' = apply_op op faulty"
    and "snapshot_fits (db_tables (en_db s'))"
  shows "reopened (db_path (en_db s)) opts (en_env s') \<in> {Inr D, Inr (db_tables (en_db s'))} \<or>
    torn_data (db_path (en_db s)) (db_tables (en_db s')) (saving_env op faulty (db_tables (en_db s'))) (en_env s') \<or>
    op = Check \<and> fs (en_env s') (db_path (en_db s)) = None \<and> reopened (db_path (en_db s)) opts (en_env s') = Inr []"
proof (cases "op = Check")
  case True
  obtain st db' e' where c: "db_Checkpoint (en_db s) (with_faults t (en_env s)) = (st, db', e')" by (metis prod_cases3)
  have "db_tables db' = db_tables (en_db s)" using db_Checkpoint_tables [OF c] .
  with Checkpoint_crash [OF assms(1) _ c] assms(2-4) c True show ?thesis by (auto simp: saving_env_def)
next
  case False
  note shape = op_shape [OF False, of faulty, folded assms(3)]
  show ?thesis
  proof (cases "op_writes op faulty")
    case True
    then obtain g st where p: "PersistCommittedTables ((en_db s)\<lparr>db_tables := db_tables (en_db s'), db_generation := g\<rparr>)
        (db_tables (en_db s')) (with_faults t (en_env s)) = (st, en_db s', en_env s')"
      using shape assms(2) unfolding persists_def by auto
    have "db_durable opts ((en_db s)\<lparr>db_tables := db_tables (en_db s'), db_generation := g\<rparr>) (en_env s) D"
      using assms(1) by simp
    from Persist_crash [OF this assms(4) p] False assms(2) show ?thesis
      by (simp add: saving_env_def save_env_def)
  next
    case False
    then have "en_env s' = with_faults t (en_env s)" using shape assms(2) by (simp add: quiet_def)
    then show ?thesis using assms(1) by (simp add: db_durable_def)
  qed
qed

section \<open>Histories\<close>

fun acknowledged :: "operation list \<Rightarrow> engine \<Rightarrow> Tables \<Rightarrow> Tables" where
  "acknowledged [] s D = D"
| "acknowledged (op # ops) s D =
     acknowledged ops (apply_op op s)
       (if op_writes op s \<or> op = Check then db_tables (en_db (apply_op op s)) else D)"

text \<open>The tables fit the 32-bit length fields of the formats after every operation.\<close>

fun history_fits :: "operation list \<Rightarrow> engine \<Rightarrow> bool" where
  "history_fits [] s \<longleftrightarrow> True"
| "history_fits (op # ops) s \<longleftrightarrow> snapshot_fits (db_tables (en_db (apply_op op s))) \<and> history_fits ops (apply_op op s)"

lemma history_durable:
  "db_durable opts (en_db s) (en_env s) D \<Longrightarrow> history_fits ops s \<Longrightarrow>
   db_durable opts (en_db (run_ops ops s)) (en_env (run_ops ops s)) (acknowledged ops s D)"
proof (induction ops arbitrary: s D)
  case (Cons op ops)
  then show ?case using op_durable [OF Cons.prems(1), of op] by simp
qed simp

section \<open>Properties\<close>

text \<open>C3: whole histories are durable, and what a crash can cost is known. Start from an open database whose
  files agree with \<open>D\<close>; let any sequence of operations of any connections run without I/O faults, and
  then one more operation, a checkpoint included, during which any calls fail in any way. Reopening the
  database after a crash then finds the tables as they were at the last acknowledged write or
  checkpoint, or as the last operation left them. Two failures break this, and no other: the flush of
  the new data file failed, which the code does not look at, and the data file is not the one that was
  to be written; or a checkpoint removed the data file and could not replace it, and with no committed
  snapshot in the log reopening finds an empty database.\<close>

theorem history_survives_crash:
  assumes "db_durable opts (en_db s) (en_env s) D" "history_fits ops s" "s1 = run_ops ops s"
    and "faulty = s1\<lparr>en_env := with_faults t (en_env s1)\<rparr>" "s2 = apply_op op faulty"
    and "snapshot_fits (db_tables (en_db s2))"
  shows "reopened (db_path (en_db s1)) opts (en_env s1) = Inr (acknowledged ops s D) \<and>
    (reopened (db_path (en_db s1)) opts (en_env s2) \<in> {Inr (acknowledged ops s D), Inr (db_tables (en_db s2))} \<or>
     torn_data (db_path (en_db s1)) (db_tables (en_db s2)) (saving_env op faulty (db_tables (en_db s2))) (en_env s2) \<or>
     op = Check \<and> fs (en_env s2) (db_path (en_db s1)) = None \<and> reopened (db_path (en_db s1)) opts (en_env s2) = Inr [])"
proof -
  have d: "db_durable opts (en_db s1) (en_env s1) (acknowledged ops s D)"
    using history_durable [OF assms(1,2)] assms(3) by simp
  then have "reopened (db_path (en_db s1)) opts (en_env s1) = Inr (acknowledged ops s D)" by (simp add: db_durable_def)
  then show ?thesis using op_crash [OF d assms(4-6)] by blast
qed

lemma empty_fits: "snapshot_fits []"
  using empty_payload by (simp add: snapshot_fits_def tables_fit_def om_ok_def max_length_def)

lemma sample_durable: "db_durable default_Options (en_db sample_engine) (en_env sample_engine) []"
  using sample_db_ready sample_reopened [of sample_env]
  by (auto simp: db_durable_def sample_engine_def sample_simps sample_env_def)

theorem history_survives_crash_witness:
  "let s1 = run_ops [Exec 0 ''begin''] sample_engine;
       s2 = apply_op (Exec 0 ''commit'') (s1\<lparr>en_env := with_faults [IoFail 1 33] (en_env s1)\<rparr>)
   in reopened ''d'' default_Options (en_env s2) \<in> {Inr [], Inr (RefreshCatalog [])}"
proof -
  let ?s1 = "run_ops [Exec 0 ''begin''] sample_engine" and ?e = "with_faults [IoFail 1 33] sample_env"
    and ?cn = "begin_transaction sample_db new_Connection"
  let ?s2 = "apply_op (Exec 0 ''commit'') (?s1\<lparr>en_env := with_faults [IoFail 1 33] (en_env ?s1)\<rparr>)"
  let ?db = "sample_db\<lparr>db_tables := RefreshCatalog [], db_generation := db_generation sample_db + 1\<rparr>"
  have b: "?s1 = sample_engine\<lparr>en_conns := [begin_transaction sample_db new_Connection, new_Connection]\<rparr>"
    by (simp add: sample_engine_def new_Connection_def begin_state)
  have c: "TrimLower ''begin'' = ''begin''" "TrimLower ''commit'' = ''commit''" by code_simp+
  have t: "tape ?e = [IoFail 1 33]" by (simp add: with_faults_def)
  have t2: "db_ready ?db ?e []" using sample_db_ready by simp
  have p: "db_path sample_db = ''d''" "db_tables sample_db = []" by (simp_all add: sample_simps)
  obtain st db2 e2 where r: "PersistCommittedTables ?db (RefreshCatalog []) ?e = (st, db2, e2)" by (metis prod_cases3)
  then have f: "fs e2 ''d'' = None" "db_tables db2 = RefreshCatalog []"
    using Persist_torn [OF t t2, of "RefreshCatalog []"] p by (auto simp: with_faults_def sample_env_def)
  have x: "cn_Execute ''commit'' sample_db ?cn ?e = (st, db2, new_Connection\<lparr>cn_generation := db_generation sample_db\<rparr>, e2)"
    using r c p by (simp add: cn_Execute_def commit_tables_def begin_transaction_def new_Connection_def)
  have "?s1\<lparr>en_env := with_faults [IoFail 1 33] (en_env ?s1)\<rparr> =
      \<lparr>en_db = sample_db, en_conns = [?cn, new_Connection], en_env = ?e\<rparr>"
    unfolding b by (simp add: sample_engine_def)
  then have s2: "?s2 = on_connection 0 (cn_Execute ''commit'') \<lparr>en_db = sample_db, en_conns = [?cn, new_Connection], en_env = ?e\<rparr>"
    by (simp only: apply_op.simps)
  have f2: "en_env ?s2 = e2" "en_db ?s2 = db2"
    unfolding s2 on_connection_def by (simp_all add: x [unfolded One_nat_def])
  have h: "history_fits [Exec 0 ''begin''] sample_engine"
    using b p by (simp add: sample_engine_def empty_fits)
  have s1: "en_db ?s1 = sample_db" unfolding b by (simp add: sample_engine_def)
  have a: "acknowledged [Exec 0 ''begin''] sample_engine [] = []"
    using c by (simp add: sample_engine_def execute_writes_def)
  have fits: "snapshot_fits (db_tables (en_db ?s2))"
    unfolding f2 using f empty_catalog_fits by simp
  let ?faulty = "?s1\<lparr>en_env := with_faults [IoFail 1 33] (en_env ?s1)\<rparr>"
  have faulty: "en_db ?faulty = sample_db" "en_env ?faulty = ?e"
    unfolding b by (simp_all add: sample_engine_def)
  have "tape (save_env sample_db ts ?e) = []" for ts
    using save_env_torn [OF t, of sample_db "[]"] sample_db_ready by simp
  then have "\<not> torn_data path ts (saving_env (Exec 0 ''commit'') ?faulty us) e'" for path ts us e'
    unfolding saving_env_def faulty by (simp add: torn_data_def flush_fails_faultless)
  then have "reopened (db_path (en_db ?s1)) default_Options (en_env ?s2) \<in>
      {Inr (acknowledged [Exec 0 ''begin''] sample_engine []), Inr (db_tables (en_db ?s2))}"
    using history_survives_crash [OF sample_durable h refl refl refl fits] by blast
  then show ?thesis unfolding a f2 s1 p(1) f(2) Let_def .
qed

text \<open>C25: a checkpoint can lose the database. The log is empty, as every checkpoint leaves it; the rename of
  the temporary file over the data file fails, the data file is removed, and the second rename
  fails too. The checkpoint reports the failure, and reopening after a crash finds an empty
  database, without an error, whatever tables were there.\<close>

theorem failed_checkpoint_empties:
  assumes "db_ready db e []" "create_if_missing opts"
    and "tape e = [IoOk 0, IoOk n, IoOk 0, IoOk 0, IoFail 0 0, IoOk 0, IoFail 0 0]"
  shows "\<exists>e'. db_Checkpoint db e = (Some (IoError (''cannot replace database file: '' @ errtext e)), db, e') \<and>
    reopened (db_path db) opts e' = Inr []"
proof -
  let ?p = "db_path db" and ?t = "db_path db @ ''.tmp''"
  obtain st e' where s: "SaveTables ?p (db_tables db) e = (st, e')" by (metis surj_pair)
  then have r: "st = Some (IoError (''cannot replace database file: '' @ errtext e))" "fs e' ?p = None"
    using assms(3) by (auto simp: SaveTables_def Let_def io_defs next_io_def stream_close_def)
  have "fs e' (wal_path ?p) = fs e (wal_path ?p)"
    by (rule SaveTables_other [OF s]) simp_all
  then have "contents e' (wal_path ?p) = []"
    using assms(1) by (auto simp: db_ready_def lm_holds_def log_image_def contents_def)
  then have "reopened ?p opts e' = Inr []"
    using assms(1,2) r(2) by (simp add: db_ready_def reopened_eq recovered_tables_def data_tables_def replay_start_def)
  moreover have "db_Checkpoint db e = (st, db, e')"
    using assms(1) s r(1) by (simp add: db_Checkpoint_def db_ready_def)
  ultimately show ?thesis using r(1) by blast
qed

theorem failed_checkpoint_empties_witness:
  "\<exists>e'. db_Checkpoint (sample_db\<lparr>db_tables := RefreshCatalog []\<rparr>)
      (with_faults [IoOk 0, IoOk 5, IoOk 0, IoOk 0, IoFail 0 0, IoOk 0, IoFail 0 0]
        (put_file ''d'' (SerializeTables (RefreshCatalog [])) sample_env)) =
      (Some (IoError (''cannot replace database file: '' @ errtext sample_env)), sample_db\<lparr>db_tables := RefreshCatalog []\<rparr>, e') \<and>
    reopened ''d'' default_Options e' = Inr []"
proof -
  let ?db = "sample_db\<lparr>db_tables := RefreshCatalog []\<rparr>"
    and ?t = "[IoOk 0, IoOk 5, IoOk 0, IoOk 0, IoFail 0 0, IoOk 0, IoFail 0 0]"
    and ?e = "put_file ''d'' (SerializeTables (RefreshCatalog [])) sample_env"
  have "contents ?e ''d.wal'' = contents sample_env ''d.wal''" by simp
  then have "db_ready sample_db ?e []"
    using sample_db_ready by (simp add: db_ready_def lm_holds_def log_image_def sample_simps)
  then have r: "db_ready ?db (with_faults ?t ?e) []" by simp
  have "create_if_missing default_Options" by (simp add: default_Options_def)
  moreover have "tape (with_faults ?t ?e) = ?t" by (simp add: with_faults_def)
  moreover have p: "db_path ?db = ''d''" by (simp add: sample_simps)
  moreover have "errtext (with_faults ?t ?e) = errtext sample_env" by (simp add: with_faults_def put_file_def)
  ultimately show ?thesis using failed_checkpoint_empties [OF r] by metis
qed

end
