(* ===== verification/Sql_Dml.thy ===== *)
theory Sql_Dml
  imports Sql_Select
begin

text \<open>
  What INSERT, UPDATE and DELETE do to the rows of their table, given the clauses the parser has read:
  a declarative account of each, which the loops of \<^verbatim>\<open>ExecuteSql\<close> implement, also when they stop
  half way.
\<close>

section \<open>UPDATE\<close>

text \<open>The row after the assignments, which all read the row as it was.\<close>

definition assigned :: "Schema \<Rightarrow> sqlvalue list \<Rightarrow> Row \<Rightarrow> (nat \<times> expr option) list \<Rightarrow> Row \<Rightarrow> Row" where
  "assigned schema params row assignments =
     fold (\<lambda>(col, e) r. r[col := the (value_of e (row_context schema row params))]) assignments"

definition updated :: "Schema \<Rightarrow> sqlvalue list \<Rightarrow> (nat \<times> expr option) list \<Rightarrow> expr option \<Rightarrow> Row \<Rightarrow> Row" where
  "updated schema params assignments predicate row =
     (if where_holds schema params predicate row then assigned schema params row assignments row else row)"

lemma assign_row_value:
  "assign_row schema params row assignments next p u = Inr (row', q, v) \<Longrightarrow>
   row' = assigned schema params row assignments next"
proof (induction assignments arbitrary: "next" p u)
  case (Cons a as)
  obtain col e where a: "a = (col, e)" by fastforce
  obtain x p1 u1 where e: "eval_at e (row_context schema row params) p u = (x, p1, u1)" by (metis prod_cases3)
  then have "x = value_of e (row_context schema row params)" using eval_at_value by (metis fst_conv)
  then show ?case
    using Cons.prems Cons.IH [of "next[col := the x]" p1 u1] e a by (auto simp: assigned_def split: option.splits)
qed (simp add: assigned_def)

lemma assign_row_error:
  "list_all (arg_complete \<circ> snd) assignments \<Longrightarrow> assign_row schema params row assignments next p u = Inl (q, v) \<Longrightarrow>
   ps_status q \<noteq> None \<or> v"
proof (induction assignments arbitrary: "next" p u)
  case (Cons a as)
  obtain col e where a: "a = (col, e)" by fastforce
  obtain x p1 u1 where e: "eval_at e (row_context schema row params) p u = (x, p1, u1)" by (metis prod_cases3)
  show ?case using Cons eval_at_reports(1) [OF e] e a by (auto split: option.splits)
qed simp

lemma update_rows_step:
  assumes "tb_rows t ! j = row" "eval_where predicate (row_context (tb_schema t) row params) p u = (x, p1, u1)"
  shows "update_rows params assignments predicate j (Suc n) t p u =
    (if ps_status p1 \<noteq> None then ((ps_status p1, False), t, u1)
     else if \<not> selected x then update_rows params assignments predicate (Suc j) n t p1 u1
     else case assign_row (tb_schema t) params row assignments row p1 u1 of
        Inl (p2, u2) \<Rightarrow> ((ps_status p2, False), t, u2)
      | Inr (next, p2, u2) \<Rightarrow>
          (case ValidateRow t next (Some j) of
             Some err \<Rightarrow> ((Some err, False), t, u2)
           | None \<Rightarrow> update_rows params assignments predicate (Suc j) n
               (t\<lparr>tb_rows := (tb_rows t)[j := next]\<rparr>) p2 u2))"
  unfolding update_rows.simps Let_def assms prod.case ..

text \<open>The loop has updated the rows before the one it stopped at.\<close>

lemma update_rows_spec:
  assumes f_def: "f = updated (tb_schema t) params assignments predicate"
    and args: "list_all (arg_complete \<circ> snd) assignments"
    and "j + n = length rows"
    and "update_rows params assignments predicate j n (t\<lparr>tb_rows := map f (take j rows) @ drop j rows\<rparr>) p u = ((st, fin), t', v)"
  shows "\<exists>k. j \<le> k \<and> k \<le> length rows \<and> t' = t\<lparr>tb_rows := map f (take k rows) @ drop k rows\<rparr> \<and>
    (if fin then k = length rows \<and> st = None else k < length rows \<and> (st \<noteq> None \<or> v))"
  using assms(3-)
proof (induction n arbitrary: j p u)
  case 0
  then show ?case by auto
next
  case (Suc n)
  let ?ctx = "row_context (tb_schema t) (rows ! j) params"
  let ?t = "\<lambda>k. t\<lparr>tb_rows := map f (take k rows) @ drop k rows\<rparr>"
  have j: "j < length rows" using Suc.prems(1) by simp
  then have row: "(map f (take j rows) @ drop j rows) ! j = rows ! j" by (simp add: nth_append)
  have step: "(map f (take j rows) @ drop j rows)[j := f (rows ! j)] = map f (take (Suc j) rows) @ drop (Suc j) rows"
    using j by (simp add: list_update_append take_Suc_conv_app_nth) (simp add: Cons_nth_drop_Suc [symmetric])
  obtain x p1 u1 where e: "eval_where predicate ?ctx p u = (x, p1, u1)" by (metis prod_cases3)
  note sel = selected_eval_where [OF e]
  have "tb_rows (?t j) ! j = rows ! j" "eval_where predicate (row_context (tb_schema (?t j)) (rows ! j) params) p u = (x, p1, u1)"
    using row e by simp_all
  note u = Suc.prems(2) [unfolded update_rows_step [OF this]]
  have rest: "\<exists>k. j \<le> k \<and> k \<le> length rows \<and> t' = ?t k \<and>
      (if fin then k = length rows \<and> st = None else k < length rows \<and> (st \<noteq> None \<or> v))"
    if upd: "update_rows params assignments predicate (Suc j) n (?t (Suc j)) q w = ((st, fin), t', v)" for q w
  proof -
    have "Suc j + n = length rows" using Suc.prems(1) by simp
    then obtain k where "Suc j \<le> k" and k: "k \<le> length rows \<and> t' = ?t k \<and>
        (if fin then k = length rows \<and> st = None else k < length rows \<and> (st \<noteq> None \<or> v))"
      using Suc.IH [OF _ upd] by blast
    then have "j \<le> k" by simp
    with k show ?thesis by blast
  qed
  consider (error) "ps_status p1 \<noteq> None" | (skip) "ps_status p1 = None" "\<not> selected x"
    | (assign) "ps_status p1 = None" "selected x" by blast
  then show ?case
  proof cases
    case error
    then have "(st, fin) = (ps_status p1, False)" "t' = ?t j" using u by simp_all
    then show ?thesis using error j by auto
  next
    case skip
    then have "f (rows ! j) = rows ! j" using sel by (simp add: f_def updated_def)
    then have same: "?t j = ?t (Suc j)" using step row by (metis list_update_id)
    have "update_rows params assignments predicate (Suc j) n (?t j) p1 u1 = ((st, fin), t', v)"
      using skip u by simp
    then show ?thesis unfolding same by (rule rest)
  next
    case assign
    show ?thesis
    proof (cases "assign_row (tb_schema t) params (rows ! j) assignments (rows ! j) p1 u1")
      case (Inl r)
      obtain p2 u2 where r: "r = (p2, u2)" by fastforce
      have "(st, fin) = (ps_status p2, False)" "t' = ?t j" "v = u2" using u assign Inl r by simp_all
      then show ?thesis using j assign_row_error [OF args Inl [unfolded r]] by auto
    next
      case (Inr r)
      obtain nxt p2 u2 where r: "r = (nxt, p2, u2)" by (metis prod_cases3)
      then have nxt: "nxt = f (rows ! j)"
        using assign_row_value Inr sel assign by (simp add: f_def updated_def)
      show ?thesis
      proof (cases "ValidateRow (?t j) nxt (Some j)")
        case None
        have "update_rows params assignments predicate (Suc j) n
            (t\<lparr>tb_rows := (map f (take j rows) @ drop j rows)[j := nxt]\<rparr>) p2 u2 = ((st, fin), t', v)"
          using u assign Inr r None by simp
        then show ?thesis unfolding nxt step by (rule rest)
      next
        case (Some err)
        have "(st, fin) = (Some err, False)" "t' = ?t j" using u assign Inr r Some by simp_all
        then show ?thesis using j by auto
      qed
    qed
  qed
qed

section \<open>DELETE\<close>

lemma delete_rows_spec:
  "delete_rows schema params predicate rows kept p u = Inr (kept', q, v) \<Longrightarrow>
   kept' = kept @ filter (\<lambda>row. \<not> where_holds schema params predicate row) rows"
proof (induction rows arbitrary: kept p u)
  case (Cons row rows)
  obtain x p1 u1 where e: "eval_where predicate (row_context schema row params) p u = (x, p1, u1)"
    by (metis prod_cases3)
  show ?case
    using Cons.prems Cons.IH [of "kept @ [row]" p1 u1] Cons.IH [of kept p1 u1] selected_eval_where [OF e] e
    by (auto split: if_splits)
qed simp

lemma delete_rows_error: "delete_rows schema params predicate rows kept p u = Inl (q, v) \<Longrightarrow> ps_status q \<noteq> None"
  by (induction rows arbitrary: kept p u) (auto split: prod.splits if_splits)

section \<open>INSERT\<close>

text \<open>\<open>t'\<close> has the rows of \<open>t\<close> and more behind them.\<close>

definition extends :: "Table \<Rightarrow> Table \<Rightarrow> bool" where
  "extends t t' \<longleftrightarrow> (\<exists>rows. t' = t\<lparr>tb_rows := tb_rows t @ rows\<rparr>)"

lemma extends_refl [simp]: "extends t t"
  unfolding extends_def by (rule exI [of _ "[]"]) simp

lemma extends_row: "extends (t\<lparr>tb_rows := tb_rows t @ [row]\<rparr>) t' \<Longrightarrow> extends t t'"
  by (auto simp: extends_def)

lemma insert_step_Again: "insert_step params targets (t, p, u) = Again s' \<Longrightarrow>
    \<exists>row p' u'. s' = (t\<lparr>tb_rows := tb_rows t @ [row]\<rparr>, p', u') \<and> ValidateRow t row None = None"
  by (auto simp: insert_step_def Let_def split: prod.splits bool.splits sum.splits option.splits)

lemma insert_step_stops: "insert_step params targets (t, p, u) = Stop ((st, fin), t', q, v) \<Longrightarrow>
    (fin \<and> st = None \<and> (\<exists>row. t' = t\<lparr>tb_rows := tb_rows t @ [row]\<rparr> \<and> ValidateRow t row None = None)) \<or> \<not> fin \<and> t' = t"
  by (auto simp: insert_step_def Let_def split: prod.splits bool.splits sum.splits option.splits)

lemma insert_rows_spec:
  "iterate n (insert_step params targets) (t, p, u) = Some ((st, fin), t', q, v) \<Longrightarrow>
   extends t t' \<and> (fin \<longrightarrow> st = None)"
proof (induction n arbitrary: t p u)
  case (Suc n)
  show ?case
  proof (cases "insert_step params targets (t, p, u)")
    case (Again s')
    then obtain row p' u' where s': "s' = (t\<lparr>tb_rows := tb_rows t @ [row]\<rparr>, p', u')"
      using insert_step_Again by blast
    have "iterate n (insert_step params targets) (t\<lparr>tb_rows := tb_rows t @ [row]\<rparr>, p', u') = Some ((st, fin), t', q, v)"
      using Suc.prems Again s' by simp
    from Suc.IH [OF this] show ?thesis using extends_row by blast
  next
    case (Stop r)
    then have "insert_step params targets (t, p, u) = Stop ((st, fin), t', q, v)" using Suc.prems by simp
    from insert_step_stops [OF this] show ?thesis using extends_refl unfolding extends_def by metis
  qed
qed simp

section \<open>Properties\<close>

text \<open>C10: an UPDATE sets the rows for which WHERE is true, and only these, to the values of its expressions
  in the row as it was. When it fails, at an expression or at a constraint, the rows before the one
  it failed at stay updated and the others are as before.\<close>

theorem update_meets_spec:
  assumes "list_all (arg_complete \<circ> snd) assignments"
    and "update_rows params assignments predicate 0 (length (tb_rows t)) t p u = ((st, finished), t', v)"
  shows "\<exists>k \<le> length (tb_rows t).
    t' = t\<lparr>tb_rows := map (updated (tb_schema t) params assignments predicate) (take k (tb_rows t)) @ drop k (tb_rows t)\<rparr> \<and>
    (if finished then k = length (tb_rows t) \<and> st = None else k < length (tb_rows t) \<and> (st \<noteq> None \<or> v))"
  using update_rows_spec [where j = 0 and n = "length (tb_rows t)", OF refl assms(1)] assms(2) by simp

definition sql_column :: "string \<Rightarrow> bool \<Rightarrow> Column" where
  "sql_column name nullable = \<lparr>col_name = name, col_type = TBoolean, col_nullable = nullable, col_primary_key = False,
     col_unique = False\<rparr>"

definition two_rows :: Table where
  "two_rows = \<lparr>tb_schema = [sql_column ''a'' True, sql_column ''b'' False],
     tb_rows = [[VBoolean True, VBoolean False], [VNull, VBoolean False]]\<rparr>"

abbreviation copy_column :: "(nat \<times> expr option) list" where
  "copy_column \<equiv> [(1, Some (column_expr ''a''))]"

abbreviation update_both :: "(payload option \<times> bool) \<times> Table \<times> bool" where
  "update_both \<equiv> update_rows [] copy_column None 0 2 two_rows (new_parser []) False"

text \<open>\<^verbatim>\<open>UPDATE t SET b = a\<close> where \<open>a\<close> is NULL in the second row and \<open>b\<close> is NOT NULL.\<close>

lemma failed_update_keeps_first_row:
  "(case update_both of ((st, finished), t', v) \<Rightarrow>
      st \<noteq> None \<and> \<not> finished \<and> \<not> v \<and> tb_rows t' = [[VBoolean True, VBoolean True], [VNull, VBoolean False]])"
  by code_simp

theorem update_meets_spec_witness:
  "\<exists>k < 2. fst (snd update_both) = two_rows\<lparr>tb_rows :=
     map (updated (tb_schema two_rows) [] copy_column None) (take k (tb_rows two_rows)) @ drop k (tb_rows two_rows)\<rparr>"
proof -
  have u: "update_rows [] copy_column None 0 (length (tb_rows two_rows)) two_rows (new_parser []) False =
      ((fst (fst update_both), snd (fst update_both)), fst (snd update_both), snd (snd update_both))"
    by (simp add: two_rows_def numeral_2_eq_2)
  have "\<not> snd (fst update_both)" using failed_update_keeps_first_row by (simp add: case_prod_beta)
  moreover have "length (tb_rows two_rows) = 2" by (simp add: two_rows_def)
  ultimately show ?thesis using update_meets_spec [OF _ u] by auto
qed

text \<open>a DELETE keeps exactly the rows for which WHERE is not true, in their order; when WHERE does
  not evaluate on some row it reports the error, and the statement leaves the table as it was.\<close>

theorem delete_meets_spec:
  "case delete_rows (tb_schema t) params predicate (tb_rows t) [] p u of
     Inl (q, v) \<Rightarrow> ps_status q \<noteq> None
   | Inr (kept, q, v) \<Rightarrow> kept = filter (\<lambda>row. \<not> where_holds (tb_schema t) params predicate row) (tb_rows t)"
  using delete_rows_spec [of "tb_schema t" params predicate "tb_rows t" "[]"] delete_rows_error
  by (auto split: sum.split)

end
