(* ===== verification/Sql_Grammar.thy ===== *)
theory Sql_Grammar
  imports Sql_Parser
begin

text \<open>
  The grammar of SQL expressions, as an inductive definition over token lists with one category for
  each level of precedence, and the proof that the recursive descent of \<^verbatim>\<open>Parser\<close> parses
  every phrase of the grammar to its tree.
\<close>

section \<open>The grammar\<close>

datatype category = GOr | GAnd | GCompare | GLike | GAdd | GMul | GUnary | GPrimary

text \<open>Words, strings and punctuation are told apart by their text only, as the parser does.\<close>

abbreviation tok :: "string \<Rightarrow> Token \<Rightarrow> bool" where
  "tok s t \<equiv> tk_text t = s \<and> tk_kind t \<noteq> KOperator"

definition compare_op :: "Token \<Rightarrow> bool" where
  "compare_op t \<longleftrightarrow>
     tk_kind t = KOperator \<and> tk_text t \<in> {''='', ''<'', ''>'', ''<='', ''>='', ''!='', ''<>'', ''!''}"

text \<open>A token that starts a primary expression other than one in parentheses.\<close>

definition operand :: "token_kind \<Rightarrow> Token \<Rightarrow> bool" where
  "operand k t \<longleftrightarrow> tk_kind t = k \<and> tk_text t \<notin> {''not'', ''-'', ''+'', ''(''}"

definition column_word :: "Token \<Rightarrow> bool" where
  "column_word t \<longleftrightarrow> operand KWord t \<and> tk_text t \<notin> {''null'', ''true'', ''false''}"

inductive named :: "string \<Rightarrow> Token list \<Rightarrow> bool" where
  plain_name: "column_word t \<Longrightarrow> named (tk_text t) [t]"
| dotted_name: "column_word t \<Longrightarrow> tok ''.'' d \<Longrightarrow> tk_kind f = KWord \<Longrightarrow>
    named (tk_text t @ ''.'' @ tk_text f) [t, d, f]"

text \<open>
  \<open>derives c e ts i j b\<close>: the tokens \<open>ts\<close> are a phrase of category \<open>c\<close> with the tree \<open>e\<close>; its
  parameters have the numbers from \<open>i\<close> to \<open>j\<close>. \<open>b\<close> says that a closing parenthesis must not
  follow: the parser takes a parenthesis behind an IN list for a part of the list.
  \<open>in_list\<close> and \<open>arguments\<close> are the phrases after the opening parenthesis.
\<close>

inductive
  derives :: "category \<Rightarrow> expr \<Rightarrow> Token list \<Rightarrow> nat \<Rightarrow> nat \<Rightarrow> bool \<Rightarrow> bool" and
  in_list :: "expr list \<Rightarrow> Token list \<Rightarrow> nat \<Rightarrow> nat \<Rightarrow> bool \<Rightarrow> bool" and
  arguments :: "expr list \<Rightarrow> Token list \<Rightarrow> nat \<Rightarrow> nat \<Rightarrow> bool"
where
  number: "operand KNumber t \<Longrightarrow> number_literal (tk_text t) = Some v \<Longrightarrow>
    derives GPrimary (literal_expr v) [t] i i False"
| str: "operand KString t \<Longrightarrow> derives GPrimary (literal_expr (VText (tk_text t))) [t] i i False"
| parameter: "operand KParameter t \<Longrightarrow> derives GPrimary (parameter_expr i) [t] i (i + 1) False"
| null: "operand KWord t \<Longrightarrow> tok ''null'' t \<Longrightarrow> derives GPrimary (literal_expr VNull) [t] i i False"
| boolean: "operand KWord t \<Longrightarrow> tk_text t \<in> {''true'', ''false''} \<Longrightarrow>
    derives GPrimary (literal_expr (VBoolean (tk_text t = ''true''))) [t] i i False"
| column: "named n ts \<Longrightarrow> derives GPrimary (column_expr n) ts i i False"
| empty_call: "named n ts \<Longrightarrow> tok ''('' t \<Longrightarrow> tok '')'' u \<Longrightarrow>
    derives GPrimary (function_expr n []) (ts @ [t, u]) i i False"
| call: "named n ts \<Longrightarrow> tok ''('' t \<Longrightarrow> arguments es us i j \<Longrightarrow> tk_text (hd us) \<noteq> '')'' \<Longrightarrow>
    derives GPrimary (function_expr n (map Some es)) (ts @ t # us) i j False"
| parens: "tok ''('' t \<Longrightarrow> derives GOr e ts i j False \<Longrightarrow> tok '')'' u \<Longrightarrow>
    derives GPrimary e (t # ts @ [u]) i j False"
| primary: "derives GPrimary e ts i j b \<Longrightarrow> derives GUnary e ts i j b"
| unary: "tk_text t \<in> {''not'', ''-'', ''+''} \<Longrightarrow> derives GUnary e ts i j b \<Longrightarrow>
    derives GUnary (unary_expr (tk_text t) (Some e)) (t # ts) i j b"
| factor: "derives GUnary e ts i j b \<Longrightarrow> derives GMul e ts i j b"
| multiply: "derives GMul l ts i j False \<Longrightarrow> tk_text t \<in> {''*'', ''/'', ''%''} \<Longrightarrow> derives GUnary r us j k b \<Longrightarrow>
    derives GMul (Binary (tk_text t) (Some l) (Some r)) (ts @ t # us) i k b"
| summand: "derives GMul e ts i j b \<Longrightarrow> derives GAdd e ts i j b"
| add: "derives GAdd l ts i j False \<Longrightarrow> tk_text t \<in> {''+'', ''-''} \<Longrightarrow> derives GMul r us j k b \<Longrightarrow>
    derives GAdd (Binary (tk_text t) (Some l) (Some r)) (ts @ t # us) i k b"
| sum: "derives GAdd e ts i j b \<Longrightarrow> derives GLike e ts i j b"
| like: "derives GAdd l ts i j False \<Longrightarrow> tok ''like'' t \<Longrightarrow> derives GAdd r us j k b \<Longrightarrow>
    derives GLike (Binary ''like'' (Some l) (Some r)) (ts @ t # us) i k b"
| comparand: "derives GLike e ts i j b \<Longrightarrow> derives GCompare e ts i j b"
| comparison: "derives GLike l ts i j False \<Longrightarrow> compare_op t \<Longrightarrow> derives GAdd r us j k b \<Longrightarrow>
    derives GCompare (Binary (tk_text t) (Some l) (Some r)) (ts @ t # us) i k b"
| is_null: "derives GLike e ts i j False \<Longrightarrow> tok ''is'' t \<Longrightarrow> tok ''null'' u \<Longrightarrow>
    derives GCompare (is_null_expr False (Some e)) (ts @ [t, u]) i j False"
| is_not_null: "derives GLike e ts i j False \<Longrightarrow> tok ''is'' t \<Longrightarrow> tok ''not'' n \<Longrightarrow> tok ''null'' u \<Longrightarrow>
    derives GCompare (is_null_expr True (Some e)) (ts @ [t, n, u]) i j False"
| in_op: "derives GLike e ts i j False \<Longrightarrow> tok ''in'' t \<Longrightarrow> tok ''('' u \<Longrightarrow> in_list es us j k b \<Longrightarrow>
    derives GCompare (function_expr ''in'' (map Some (e # es))) (ts @ t # u # us) i k b"
| conjunct: "derives GCompare e ts i j b \<Longrightarrow> derives GAnd e ts i j b"
| conj: "derives GAnd l ts i j b \<Longrightarrow> tok ''and'' t \<Longrightarrow> derives GCompare r us j k c \<Longrightarrow>
    derives GAnd (Binary ''and'' (Some l) (Some r)) (ts @ t # us) i k c"
| disjunct: "derives GAnd e ts i j b \<Longrightarrow> derives GOr e ts i j b"
| disj: "derives GOr l ts i j b \<Longrightarrow> tok ''or'' t \<Longrightarrow> derives GAnd r us j k c \<Longrightarrow>
    derives GOr (Binary ''or'' (Some l) (Some r)) (ts @ t # us) i k c"
| in_end: "tok '')'' t \<Longrightarrow> in_list [] [t] i i False"
| in_next: "derives GOr e ts i j b \<Longrightarrow> tk_text (hd ts) \<noteq> '')'' \<Longrightarrow> tok '','' t \<Longrightarrow> in_list es us j k c \<Longrightarrow>
    in_list (e # es) (ts @ t # us) i k c"
| in_last: "derives GOr e ts i j False \<Longrightarrow> tk_text (hd ts) \<noteq> '')'' \<Longrightarrow> tok '')'' t \<Longrightarrow>
    in_list [e] (ts @ [t]) i j True"
| in_twice: "derives GOr e ts i j False \<Longrightarrow> tk_text (hd ts) \<noteq> '')'' \<Longrightarrow> tok '')'' t \<Longrightarrow> tok '')'' u \<Longrightarrow>
    in_list [e] (ts @ [t, u]) i j False"
| star_last: "tk_text s = ''*'' \<Longrightarrow> tok '')'' t \<Longrightarrow> arguments [column_expr ''*''] [s, t] i i"
| star_next: "tk_text s = ''*'' \<Longrightarrow> tok '','' t \<Longrightarrow> arguments es us i j \<Longrightarrow>
    arguments (column_expr ''*'' # es) (s # t # us) i j"
| argument_last: "derives GOr e ts i j False \<Longrightarrow> tk_text (hd ts) \<noteq> ''*'' \<Longrightarrow> tok '')'' t \<Longrightarrow>
    arguments [e] (ts @ [t]) i j"
| argument_next: "derives GOr e ts i j b \<Longrightarrow> tk_text (hd ts) \<noteq> ''*'' \<Longrightarrow> tok '','' t \<Longrightarrow> arguments es us j k \<Longrightarrow>
    arguments (e # es) (ts @ t # us) i k"

lemma derives_nonempty:
  "derives c e ts i j b \<Longrightarrow> ts \<noteq> []" "in_list es ts i j b \<Longrightarrow> ts \<noteq> []" "arguments es ts i j \<Longrightarrow> ts \<noteq> []"
  by (induction rule: derives_in_list_arguments.inducts) (auto elim: named.cases)

section \<open>Runs of the parser\<close>

text \<open>A parse that comes to an end with some fuel.\<close>

definition run :: "nonterm \<Rightarrow> parser \<Rightarrow> expr option \<times> parser \<Rightarrow> bool" where
  "run x p r \<longleftrightarrow> (\<exists>n. parse n x p = Some r)"

text \<open>More fuel gives the same result.\<close>

definition extends_to :: "'a option \<Rightarrow> 'a option \<Rightarrow> bool" where
  "extends_to r s \<longleftrightarrow> r = None \<or> r = s"

named_theorems fuel_mono

lemma extends_to_refl [fuel_mono]: "extends_to r r"
  by (simp add: extends_to_def)

lemma extends_bind [fuel_mono]:
  "extends_to r s \<Longrightarrow> (\<And>x. extends_to (f x) (g x)) \<Longrightarrow> extends_to (Option.bind r f) (Option.bind s g)"
  unfolding extends_to_def by (cases r) (simp, metis bind.bind_lunit option.distinct(1))

lemma extends_if [fuel_mono]:
  "(b \<Longrightarrow> extends_to r s) \<Longrightarrow> (\<not> b \<Longrightarrow> extends_to r' s') \<Longrightarrow> extends_to (if b then r else r') (if b then s else s')"
  by simp

lemma extends_prod [fuel_mono]: "(\<And>x y. extends_to (f x y) (g x y)) \<Longrightarrow> extends_to (case z of (x, y) \<Rightarrow> f x y) (case z of (x, y) \<Rightarrow> g x y)"
  by (cases z) simp

lemma extends_bool [fuel_mono]: "extends_to r s \<Longrightarrow> extends_to r' s' \<Longrightarrow> extends_to (case b of True \<Rightarrow> r | False \<Rightarrow> r') (case b of True \<Rightarrow> s | False \<Rightarrow> s')"
  by (cases b) simp_all

lemma extends_Let [fuel_mono]: "(\<And>x. extends_to (f x) (g x)) \<Longrightarrow> extends_to (Let z f) (Let z g)"
  by simp

lemmas parse_step_defs = ParseOr_def OrLoop_def ParseAnd_def AndLoop_def ParseCompare_def compare_rest_def InLoop_def
  ParseLike_def ParseAdd_def AddLoop_def ParseMul_def MulLoop_def ParseUnary_def parse_name_def ParsePrimary_def
  ArgLoop_def

lemma parse_step_mono:
  assumes "\<And>x p. extends_to (f x p) (g x p)"
  shows "extends_to (parse_step f x p) (parse_step g x p)"
proof (cases x)
  case NPrimary
  have "extends_to (parse_name f n q) (parse_name g n q)" for n q
    unfolding parse_name_def by (intro fuel_mono assms)
  then show ?thesis unfolding NPrimary parse_step_def nonterm.case ParsePrimary_def Let_def
    by (cases "tk_kind (Peek (snd (Accept ''('' p)))") (auto simp: case_prod_beta intro!: fuel_mono assms split: bool.split)
qed (simp only: parse_step_def nonterm.case parse_step_defs; intro fuel_mono assms)+

lemma parse_extends: "extends_to (parse n x p) (parse (n + k) x p)"
proof (induction n arbitrary: x p)
  case 0
  then show ?case by (simp add: extends_to_def)
next
  case (Suc n)
  then show ?case using parse_step_mono [of "parse n" "parse (n + k)"] by simp
qed

lemma parse_more: "parse n x p = Some r \<Longrightarrow> n \<le> m \<Longrightarrow> parse m x p = Some r"
  using parse_extends [of n x p "m - n"] by (simp add: extends_to_def)

lemma run_unique: "run x p r \<Longrightarrow> run x p s \<Longrightarrow> r = s"
  unfolding run_def using parse_more by (metis nle_le option.inject)

text \<open>A run of a method from the runs of the methods it calls, on the same fuel.\<close>

lemma run_from0: "(\<And>f. parse_step f y q = Some s) \<Longrightarrow> run y q s"
  unfolding run_def by (rule exI [of _ "Suc 0"]) simp

lemma run_from1:
  assumes "run x p r" "\<And>f. f x p = Some r \<Longrightarrow> parse_step f y q = Some s"
  shows "run y q s"
proof -
  obtain n where "parse n x p = Some r" using assms(1) by (auto simp: run_def)
  then have "parse (Suc n) y q = Some s" using assms(2) by simp
  then show ?thesis unfolding run_def ..
qed

lemma run_from2:
  assumes "run x p r" "run x' p' r'" "\<And>f. f x p = Some r \<Longrightarrow> f x' p' = Some r' \<Longrightarrow> parse_step f y q = Some s"
  shows "run y q s"
proof -
  obtain m n where "parse m x p = Some r" "parse n x' p' = Some r'" using assms(1,2) by (auto simp: run_def)
  then have "parse (Suc (max m n)) y q = Some s" using assms(3) parse_more by (metis max.cobounded1 max.cobounded2 parse.simps(2))
  then show ?thesis unfolding run_def ..
qed

lemma run_chain:
  "run NAnd p (l, q) \<Longrightarrow> run (NOrLoop l) q r \<Longrightarrow> run NOr p r"
  "run NCompare p (l, q) \<Longrightarrow> run (NAndLoop l) q r \<Longrightarrow> run NAnd p r"
  "run NMul p (l, q) \<Longrightarrow> run (NAddLoop l) q r \<Longrightarrow> run NAdd p r"
  "run NUnary p (l, q) \<Longrightarrow> run (NMulLoop l) q r \<Longrightarrow> run NMul p r"
  by (erule (1) run_from2, simp add: parse_step_def ParseOr_def ParseAnd_def ParseAdd_def ParseMul_def)+

lemma run_loop_next:
  "run NAnd p' (x, q) \<Longrightarrow> run (NOrLoop (Some (Binary ''or'' (Some l) x))) q r \<Longrightarrow> Accept ''or'' p = (True, p') \<Longrightarrow>
    run (NOrLoop (Some l)) p r"
  "run NCompare p' (x, q) \<Longrightarrow> run (NAndLoop (Some (Binary ''and'' (Some l) x))) q r \<Longrightarrow> Accept ''and'' p = (True, p') \<Longrightarrow>
    run (NAndLoop (Some l)) p r"
  "run NMul (advance_token p) (x, q) \<Longrightarrow> run (NAddLoop (Some (Binary (tk_text (Peek p)) (Some l) x))) q r \<Longrightarrow>
    tk_text (Peek p) \<in> {''+'', ''-''} \<Longrightarrow> run (NAddLoop (Some l)) p r"
  "run NUnary (advance_token p) (x, q) \<Longrightarrow> run (NMulLoop (Some (Binary (tk_text (Peek p)) (Some l) x))) q r \<Longrightarrow>
    tk_text (Peek p) \<in> {''*'', ''/'', ''%''} \<Longrightarrow> run (NMulLoop (Some l)) p r"
  by (erule (1) run_from2, simp add: parse_step_def OrLoop_def AndLoop_def AddLoop_def MulLoop_def Let_def)+

lemma run_loop_end:
  "Accept ''or'' p = (False, q) \<Longrightarrow> run (NOrLoop (Some l)) p (Some l, q)"
  "Accept ''and'' p = (False, q) \<Longrightarrow> run (NAndLoop (Some l)) p (Some l, q)"
  "tk_text (Peek p) \<notin> {''+'', ''-''} \<Longrightarrow> run (NAddLoop (Some l)) p (Some l, p)"
  "tk_text (Peek p) \<notin> {''*'', ''/'', ''%''} \<Longrightarrow> run (NMulLoop (Some l)) p (Some l, p)"
  by (rule run_from0, simp add: parse_step_def OrLoop_def AndLoop_def AddLoop_def MulLoop_def)+

lemma run_like:
  "run NAdd p (Some l, q) \<Longrightarrow> Accept ''like'' q = (False, q') \<Longrightarrow> run NLike p (Some l, q')"
  by (erule run_from1) (simp add: parse_step_def ParseLike_def)

lemma run_like_next:
  "run NAdd p (Some l, q) \<Longrightarrow> run NAdd q' (x, r) \<Longrightarrow> Accept ''like'' q = (True, q') \<Longrightarrow>
    run NLike p (Some (Binary ''like'' (Some l) x), r)"
  by (erule (1) run_from2) (simp add: parse_step_def ParseLike_def)

lemma run_compare:
  "run NLike p (Some l, q) \<Longrightarrow> tk_kind (Peek q) \<noteq> KOperator \<Longrightarrow> tk_text (Peek q) \<notin> {''is'', ''in''} \<Longrightarrow>
    run NCompare p (Some l, q)"
  by (erule run_from1) (simp add: parse_step_def ParseCompare_def Let_def)

lemma run_compare_op:
  "run NLike p (Some l, q) \<Longrightarrow> run NAdd (advance_token q) (x, r) \<Longrightarrow> compare_op (Peek q) \<Longrightarrow>
    run NCompare p (Some (Binary (tk_text (Peek q)) (Some l) x), r)"
  by (erule (1) run_from2) (auto simp: parse_step_def ParseCompare_def compare_rest_def compare_op_def Let_def)

lemma run_compare_is:
  "run NLike p (Some l, q) \<Longrightarrow> tk_text (Peek q) = ''is'' \<Longrightarrow> Accept ''not'' (advance_token q) = (neg, q1) \<Longrightarrow>
    Expect ''null'' q1 = (True, q2) \<Longrightarrow> run NCompare p (Some (is_null_expr neg (Some l)), q2)"
  by (erule run_from1) (simp add: parse_step_def ParseCompare_def compare_rest_def Let_def)

lemma run_compare_in:
  "run NLike p (Some l, q) \<Longrightarrow> run (NInLoop [Some l]) q1 r \<Longrightarrow> tk_text (Peek q) = ''in'' \<Longrightarrow>
    Expect ''('' (advance_token q) = (True, q1) \<Longrightarrow> run NCompare p r"
  by (erule (1) run_from2) (simp add: parse_step_def ParseCompare_def compare_rest_def Let_def)

lemma run_in_end: "Accept '')'' p = (True, q) \<Longrightarrow> run (NInLoop args) p (Some (function_expr ''in'' args), q)"
  by (rule run_from0) (simp add: parse_step_def InLoop_def)

lemma run_in_comma:
  "run NOr p1 (e, p2) \<Longrightarrow> run (NInLoop (args @ [e])) p3 r \<Longrightarrow> Accept '')'' p = (False, p1) \<Longrightarrow>
    Accept '','' p2 = (True, p3) \<Longrightarrow> run (NInLoop args) p r"
  by (erule (1) run_from2) (simp add: parse_step_def InLoop_def)

lemma run_in_close:
  "run NOr p1 (e, p2) \<Longrightarrow> run (NInLoop (args @ [e])) p4 r \<Longrightarrow> Accept '')'' p = (False, p1) \<Longrightarrow>
    Accept '','' p2 = (False, p3) \<Longrightarrow> Expect '')'' p3 = (True, p4) \<Longrightarrow> run (NInLoop args) p r"
  by (erule (1) run_from2) (simp add: parse_step_def InLoop_def)

lemma run_unary:
  "run NUnary q (a, r) \<Longrightarrow> accept_unary p = (True, q) \<Longrightarrow>
    run NUnary p (Some (unary_expr (tk_text (ps_tokens q ! (ps_index q - 1))) a), r)"
  "run NPrimary q r' \<Longrightarrow> accept_unary p = (False, q) \<Longrightarrow> run NUnary p r'"
  by (erule run_from1, simp add: parse_step_def ParseUnary_def)+

lemma run_parens:
  "run NOr p1 (v, p2) \<Longrightarrow> Accept ''('' p = (True, p1) \<Longrightarrow> Expect '')'' p2 = (True, p3) \<Longrightarrow> run NPrimary p (v, p3)"
  by (erule run_from1) (simp add: parse_step_def ParsePrimary_def)

lemma run_args:
  "run NOr p0 (e, p1) \<Longrightarrow> Accept ''*'' p = (False, p0) \<Longrightarrow> Accept '')'' p1 = (True, p2) \<Longrightarrow>
    run (NArgLoop n args) p (Some (function_expr n (args @ [e])), p2)"
  by (erule run_from1) (simp add: parse_step_def ArgLoop_def)

lemma run_args_next:
  "run NOr p0 (e, p1) \<Longrightarrow> run (NArgLoop n (args @ [e])) p3 r \<Longrightarrow> Accept ''*'' p = (False, p0) \<Longrightarrow>
    Accept '')'' p1 = (False, p2) \<Longrightarrow> Expect '','' p2 = (True, p3) \<Longrightarrow> run (NArgLoop n args) p r"
  by (erule (1) run_from2) (simp add: parse_step_def ArgLoop_def)

lemma run_star:
  "Accept ''*'' p = (True, p1) \<Longrightarrow> Accept '')'' p1 = (True, p2) \<Longrightarrow>
    run (NArgLoop n args) p (Some (function_expr n (args @ [Some (column_expr ''*'')])), p2)"
  by (rule run_from0) (simp add: parse_step_def ArgLoop_def)

lemma run_star_next:
  "run (NArgLoop n (args @ [Some (column_expr ''*'')])) p3 r \<Longrightarrow> Accept ''*'' p = (True, p1) \<Longrightarrow>
    Accept '')'' p1 = (False, p2) \<Longrightarrow> Expect '','' p2 = (True, p3) \<Longrightarrow> run (NArgLoop n args) p r"
  by (erule run_from1) (simp add: parse_step_def ArgLoop_def)

section \<open>The tokens ahead\<close>

definition rest :: "parser \<Rightarrow> Token list" where
  "rest p = drop (ps_index p) (ps_tokens p)"

text \<open>\<open>q\<close> is \<open>p\<close> moved on by \<open>n\<close> tokens, with \<open>k\<close> parameters counted.\<close>

definition moved :: "parser \<Rightarrow> nat \<Rightarrow> nat \<Rightarrow> parser \<Rightarrow> bool" where
  "moved p n k q \<longleftrightarrow> ps_tokens q = ps_tokens p \<and> ps_index q = ps_index p + n \<and> ps_params q = k \<and>
     ps_status q = ps_status p"

lemma rest_Peek: "rest p = t # ts \<Longrightarrow> Peek p = t"
  by (auto simp: rest_def Peek_def dest: nth_via_drop)

lemma rest_moved: "moved p n k q \<Longrightarrow> rest q = drop n (rest p)"
  by (simp add: rest_def moved_def add.commute)

lemma moved_trans: "moved p n k q \<Longrightarrow> moved q m l r \<Longrightarrow> moved p (n + m) l r"
  by (simp add: moved_def)

lemma moved_refl: "moved p 0 (ps_params p) p"
  by (simp add: moved_def)

lemma moved_closed [simp]: "moved p n k (q\<lparr>ps_closed := c\<rparr>) = moved p n k q" "moved (p\<lparr>ps_closed := c\<rparr>) n k q = moved p n k q"
  by (simp_all add: moved_def)

lemma moved_params: "moved p n k q \<Longrightarrow> ps_params q = k"
  by (simp add: moved_def)

lemma moved_advance: "moved p (Suc 0) (ps_params p) (advance_token p)"
  by (simp add: moved_def advance_token_def)

lemma rest_closed [simp]: "rest (p\<lparr>ps_closed := c\<rparr>) = rest p"
  by (simp add: rest_def)

lemma Accept_True:
  assumes "rest p = t # ts" "tk_text t = s"
  obtains q where "Accept s p = (True, q)" "moved p (Suc 0) (ps_params p) q" "s \<noteq> '')'' \<or> \<not> ps_closed p \<Longrightarrow> \<not> ps_closed q"
proof -
  let ?p = "if s = '')'' then p else p\<lparr>ps_closed := False\<rparr>"
  have "Accept s p = (True, advance_token ?p)"
    using rest_Peek [OF assms(1)] assms(2) by (simp add: Accept_def Let_def)
  moreover have "moved p (Suc 0) (ps_params p) (advance_token ?p)"
    using moved_advance [of ?p] by (simp split: if_splits)
  ultimately show ?thesis using that by (simp add: advance_token_def)
qed

lemma Accept_False:
  assumes "rest p = t # ts" "tk_text t \<noteq> s" "s \<noteq> '')'' \<or> \<not> ps_closed p"
  obtains q where "Accept s p = (False, q)" "moved p 0 (ps_params p) q" "\<not> ps_closed q"
proof -
  let ?p = "if s = '')'' then p else p\<lparr>ps_closed := False\<rparr>"
  have "Accept s p = (False, ?p)"
    using rest_Peek [OF assms(1)] assms(2,3) by (auto simp: Accept_def Let_def)
  moreover have "moved p 0 (ps_params p) ?p" using moved_refl [of p] by simp
  ultimately show ?thesis using that assms(3) by auto
qed

text \<open>A closing parenthesis that has been read before counts again.\<close>

lemma Accept_again:
  assumes "rest p = t # ts" "tk_text t \<noteq> '')''" "ps_closed p"
  shows "Accept '')'' p = (True, p\<lparr>ps_closed := False\<rparr>)"
  using rest_Peek [OF assms(1)] assms(2,3) by (simp add: Accept_def Let_def)

lemma Expect_True:
  assumes "rest p = t # ts" "tk_text t = s"
  obtains q where "Expect s p = (True, q)" "moved p (Suc 0) (ps_params p) q" "s \<noteq> '')'' \<Longrightarrow> \<not> ps_closed q"
    "s = '')'' \<Longrightarrow> ps_closed q"
proof -
  obtain q where q: "Accept s p = (True, q)" "moved p (Suc 0) (ps_params p) q" "s \<noteq> '')'' \<Longrightarrow> \<not> ps_closed q"
    using Accept_True [OF assms] by metis
  then show ?thesis
    using that [of "if s = '')'' then q\<lparr>ps_closed := True\<rparr> else q"] by (auto simp: Expect_def split: if_splits)
qed

lemma accept_unary_True:
  assumes "rest p = t # ts" "tk_text t \<in> {''not'', ''-'', ''+''}"
  obtains q where "accept_unary p = (True, q)" "moved p (Suc 0) (ps_params p) q" "ps_tokens q ! (ps_index q - 1) = t"
proof -
  have pk: "Peek (p\<lparr>ps_closed := False\<rparr>) = t" using rest_Peek [OF assms(1)] by simp
  then have "ps_tokens p ! ps_index p = t" by (simp add: Peek_def)
  then show ?thesis
    using that [of "advance_token (p\<lparr>ps_closed := False\<rparr>)"] moved_advance [of "p\<lparr>ps_closed := False\<rparr>"] assms(2) pk
    by (auto simp: accept_unary_def Accept_def Let_def advance_token_def)
qed

lemma accept_unary_False:
  assumes "rest p = t # ts" "tk_text t \<notin> {''not'', ''-'', ''+''}"
  obtains q where "accept_unary p = (False, q)" "moved p 0 (ps_params p) q" "\<not> ps_closed q"
  using that [of "p\<lparr>ps_closed := False\<rparr>"] rest_Peek [OF assms(1)] assms(2) moved_refl [of p]
  by (auto simp: accept_unary_def Accept_def Let_def)

section \<open>Every phrase is parsed\<close>

text \<open>The token behind a phrase that does not belong to it.\<close>

fun stops :: "category \<Rightarrow> string list" where
  "stops GAdd = [''.'', ''('', ''*'', ''/'', ''%'']"
| "stops GLike = [''.'', ''('', ''*'', ''/'', ''%'', ''+'', ''-'', ''like'']"
| "stops GCompare = [''.'', ''('', ''*'', ''/'', ''%'', ''+'', ''-'', ''like'', ''is'', ''in'']"
| "stops GAnd = [''.'', ''('', ''*'', ''/'', ''%'', ''+'', ''-'', ''like'', ''is'', ''in'']"
| "stops GOr = [''.'', ''('', ''*'', ''/'', ''%'', ''+'', ''-'', ''like'', ''is'', ''in'', ''and'']"
| "stops _ = [''.'', ''('']"

definition ends :: "category \<Rightarrow> Token \<Rightarrow> bool" where
  "ends c t \<longleftrightarrow> tk_text t \<notin> set (stops c) \<and> (c \<in> {GCompare, GAnd, GOr} \<longrightarrow> tk_kind t \<noteq> KOperator)"

text \<open>
  What a phrase from \<open>p\<close> to \<open>q\<close> is for the parser; a category with a loop goes on in the loop.
\<close>

fun parsed :: "category \<Rightarrow> expr \<Rightarrow> parser \<Rightarrow> parser \<Rightarrow> bool" where
  "parsed GPrimary e p q \<longleftrightarrow> run NPrimary p (Some e, q)"
| "parsed GUnary e p q \<longleftrightarrow> run NUnary p (Some e, q)"
| "parsed GMul e p q \<longleftrightarrow> (\<forall>r. run (NMulLoop (Some e)) q r \<longrightarrow> run NMul p r)"
| "parsed GAdd e p q \<longleftrightarrow> (\<forall>r. run (NAddLoop (Some e)) q r \<longrightarrow> run NAdd p r)"
| "parsed GLike e p q \<longleftrightarrow> run NLike p (Some e, q)"
| "parsed GCompare e p q \<longleftrightarrow> run NCompare p (Some e, q)"
| "parsed GAnd e p q \<longleftrightarrow> (\<forall>r. run (NAndLoop (Some e)) q r \<longrightarrow> run NAnd p r)"
| "parsed GOr e p q \<longleftrightarrow> (\<forall>r. run (NOrLoop (Some e)) q r \<longrightarrow> run NOr p r)"

definition phrase_ok :: "category \<Rightarrow> expr \<Rightarrow> Token list \<Rightarrow> nat \<Rightarrow> nat \<Rightarrow> bool \<Rightarrow> bool" where
  "phrase_ok c e ts i j b \<longleftrightarrow>
     (\<forall>p t us. rest p = ts @ t # us \<longrightarrow> ps_params p = i \<longrightarrow> ends c t \<longrightarrow> (b \<longrightarrow> tk_text t \<noteq> '')'') \<longrightarrow>
        (\<exists>q. moved p (length ts) j q \<and> parsed c e p q))"

definition in_list_ok :: "expr list \<Rightarrow> Token list \<Rightarrow> nat \<Rightarrow> nat \<Rightarrow> bool \<Rightarrow> bool" where
  "in_list_ok es ts i j b \<longleftrightarrow>
     (\<forall>p t us args. rest p = ts @ t # us \<longrightarrow> ps_params p = i \<longrightarrow> \<not> ps_closed p \<longrightarrow> (b \<longrightarrow> tk_text t \<noteq> '')'') \<longrightarrow>
        (\<exists>q. moved p (length ts) j q \<and> run (NInLoop args) p (Some (function_expr ''in'' (args @ map Some es)), q)))"

definition arguments_ok :: "expr list \<Rightarrow> Token list \<Rightarrow> nat \<Rightarrow> nat \<Rightarrow> bool" where
  "arguments_ok es ts i j \<longleftrightarrow>
     (\<forall>p t us n args. rest p = ts @ t # us \<longrightarrow> ps_params p = i \<longrightarrow> \<not> ps_closed p \<longrightarrow>
        (\<exists>q. moved p (length ts) j q \<and> run (NArgLoop n args) p (Some (function_expr n (args @ map Some es)), q)))"

lemma phrase_okI:
  "(\<And>p t us. rest p = ts @ t # us \<Longrightarrow> ps_params p = i \<Longrightarrow> ends c t \<Longrightarrow> (b \<Longrightarrow> tk_text t \<noteq> '')'') \<Longrightarrow>
     \<exists>q. moved p (length ts) j q \<and> parsed c e p q) \<Longrightarrow> phrase_ok c e ts i j b"
  by (simp add: phrase_ok_def)

lemma phrase_okD:
  assumes "phrase_ok c e ts i j b" "rest p = ts @ t # us" "ps_params p = i" "ends c t" "b \<Longrightarrow> tk_text t \<noteq> '')''"
  obtains q where "moved p (length ts) j q" "rest q = t # us" "ps_params q = j" "parsed c e p q"
proof -
  obtain q where "moved p (length ts) j q" "parsed c e p q" using assms unfolding phrase_ok_def by blast
  then show ?thesis using that [of q] rest_moved [of p "length ts" j q] assms(2) by (simp add: moved_def)
qed

text \<open>One token further.\<close>

lemma moved_one:
  assumes "moved p n k q" "rest p = t # us"
  shows "n = 0 \<Longrightarrow> rest q = t # us" "n = Suc 0 \<Longrightarrow> rest q = us"
  using rest_moved [OF assms(1)] assms(2) by simp_all

lemma advance_one:
  assumes "rest p = t # us"
  shows "moved p (Suc 0) (ps_params p) (advance_token p)" "rest (advance_token p) = us"
    "ps_params (advance_token p) = ps_params p"
  using moved_advance [of p] rest_moved [OF moved_advance, of p] assms by (simp_all add: moved_def)

subsection \<open>Going up one level\<close>

lemma primary_starts: "derives GPrimary e ts i j b \<Longrightarrow> tk_text (hd ts) \<notin> {''not'', ''-'', ''+''}"
  by (erule derives.cases) (auto simp: operand_def column_word_def elim!: named.cases)

lemma up_primary:
  assumes "derives GPrimary e ts i j b" "phrase_ok GPrimary e ts i j b"
  shows "phrase_ok GUnary e ts i j b"
proof (rule phrase_okI)
  fix p t us assume a: "rest p = ts @ t # us" "ps_params p = i" "ends GUnary t" "b \<Longrightarrow> tk_text t \<noteq> '')''"
  obtain u us' where u: "ts @ t # us = u # us'" "u = hd ts" using derives_nonempty(1) [OF assms(1)] by (cases ts) auto
  then obtain q0 where q0: "accept_unary p = (False, q0)" "moved p 0 (ps_params p) q0"
    using primary_starts [OF assms(1)] a(1) accept_unary_False [of p u us'] by auto
  then have "rest q0 = ts @ t # us" "ps_params q0 = i" using rest_moved [OF q0(2)] a by (simp_all add: moved_def)
  then obtain q where q: "moved q0 (length ts) j q" "run NPrimary q0 (Some e, q)"
    using phrase_okD [OF assms(2), of q0 t us] a(3,4) by (auto simp: ends_def)
  then show "\<exists>q. moved p (length ts) j q \<and> parsed GUnary e p q"
    using run_unary(2) [OF q(2) q0(1)] moved_trans [OF q0(2) q(1)] by auto
qed

lemma up_unary: "phrase_ok GUnary e ts i j b \<Longrightarrow> phrase_ok GMul e ts i j b"
  unfolding phrase_ok_def by (fastforce simp: ends_def intro: run_chain(4))

lemma up_mul:
  assumes "phrase_ok GMul e ts i j b"
  shows "phrase_ok GAdd e ts i j b"
proof (rule phrase_okI)
  fix p t us assume a: "rest p = ts @ t # us" "ps_params p = i" "ends GAdd t" "b \<Longrightarrow> tk_text t \<noteq> '')''"
  obtain q where q: "moved p (length ts) j q" "rest q = t # us" "parsed GMul e p q"
    using phrase_okD [OF assms, of p t us] a by (auto simp: ends_def)
  have "run (NMulLoop (Some e)) q (Some e, q)"
    using rest_Peek [OF q(2)] a(3) by (intro run_loop_end) (simp add: ends_def)
  then have "run NMul p (Some e, q)" using q(3) by simp
  then show "\<exists>q. moved p (length ts) j q \<and> parsed GAdd e p q" using q(1) run_chain(3) by auto
qed

text \<open>A finished sum, before a token that is not an operator of it.\<close>

lemma sum_run:
  assumes "phrase_ok GAdd e ts i j b" "rest p = ts @ t # us" "ps_params p = i" "ends GAdd t" "tk_text t \<notin> {''+'', ''-''}"
    "b \<Longrightarrow> tk_text t \<noteq> '')''"
  obtains q where "moved p (length ts) j q" "rest q = t # us" "ps_params q = j" "run NAdd p (Some e, q)"
proof -
  obtain q where q: "moved p (length ts) j q" "rest q = t # us" "ps_params q = j" "parsed GAdd e p q"
    using phrase_okD [OF assms(1-4,6)] by auto
  have "run (NAddLoop (Some e)) q (Some e, q)"
    using rest_Peek [OF q(2)] assms(5) by (intro run_loop_end) simp
  then show ?thesis using that [OF q(1-3)] q(4) by simp
qed

lemma up_add:
  assumes "phrase_ok GAdd e ts i j b"
  shows "phrase_ok GLike e ts i j b"
proof (rule phrase_okI)
  fix p t us assume a: "rest p = ts @ t # us" "ps_params p = i" "ends GLike t" "b \<Longrightarrow> tk_text t \<noteq> '')''"
  obtain q where q: "moved p (length ts) j q" "rest q = t # us" "run NAdd p (Some e, q)"
    using sum_run [OF assms a(1,2) _ _ a(4)] a(3) by (auto simp: ends_def)
  obtain q' where "Accept ''like'' q = (False, q')" "moved q 0 (ps_params q) q'"
    using Accept_False [OF q(2), of "''like''"] a(3) by (auto simp: ends_def)
  then show "\<exists>q. moved p (length ts) j q \<and> parsed GLike e p q"
    using run_like [OF q(3)] moved_trans [OF q(1), of 0] q(1) by (auto simp: moved_def)
qed

lemma up_like:
  assumes "phrase_ok GLike e ts i j b"
  shows "phrase_ok GCompare e ts i j b"
proof (rule phrase_okI)
  fix p t us assume a: "rest p = ts @ t # us" "ps_params p = i" "ends GCompare t" "b \<Longrightarrow> tk_text t \<noteq> '')''"
  obtain q where q: "moved p (length ts) j q" "rest q = t # us" "run NLike p (Some e, q)"
    using phrase_okD [OF assms a(1,2) _ a(4)] a(3) by (auto simp: ends_def)
  have "run NCompare p (Some e, q)"
    using run_compare [OF q(3)] rest_Peek [OF q(2)] a(3) by (simp add: ends_def)
  then show "\<exists>q. moved p (length ts) j q \<and> parsed GCompare e p q" using q(1) by auto
qed

lemma up_compare: "phrase_ok GCompare e ts i j b \<Longrightarrow> phrase_ok GAnd e ts i j b"
  unfolding phrase_ok_def by (fastforce simp: ends_def intro: run_chain(2))

lemma up_and:
  assumes "phrase_ok GAnd e ts i j b"
  shows "phrase_ok GOr e ts i j b"
proof (rule phrase_okI)
  fix p t us assume a: "rest p = ts @ t # us" "ps_params p = i" "ends GOr t" "b \<Longrightarrow> tk_text t \<noteq> '')''"
  obtain q where q: "moved p (length ts) j q" "rest q = t # us" "parsed GAnd e p q"
    using phrase_okD [OF assms a(1,2) _ a(4)] a(3) by (auto simp: ends_def)
  obtain q' where q': "Accept ''and'' q = (False, q')" "moved q 0 (ps_params q) q'"
    using Accept_False [OF q(2), of "''and''"] a(3) by (auto simp: ends_def)
  have "run NAnd p (Some e, q')" using q(3) run_loop_end(2) [OF q'(1)] by simp
  moreover have "moved p (length ts) j q'" using moved_trans [OF q(1) q'(2)] q(1) by (simp add: moved_def)
  ultimately show "\<exists>q. moved p (length ts) j q \<and> parsed GOr e p q" using run_chain(1) by auto
qed

text \<open>A finished expression.\<close>

lemma or_run:
  assumes "phrase_ok GOr e ts i j b" "rest p = ts @ t # us" "ps_params p = i" "ends GOr t" "tk_text t \<noteq> ''or''"
    "b \<Longrightarrow> tk_text t \<noteq> '')''"
  obtains q where "moved p (length ts) j q" "rest q = t # us" "ps_params q = j" "\<not> ps_closed q" "run NOr p (Some e, q)"
proof -
  obtain q where q: "moved p (length ts) j q" "rest q = t # us" "ps_params q = j" "parsed GOr e p q"
    using phrase_okD [OF assms(1-4,6)] by auto
  obtain q' where q': "Accept ''or'' q = (False, q')" "moved q 0 (ps_params q) q'" "\<not> ps_closed q'"
    using Accept_False [OF q(2), of "''or''"] assms(5) by auto
  have "run NOr p (Some e, q')" using q(4) run_loop_end(1) [OF q'(1)] by simp
  moreover have "moved p (length ts) j q'" using moved_trans [OF q(1) q'(2)] q(3) by simp
  ultimately show ?thesis using that q'(3) moved_one(1) [OF q'(2) q(2)] by (auto simp: moved_def)
qed

subsection \<open>Operators\<close>

lemma parse_unary:
  assumes "phrase_ok GUnary e ts i j b" "tk_text t \<in> {''not'', ''-'', ''+''}"
  shows "phrase_ok GUnary (unary_expr (tk_text t) (Some e)) (t # ts) i j b"
proof (rule phrase_okI)
  fix p u us assume a: "rest p = (t # ts) @ u # us" "ps_params p = i" "ends GUnary u" "b \<Longrightarrow> tk_text u \<noteq> '')''"
  obtain q0 where q0: "accept_unary p = (True, q0)" "moved p (Suc 0) (ps_params p) q0"
    "ps_tokens q0 ! (ps_index q0 - 1) = t"
    using accept_unary_True [of p t "ts @ u # us"] a(1) assms(2) by auto
  then have "rest q0 = ts @ u # us" "ps_params q0 = i" using rest_moved [OF q0(2)] a by (simp_all add: moved_def)
  then obtain q where q: "moved q0 (length ts) j q" "run NUnary q0 (Some e, q)"
    using phrase_okD [OF assms(1), of q0 u us] a(3,4) by auto
  then show "\<exists>q. moved p (length (t # ts)) j q \<and> parsed GUnary (unary_expr (tk_text t) (Some e)) p q"
    using run_unary(1) [OF q(2) q0(1)] q0(3) moved_trans [OF q0(2) q(1)] by auto
qed

text \<open>Two phrases with a token between them.\<close>

lemma phrase_okD2:
  assumes "phrase_ok c l ts i j b" "rest p = (ts @ t # us) @ u # vs" "ps_params p = i" "ends c t"
    "b \<Longrightarrow> tk_text t \<noteq> '')''"
  obtains q where "moved p (length ts) j q" "rest q = t # us @ u # vs" "ps_params q = j" "parsed c l p q"
  using phrase_okD [OF assms(1) _ assms(3-5)] assms(2) by auto

lemma moved_op:
  "moved p (length ts) j q \<Longrightarrow> moved q (Suc 0) k q' \<Longrightarrow> moved q' (length us) l r \<Longrightarrow> moved p (length (ts @ t # us)) l r"
  by (simp add: moved_def)

lemma parse_multiply:
  assumes l: "phrase_ok GMul l ts i j False" and t: "tk_text t \<in> {''*'', ''/'', ''%''}"
    and r: "phrase_ok GUnary r us j k b"
  shows "phrase_ok GMul (Binary (tk_text t) (Some l) (Some r)) (ts @ t # us) i k b"
proof (rule phrase_okI)
  fix p u vs assume a: "rest p = (ts @ t # us) @ u # vs" "ps_params p = i" "ends GMul u" "b \<Longrightarrow> tk_text u \<noteq> '')''"
  obtain q where q: "moved p (length ts) j q" "rest q = t # us @ u # vs" "ps_params q = j" "parsed GMul l p q"
    by (rule phrase_okD2 [OF l a(1,2)]) (use t in \<open>auto simp: ends_def\<close>)
  note q' = advance_one [OF q(2)]
  obtain s where s: "moved (advance_token q) (length us) k s" "run NUnary (advance_token q) (Some r, s)"
    using phrase_okD [OF r q'(2)] q'(3) q(3) a(3,4) by (auto simp: ends_def)
  have "parsed GMul (Binary (tk_text t) (Some l) (Some r)) p s"
    using run_loop_next(4) [OF s(2)] rest_Peek [OF q(2)] t q(4) by simp
  with moved_op [OF q(1) q'(1) s(1)] show "\<exists>q. moved p (length (ts @ t # us)) k q \<and>
      parsed GMul (Binary (tk_text t) (Some l) (Some r)) p q" by blast
qed

lemma parse_add:
  assumes l: "phrase_ok GAdd l ts i j False" and t: "tk_text t \<in> {''+'', ''-''}"
    and r: "phrase_ok GMul r us j k b"
  shows "phrase_ok GAdd (Binary (tk_text t) (Some l) (Some r)) (ts @ t # us) i k b"
proof (rule phrase_okI)
  fix p u vs assume a: "rest p = (ts @ t # us) @ u # vs" "ps_params p = i" "ends GAdd u" "b \<Longrightarrow> tk_text u \<noteq> '')''"
  obtain q where q: "moved p (length ts) j q" "rest q = t # us @ u # vs" "ps_params q = j" "parsed GAdd l p q"
    by (rule phrase_okD2 [OF l a(1,2)]) (use t in \<open>auto simp: ends_def\<close>)
  note q' = advance_one [OF q(2)]
  obtain s where s: "moved (advance_token q) (length us) k s" "rest s = u # vs" "parsed GMul r (advance_token q) s"
    using phrase_okD [OF r q'(2)] q'(3) q(3) a(3,4) by (auto simp: ends_def)
  have "run (NMulLoop (Some r)) s (Some r, s)"
    using rest_Peek [OF s(2)] a(3) by (intro run_loop_end) (simp add: ends_def)
  then have "run NMul (advance_token q) (Some r, s)" using s(3) by simp
  from run_loop_next(3) [OF this] have "parsed GAdd (Binary (tk_text t) (Some l) (Some r)) p s"
    using rest_Peek [OF q(2)] t q(4) by simp
  with moved_op [OF q(1) q'(1) s(1)] show "\<exists>q. moved p (length (ts @ t # us)) k q \<and>
      parsed GAdd (Binary (tk_text t) (Some l) (Some r)) p q" by blast
qed

lemma parse_like:
  assumes l: "phrase_ok GAdd l ts i j False" and t: "tok ''like'' t" and r: "phrase_ok GAdd r us j k b"
  shows "phrase_ok GLike (Binary ''like'' (Some l) (Some r)) (ts @ t # us) i k b"
proof (rule phrase_okI)
  fix p u vs assume a: "rest p = (ts @ t # us) @ u # vs" "ps_params p = i" "ends GLike u" "b \<Longrightarrow> tk_text u \<noteq> '')''"
  obtain q where q: "moved p (length ts) j q" "rest q = t # us @ u # vs" "ps_params q = j" "run NAdd p (Some l, q)"
    using sum_run [OF l, of p t "us @ u # vs"] a(1,2) t by (auto simp: ends_def)
  obtain q' where q': "Accept ''like'' q = (True, q')" "moved q (Suc 0) (ps_params q) q'"
    using Accept_True [OF q(2)] t by blast
  have x: "rest q' = us @ u # vs" "ps_params q' = j" using moved_one(2) [OF q'(2) q(2)] q(3) q'(2) by (simp_all add: moved_def)
  obtain s where s: "moved q' (length us) k s" "run NAdd q' (Some r, s)"
    by (rule sum_run [OF r x _ _ a(4)]) (use a(3) in \<open>auto simp: ends_def\<close>)
  have "parsed GLike (Binary ''like'' (Some l) (Some r)) p s" using run_like_next [OF q(4) s(2) q'(1)] by simp
  with moved_op [OF q(1) q'(2) s(1)] show "\<exists>q. moved p (length (ts @ t # us)) k q \<and>
      parsed GLike (Binary ''like'' (Some l) (Some r)) p q" by blast
qed

lemma compare_op_ends: "compare_op t \<Longrightarrow> ends GLike t" "compare_op t \<Longrightarrow> tk_text t \<noteq> '')''"
  by (auto simp: compare_op_def ends_def)

lemma parse_comparison:
  assumes l: "phrase_ok GLike l ts i j False" and t: "compare_op t" and r: "phrase_ok GAdd r us j k b"
  shows "phrase_ok GCompare (Binary (tk_text t) (Some l) (Some r)) (ts @ t # us) i k b"
proof (rule phrase_okI)
  fix p u vs assume a: "rest p = (ts @ t # us) @ u # vs" "ps_params p = i" "ends GCompare u" "b \<Longrightarrow> tk_text u \<noteq> '')''"
  obtain q where q: "moved p (length ts) j q" "rest q = t # us @ u # vs" "ps_params q = j" "parsed GLike l p q"
    using phrase_okD2 [OF l a(1,2) compare_op_ends(1) [OF t]] by auto
  note q' = advance_one [OF q(2)]
  obtain s where s: "moved (advance_token q) (length us) k s" "run NAdd (advance_token q) (Some r, s)"
    using sum_run [OF r q'(2)] q'(3) q(3) a(3,4) by (auto simp: ends_def)
  have "parsed GCompare (Binary (tk_text t) (Some l) (Some r)) p s"
    using run_compare_op [OF _ s(2)] q(4) rest_Peek [OF q(2)] t by fastforce
  with moved_op [OF q(1) q'(1) s(1)] show "\<exists>q. moved p (length (ts @ t # us)) k q \<and>
      parsed GCompare (Binary (tk_text t) (Some l) (Some r)) p q" by blast
qed

lemma parse_is_null:
  assumes e: "phrase_ok GLike e ts i j False" and t: "tok ''is'' t"
    and n: "ns = [] \<and> \<not> neg \<or> (\<exists>n. ns = [n] \<and> tok ''not'' n \<and> neg)" and u: "tok ''null'' u"
  shows "phrase_ok GCompare (is_null_expr neg (Some e)) (ts @ t # ns @ [u]) i j False"
proof (rule phrase_okI)
  fix p v vs assume a: "rest p = (ts @ t # ns @ [u]) @ v # vs" "ps_params p = i"
  obtain q where q: "moved p (length ts) j q" "rest q = t # ns @ u # v # vs" "ps_params q = j" "run NLike p (Some e, q)"
    using phrase_okD [OF e, of p t "ns @ u # v # vs"] a t by (auto simp: ends_def)
  note q' = advance_one [OF q(2)]
  obtain q1 where q1: "Accept ''not'' (advance_token q) = (neg, q1)" "moved (advance_token q) (length ns) j q1"
    "rest q1 = u # v # vs"
  proof (cases neg)
    case True
    then obtain m where m: "ns = [m]" "tok ''not'' m" using n by blast
    then have m': "rest (advance_token q) = m # u # v # vs" using q'(2) by simp
    obtain q1 where "Accept ''not'' (advance_token q) = (True, q1)" "moved (advance_token q) (Suc 0) j q1"
      using Accept_True [OF m'] m(2) q'(3) q(3) by auto
    then show ?thesis using that [of q1] True m(1) moved_one(2) [OF _ m'] by simp
  next
    case False
    then have m': "ns = []" "rest (advance_token q) = u # v # vs" using n q'(2) by auto
    obtain q1 where "Accept ''not'' (advance_token q) = (False, q1)" "moved (advance_token q) 0 j q1"
      using Accept_False [OF m'(2), of "''not''"] u q'(3) q(3) by auto
    then show ?thesis using that [of q1] False m'(1) moved_one(1) [OF _ m'(2)] by simp
  qed
  obtain q2 where q2: "Expect ''null'' q1 = (True, q2)" "moved q1 (Suc 0) (ps_params q1) q2"
    using Expect_True [OF q1(3)] u by blast
  have "run NCompare p (Some (is_null_expr neg (Some e)), q2)"
    using run_compare_is [OF q(4) _ q1(1) q2(1)] rest_Peek [OF q(2)] t by simp
  moreover have "moved p (length (ts @ t # ns @ [u])) j q2"
    using q(1) q'(1) q1(2) q2(2) by (simp add: moved_def)
  ultimately show "\<exists>q. moved p (length (ts @ t # ns @ [u])) j q \<and> parsed GCompare (is_null_expr neg (Some e)) p q" by auto
qed

lemma parse_conj:
  assumes l: "phrase_ok GAnd l ts i j b" and t: "tok ''and'' t" and r: "phrase_ok GCompare r us j k c"
  shows "phrase_ok GAnd (Binary ''and'' (Some l) (Some r)) (ts @ t # us) i k c"
proof (rule phrase_okI)
  fix p u vs assume a: "rest p = (ts @ t # us) @ u # vs" "ps_params p = i" "ends GAnd u" "c \<Longrightarrow> tk_text u \<noteq> '')''"
  obtain q where q: "moved p (length ts) j q" "rest q = t # us @ u # vs" "ps_params q = j" "parsed GAnd l p q"
    by (rule phrase_okD2 [OF l a(1,2)]) (use t in \<open>auto simp: ends_def\<close>)
  obtain q' where q': "Accept ''and'' q = (True, q')" "moved q (Suc 0) (ps_params q) q'"
    using Accept_True [OF q(2)] t by blast
  have x: "rest q' = us @ u # vs" "ps_params q' = j" using moved_one(2) [OF q'(2) q(2)] q(3) q'(2) by (simp_all add: moved_def)
  obtain s where s: "moved q' (length us) k s" "run NCompare q' (Some r, s)"
    by (rule phrase_okD [OF r x _ a(4)]) (use a(3) in \<open>auto simp: ends_def\<close>)
  have "parsed GAnd (Binary ''and'' (Some l) (Some r)) p s" using run_loop_next(2) [OF s(2) _ q'(1)] q(4) by auto
  with moved_op [OF q(1) q'(2) s(1)] show "\<exists>q. moved p (length (ts @ t # us)) k q \<and>
      parsed GAnd (Binary ''and'' (Some l) (Some r)) p q" by blast
qed

lemma parse_disj:
  assumes l: "phrase_ok GOr l ts i j b" and t: "tok ''or'' t" and r: "phrase_ok GAnd r us j k c"
  shows "phrase_ok GOr (Binary ''or'' (Some l) (Some r)) (ts @ t # us) i k c"
proof (rule phrase_okI)
  fix p u vs assume a: "rest p = (ts @ t # us) @ u # vs" "ps_params p = i" "ends GOr u" "c \<Longrightarrow> tk_text u \<noteq> '')''"
  obtain q where q: "moved p (length ts) j q" "rest q = t # us @ u # vs" "ps_params q = j" "parsed GOr l p q"
    by (rule phrase_okD2 [OF l a(1,2)]) (use t in \<open>auto simp: ends_def\<close>)
  obtain q' where q': "Accept ''or'' q = (True, q')" "moved q (Suc 0) (ps_params q) q'"
    using Accept_True [OF q(2)] t by blast
  have x: "rest q' = us @ u # vs" "ps_params q' = j" using moved_one(2) [OF q'(2) q(2)] q(3) q'(2) by (simp_all add: moved_def)
  obtain s where s: "moved q' (length us) k s" "rest s = u # vs" "parsed GAnd r q' s"
    by (rule phrase_okD [OF r x _ a(4)]) (use a(3) in \<open>auto simp: ends_def\<close>)
  obtain s' where s': "Accept ''and'' s = (False, s')" "moved s 0 (ps_params s) s'"
    using Accept_False [OF s(2), of "''and''"] a(3) by (auto simp: ends_def)
  have "run NAnd q' (Some r, s')" using s(3) run_loop_end(2) [OF s'(1)] by simp
  from run_loop_next(1) [OF this _ q'(1)] have "parsed GOr (Binary ''or'' (Some l) (Some r)) p s'" using q(4) by auto
  moreover have "moved q' (length us) k s'" using s(1) s'(2) by (simp add: moved_def)
  ultimately show "\<exists>q. moved p (length (ts @ t # us)) k q \<and> parsed GOr (Binary ''or'' (Some l) (Some r)) p q"
    using moved_op [OF q(1) q'(2)] by blast
qed

subsection \<open>Primary expressions\<close>

lemma primary_start:
  assumes "rest p = t # us" "operand k t"
  obtains q where "Accept ''('' p = (False, q)" "moved p 0 (ps_params p) q" "Peek q = t" "rest q = t # us"
proof -
  obtain q where q: "Accept ''('' p = (False, q)" "moved p 0 (ps_params p) q"
    using Accept_False [OF assms(1), of "''(''"] assms(2) by (auto simp: operand_def)
  then show ?thesis using that moved_one(1) [OF q(2) assms(1)] rest_Peek by blast
qed

lemma parse_number:
  assumes t: "operand KNumber t" "number_literal (tk_text t) = Some v"
  shows "phrase_ok GPrimary (literal_expr v) [t] i i False"
proof (rule phrase_okI)
  fix p u us assume a: "rest p = [t] @ u # us" "ps_params p = i"
  obtain q where q: "Accept ''('' p = (False, q)" "moved p 0 (ps_params p) q" "Peek q = t"
    using primary_start [OF _ t(1), of p "u # us"] a(1) by auto
  have "run NPrimary p (Some (literal_expr v), advance_token q)"
    by (rule run_from0) (use q t in \<open>auto simp: parse_step_def ParsePrimary_def operand_def\<close>)
  then show "\<exists>q. moved p (length [t]) i q \<and> parsed GPrimary (literal_expr v) p q"
    using q(2) moved_advance [of q] a(2) by (auto simp: moved_def)
qed

lemma parse_string:
  assumes t: "operand KString t"
  shows "phrase_ok GPrimary (literal_expr (VText (tk_text t))) [t] i i False"
proof (rule phrase_okI)
  fix p u us assume a: "rest p = [t] @ u # us" "ps_params p = i"
  obtain q where q: "Accept ''('' p = (False, q)" "moved p 0 (ps_params p) q" "Peek q = t"
    using primary_start [OF _ t, of p "u # us"] a(1) by auto
  have "run NPrimary p (Some (literal_expr (VText (tk_text t))), advance_token q)"
    by (rule run_from0) (use q t in \<open>auto simp: parse_step_def ParsePrimary_def operand_def\<close>)
  then show "\<exists>q. moved p (length [t]) i q \<and> parsed GPrimary (literal_expr (VText (tk_text t))) p q"
    using q(2) moved_advance [of q] a(2) by (auto simp: moved_def)
qed

lemma parse_parameter:
  assumes t: "operand KParameter t"
  shows "phrase_ok GPrimary (parameter_expr i) [t] i (i + 1) False"
proof (rule phrase_okI)
  fix p u us assume a: "rest p = [t] @ u # us" "ps_params p = i"
  obtain q where q: "Accept ''('' p = (False, q)" "moved p 0 (ps_params p) q" "Peek q = t"
    using primary_start [OF _ t, of p "u # us"] a(1) by auto
  have "run NPrimary p (Some (parameter_expr i), (advance_token q)\<lparr>ps_params := ps_params q + 1\<rparr>)"
    by (rule run_from0) (use q t a(2) in \<open>auto simp: parse_step_def ParsePrimary_def operand_def moved_def\<close>)
  then show "\<exists>q. moved p (length [t]) (i + 1) q \<and> parsed GPrimary (parameter_expr i) p q"
    using q(2) a(2) by (intro exI [of _ "(advance_token q)\<lparr>ps_params := ps_params q + 1\<rparr>"])
      (simp add: moved_def advance_token_def)
qed

lemma primary_word:
  assumes "rest p = t # us" "operand KWord t"
  obtains q where "moved p (Suc 0) (ps_params p) q" "rest q = us"
    "\<And>f. parse_step f NPrimary p = parse_name f (tk_text t) q"
proof -
  obtain q where q: "Accept ''('' p = (False, q)" "moved p 0 (ps_params p) q" "Peek q = t" "rest q = t # us"
    by (rule primary_start [OF assms])
  have "moved p (Suc 0) (ps_params p) (advance_token q)" using q(2) moved_advance [of q] by (simp add: moved_def)
  moreover have "parse_step f NPrimary p = parse_name f (tk_text t) (advance_token q)" for f
    using q(1,3) assms(2) by (simp add: parse_step_def ParsePrimary_def operand_def Identifier_def)
  ultimately show ?thesis using that advance_one(2) [OF q(4)] by blast
qed

lemma parse_constant:
  assumes t: "operand KWord t" "tk_text t \<in> {''null'', ''true'', ''false''}"
    and v: "v = (if tk_text t = ''null'' then VNull else VBoolean (tk_text t = ''true''))"
  shows "phrase_ok GPrimary (literal_expr v) [t] i i False"
proof (rule phrase_okI)
  fix p u us assume a: "rest p = [t] @ u # us" "ps_params p = i"
  obtain q where q: "moved p (Suc 0) (ps_params p) q" "\<And>f. parse_step f NPrimary p = parse_name f (tk_text t) q"
    using primary_word [OF _ t(1), of p "u # us"] a(1) by auto
  have "run NPrimary p (Some (literal_expr v), q)"
    by (rule run_from0) (use q(2) t(2) v in \<open>auto simp: parse_name_def\<close>)
  then show "\<exists>q. moved p (length [t]) i q \<and> parsed GPrimary (literal_expr v) p q" using q(1) a(2) by auto
qed

text \<open>After a name.\<close>

lemma named_start:
  assumes n: "named n ts" and p: "rest p = ts @ u # us" and u: "tk_text u \<noteq> ''.''"
  obtains q where "moved p (length ts) (ps_params p) q" "rest q = u # us"
    "\<And>f. parse_step f NPrimary p =
      (case Accept ''('' q of
         (False, p3) \<Rightarrow> Some (Some (column_expr n), p3)
       | (True, p3) \<Rightarrow>
           (case Accept '')'' p3 of
              (True, p4) \<Rightarrow> Some (Some (function_expr n []), p4)
            | (False, p4) \<Rightarrow> f (NArgLoop n []) p4))"
  using n
proof cases
  case (plain_name t)
  obtain q where q: "moved p (Suc 0) (ps_params p) q" "rest q = u # us"
    "\<And>f. parse_step f NPrimary p = parse_name f (tk_text t) q"
    using primary_word [of p t "u # us"] plain_name p by (auto simp: column_word_def)
  obtain q1 where q1: "Accept ''.'' q = (False, q1)" "moved q 0 (ps_params q) q1"
    using Accept_False [OF q(2), of "''.''"] u by auto
  have "moved p (length ts) (ps_params p) q1" using q(1) q1(2) plain_name by (simp add: moved_def)
  then show ?thesis
    by (rule that) (use moved_one(1) [OF q1(2) q(2)] q(3) q1(1) plain_name in \<open>auto simp: parse_name_def column_word_def\<close>)
next
  case (dotted_name t d f)
  obtain q where q: "moved p (Suc 0) (ps_params p) q" "rest q = d # f # u # us"
    "\<And>g. parse_step g NPrimary p = parse_name g (tk_text t) q"
    using primary_word [of p t "d # f # u # us"] dotted_name p by (auto simp: column_word_def)
  obtain q1 where q1: "Accept ''.'' q = (True, q1)" "moved q (Suc 0) (ps_params q) q1"
    using Accept_True [OF q(2), of "''.''"] dotted_name by auto
  have r1: "rest q1 = f # u # us" using moved_one(2) [OF q1(2) q(2)] by simp
  then have i: "Identifier q1 = (tk_text f, advance_token q1)"
    using rest_Peek dotted_name by (simp add: Identifier_def)
  note q2 = advance_one [OF r1]
  have "moved p (length ts) (ps_params p) (advance_token q1)"
    using q(1) q1(2) q2(1) dotted_name by (simp add: moved_def)
  then show ?thesis
    by (rule that) (use q2(2) q(3) q1(1) i dotted_name in \<open>auto simp: parse_name_def column_word_def\<close>)
qed

lemma parse_column:
  assumes n: "named n ts"
  shows "phrase_ok GPrimary (column_expr n) ts i i False"
proof (rule phrase_okI)
  fix p u us assume a: "rest p = ts @ u # us" "ps_params p = i" "ends GPrimary u"
  obtain q where q: "moved p (length ts) (ps_params p) q" "rest q = u # us"
    "\<And>f. parse_step f NPrimary p = (case Accept ''('' q of (False, p3) \<Rightarrow> Some (Some (column_expr n), p3)
       | (True, p3) \<Rightarrow> (case Accept '')'' p3 of (True, p4) \<Rightarrow> Some (Some (function_expr n []), p4)
            | (False, p4) \<Rightarrow> f (NArgLoop n []) p4))"
    using named_start [OF n a(1)] a(3) by (auto simp: ends_def)
  obtain q1 where q1: "Accept ''('' q = (False, q1)" "moved q 0 (ps_params q) q1"
    using Accept_False [OF q(2), of "''(''"] a(3) by (auto simp: ends_def)
  have "run NPrimary p (Some (column_expr n), q1)" by (rule run_from0) (simp add: q(3) q1(1))
  then show "\<exists>q. moved p (length ts) i q \<and> parsed GPrimary (column_expr n) p q"
    using q(1) q1(2) a(2) by (intro exI [of _ q1]) (simp add: moved_def)
qed

text \<open>A name and its opening parenthesis.\<close>

lemma call_start:
  assumes n: "named n ts" and t: "tok ''('' t" and p: "rest p = ts @ t # us"
  obtains q where "moved p (length ts + 1) (ps_params p) q" "rest q = us" "\<not> ps_closed q"
    "\<And>f. parse_step f NPrimary p =
      (case Accept '')'' q of
         (True, p4) \<Rightarrow> Some (Some (function_expr n []), p4)
       | (False, p4) \<Rightarrow> f (NArgLoop n []) p4)"
proof -
  obtain q where q: "moved p (length ts) (ps_params p) q" "rest q = t # us"
    "\<And>f. parse_step f NPrimary p = (case Accept ''('' q of (False, p3) \<Rightarrow> Some (Some (column_expr n), p3)
       | (True, p3) \<Rightarrow> (case Accept '')'' p3 of (True, p4) \<Rightarrow> Some (Some (function_expr n []), p4)
            | (False, p4) \<Rightarrow> f (NArgLoop n []) p4))"
    using named_start [OF n p] t by auto
  obtain q1 where q1: "Accept ''('' q = (True, q1)" "moved q (Suc 0) (ps_params q) q1" "\<not> ps_closed q1"
    using Accept_True [OF q(2), of "''(''"] t by auto
  show ?thesis
    using that [of q1] q(1,3) q1 moved_one(2) [OF q1(2) q(2)] by (simp add: moved_def)
qed

lemma parse_empty_call:
  assumes n: "named n ts" and t: "tok ''('' t" and u: "tok '')'' u"
  shows "phrase_ok GPrimary (function_expr n []) (ts @ [t, u]) i i False"
proof (rule phrase_okI)
  fix p v vs assume a: "rest p = (ts @ [t, u]) @ v # vs" "ps_params p = i"
  obtain q where q: "moved p (length ts + 1) (ps_params p) q" "rest q = u # v # vs" "\<not> ps_closed q"
    "\<And>f. parse_step f NPrimary p = (case Accept '')'' q of (True, p4) \<Rightarrow> Some (Some (function_expr n []), p4)
       | (False, p4) \<Rightarrow> f (NArgLoop n []) p4)"
    using call_start [OF n t, of p "u # v # vs"] a(1) by auto
  obtain q1 where q1: "Accept '')'' q = (True, q1)" "moved q (Suc 0) (ps_params q) q1"
    using Accept_True [OF q(2), of "'')''"] u by auto
  have "run NPrimary p (Some (function_expr n []), q1)" by (rule run_from0) (simp add: q(4) q1(1))
  then show "\<exists>q. moved p (length (ts @ [t, u])) i q \<and> parsed GPrimary (function_expr n []) p q"
    using q(1) q1(2) a(2) by (intro exI [of _ q1]) (simp add: moved_def)
qed

lemma arguments_okD:
  assumes "arguments_ok es ts i j" "rest p = ts @ t # us" "ps_params p = i" "\<not> ps_closed p"
  obtains q where "moved p (length ts) j q" "run (NArgLoop n args) p (Some (function_expr n (args @ map Some es)), q)"
  using assms unfolding arguments_ok_def by blast

lemma in_list_okD:
  assumes "in_list_ok es ts i j b" "rest p = ts @ t # us" "ps_params p = i" "\<not> ps_closed p" "b \<Longrightarrow> tk_text t \<noteq> '')''"
  obtains q where "moved p (length ts) j q" "run (NInLoop args) p (Some (function_expr ''in'' (args @ map Some es)), q)"
  using assms unfolding in_list_ok_def by blast

lemma parse_call:
  assumes n: "named n ts" and t: "tok ''('' t" and us: "arguments_ok es us i j" "us \<noteq> []" "tk_text (hd us) \<noteq> '')''"
  shows "phrase_ok GPrimary (function_expr n (map Some es)) (ts @ t # us) i j False"
proof (rule phrase_okI)
  fix p v vs assume a: "rest p = (ts @ t # us) @ v # vs" "ps_params p = i"
  obtain q where q: "moved p (length ts + 1) (ps_params p) q" "rest q = us @ v # vs" "\<not> ps_closed q"
    "\<And>f. parse_step f NPrimary p = (case Accept '')'' q of (True, p4) \<Rightarrow> Some (Some (function_expr n []), p4)
       | (False, p4) \<Rightarrow> f (NArgLoop n []) p4)"
    using call_start [OF n t, of p "us @ v # vs"] a(1) by auto
  have r: "rest q = hd us # tl us @ v # vs" using q(2) us(2) by simp
  obtain q1 where q1: "Accept '')'' q = (False, q1)" "moved q 0 (ps_params q) q1" "\<not> ps_closed q1"
    using Accept_False [OF r us(3)] q(3) by auto
  have x: "rest q1 = us @ v # vs" "ps_params q1 = i"
    using rest_moved [OF q1(2)] q(1,2) q1(2) a(2) by (simp_all add: moved_def)
  obtain s where s: "moved q1 (length us) j s" "run (NArgLoop n []) q1 (Some (function_expr n (map Some es)), s)"
    using arguments_okD [OF us(1) x q1(3), of n "[]"] by auto
  have "run NPrimary p (Some (function_expr n (map Some es)), s)"
    by (rule run_from1 [OF s(2)]) (simp add: q(4) q1(1))
  then show "\<exists>q. moved p (length (ts @ t # us)) j q \<and> parsed GPrimary (function_expr n (map Some es)) p q"
    using q(1) q1(2) s(1) by (intro exI [of _ s]) (simp add: moved_def)
qed

lemma closing_ends: "tok '')'' u \<Longrightarrow> ends GOr u" "tok '')'' u \<Longrightarrow> tk_text u \<noteq> ''or''"
  and comma_ends: "tok '','' u \<Longrightarrow> ends GOr u" "tok '','' u \<Longrightarrow> tk_text u \<noteq> ''or''" "tok '','' u \<Longrightarrow> tk_text u \<noteq> '')''"
  by (auto simp: ends_def)

lemma parse_parens:
  assumes t: "tok ''('' t" and e: "phrase_ok GOr e ts i j False" and u: "tok '')'' u"
  shows "phrase_ok GPrimary e (t # ts @ [u]) i j False"
proof (rule phrase_okI)
  fix p v vs assume a: "rest p = (t # ts @ [u]) @ v # vs" "ps_params p = i"
  obtain q where q: "Accept ''('' p = (True, q)" "moved p (Suc 0) (ps_params p) q"
    by (rule Accept_True [of p t "ts @ u # v # vs" "''(''"]) (use a(1) t in simp_all)
  have x: "rest q = ts @ u # v # vs" "ps_params q = i" using rest_moved [OF q(2)] a q(2) by (simp_all add: moved_def)
  obtain r where r: "moved q (length ts) j r" "rest r = u # v # vs" "run NOr q (Some e, r)"
    by (rule or_run [OF e x closing_ends [OF u]]) auto
  obtain s where s: "Expect '')'' r = (True, s)" "moved r (Suc 0) (ps_params r) s"
    by (rule Expect_True [OF r(2), of "'')''"]) (use u in simp_all)
  show "\<exists>q. moved p (length (t # ts @ [u])) j q \<and> parsed GPrimary e p q"
    using run_parens [OF r(3) q(1) s(1)] q(2) r(1) s(2) by (intro exI [of _ s]) (simp add: moved_def)
qed

subsection \<open>Lists\<close>

lemma parse_in:
  assumes e: "phrase_ok GLike e ts i j False" and t: "tok ''in'' t" and u: "tok ''('' u" and us: "in_list_ok es us j k b"
  shows "phrase_ok GCompare (function_expr ''in'' (map Some (e # es))) (ts @ t # u # us) i k b"
proof (rule phrase_okI)
  fix p v vs assume a: "rest p = (ts @ t # u # us) @ v # vs" "ps_params p = i" "b \<Longrightarrow> tk_text v \<noteq> '')''"
  have t': "ends GLike t" using t by (simp add: ends_def)
  have "rest p = ts @ t # u # us @ v # vs" using a(1) by simp
  then obtain q where q: "moved p (length ts) j q" "rest q = t # u # us @ v # vs" "ps_params q = j" "run NLike p (Some e, q)"
    using phrase_okD [OF e _ a(2) t'] by auto
  note q' = advance_one [OF q(2)]
  obtain q1 where q1: "Expect ''('' (advance_token q) = (True, q1)" "moved (advance_token q) (Suc 0) j q1" "\<not> ps_closed q1"
    using Expect_True [OF q'(2), of "''(''"] u q'(3) q(3) by auto
  have x: "rest q1 = us @ v # vs" "ps_params q1 = j" using moved_one(2) [OF q1(2) q'(2)] q1(2) by (simp_all add: moved_def)
  obtain s where s: "moved q1 (length us) k s" "run (NInLoop [Some e]) q1 (Some (function_expr ''in'' (map Some (e # es))), s)"
    using in_list_okD [OF us x q1(3) a(3), of "[Some e]"] by auto
  have "run NCompare p (Some (function_expr ''in'' (map Some (e # es))), s)"
    using run_compare_in [OF q(4) s(2) _ q1(1)] rest_Peek [OF q(2)] t by simp
  moreover have "moved p (length (ts @ t # u # us)) k s" using q(1) q'(1) q1(2) s(1) by (simp add: moved_def)
  ultimately show "\<exists>q. moved p (length (ts @ t # u # us)) k q \<and>
      parsed GCompare (function_expr ''in'' (map Some (e # es))) p q" by auto
qed

lemma parse_in_end: "tok '')'' t \<Longrightarrow> in_list_ok [] [t] i i False"
  unfolding in_list_ok_def
proof (intro allI impI)
  fix p u us args assume t: "tok '')'' t" and a: "rest p = [t] @ u # us" "ps_params p = i"
  have "rest p = t # u # us" using a(1) by simp
  then obtain q where "Accept '')'' p = (True, q)" "moved p (Suc 0) (ps_params p) q" using Accept_True t by blast
  then show "\<exists>q. moved p (length [t]) i q \<and> run (NInLoop args) p (Some (function_expr ''in'' (args @ map Some [])), q)"
    using run_in_end a(2) by auto
qed

text \<open>An element of the list, before a token that ends it.\<close>

lemma in_item:
  assumes e: "phrase_ok GOr e ts i j b" "ts \<noteq> []" "tk_text (hd ts) \<noteq> '')''" and p: "rest p = ts @ t # us"
    and i: "ps_params p = i" and c: "\<not> ps_closed p" and t: "ends GOr t" "tk_text t \<noteq> ''or''" "b \<Longrightarrow> tk_text t \<noteq> '')''"
  obtains p1 p2 where "Accept '')'' p = (False, p1)" "run NOr p1 (Some e, p2)" "moved p (length ts) j p2"
    "rest p2 = t # us" "ps_params p2 = j" "\<not> ps_closed p2"
proof -
  have r: "rest p = hd ts # tl ts @ t # us" using p e(2) by simp
  obtain p1 where p1: "Accept '')'' p = (False, p1)" "moved p 0 (ps_params p) p1"
    using Accept_False [OF r e(3)] c by auto
  have x: "rest p1 = ts @ t # us" "ps_params p1 = i" using rest_moved [OF p1(2)] p p1(2) i by (simp_all add: moved_def)
  obtain p2 where p2: "moved p1 (length ts) j p2" "rest p2 = t # us" "ps_params p2 = j" "\<not> ps_closed p2" "run NOr p1 (Some e, p2)"
    by (rule or_run [OF e(1) x t])
  have "moved p (length ts) j p2" using moved_trans [OF p1(2) p2(1)] by simp
  then show ?thesis by (rule that [OF p1(1) p2(5) _ p2(2,3,4)])
qed

lemma parse_in_next:
  assumes e: "phrase_ok GOr e ts i j b" "ts \<noteq> []" "tk_text (hd ts) \<noteq> '')''" and t: "tok '','' t" and us: "in_list_ok es us j k c"
  shows "in_list_ok (e # es) (ts @ t # us) i k c"
  unfolding in_list_ok_def
proof (intro allI impI)
  fix p v vs args
  assume a: "rest p = (ts @ t # us) @ v # vs" "ps_params p = i" "\<not> ps_closed p" "c \<longrightarrow> tk_text v \<noteq> '')''"
  have "rest p = ts @ t # us @ v # vs" using a(1) by simp
  then obtain p1 p2 where p: "Accept '')'' p = (False, p1)" "run NOr p1 (Some e, p2)" "moved p (length ts) j p2"
    "rest p2 = t # us @ v # vs" "ps_params p2 = j"
    using in_item [OF e _ a(2,3) comma_ends [OF t]] by blast
  obtain p3 where p3: "Accept '','' p2 = (True, p3)" "moved p2 (Suc 0) j p3" "\<not> ps_closed p3"
    using Accept_True [OF p(4), of "'',''"] t p(5) by auto
  have x: "rest p3 = us @ v # vs" "ps_params p3 = j" using moved_one(2) [OF p3(2) p(4)] p3(2) by (simp_all add: moved_def)
  obtain s where s: "moved p3 (length us) k s"
    "run (NInLoop (args @ [Some e])) p3 (Some (function_expr ''in'' (args @ map Some (e # es))), s)"
    using in_list_okD [OF us x p3(3), of "args @ [Some e]"] a(4) by auto
  have "moved p (length (ts @ t # us)) k s" by (rule moved_op [OF p(3) p3(2) s(1)])
  then show "\<exists>q. moved p (length (ts @ t # us)) k q \<and>
      run (NInLoop args) p (Some (function_expr ''in'' (args @ map Some (e # es))), q)"
    using run_in_comma [OF p(2) s(2) p(1) p3(1)] by blast
qed

lemma in_item_close:
  assumes e: "phrase_ok GOr e ts i j False" "ts \<noteq> []" "tk_text (hd ts) \<noteq> '')''" and t: "tok '')'' t"
    and p: "rest p = ts @ t # us" "ps_params p = i" "\<not> ps_closed p"
  obtains q where "moved p (length ts + 1) j q" "rest q = us" "ps_closed q"
    "\<And>args r. run (NInLoop (args @ [Some e])) q r \<Longrightarrow> run (NInLoop args) p r"
proof -
  obtain p1 p2 where p: "Accept '')'' p = (False, p1)" "run NOr p1 (Some e, p2)" "moved p (length ts) j p2"
    "rest p2 = t # us" "ps_params p2 = j"
    using in_item [OF e p closing_ends [OF t]] by blast
  obtain p3 where p3: "Accept '','' p2 = (False, p3)" "moved p2 0 j p3"
    using Accept_False [OF p(4), of "'',''"] t p(5) by auto
  have r3: "rest p3 = t # us" using moved_one(1) [OF p3(2) p(4)] by simp
  obtain p4 where p4: "Expect '')'' p3 = (True, p4)" "moved p3 (Suc 0) (ps_params p3) p4" "ps_closed p4"
    using Expect_True [OF r3, of "'')''"] t by auto
  show ?thesis
  proof (rule that [of p4])
    show "moved p (length ts + 1) j p4" using p(3) p3(2) p4(2) by (simp add: moved_def)
    show "rest p4 = us" using moved_one(2) [OF p4(2) r3] by simp
  qed (use p4(3) run_in_close [OF p(2) _ p(1) p3(1) p4(1)] in auto)
qed

lemma parse_in_last:
  assumes e: "phrase_ok GOr e ts i j False" "ts \<noteq> []" "tk_text (hd ts) \<noteq> '')''" and t: "tok '')'' t"
  shows "in_list_ok [e] (ts @ [t]) i j True"
  unfolding in_list_ok_def
proof (intro allI impI)
  fix p v vs args
  assume a: "rest p = (ts @ [t]) @ v # vs" "ps_params p = i" "\<not> ps_closed p" "True \<longrightarrow> tk_text v \<noteq> '')''"
  have "rest p = ts @ t # v # vs" using a(1) by simp
  then obtain q where q: "moved p (length ts + 1) j q" "rest q = v # vs" "ps_closed q"
    "\<And>args r. run (NInLoop (args @ [Some e])) q r \<Longrightarrow> run (NInLoop args) p r"
    using in_item_close [OF e t _ a(2,3)] by blast
  have "Accept '')'' q = (True, q\<lparr>ps_closed := False\<rparr>)" using Accept_again [OF q(2) _ q(3)] a(4) by simp
  from q(4) [OF run_in_end [OF this, of "args @ [Some e]"]]
  show "\<exists>q. moved p (length (ts @ [t])) j q \<and> run (NInLoop args) p (Some (function_expr ''in'' (args @ map Some [e])), q)"
    using q(1) by (intro exI [of _ "q\<lparr>ps_closed := False\<rparr>"]) simp
qed

lemma parse_in_twice:
  assumes e: "phrase_ok GOr e ts i j False" "ts \<noteq> []" "tk_text (hd ts) \<noteq> '')''" and t: "tok '')'' t" and u: "tok '')'' u"
  shows "in_list_ok [e] (ts @ [t, u]) i j False"
  unfolding in_list_ok_def
proof (intro allI impI)
  fix p v vs args
  assume a: "rest p = (ts @ [t, u]) @ v # vs" "ps_params p = i" "\<not> ps_closed p"
  have "rest p = ts @ t # u # v # vs" using a(1) by simp
  then obtain q where q: "moved p (length ts + 1) j q" "rest q = u # v # vs"
    "\<And>args r. run (NInLoop (args @ [Some e])) q r \<Longrightarrow> run (NInLoop args) p r"
    using in_item_close [OF e t _ a(2,3)] by blast
  obtain s where s: "Accept '')'' q = (True, s)" "moved q (Suc 0) (ps_params q) s"
    using Accept_True [OF q(2), of "'')''"] u by blast
  from q(3) [OF run_in_end [OF s(1), of "args @ [Some e]"]]
  show "\<exists>q. moved p (length (ts @ [t, u])) j q \<and> run (NInLoop args) p (Some (function_expr ''in'' (args @ map Some [e])), q)"
    using q(1) s(2) by (intro exI [of _ s]) (simp add: moved_def)
qed

text \<open>An argument: a star or an expression.\<close>

lemma star_item:
  assumes s: "tk_text s = ''*''" and p: "rest p = s # t # us"
  obtains p1 where "Accept ''*'' p = (True, p1)" "moved p (Suc 0) (ps_params p) p1" "rest p1 = t # us" "\<not> ps_closed p1"
proof -
  obtain p1 where p1: "Accept ''*'' p = (True, p1)" "moved p (Suc 0) (ps_params p) p1" "\<not> ps_closed p1"
    using Accept_True [OF p s] by auto
  from that [OF p1(1,2) moved_one(2) [OF p1(2) p refl] p1(3)] show ?thesis .
qed

lemma parse_star_last:
  assumes s: "tk_text s = ''*''" and t: "tok '')'' t"
  shows "arguments_ok [column_expr ''*''] [s, t] i i"
  unfolding arguments_ok_def
proof (intro allI impI)
  fix p v vs n args assume a: "rest p = [s, t] @ v # vs" "ps_params p = i"
  have "rest p = s # t # v # vs" using a(1) by simp
  then obtain p1 where p1: "Accept ''*'' p = (True, p1)" "moved p (Suc 0) (ps_params p) p1" "rest p1 = t # v # vs"
    using star_item [OF s] by blast
  obtain p2 where p2: "Accept '')'' p1 = (True, p2)" "moved p1 (Suc 0) (ps_params p1) p2"
    using Accept_True [OF p1(3)] t by blast
  show "\<exists>q. moved p (length [s, t]) i q \<and>
      run (NArgLoop n args) p (Some (function_expr n (args @ map Some [column_expr ''*''])), q)"
    using run_star [OF p1(1) p2(1)] p1(2) p2(2) a(2) by (intro exI [of _ p2]) (simp add: moved_def)
qed

text \<open>The comma after an argument.\<close>

lemma argument_comma:
  assumes p: "rest p = t # us" "\<not> ps_closed p" and t: "tok '','' t"
  obtains p2 p3 where "Accept '')'' p = (False, p2)" "Expect '','' p2 = (True, p3)" "moved p (Suc 0) (ps_params p) p3"
    "rest p3 = us" "\<not> ps_closed p3"
proof -
  obtain p2 where p2: "Accept '')'' p = (False, p2)" "moved p 0 (ps_params p) p2"
    using Accept_False [OF p(1), of "'')''"] p(2) t by auto
  have r: "rest p2 = t # us" using moved_one(1) [OF p2(2) p(1)] by simp
  obtain p3 where p3: "Expect '','' p2 = (True, p3)" "moved p2 (Suc 0) (ps_params p2) p3" "\<not> ps_closed p3"
    using Expect_True [OF r, of "'',''"] t by auto
  have "moved p (Suc 0) (ps_params p) p3" using p2(2) p3(2) by (simp add: moved_def)
  then show ?thesis using that [OF p2(1) p3(1)] moved_one(2) [OF p3(2) r] p3(3) by simp
qed

lemma parse_star_next:
  assumes s: "tk_text s = ''*''" and t: "tok '','' t" and us: "arguments_ok es us i j"
  shows "arguments_ok (column_expr ''*'' # es) (s # t # us) i j"
  unfolding arguments_ok_def
proof (intro allI impI)
  fix p v vs n args assume a: "rest p = (s # t # us) @ v # vs" "ps_params p = i"
  have "rest p = s # t # us @ v # vs" using a(1) by simp
  then obtain p1 where p1: "Accept ''*'' p = (True, p1)" "moved p (Suc 0) (ps_params p) p1" "rest p1 = t # us @ v # vs"
    "\<not> ps_closed p1"
    using star_item [OF s] by blast
  obtain p2 p3 where p3: "Accept '')'' p1 = (False, p2)" "Expect '','' p2 = (True, p3)" "moved p1 (Suc 0) (ps_params p1) p3"
    "rest p3 = us @ v # vs" "\<not> ps_closed p3"
    using argument_comma [OF p1(3,4) t] by blast
  have i: "ps_params p3 = i" using p1(2) p3(3) a(2) by (simp add: moved_def)
  obtain r where r: "moved p3 (length us) j r"
    "run (NArgLoop n (args @ [Some (column_expr ''*'')])) p3 (Some (function_expr n (args @ map Some (column_expr ''*'' # es))), r)"
    using arguments_okD [OF us p3(4) i p3(5), of n "args @ [Some (column_expr ''*'')]"] by auto
  show "\<exists>q. moved p (length (s # t # us)) j q \<and>
      run (NArgLoop n args) p (Some (function_expr n (args @ map Some (column_expr ''*'' # es))), q)"
    using run_star_next [OF r(2) p1(1) p3(1,2)] p1(2) p3(3) r(1) by (intro exI [of _ r]) (simp add: moved_def)
qed

lemma argument_item:
  assumes e: "phrase_ok GOr e ts i j b" "ts \<noteq> []" "tk_text (hd ts) \<noteq> ''*''" and p: "rest p = ts @ t # us"
    and i: "ps_params p = i" and t: "ends GOr t" "tk_text t \<noteq> ''or''" "b \<Longrightarrow> tk_text t \<noteq> '')''"
  obtains p0 p1 where "Accept ''*'' p = (False, p0)" "run NOr p0 (Some e, p1)" "moved p (length ts) j p1"
    "rest p1 = t # us" "ps_params p1 = j" "\<not> ps_closed p1"
proof -
  have r: "rest p = hd ts # tl ts @ t # us" using p e(2) by simp
  obtain p0 where p0: "Accept ''*'' p = (False, p0)" "moved p 0 (ps_params p) p0"
    using Accept_False [OF r e(3)] by auto
  have x: "rest p0 = ts @ t # us" "ps_params p0 = i" using rest_moved [OF p0(2)] p p0(2) i by (simp_all add: moved_def)
  obtain p1 where p1: "moved p0 (length ts) j p1" "rest p1 = t # us" "ps_params p1 = j" "\<not> ps_closed p1" "run NOr p0 (Some e, p1)"
    by (rule or_run [OF e(1) x t])
  have "moved p (length ts) j p1" using moved_trans [OF p0(2) p1(1)] by simp
  then show ?thesis by (rule that [OF p0(1) p1(5) _ p1(2,3,4)])
qed

lemma parse_argument_last:
  assumes e: "phrase_ok GOr e ts i j False" "ts \<noteq> []" "tk_text (hd ts) \<noteq> ''*''" and t: "tok '')'' t"
  shows "arguments_ok [e] (ts @ [t]) i j"
  unfolding arguments_ok_def
proof (intro allI impI)
  fix p v vs n args assume a: "rest p = (ts @ [t]) @ v # vs" "ps_params p = i"
  have "rest p = ts @ t # v # vs" using a(1) by simp
  then obtain p0 p1 where p: "Accept ''*'' p = (False, p0)" "run NOr p0 (Some e, p1)" "moved p (length ts) j p1"
    "rest p1 = t # v # vs"
    using argument_item [OF e _ a(2) closing_ends [OF t]] by blast
  obtain p2 where p2: "Accept '')'' p1 = (True, p2)" "moved p1 (Suc 0) (ps_params p1) p2"
    using Accept_True [OF p(4)] t by blast
  show "\<exists>q. moved p (length (ts @ [t])) j q \<and> run (NArgLoop n args) p (Some (function_expr n (args @ map Some [e])), q)"
    using run_args [OF p(2,1) p2(1), of n args] p(3) p2(2) by (intro exI [of _ p2]) (simp add: moved_def)
qed

lemma parse_argument_next:
  assumes e: "phrase_ok GOr e ts i j b" "ts \<noteq> []" "tk_text (hd ts) \<noteq> ''*''" and t: "tok '','' t" and us: "arguments_ok es us j k"
  shows "arguments_ok (e # es) (ts @ t # us) i k"
  unfolding arguments_ok_def
proof (intro allI impI)
  fix p v vs n args assume a: "rest p = (ts @ t # us) @ v # vs" "ps_params p = i"
  have "rest p = ts @ t # us @ v # vs" using a(1) by simp
  then obtain p0 p1 where p: "Accept ''*'' p = (False, p0)" "run NOr p0 (Some e, p1)" "moved p (length ts) j p1"
    "rest p1 = t # us @ v # vs" "ps_params p1 = j" "\<not> ps_closed p1"
    using argument_item [OF e _ a(2) comma_ends [OF t]] by blast
  obtain p2 p3 where p3: "Accept '')'' p1 = (False, p2)" "Expect '','' p2 = (True, p3)" "moved p1 (Suc 0) (ps_params p1) p3"
    "rest p3 = us @ v # vs" "\<not> ps_closed p3"
    using argument_comma [OF p(4,6) t] by blast
  have j: "ps_params p3 = j" using p(5) p3(3) by (simp add: moved_def)
  obtain r where r: "moved p3 (length us) k r"
    "run (NArgLoop n (args @ [Some e])) p3 (Some (function_expr n (args @ map Some (e # es))), r)"
    using arguments_okD [OF us p3(4) j p3(5), of n "args @ [Some e]"] by auto
  have "moved p (length (ts @ t # us)) k r" by (rule moved_op [OF p(3) p3(3) r(1)])
  then show "\<exists>q. moved p (length (ts @ t # us)) k q \<and>
      run (NArgLoop n args) p (Some (function_expr n (args @ map Some (e # es))), q)"
    using run_args_next [OF p(2) r(2) p(1) p3(1,2)] by blast
qed

text \<open>The parser reads every phrase of the grammar.\<close>

lemma derives_parsed:
  "derives c e ts i j b \<Longrightarrow> phrase_ok c e ts i j b"
  "in_list es ts i j b \<Longrightarrow> in_list_ok es ts i j b"
  "arguments es ts i j \<Longrightarrow> arguments_ok es ts i j"
proof (induction rule: derives_in_list_arguments.inducts)
  case (null t i)
  then show ?case by (intro parse_constant) auto
next
  case (boolean t i)
  then show ?case by (intro parse_constant) auto
next
  case (primary e ts i j b)
  then show ?case by (intro up_primary)
next
  case (is_null e ts i j t u)
  then show ?case using parse_is_null [of e ts i j t "[]" False u] by simp
next
  case (is_not_null e ts i j t n u)
  then show ?case using parse_is_null [of e ts i j t "[n]" True u] by simp
next
  case (call n ts t es us i j)
  then show ?case by (intro parse_call) (auto dest: derives_nonempty(3))
next
  case (in_next e ts i j b t es us k c)
  then show ?case by (intro parse_in_next) (auto dest: derives_nonempty(1))
next
  case (in_last e ts i j t)
  then show ?case by (intro parse_in_last) (auto dest: derives_nonempty(1))
next
  case (in_twice e ts i j t u)
  then show ?case by (intro parse_in_twice) (auto dest: derives_nonempty(1))
next
  case (argument_last e ts i j t)
  then show ?case by (intro parse_argument_last) (auto dest: derives_nonempty(1))
next
  case (argument_next e ts i j b t es us k)
  then show ?case by (intro parse_argument_next) (auto dest: derives_nonempty(1))
qed (rule parse_number parse_string parse_parameter parse_column parse_empty_call parse_parens parse_unary up_unary
    parse_multiply up_mul parse_add up_add parse_like up_like parse_comparison parse_in up_compare parse_conj up_and
    parse_disj parse_in_end parse_star_last parse_star_next; assumption)+

lemma Expression_run:
  assumes "parser_ok p" "run NOr p r"
  shows "Expression p = r"
proof -
  obtain e q where e: "parse (parse_fuel p) NOr p = Some (e, q)" "Expression p = (e, q)"
    using Expression_total [OF assms(1)] by metis
  then have "run NOr p (e, q)" by (auto simp: run_def)
  then show ?thesis using e(2) run_unique [OF assms(2)] by blast
qed

lemma Expression_derives:
  assumes "parser_ok p" "derives GOr e ts (ps_params p) j b" "rest p = ts @ t # us"
    and "ends GOr t" "tk_text t \<noteq> ''or''" "b \<Longrightarrow> tk_text t \<noteq> '')''"
  shows "\<exists>q. Expression p = (Some e, q) \<and> moved p (length ts) j q \<and> rest q = t # us \<and> \<not> ps_closed q"
proof -
  obtain q where q: "moved p (length ts) j q" "rest q = t # us" "\<not> ps_closed q" "run NOr p (Some e, q)"
    by (rule or_run [OF derives_parsed(1) [OF assms(2)] assms(3) refl assms(4-6)])
  from Expression_run [OF assms(1) q(4)] q(1-3) show ?thesis by blast
qed

end
