(* ===== verification/Parser_Exact.thy ===== *)
theory Parser_Exact
  imports Sql_Grammar
begin

text \<open>
  The other direction: every tree the parser gives without an error is derived from the tokens it
  has consumed. Together with \<open>Sql_Grammar\<close> this makes the parser an implementation of the
  grammar; in particular the grammar is unambiguous.
\<close>

section \<open>Every parse is a phrase\<close>

text \<open>A parser on tokens of the lexer.\<close>

definition token_shape :: "Token \<Rightarrow> bool" where
  "token_shape t \<longleftrightarrow> tk_kind t = KEnd \<or> token_ok (tk_kind t) (tk_text t)"

definition good :: "parser \<Rightarrow> bool" where
  "good p \<longleftrightarrow> parser_ok p \<and> list_all token_shape (ps_tokens p)"

text \<open>From \<open>p\<close> the tokens \<open>ts\<close> have been read, in \<open>q\<close>.\<close>

definition reads :: "parser \<Rightarrow> Token list \<Rightarrow> parser \<Rightarrow> bool" where
  "reads p ts q \<longleftrightarrow> ps_tokens q = ps_tokens p \<and> rest p = ts @ rest q"

lemma reads_trans: "reads p ts q \<Longrightarrow> reads q us r \<Longrightarrow> reads p (ts @ us) r"
  by (simp add: reads_def)

lemma reads_refl [simp]: "reads p [] p"
  by (simp add: reads_def)

lemma reads_closed [simp]: "reads p ts (q\<lparr>ps_closed := c\<rparr>) = reads p ts q" "reads (p\<lparr>ps_closed := c\<rparr>) ts q = reads p ts q"
  by (simp_all add: reads_def)

lemma good_rest:
  assumes "good p"
  obtains t us where "rest p = t # us" "Peek p = t" "token_shape t"
proof -
  have "ps_index p < length (ps_tokens p)" "list_all token_shape (ps_tokens p)"
    using assms by (simp_all add: good_def parser_ok_def)
  then show ?thesis
    using that [of "Peek p" "drop (Suc (ps_index p)) (ps_tokens p)"]
    by (simp add: rest_def Peek_def Cons_nth_drop_Suc list_all_length)
qed

lemma good_after: "good p \<Longrightarrow> after p q \<Longrightarrow> good q"
  by (auto simp: good_def after_def)

lemma good_closed [simp]: "good (p\<lparr>ps_closed := c\<rparr>) = good p"
  by (simp add: good_def)

text \<open>Texts that are no operator of the lexer.\<close>

lemma token_shape_tok: "token_shape t \<Longrightarrow> tk_text t \<notin> {''<='', ''>='', ''!='', ''<>'', ''='', ''<'', ''>'', ''+'', ''-'', ''*'', ''/'', ''%'', ''!''} \<Longrightarrow>
    tk_kind t \<noteq> KOperator"
  by (auto simp: token_shape_def two_char_op_def)

lemma token_tok:
  "token_shape t \<Longrightarrow> tk_text t = s \<Longrightarrow> s \<notin> {''<='', ''>='', ''!='', ''<>'', ''='', ''<'', ''>'', ''+'', ''-'', ''*'', ''/'', ''%'', ''!''} \<Longrightarrow>
   tok s t"
  using token_shape_tok by blast

lemma token_shape_op: "token_shape t \<Longrightarrow> tk_kind t = KOperator \<Longrightarrow> tk_text t \<notin> {''*'', ''/'', ''%'', ''+'', ''-''} \<Longrightarrow> compare_op t"
  by (auto simp: token_shape_def two_char_op_def compare_op_def)

text \<open>What the calls of the parser leave behind.\<close>

definition step_to :: "parser \<Rightarrow> Token list \<Rightarrow> parser \<Rightarrow> bool" where
  "step_to p ts q \<longleftrightarrow> reads p ts q \<and> ps_params q = ps_params p \<and> ps_status q = ps_status p \<and> good q"

lemma advance_step:
  assumes "good p" "tk_text (Peek p) \<noteq> [] \<or> tk_kind (Peek p) \<noteq> KEnd"
  shows "step_to p [Peek p] (advance_token p)"
proof -
  obtain t us where t: "rest p = t # us" "Peek p = t" using good_rest [OF assms(1)] by blast
  have "good (advance_token p)"
    using after_advance(1) [of p] assms good_after [OF assms(1)] by (simp add: good_def)
  then show ?thesis
    using t advance_one [OF t(1)] by (simp add: step_to_def reads_def moved_def)
qed

lemma Accept_step:
  assumes "good p" "Accept s p = (True, q)" "s \<noteq> []" "s \<noteq> '')'' \<or> \<not> ps_closed p"
  obtains t where "tk_text t = s" "token_shape t" "step_to p [t] q" "\<not> ps_closed q" "Peek p = t"
proof -
  obtain t us where t: "rest p = t # us" "Peek p = t" "token_shape t" by (rule good_rest [OF assms(1)])
  let ?p = "if s = '')'' then p else p\<lparr>ps_closed := False\<rparr>"
  have a: "tk_text t = s" "q = advance_token ?p"
    using assms(2,4) t(2) by (auto simp: Accept_def Let_def split: if_splits)
  have "good ?p" "Peek ?p = t" using assms(1) t(2) by simp_all
  then have "step_to ?p [t] q" using advance_step [of ?p] a assms(3) by simp
  then have "step_to p [t] q" by (simp add: step_to_def split: if_splits)
  then show ?thesis using that [of t] a t assms(4) by (auto simp: advance_token_def)
qed

lemma Accept_stays:
  assumes "good p" "Accept s p = (False, q)"
  shows "step_to p [] q" "Peek q = Peek p" "tk_text (Peek q) \<noteq> s" "s \<noteq> '')'' \<Longrightarrow> \<not> ps_closed q" "ps_closed q \<Longrightarrow> ps_closed p"
  using assms by (auto simp: Accept_def Let_def step_to_def split: if_splits)

lemma Expect_step:
  assumes "good p" "Expect s p = (True, q)" "s \<noteq> []" "s \<noteq> '')'' \<or> \<not> ps_closed p"
  obtains t where "tk_text t = s" "token_shape t" "step_to p [t] q" "ps_closed q \<longleftrightarrow> s = '')''" "Peek p = t"
proof -
  obtain q' where a: "Accept s p = (True, q')" "q = (if s = '')'' then q'\<lparr>ps_closed := True\<rparr> else q')"
    using assms(2) by (auto simp: Expect_def split: prod.splits bool.splits if_splits)
  obtain t where t: "tk_text t = s" "token_shape t" "step_to p [t] q'" "\<not> ps_closed q'" "Peek p = t"
    by (rule Accept_step [OF assms(1) a(1) assms(3,4)])
  then show ?thesis using that [of t] a(2) by (auto simp: step_to_def split: if_splits)
qed

definition phrase_of :: "category \<Rightarrow> expr \<Rightarrow> parser \<Rightarrow> parser \<Rightarrow> bool \<Rightarrow> bool" where
  "phrase_of c e p q b \<longleftrightarrow> (\<exists>ts. reads p ts q \<and> derives c e ts (ps_params p) (ps_params q) b)"

definition free_at :: "bool \<Rightarrow> parser \<Rightarrow> bool" where
  "free_at b q \<longleftrightarrow> (b \<longrightarrow> tk_text (Peek q) \<noteq> '')'')"

text \<open>What a method has read when it gives \<open>e\<close>; a loop has gone on from a phrase that began at \<open>s\<close>.\<close>

fun sound :: "nonterm \<Rightarrow> parser \<Rightarrow> expr \<Rightarrow> parser \<Rightarrow> bool" where
  "sound NOr p e q \<longleftrightarrow> (\<exists>b. phrase_of GOr e p q b \<and> free_at b q \<and> \<not> ps_closed q)"
| "sound (NOrLoop l) p e q \<longleftrightarrow> (\<forall>s b a. l = Some a \<longrightarrow> phrase_of GOr a s p b \<longrightarrow> free_at b p \<longrightarrow>
     (\<exists>c. phrase_of GOr e s q c \<and> free_at c q \<and> \<not> ps_closed q))"
| "sound NAnd p e q \<longleftrightarrow> (\<exists>b. phrase_of GAnd e p q b \<and> free_at b q)"
| "sound (NAndLoop l) p e q \<longleftrightarrow> (\<forall>s b a. l = Some a \<longrightarrow> phrase_of GAnd a s p b \<longrightarrow> free_at b p \<longrightarrow>
     (\<exists>c. phrase_of GAnd e s q c \<and> free_at c q))"
| "sound NCompare p e q \<longleftrightarrow> (\<exists>b. phrase_of GCompare e p q b \<and> free_at b q)"
| "sound NLike p e q \<longleftrightarrow> phrase_of GLike e p q False \<and> tk_text (Peek q) \<notin> {''*'', ''/'', ''%'', ''+'', ''-''}"
| "sound NAdd p e q \<longleftrightarrow> phrase_of GAdd e p q False \<and> tk_text (Peek q) \<notin> {''*'', ''/'', ''%'', ''+'', ''-''}"
| "sound (NAddLoop l) p e q \<longleftrightarrow> (\<forall>s a. l = Some a \<longrightarrow> phrase_of GAdd a s p False \<longrightarrow> tk_text (Peek p) \<notin> {''*'', ''/'', ''%''} \<longrightarrow>
     phrase_of GAdd e s q False \<and> tk_text (Peek q) \<notin> {''*'', ''/'', ''%'', ''+'', ''-''})"
| "sound NMul p e q \<longleftrightarrow> phrase_of GMul e p q False \<and> tk_text (Peek q) \<notin> {''*'', ''/'', ''%''}"
| "sound (NMulLoop l) p e q \<longleftrightarrow> (\<forall>s a. l = Some a \<longrightarrow> phrase_of GMul a s p False \<longrightarrow>
     phrase_of GMul e s q False \<and> tk_text (Peek q) \<notin> {''*'', ''/'', ''%''})"
| "sound NUnary p e q \<longleftrightarrow> phrase_of GUnary e p q False"
| "sound NPrimary p e q \<longleftrightarrow> (tk_text (Peek p) \<notin> {''not'', ''-'', ''+''} \<longrightarrow> phrase_of GPrimary e p q False)"
| "sound (NInLoop args) p e q \<longleftrightarrow> (\<not> ps_closed p \<longrightarrow>
     (\<exists>es ts b. reads p ts q \<and> in_list es ts (ps_params p) (ps_params q) b \<and> e = function_expr ''in'' (args @ map Some es) \<and>
        free_at b q)) \<and>
     (ps_closed p \<longrightarrow> e = function_expr ''in'' args \<and>
        (\<exists>ts. step_to p ts q \<and> (ts = [] \<and> free_at True q \<or> (\<exists>t. ts = [t] \<and> tok '')'' t))))"
| "sound (NArgLoop n args) p e q \<longleftrightarrow>
     (\<exists>es ts. reads p ts q \<and> arguments es ts (ps_params p) (ps_params q) \<and> e = function_expr n (args @ map Some es))"

definition sound_fun :: "parse_fun \<Rightarrow> bool" where
  "sound_fun f \<longleftrightarrow> (\<forall>x p e q. f x p = Some (e, q) \<longrightarrow> good p \<longrightarrow> (ps_status p = None \<longrightarrow> list_all arg_complete (built x)) \<longrightarrow>
     after p q \<and> (ps_status q = None \<longrightarrow> arg_complete e \<and> (\<exists>a. e = Some a \<and> sound x p a q)))"

lemma total_some:
  assumes "parse n x p = Some (e, q)" "parser_ok p" "ps_status p = None \<longrightarrow> list_all arg_complete (built x)"
  shows "after p q \<and> (ps_status q = None \<longrightarrow> arg_complete e)"
proof -
  let ?m = "max n (16 * remaining p + level x)"
  have "enough ?m x p" using assms(2,3) by (simp add: enough_def)
  then have "parses (parse ?m x p) p" using total_parse by (simp add: total_at_def)
  moreover have "parse ?m x p = Some (e, q)" using assms(1) by (rule parse_more) simp
  ultimately show ?thesis by (simp add: parses_def)
qed

lemma call_sound:
  assumes "sound_fun f" "f y r = Some (a, s)" "good r" "ps_status r = None \<Longrightarrow> list_all arg_complete (built y)"
  shows "after r s" "good s" "ps_status s = None \<Longrightarrow> ps_status r = None"
    and "ps_status s = None \<Longrightarrow> \<exists>b. a = Some b \<and> arg_complete a \<and> sound y r b s"
proof -
  have *: "after r s \<and> (ps_status s = None \<longrightarrow> arg_complete a \<and> (\<exists>b. a = Some b \<and> sound y r b s))"
    using assms(1) [unfolded sound_fun_def, rule_format, OF assms(2,3)] assms(4) by blast
  then show a: "after r s" ..
  show "good s" by (rule good_after [OF assms(3) a])
  show "ps_status s = None \<Longrightarrow> ps_status r = None" by (rule after_status [OF a])
  show "ps_status s = None \<Longrightarrow> \<exists>b. a = Some b \<and> arg_complete a \<and> sound y r b s" using * by blast
qed

lemma join_phrase:
  assumes "phrase_of c l s p b" "step_to p [t] q" "phrase_of d r q u b'"
    and "\<And>ts us i j k. derives c l ts i j b \<Longrightarrow> derives d r us j k b' \<Longrightarrow> derives g e (ts @ t # us) i k b''"
  shows "phrase_of g e s u b''"
proof -
  obtain ts where ts: "reads s ts p" "derives c l ts (ps_params s) (ps_params p) b" using assms(1) by (auto simp: phrase_of_def)
  obtain us where us: "reads q us u" "derives d r us (ps_params p) (ps_params u) b'"
    using assms(2,3) by (auto simp: phrase_of_def step_to_def)
  have "reads p [t] q" using assms(2) by (simp add: step_to_def)
  from reads_trans [OF reads_trans [OF ts(1) this] us(1)] have "reads s ((ts @ [t]) @ us) u" .
  then have "reads s (ts @ t # us) u" by simp
  then show ?thesis using assms(4) [OF ts(2) us(2)] unfolding phrase_of_def by blast
qed

lemma phrase_step: "phrase_of c e s p b \<Longrightarrow> step_to p [] q \<Longrightarrow> phrase_of c e s q b"
  unfolding phrase_of_def step_to_def using reads_trans by fastforce

lemma step_phrase: "step_to p [] q \<Longrightarrow> phrase_of c e q r b \<Longrightarrow> phrase_of c e p r b"
  unfolding phrase_of_def step_to_def using reads_trans by fastforce

lemma phrase_up: "phrase_of c e p q b \<Longrightarrow> (\<And>ts i j. derives c e ts i j b \<Longrightarrow> derives d e ts i j b) \<Longrightarrow> phrase_of d e p q b"
  unfolding phrase_of_def by blast

subsection \<open>The methods\<close>

text \<open>A method that calls another and goes on in a loop.\<close>

lemma chain_sound:
  assumes f: "sound_fun f" and p: "good p" and eq: "(do { (left, p1) \<leftarrow> f y p; f (z left) p1 }) = Some (Some e, q)"
    and q: "ps_status q = None" and y: "built y = []" and z: "\<And>a. built (z a) = [a]"
  obtains l r where "sound y p l r" "sound (z (Some l)) r e q" "good r"
proof -
  obtain a r where 1: "f y p = Some (a, r)" and 2: "f (z a) r = Some (Some e, q)"
    using eq by (auto simp: bind_eq_Some_conv)
  have r: "after p r" "good r" "ps_status r = None \<Longrightarrow> \<exists>b. a = Some b \<and> arg_complete a \<and> sound y p b r"
    using call_sound [OF f 1 p] y by auto
  have "ps_status r = None \<Longrightarrow> list_all arg_complete (built (z a))" using r(3) z by auto
  note s = call_sound [OF f 2 r(2) this]
  then show ?thesis using that r(2,3) q by blast
qed

lemma sound_ParseOr:
  assumes "sound_fun f" "good p" "ParseOr f p = Some (Some e, q)" "ps_status q = None"
  shows "sound NOr p e q"
proof -
  obtain l r where "sound NAnd p l r" "sound (NOrLoop (Some l)) r e q"
    by (rule chain_sound [OF assms(1,2) assms(3) [unfolded ParseOr_def] assms(4)]) simp_all
  moreover have "phrase_of GOr l p r b" if "phrase_of GAnd l p r b" for b using that by (rule phrase_up) (rule disjunct)
  ultimately show ?thesis by fastforce
qed

lemma sound_ParseAnd:
  assumes "sound_fun f" "good p" "ParseAnd f p = Some (Some e, q)" "ps_status q = None"
  shows "sound NAnd p e q"
proof -
  obtain l r where "sound NCompare p l r" "sound (NAndLoop (Some l)) r e q"
    by (rule chain_sound [OF assms(1,2) assms(3) [unfolded ParseAnd_def] assms(4)]) simp_all
  moreover have "phrase_of GAnd l p r b" if "phrase_of GCompare l p r b" for b using that by (rule phrase_up) (rule conjunct)
  ultimately show ?thesis by fastforce
qed

lemma sound_ParseAdd:
  assumes "sound_fun f" "good p" "ParseAdd f p = Some (Some e, q)" "ps_status q = None"
  shows "sound NAdd p e q"
proof -
  obtain l r where "sound NMul p l r" "sound (NAddLoop (Some l)) r e q"
    by (rule chain_sound [OF assms(1,2) assms(3) [unfolded ParseAdd_def] assms(4)]) simp_all
  then show ?thesis using phrase_up [of GMul l p r False GAdd] summand by auto
qed

lemma sound_ParseMul:
  assumes "sound_fun f" "good p" "ParseMul f p = Some (Some e, q)" "ps_status q = None"
  shows "sound NMul p e q"
proof -
  obtain l r where "sound NUnary p l r" "sound (NMulLoop (Some l)) r e q"
    by (rule chain_sound [OF assms(1,2) assms(3) [unfolded ParseMul_def] assms(4)]) simp_all
  then show ?thesis using phrase_up [of GUnary l p r False GMul] factor by auto
qed

text \<open>An operand and the rest of the loop.\<close>

lemma operand_sound:
  assumes f: "sound_fun f" and p: "good p" and eq: "(do { (right, p2) \<leftarrow> f y p; f (z (Some (Binary op (Some l) right))) p2 }) = Some (Some e, q)"
    and q: "ps_status q = None" and l: "ps_status p = None \<Longrightarrow> arg_complete (Some l)" and y: "built y = []" and z: "\<And>a. built (z a) = [a]"
  obtains r s where "sound y p r s" "sound (z (Some (Binary op (Some l) (Some r)))) s e q"
proof -
  obtain a r where 1: "f y p = Some (a, r)" and 2: "f (z (Some (Binary op (Some l) a))) r = Some (Some e, q)"
    using eq by (auto simp: bind_eq_Some_conv)
  have r: "good r" "ps_status r = None \<Longrightarrow> ps_status p = None \<and> (\<exists>b. a = Some b \<and> arg_complete a \<and> sound y p b r)"
    using call_sound [OF f 1 p] y by auto
  have "ps_status r = None \<Longrightarrow> list_all arg_complete (built (z (Some (Binary op (Some l) a))))" using r(2) l z by auto
  note s = call_sound [OF f 2 r(1) this]
  then show ?thesis using that r(2) q by blast
qed

lemma sound_OrLoop:
  assumes f: "sound_fun f" and p: "good p" and eq: "OrLoop f l p = Some (Some e, q)" and q: "ps_status q = None"
    and l: "ps_status p = None \<Longrightarrow> arg_complete l"
  shows "sound (NOrLoop l) p e q"
  unfolding sound.simps
proof (intro allI impI)
  fix s b a assume a: "l = Some a" "phrase_of GOr a s p b" "free_at b p"
  obtain c p1 where acc: "Accept ''or'' p = (c, p1)" by fastforce
  show "\<exists>c. phrase_of GOr e s q c \<and> free_at c q \<and> \<not> ps_closed q"
  proof (cases c)
    case False
    then have "e = a" "q = p1" using eq a(1) acc by (simp_all add: OrLoop_def)
    moreover have k: "step_to p [] p1" "Peek p1 = Peek p" "\<not> ps_closed p1"
      using Accept_stays [OF p, of "''or''" p1] acc False by simp_all
    moreover have "phrase_of GOr a s p1 b" by (rule phrase_step [OF a(2) k(1)])
    ultimately show ?thesis using a(3) unfolding free_at_def by metis
  next
    case True
    then obtain t where t: "tk_text t = ''or''" "token_shape t" "step_to p [t] p1"
      using Accept_step [OF p, of "''or''" p1] acc by auto
    have eq1: "(do { (right, p2) \<leftarrow> f NAnd p1; f (NOrLoop (Some (Binary ''or'' (Some a) right))) p2 }) = Some (Some e, q)"
      using eq a(1) acc True by (simp add: OrLoop_def)
    have p1: "good p1" "ps_status p1 = None \<Longrightarrow> arg_complete (Some a)" using t(3) l a(1) by (simp_all add: step_to_def)
    obtain r u where r: "sound NAnd p1 r u" "sound (NOrLoop (Some (Binary ''or'' (Some a) (Some r)))) u e q"
      by (rule operand_sound [OF f p1(1) eq1 q p1(2)]) simp_all
    obtain d where d: "phrase_of GAnd r p1 u d" "free_at d u" using r(1) by auto
    have "phrase_of GOr (Binary ''or'' (Some a) (Some r)) s u d"
      by (rule join_phrase [OF a(2) t(3) d(1)]) (use t token_shape_tok in \<open>auto intro: disj\<close>)
    then show ?thesis using r(2) d(2) by simp
  qed
qed

lemma sound_AndLoop:
  assumes f: "sound_fun f" and p: "good p" and eq: "AndLoop f l p = Some (Some e, q)" and q: "ps_status q = None"
    and l: "ps_status p = None \<Longrightarrow> arg_complete l"
  shows "sound (NAndLoop l) p e q"
  unfolding sound.simps
proof (intro allI impI)
  fix s b a assume a: "l = Some a" "phrase_of GAnd a s p b" "free_at b p"
  obtain c p1 where acc: "Accept ''and'' p = (c, p1)" by fastforce
  show "\<exists>c. phrase_of GAnd e s q c \<and> free_at c q"
  proof (cases c)
    case False
    then have "e = a" "q = p1" using eq a(1) acc by (simp_all add: AndLoop_def)
    moreover have k: "step_to p [] p1" "Peek p1 = Peek p" "\<not> ps_closed p1"
      using Accept_stays [OF p, of "''and''" p1] acc False by simp_all
    moreover have "phrase_of GAnd a s p1 b" by (rule phrase_step [OF a(2) k(1)])
    ultimately show ?thesis using a(3) unfolding free_at_def by metis
  next
    case True
    then obtain t where t: "tk_text t = ''and''" "token_shape t" "step_to p [t] p1"
      using Accept_step [OF p, of "''and''" p1] acc by auto
    have eq1: "(do { (right, p2) \<leftarrow> f NCompare p1; f (NAndLoop (Some (Binary ''and'' (Some a) right))) p2 }) = Some (Some e, q)"
      using eq a(1) acc True by (simp add: AndLoop_def)
    have p1: "good p1" "ps_status p1 = None \<Longrightarrow> arg_complete (Some a)" using t(3) l a(1) by (simp_all add: step_to_def)
    obtain r u where r: "sound NCompare p1 r u" "sound (NAndLoop (Some (Binary ''and'' (Some a) (Some r)))) u e q"
      by (rule operand_sound [OF f p1(1) eq1 q p1(2)]) simp_all
    obtain d where d: "phrase_of GCompare r p1 u d" "free_at d u" using r(1) by auto
    have "phrase_of GAnd (Binary ''and'' (Some a) (Some r)) s u d"
      by (rule join_phrase [OF a(2) t(3) d(1)]) (use t token_shape_tok in \<open>auto intro: conj\<close>)
    then show ?thesis using r(2) d(2) by simp
  qed
qed

lemma sound_AddLoop:
  assumes f: "sound_fun f" and p: "good p" and eq: "AddLoop f l p = Some (Some e, q)" and q: "ps_status q = None"
    and l: "ps_status p = None \<Longrightarrow> arg_complete l"
  shows "sound (NAddLoop l) p e q"
  unfolding sound.simps
proof (intro allI impI)
  fix s a assume a: "l = Some a" "phrase_of GAdd a s p False" "tk_text (Peek p) \<notin> {''*'', ''/'', ''%''}"
  show "phrase_of GAdd e s q False \<and> tk_text (Peek q) \<notin> {''*'', ''/'', ''%'', ''+'', ''-''}"
  proof (cases "tk_text (Peek p) \<in> {''+'', ''-''}")
    case False
    then show ?thesis using eq a by (auto simp: AddLoop_def Let_def)
  next
    case True
    let ?op = "tk_text (Peek p)" and ?p1 = "advance_token p"
    have t: "step_to p [Peek p] ?p1" by (rule advance_step [OF p]) (use True in auto)
    have eq1: "(do { (right, p2) \<leftarrow> f NMul ?p1; f (NAddLoop (Some (Binary ?op (Some a) right))) p2 }) = Some (Some e, q)"
      using eq a(1) True by (simp add: AddLoop_def Let_def)
    have p1: "good ?p1" "ps_status ?p1 = None \<Longrightarrow> arg_complete (Some a)" using t l a(1) by (simp_all add: step_to_def)
    obtain r u where r: "sound NMul ?p1 r u" "sound (NAddLoop (Some (Binary ?op (Some a) (Some r)))) u e q"
      by (rule operand_sound [OF f p1(1) eq1 q p1(2)]) simp_all
    have d: "phrase_of GMul r ?p1 u False" using r(1) by simp
    have "phrase_of GAdd (Binary ?op (Some a) (Some r)) s u False"
      by (rule join_phrase [OF a(2) t d]) (rule add [OF _ True])
    then show ?thesis using r by simp
  qed
qed

lemma sound_MulLoop:
  assumes f: "sound_fun f" and p: "good p" and eq: "MulLoop f l p = Some (Some e, q)" and q: "ps_status q = None"
    and l: "ps_status p = None \<Longrightarrow> arg_complete l"
  shows "sound (NMulLoop l) p e q"
  unfolding sound.simps
proof (intro allI impI)
  fix s a assume a: "l = Some a" "phrase_of GMul a s p False"
  show "phrase_of GMul e s q False \<and> tk_text (Peek q) \<notin> {''*'', ''/'', ''%''}"
  proof (cases "tk_text (Peek p) \<in> {''*'', ''/'', ''%''}")
    case False
    then show ?thesis using eq a by (auto simp: MulLoop_def Let_def)
  next
    case True
    let ?op = "tk_text (Peek p)" and ?p1 = "advance_token p"
    have t: "step_to p [Peek p] ?p1" by (rule advance_step [OF p]) (use True in auto)
    have eq1: "(do { (right, p2) \<leftarrow> f NUnary ?p1; f (NMulLoop (Some (Binary ?op (Some a) right))) p2 }) = Some (Some e, q)"
      using eq a(1) True by (simp add: MulLoop_def Let_def)
    have p1: "good ?p1" "ps_status ?p1 = None \<Longrightarrow> arg_complete (Some a)" using t l a(1) by (simp_all add: step_to_def)
    obtain r u where r: "sound NUnary ?p1 r u" "sound (NMulLoop (Some (Binary ?op (Some a) (Some r)))) u e q"
      by (rule operand_sound [OF f p1(1) eq1 q p1(2)]) simp_all
    have d: "phrase_of GUnary r ?p1 u False" using r(1) by simp
    have "phrase_of GMul (Binary ?op (Some a) (Some r)) s u False"
      by (rule join_phrase [OF a(2) t d]) (rule multiply [OF _ True])
    then show ?thesis using r by simp
  qed
qed

text \<open>A call without a loop behind it.\<close>

lemma call_ok:
  assumes f: "sound_fun f" and r: "good r" and c: "f y r = Some (a, s)" and s: "ps_status s = None" and y: "built y = []"
  obtains b where "a = Some b" "sound y r b s" "good s" "ps_status r = None"
  using call_sound [OF f c r] s y by auto

lemma sound_ParseLike:
  assumes f: "sound_fun f" and p: "good p" and eq: "ParseLike f p = Some (Some e, q)" and q: "ps_status q = None"
  shows "sound NLike p e q"
proof -
  obtain a p1 where a: "f NAdd p = Some (a, p1)"
    "(if a = None then Some (None, p1) else case Accept ''like'' p1 of (False, p2) \<Rightarrow> Some (a, p2)
      | (True, p2) \<Rightarrow> do { (right, p3) \<leftarrow> f NAdd p2; Some (Some (Binary ''like'' a right), p3) }) = Some (Some e, q)"
    using eq by (auto simp: ParseLike_def bind_eq_Some_conv)
  have g: "good p1" using call_sound(2) [OF f a(1) p] by simp
  obtain c p2 where acc: "Accept ''like'' p1 = (c, p2)" by fastforce
  show ?thesis
  proof (cases c)
    case False
    then have e: "a = Some e" "q = p2" using a(2) acc by (auto split: if_splits)
    have k: "step_to p1 [] p2" "Peek p2 = Peek p1" using Accept_stays [OF g] acc False by simp_all
    then have "ps_status p1 = None" using q e by (simp add: step_to_def)
    then obtain b where "a = Some b" "sound NAdd p b p1" using call_ok [OF f p a(1)] by auto
    then have s: "phrase_of GAdd e p p1 False" "tk_text (Peek p1) \<notin> {''*'', ''/'', ''%'', ''+'', ''-''}" using e by simp_all
    have "phrase_of GLike e p p1 False" by (rule phrase_up [OF s(1)]) (rule sum)
    then show ?thesis using s(2) k e(2) phrase_step by auto
  next
    case True
    then obtain t where t: "tk_text t = ''like''" "token_shape t" "step_to p1 [t] p2"
      using Accept_step [OF g, of "''like''" p2] acc by auto
    obtain x where x: "f NAdd p2 = Some (x, q)" "Some e = Some (Binary ''like'' a x)"
      using a(2) acc True by (auto simp: bind_eq_Some_conv split: if_splits)
    have g2: "good p2" using t(3) by (simp add: step_to_def)
    obtain r where r: "x = Some r" "sound NAdd p2 r q" "ps_status p2 = None" using call_ok [OF f g2 x(1) q] by auto
    then have "ps_status p1 = None" using t(3) by (simp add: step_to_def)
    then obtain b where b: "a = Some b" "sound NAdd p b p1" using call_ok [OF f p a(1)] by auto
    have d: "phrase_of GAdd b p p1 False" "phrase_of GAdd r p2 q False" using b(2) r(2) by simp_all
    have "phrase_of GLike (Binary ''like'' (Some b) (Some r)) p q False"
      by (rule join_phrase [OF d(1) t(3) d(2)]) (use t token_shape_tok in \<open>auto intro: like\<close>)
    then show ?thesis using x(2) b(1) r(1,2) by simp
  qed
qed

text \<open>Two tokens, or three, behind a phrase.\<close>

lemma phrase_reads:
  assumes "phrase_of c e p q b" "reads q ts r" "ps_params r = ps_params q"
    and "\<And>us i j. derives c e us i j b \<Longrightarrow> derives d x (us @ ts) i j b'"
  shows "phrase_of d x p r b'"
proof -
  obtain us where us: "reads p us q" "derives c e us (ps_params p) (ps_params q) b" using assms(1) by (auto simp: phrase_of_def)
  from assms(4) [OF us(2)] reads_trans [OF us(1) assms(2)] assms(3) show ?thesis unfolding phrase_of_def by auto
qed

lemma step_toD: "step_to p ts q \<Longrightarrow> reads p ts q" "step_to p ts q \<Longrightarrow> ps_params q = ps_params p" "step_to p ts q \<Longrightarrow> good q"
  "step_to p ts q \<Longrightarrow> ps_status q = ps_status p"
  by (simp_all add: step_to_def)

lemma step_to_trans: "step_to p ts q \<Longrightarrow> step_to q us r \<Longrightarrow> step_to p (ts @ us) r"
  unfolding step_to_def using reads_trans [of p ts q us r] by auto

lemma Accept_good:
  assumes "good p" "Accept s p = (c, q)" "s \<noteq> []" "s \<noteq> '')''"
  shows "good q" "ps_status q = ps_status p"
proof -
  have "\<exists>ts. step_to p ts q"
  proof (cases c)
    case True
    then show ?thesis using Accept_step [OF assms(1), of s q] assms(2-4) by metis
  next
    case False
    then show ?thesis using Accept_stays(1) [OF assms(1), of s q] assms(2) by auto
  qed
  then show "good q" "ps_status q = ps_status p" by (auto simp: step_to_def)
qed

lemma Expect_good:
  assumes "good p" "Expect s p = (True, q)" "s \<noteq> []" "s \<noteq> '')'' \<or> \<not> ps_closed p"
  shows "good q" "ps_status q = ps_status p"
  using Expect_step [OF assms] step_toD by metis+

lemma compare_rest_status:
  assumes f: "sound_fun f" and g: "good p" and eq: "compare_rest f l op p = Some (Some e, q)" and q: "ps_status q = None"
    and l: "ps_status p = None \<Longrightarrow> arg_complete l"
  shows "ps_status p = None"
proof -
  consider (null) "op = ''is''" | (list) "op = ''in''" | (other) "op \<noteq> ''is''" "op \<noteq> ''in''" by blast
  then show ?thesis
  proof cases
    case null
    obtain neg p3 where n: "Accept ''not'' p = (neg, p3)" by fastforce
    have x: "Expect ''null'' p3 = (True, q)"
      using eq null n by (auto simp: compare_rest_def split: prod.splits bool.splits)
    note g3 = Accept_good [OF g n]
    have "ps_status q = ps_status p3" by (rule Expect_good [OF g3(1) x]) simp_all
    then show ?thesis using g3(2) q by simp
  next
    case list
    then obtain p3 where p3: "Expect ''('' p = (True, p3)" "f (NInLoop [l]) p3 = Some (Some e, q)"
      using eq by (auto simp: compare_rest_def split: prod.splits bool.splits)
    have g3: "good p3" "ps_status p3 = ps_status p" by (rule Expect_good [OF g p3(1)]; simp)+
    have "ps_status p3 = None" by (rule call_sound(3) [OF f p3(2) g3(1)]) (use l g3(2) q in auto)
    then show ?thesis using g3(2) by simp
  next
    case other
    then obtain x where "f NAdd p = Some (x, q)"
      using eq by (auto simp: compare_rest_def bind_eq_Some_conv)
    from call_sound(3) [OF f this g] q show ?thesis by simp
  qed
qed

lemma sound_is:
  assumes s: "phrase_of GLike l p p1 False" and t: "step_to p1 [t] p2" "tok ''is'' t"
    and n: "Accept ''not'' p2 = (neg, p3)" and x: "Expect ''null'' p3 = (True, q)"
  shows "phrase_of GCompare (is_null_expr neg (Some l)) p q False"
proof -
  note g2 = step_toD [OF t(1)]
  obtain ns where ns: "step_to p2 ns p3" "ns = [] \<and> \<not> neg \<or> (\<exists>m. ns = [m] \<and> tok ''not'' m \<and> neg)"
  proof (cases neg)
    case True
    then have n': "Accept ''not'' p2 = (True, p3)" using n by simp
    obtain m where m: "tk_text m = ''not''" "token_shape m" "step_to p2 [m] p3"
      by (rule Accept_step [OF g2(3) n']) simp_all
    have "tok ''not'' m" by (rule token_tok [OF m(2,1)]) simp
    then show ?thesis using that m(3) True by blast
  next
    case False
    then have n': "Accept ''not'' p2 = (False, p3)" using n by simp
    then show ?thesis using False that [of "[]"] Accept_stays(1) [OF g2(3) n'] by blast
  qed
  obtain u where u: "tk_text u = ''null''" "token_shape u" "step_to p3 [u] q"
    by (rule Expect_step [OF step_toD(3) [OF ns(1)] x]) simp_all
  have tu: "tok ''null'' u" by (rule token_tok [OF u(2,1)]) simp
  have "step_to p1 ([t] @ ns @ [u]) q" by (rule step_to_trans [OF t(1) step_to_trans [OF ns(1) u(3)]])
  note r = step_toD(1,2) [OF this]
  show ?thesis
  proof (cases neg)
    case True
    then obtain m where m: "ns = [m]" "tok ''not'' m" using ns(2) by blast
    show ?thesis
      by (rule phrase_reads [OF s r]) (use is_not_null [OF _ t(2) m(2) tu] m(1) True in simp)
  next
    case False
    then have "ns = []" using ns(2) by blast
    then show ?thesis
      by (intro phrase_reads [OF s r]) (use is_null [OF _ t(2) tu] False in simp)
  qed
qed

lemma sound_in:
  assumes s: "phrase_of GLike l p p1 False" and t: "step_to p1 [t] p2" "tok ''in'' t"
    and u: "step_to p2 [u] p3" "tok ''('' u" "\<not> ps_closed p3" and i: "sound (NInLoop [Some l]) p3 e q"
  shows "sound NCompare p e q"
proof -
  obtain es ts b where es: "reads p3 ts q" "in_list es ts (ps_params p3) (ps_params q) b"
    "e = function_expr ''in'' (map Some (l # es))" "free_at b q"
    using i u(3) by auto
  obtain us where us: "reads p us p1" "derives GLike l us (ps_params p) (ps_params p1) False" using s by (auto simp: phrase_of_def)
  have tu: "reads p1 [t] p2" "reads p2 [u] p3" "ps_params p3 = ps_params p1" using t(1) u(1) by (simp_all add: step_to_def)
  have "reads p (us @ t # u # ts) q"
    using reads_trans [OF reads_trans [OF reads_trans [OF us(1) tu(1)] tu(2)] es(1)] by simp
  moreover have "derives GCompare e (us @ t # u # ts) (ps_params p) (ps_params q) b"
    unfolding es(3) by (rule in_op [OF us(2) t(2) u(2)]) (use es(2) tu(3) in simp)
  ultimately have "phrase_of GCompare e p q b" unfolding phrase_of_def by blast
  then show ?thesis using es(4) by auto
qed

lemma sound_compare_rest:
  assumes f: "sound_fun f" and s: "phrase_of GLike l p p1 False" and t: "step_to p1 [t] p2" "token_shape t"
    and t_op: "tk_kind t = KOperator \<or> tk_text t = ''is'' \<or> tk_text t = ''in''"
    and nx: "tk_text t \<notin> {''*'', ''/'', ''%'', ''+'', ''-''}"
    and eq: "compare_rest f (Some l) (tk_text t) p2 = Some (Some e, q)" and q: "ps_status q = None"
    and l: "ps_status p2 = None \<Longrightarrow> arg_complete (Some l)"
  shows "sound NCompare p e q"
proof -
  have g2: "good p2" using t(1) by (simp add: step_to_def)
  consider (null) "tk_text t = ''is''" | (list) "tk_text t = ''in''" | (other) "tk_text t \<noteq> ''is''" "tk_text t \<noteq> ''in''" by blast
  then show ?thesis
  proof cases
    case null
    obtain neg p3 where n: "Accept ''not'' p2 = (neg, p3)" by fastforce
    have x: "Expect ''null'' p3 = (True, q)" "e = is_null_expr neg (Some l)"
      using eq null n by (auto simp: compare_rest_def split: prod.splits bool.splits)
    have "tok ''is'' t" by (rule token_tok [OF t(2) null]) simp
    from sound_is [OF s t(1) this n x(1)] show ?thesis using x(2) by (auto simp: free_at_def)
  next
    case list
    obtain p3 where p3: "Expect ''('' p2 = (True, p3)" "f (NInLoop [Some l]) p3 = Some (Some e, q)"
      using eq list by (auto simp: compare_rest_def split: prod.splits bool.splits)
    obtain u where u: "tk_text u = ''(''" "token_shape u" "step_to p2 [u] p3" "\<not> ps_closed p3"
      using Expect_step [OF g2 p3(1)] by auto
    have g3: "good p3" "ps_status p3 = ps_status p2" using u(3) by (simp_all add: step_to_def)
    have i: "sound (NInLoop [Some l]) p3 e q" using call_sound(4) [OF f p3(2) g3(1)] l g3(2) q by auto
    have "tok ''in'' t" "tok ''('' u" by (rule token_tok [OF t(2) list], simp) (rule token_tok [OF u(2,1)], simp)
    from sound_in [OF s t(1) this(1) u(3) this(2) u(4) i] show ?thesis .
  next
    case other
    then obtain x where x: "f NAdd p2 = Some (x, q)" "e = Binary (tk_text t) (Some l) x"
      using eq by (auto simp: compare_rest_def bind_eq_Some_conv)
    obtain r where r: "x = Some r" "sound NAdd p2 r q" using call_ok [OF f g2 x(1) q] by auto
    have d: "phrase_of GAdd r p2 q False" using r(2) by simp
    have c: "compare_op t" using other t_op t(2) nx token_shape_op by blast
    have "phrase_of GCompare (Binary (tk_text t) (Some l) (Some r)) p q False"
      by (rule join_phrase [OF s t(1) d]) (rule comparison [OF _ c])
    then show ?thesis using x(2) r(1) by (auto simp: free_at_def)
  qed
qed

lemma sound_ParseCompare:
  assumes f: "sound_fun f" and p: "good p" and eq: "ParseCompare f p = Some (Some e, q)" and q: "ps_status q = None"
  shows "sound NCompare p e q"
proof -
  obtain a p1 where a: "f NLike p = Some (a, p1)" "a \<noteq> None"
    "(let t = Peek p1 in if tk_kind t = KOperator \<or> tk_text t = ''is'' \<or> tk_text t = ''in''
      then compare_rest f a (tk_text t) (advance_token p1) else Some (a, p1)) = Some (Some e, q)"
    using eq by (auto simp: ParseCompare_def bind_eq_Some_conv split: if_splits)
  note A = call_sound [OF f a(1) p, simplified]
  show ?thesis
  proof (cases "tk_kind (Peek p1) = KOperator \<or> tk_text (Peek p1) = ''is'' \<or> tk_text (Peek p1) = ''in''")
    case True
    obtain t us where t: "Peek p1 = t" "token_shape t" by (rule good_rest [OF A(2)])
    have s: "step_to p1 [t] (advance_token p1)" using advance_step [OF A(2)] True t(1) by auto
    obtain l where l: "a = Some l" using a(2) by blast
    have eq1: "compare_rest f (Some l) (tk_text t) (advance_token p1) = Some (Some e, q)" using a(3) True l t(1) by (simp add: Let_def)
    have g1: "good (advance_token p1)" "ps_status (advance_token p1) = ps_status p1" using s by (simp_all add: step_to_def)
    have "ps_status p1 = None" using compare_rest_status [OF f g1(1) eq1 q] A(4) l g1(2) by auto
    then have n: "arg_complete a" "phrase_of GLike l p p1 False" "tk_text t \<notin> {''*'', ''/'', ''%'', ''+'', ''-''}"
      using A(4) l t(1) by auto
    show ?thesis
      by (rule sound_compare_rest [OF f n(2) s t(2) _ n(3) eq1 q]) (use True t(1) n(1) l in auto)
  next
    case False
    then have e: "a = Some e" "q = p1" using a(3) by (simp_all add: Let_def)
    then have "phrase_of GLike e p q False" using A(4) q by auto
    then have "phrase_of GCompare e p q False" by (rule phrase_up) (rule comparand)
    then show ?thesis by (auto simp: free_at_def)
  qed
qed

lemma accept_unary_step:
  assumes "good p" "accept_unary p = (True, q)"
  obtains t where "tk_text t \<in> {''not'', ''-'', ''+''}" "step_to p [t] q" "ps_tokens q ! (ps_index q - 1) = t"
proof -
  let ?p = "p\<lparr>ps_closed := False\<rparr>"
  have "tk_text (Peek p) \<in> {''not'', ''-'', ''+''}" "q = advance_token ?p"
    using assms(2) by (auto simp: accept_unary_def Accept_def Let_def split: if_splits)
  moreover have "step_to ?p [Peek p] (advance_token ?p)"
    using advance_step [of ?p] assms(1) calculation(1) by auto
  moreover have "ps_tokens q ! (ps_index q - 1) = Peek p"
    using calculation(2) by (simp add: advance_token_def Peek_def)
  ultimately show ?thesis using that [of "Peek p"] by (simp add: step_to_def)
qed

lemma accept_unary_stays:
  "good p \<Longrightarrow> accept_unary p = (False, q) \<Longrightarrow> step_to p [] q \<and> tk_text (Peek q) \<notin> {''not'', ''-'', ''+''} \<and> \<not> ps_closed q"
  by (auto simp: accept_unary_def Accept_def Let_def step_to_def split: if_splits)

lemma sound_ParseUnary:
  assumes f: "sound_fun f" and p: "good p" and eq: "ParseUnary f p = Some (Some e, q)" and q: "ps_status q = None"
  shows "sound NUnary p e q"
proof -
  obtain c p1 where u: "accept_unary p = (c, p1)" by fastforce
  show ?thesis
  proof (cases c)
    case True
    then have u': "accept_unary p = (True, p1)" using u by simp
    obtain t where t: "tk_text t \<in> {''not'', ''-'', ''+''}" "step_to p [t] p1" "ps_tokens p1 ! (ps_index p1 - 1) = t"
      by (rule accept_unary_step [OF p u'])
    obtain x where x: "f NUnary p1 = Some (x, q)" "e = unary_expr (tk_text t) x"
      using eq u True t(3) by (auto simp: ParseUnary_def bind_eq_Some_conv)
    obtain r where r: "x = Some r" "sound NUnary p1 r q" using call_ok [OF f step_toD(3) [OF t(2)] x(1) q] by auto
    obtain ts where ts: "reads p1 ts q" "derives GUnary r ts (ps_params p1) (ps_params q) False"
      using r(2) by (auto simp: phrase_of_def)
    have "reads p ([t] @ ts) q" by (rule reads_trans [OF step_toD(1) [OF t(2)] ts(1)])
    moreover have "derives GUnary e (t # ts) (ps_params p) (ps_params q) False"
      using unary [OF t(1) ts(2)] x(2) r(1) step_toD(2) [OF t(2)] by simp
    ultimately show ?thesis unfolding sound.simps phrase_of_def by auto
  next
    case False
    then have k: "step_to p [] p1" "tk_text (Peek p1) \<notin> {''not'', ''-'', ''+''}" using accept_unary_stays [OF p, of p1] u by auto
    have eq1: "f NPrimary p1 = Some (Some e, q)" using eq u False by (simp add: ParseUnary_def)
    have "phrase_of GPrimary e p1 q False" using call_ok [OF f step_toD(3) [OF k(1)] eq1 q] k(2) by auto
    from step_phrase [OF k(1) this] show ?thesis by (simp add: phrase_up [OF _ primary])
  qed
qed

lemma reads_hd: "reads p ts q \<Longrightarrow> ts \<noteq> [] \<Longrightarrow> hd ts = Peek p"
proof -
  assume "reads p ts q" "ts \<noteq> []"
  then have "rest p = hd ts # (tl ts @ rest q)" by (simp add: reads_def)
  then show "hd ts = Peek p" using rest_Peek by metis
qed

text \<open>An element of a list or an argument, and what has to be known of the call behind it.\<close>

lemma item_sound:
  assumes f: "sound_fun f" and k: "step_to p [] p1" "Peek p1 = Peek p" and x: "f NOr p1 = Some (x, p2)"
    and s: "ps_status p2 = None"
  obtains r ts b where "x = Some r" "reads p ts p2" "derives GOr r ts (ps_params p) (ps_params p2) b" "free_at b p2"
    "\<not> ps_closed p2" "hd ts = Peek p"
proof -
  obtain r where r: "x = Some r" "sound NOr p1 r p2"
    by (rule call_ok [OF f step_toD(3) [OF k(1)] x s]) (simp, rule that)
  then obtain b where b: "phrase_of GOr r p1 p2 b" "free_at b p2" "\<not> ps_closed p2" by auto
  obtain ts where ts: "reads p ts p2" "derives GOr r ts (ps_params p) (ps_params p2) b"
    using step_phrase [OF k(1) b(1)] by (auto simp: phrase_of_def)
  show ?thesis by (rule that [OF r(1) ts b(2,3) reads_hd [OF ts(1) derives_nonempty(1) [OF ts(2)]]])
qed

lemma item_status:
  assumes f: "sound_fun f" and k: "step_to p [] p1" and x: "f NOr p1 = Some (x, p2)" and p3: "ps_status p3 = ps_status p2" "good p3"
    and args: "ps_status p = None \<Longrightarrow> list_all arg_complete args" and y: "built y = args @ [x]"
    and eq: "f y p3 = Some (Some e, q)" and q: "ps_status q = None"
  shows "ps_status p2 = None" "sound y p3 e q"
proof -
  note X = call_sound [OF f x step_toD(3) [OF k]]
  have c: "ps_status p3 = None \<Longrightarrow> list_all arg_complete (built y)"
    using X(3,4) p3(1) args y step_toD(4) [OF k] by auto
  show "ps_status p2 = None" using call_sound(3) [OF f eq p3(2) c q] p3(1) by simp
  show "sound y p3 e q" using call_sound(4) [OF f eq p3(2) c q] by auto
qed

lemma Accept_close:
  assumes "good p" "Accept '')'' p = (True, q)" "ps_closed p"
  shows "\<exists>ts. step_to p ts q \<and> (ts = [] \<and> free_at True q \<or> (\<exists>t. ts = [t] \<and> tok '')'' t))"
proof (cases "tk_text (Peek p) = '')''")
  case True
  then have q: "q = advance_token p" using assms(2,3) by (simp add: Accept_def Let_def)
  obtain t us where t: "Peek p = t" "token_shape t" by (rule good_rest [OF assms(1)])
  have "tok '')'' t" by (rule token_tok [OF t(2)]) (use t True in simp_all)
  moreover have "step_to p [t] q" using advance_step [OF assms(1)] True t(1) q by auto
  ultimately show ?thesis by blast
next
  case False
  then have "q = p\<lparr>ps_closed := False\<rparr>" using assms(2,3) by (simp add: Accept_def Let_def)
  then show ?thesis using assms(1) False by (intro exI [of _ "[]"]) (simp add: step_to_def free_at_def)
qed

lemma sound_InLoop_item:
  assumes f: "sound_fun f" and a: "Accept '')'' p = (False, p1)" and p: "good p" and q: "ps_status q = None"
    and args: "ps_status p = None \<Longrightarrow> list_all arg_complete args" and x: "f NOr p1 = Some (x, p2)" and g2: "good p2"
    and eq: "(case Accept '','' p2 of (True, p3) \<Rightarrow> f (NInLoop (args @ [x])) p3
        | (False, p3) \<Rightarrow> (case Expect '')'' p3 of (True, p4) \<Rightarrow> f (NInLoop (args @ [x])) p4 | (False, p4) \<Rightarrow> Some (None, p4))) =
        Some (Some e, q)"
  shows "\<exists>es ts b. reads p ts q \<and> in_list es ts (ps_params p) (ps_params q) b \<and> e = function_expr ''in'' (args @ map Some es) \<and>
      free_at b q"
proof -
  note k = Accept_stays [OF p a]
  obtain b p3 where c: "Accept '','' p2 = (b, p3)" by fastforce
  show ?thesis
  proof (cases b)
    case True
    then have c': "Accept '','' p2 = (True, p3)" using c by simp
    obtain t where t: "tk_text t = '',''" "token_shape t" "step_to p2 [t] p3" "\<not> ps_closed p3"
      by (rule Accept_step [OF g2 c']) simp_all
    have tt: "tok '','' t" by (rule token_tok [OF t(2,1)]) simp
    have eq1: "f (NInLoop (args @ [x])) p3 = Some (Some e, q)" using eq c' by simp
    note s = item_status [OF f k(1) x step_toD(4,3) [OF t(3)] args _ eq1 q, simplified]
    obtain r ts d where r: "x = Some r" "reads p ts p2" "derives GOr r ts (ps_params p) (ps_params p2) d" "hd ts = Peek p"
      using item_sound [OF f k(1,2) x s(1)] by metis
    obtain es us b where es: "reads p3 us q" "in_list es us (ps_params p2) (ps_params q) b" "free_at b q"
      "e = function_expr ''in'' (args @ map Some (r # es))"
      using s(2) t(4) r(1) step_toD(2) [OF t(3)] by auto
    have "reads p (ts @ t # us) q" using reads_trans [OF reads_trans [OF r(2) step_toD(1) [OF t(3)]] es(1)] by simp
    moreover have "in_list (r # es) (ts @ t # us) (ps_params p) (ps_params q) b"
      by (rule in_next [OF r(3) _ tt es(2)]) (use r(4) k(2,3) in simp)
    ultimately show ?thesis using es(3,4) by blast
  next
    case False
    then have c': "Accept '','' p2 = (False, p3)" using c by simp
    note k3 = Accept_stays [OF g2 c']
    obtain p4 where p4: "Expect '')'' p3 = (True, p4)" "f (NInLoop (args @ [x])) p4 = Some (Some e, q)"
      using eq c' by (auto split: prod.splits bool.splits)
    obtain t where t: "tk_text t = '')''" "token_shape t" "step_to p3 [t] p4" "ps_closed p4" "Peek p3 = t"
      by (rule Expect_step [OF step_toD(3) [OF k3(1)] p4(1)]) (use k3(4) in simp_all)
    have tt: "tok '')'' t" by (rule token_tok [OF t(2,1)]) simp
    have g4: "step_to p2 [t] p4" using step_to_trans [OF k3(1) t(3)] by simp
    note s = item_status [OF f k(1) x step_toD(4,3) [OF g4] args _ p4(2) q, simplified]
    obtain r ts d where r: "x = Some r" "reads p ts p2" "derives GOr r ts (ps_params p) (ps_params p2) d" "hd ts = Peek p"
      "free_at d p2"
      using item_sound [OF f k(1,2) x s(1)] by metis
    have d: "derives GOr r ts (ps_params p) (ps_params p2) False" using r(3,5) t(1,5) k3(2) by (cases d) (simp_all add: free_at_def)
    have h: "tk_text (hd ts) \<noteq> '')''" using r(4) k(2,3) by simp
    obtain us where us: "step_to p4 us q" "us = [] \<and> free_at True q \<or> (\<exists>u. us = [u] \<and> tok '')'' u)"
      "e = function_expr ''in'' (args @ map Some [r])"
      using s(2) t(4) r(1) by auto
    have rd: "reads p (ts @ t # us) q"
      using reads_trans [OF reads_trans [OF r(2) step_toD(1) [OF g4]] step_toD(1) [OF us(1)]] by simp
    have i: "ps_params q = ps_params p2" using step_toD(2) [OF us(1)] step_toD(2) [OF g4] by simp
    from us(2) show ?thesis
    proof
      assume u: "us = [] \<and> free_at True q"
      then show ?thesis using rd in_last [OF d h tt] i us(3)
        by (intro exI [of _ "[r]"] exI [of _ "ts @ [t]"] exI [of _ True]) simp
    next
      assume "\<exists>u. us = [u] \<and> tok '')'' u"
      then obtain u where u: "us = [u]" "tok '')'' u" by blast
      from in_twice [OF d h tt u(2)] rd i us(3) show ?thesis
        unfolding u(1) by (intro exI [of _ "[r]"] exI [of _ "ts @ [t, u]"] exI [of _ False]) (simp add: free_at_def)
    qed
  qed
qed

lemma sound_InLoop:
  assumes f: "sound_fun f" and p: "good p" and eq: "InLoop f args p = Some (Some e, q)" and q: "ps_status q = None"
    and args: "ps_status p = None \<Longrightarrow> list_all arg_complete args"
  shows "sound (NInLoop args) p e q"
proof -
  obtain b p1 where a: "Accept '')'' p = (b, p1)" by fastforce
  show ?thesis
  proof (cases b)
    case True
    then have a': "Accept '')'' p = (True, p1)" using a by simp
    then have e: "e = function_expr ''in'' args" "q = p1" using eq by (simp_all add: InLoop_def)
    show ?thesis
    proof (cases "ps_closed p")
      case True
      then show ?thesis using Accept_close [OF p a'] e by simp
    next
      case False
      obtain t where t: "tk_text t = '')''" "token_shape t" "step_to p [t] p1"
        by (rule Accept_step [OF p a']) (use False in simp_all)
      have "in_list [] [t] (ps_params p) (ps_params q) False"
        using in_end [OF token_tok [OF t(2,1)], of "ps_params p"] step_toD(2) [OF t(3)] e(2) by simp
      then show ?thesis
        using e step_toD(1) [OF t(3)] False
        by (auto simp: free_at_def intro!: exI [of _ "[]"] exI [of _ "[t]"] exI [of _ False])
    qed
  next
    case False
    then have a': "Accept '')'' p = (False, p1)" using a by simp
    note k = Accept_stays [OF p a']
    have c: "\<not> ps_closed p" using a' k(2,3) by (auto simp: Accept_def Let_def split: if_splits)
    obtain x p2 where x: "f NOr p1 = Some (x, p2)"
      "(case Accept '','' p2 of (True, p3) \<Rightarrow> f (NInLoop (args @ [x])) p3
        | (False, p3) \<Rightarrow> (case Expect '')'' p3 of (True, p4) \<Rightarrow> f (NInLoop (args @ [x])) p4 | (False, p4) \<Rightarrow> Some (None, p4))) =
        Some (Some e, q)"
      using eq a' by (auto simp: InLoop_def bind_eq_Some_conv)
    have g2: "good p2" using call_sound(2) [OF f x(1) step_toD(3) [OF k(1)]] by simp
    show ?thesis using sound_InLoop_item [OF f a' p q args x(1) g2 x(2)] c by simp
  qed
qed

lemma argument_comma_step:
  assumes g: "good p1" and a: "Accept '')'' p1 = (False, p2)" and c: "Expect '','' p2 = (True, p3)"
  obtains t where "step_to p1 [t] p3" "tok '','' t"
proof -
  note k = Accept_stays [OF g a]
  obtain t where t: "tk_text t = '',''" "token_shape t" "step_to p2 [t] p3"
    by (rule Expect_step [OF step_toD(3) [OF k(1)] c]) simp_all
  have "tok '','' t" by (rule token_tok [OF t(2,1)]) simp
  then show ?thesis using that step_to_trans [OF k(1) t(3)] by simp
qed

lemma sound_star:
  assumes f: "sound_fun f" and p: "good p" and s: "Accept ''*'' p = (True, p1)" and q: "ps_status q = None"
    and args: "ps_status p = None \<Longrightarrow> list_all arg_complete args"
    and eq: "(case Accept '')'' p1 of (True, p2) \<Rightarrow> Some (Some (function_expr n (args @ [Some (column_expr ''*'')])), p2)
      | (False, p2) \<Rightarrow> (case Expect '','' p2 of (False, p3) \<Rightarrow> Some (None, p3)
           | (True, p3) \<Rightarrow> f (NArgLoop n (args @ [Some (column_expr ''*'')])) p3)) = Some (Some e, q)"
  shows "sound (NArgLoop n args) p e q"
proof -
  obtain m where m: "tk_text m = ''*''" "step_to p [m] p1" "\<not> ps_closed p1"
    by (rule Accept_step [OF p s]) simp_all
  obtain b p2 where c: "Accept '')'' p1 = (b, p2)" by fastforce
  show ?thesis
  proof (cases b)
    case True
    then have c': "Accept '')'' p1 = (True, p2)" using c by simp
    then have e: "e = function_expr n (args @ [Some (column_expr ''*'')])" "q = p2" using eq by simp_all
    obtain t where t: "tk_text t = '')''" "token_shape t" "step_to p1 [t] p2"
      by (rule Accept_step [OF step_toD(3) [OF m(2)] c']) (use m(3) in simp_all)
    have tt: "tok '')'' t" by (rule token_tok [OF t(2,1)]) simp
    have "step_to p [m, t] q" using step_to_trans [OF m(2) t(3)] e(2) by simp
    note r = step_toD(1,2) [OF this]
    show ?thesis unfolding sound.simps
      using r star_last [OF m(1) tt] e(1) by (intro exI [of _ "[column_expr ''*'']"] exI [of _ "[m, t]"]) simp
  next
    case False
    then have c': "Accept '')'' p1 = (False, p2)" using c by simp
    obtain p3 where x: "Expect '','' p2 = (True, p3)" "f (NArgLoop n (args @ [Some (column_expr ''*'')])) p3 = Some (Some e, q)"
      using eq c' by (auto split: prod.splits bool.splits)
    obtain t where t: "step_to p1 [t] p3" "tok '','' t" by (rule argument_comma_step [OF step_toD(3) [OF m(2)] c' x(1)])
    have st: "step_to p [m, t] p3" using step_to_trans [OF m(2) t(1)] by simp
    have "list_all arg_complete (built (NArgLoop n (args @ [Some (column_expr ''*'')])))" if "ps_status p3 = None"
      using that step_toD(4) [OF st] args by simp
    from call_sound(4) [OF f x(2) step_toD(3) [OF st] this q] obtain es ts where es: "reads p3 ts q"
      "arguments es ts (ps_params p3) (ps_params q)" "e = function_expr n (args @ map Some (column_expr ''*'' # es))" by auto
    have "reads p (m # t # ts) q" using reads_trans [OF step_toD(1) [OF st] es(1)] by simp
    moreover have "arguments (column_expr ''*'' # es) (m # t # ts) (ps_params p) (ps_params q)"
      by (rule star_next [OF m(1) t(2)]) (use es(2) step_toD(2) [OF st] in simp)
    ultimately show ?thesis unfolding sound.simps using es(3) by blast
  qed
qed

lemma sound_argument:
  assumes f: "sound_fun f" and p: "good p" and a: "Accept ''*'' p = (False, p0)" and q: "ps_status q = None"
    and args: "ps_status p = None \<Longrightarrow> list_all arg_complete args" and x: "f NOr p0 = Some (x, p1)"
    and eq: "(case Accept '')'' p1 of (True, p2) \<Rightarrow> Some (Some (function_expr n (args @ [x])), p2)
      | (False, p2) \<Rightarrow> (case Expect '','' p2 of (False, p3) \<Rightarrow> Some (None, p3)
           | (True, p3) \<Rightarrow> f (NArgLoop n (args @ [x])) p3)) = Some (Some e, q)"
  shows "sound (NArgLoop n args) p e q"
proof -
  note k = Accept_stays [OF p a]
  have g1: "good p1" using call_sound(2) [OF f x step_toD(3) [OF k(1)]] by simp
  obtain b p2 where c: "Accept '')'' p1 = (b, p2)" by fastforce
  show ?thesis
  proof (cases b)
    case True
    then have c': "Accept '')'' p1 = (True, p2)" using c by simp
    then have e: "e = function_expr n (args @ [x])" "q = p2" using eq by simp_all
    have st: "ps_status p2 = ps_status p1" using c' by (auto simp: Accept_def Let_def advance_token_def split: if_splits)
    obtain r ts d where r: "x = Some r" "reads p ts p1" "derives GOr r ts (ps_params p) (ps_params p1) d" "hd ts = Peek p"
      "free_at d p1" "\<not> ps_closed p1"
      using item_sound [OF f k(1,2) x] st q e(2) by metis
    obtain t where t: "tk_text t = '')''" "token_shape t" "step_to p1 [t] p2" "Peek p1 = t"
      by (rule Accept_step [OF g1 c']) (use r(6) in simp_all)
    have tt: "tok '')'' t" by (rule token_tok [OF t(2,1)]) simp
    have d: "derives GOr r ts (ps_params p) (ps_params p1) False" using r(3,5) t(1,4) by (cases d) (simp_all add: free_at_def)
    have h: "tk_text (hd ts) \<noteq> ''*''" using r(4) k(2,3) by simp
    have "reads p (ts @ [t]) q" using reads_trans [OF r(2) step_toD(1) [OF t(3)]] e(2) by simp
    then show ?thesis unfolding sound.simps
      using argument_last [OF d h tt] e r(1) step_toD(2) [OF t(3)]
      by (intro exI [of _ "[r]"] exI [of _ "ts @ [t]"]) simp
  next
    case False
    then have c': "Accept '')'' p1 = (False, p2)" using c by simp
    obtain p3 where x3: "Expect '','' p2 = (True, p3)" "f (NArgLoop n (args @ [x])) p3 = Some (Some e, q)"
      using eq c' by (auto split: prod.splits bool.splits)
    obtain t where t: "step_to p1 [t] p3" "tok '','' t" by (rule argument_comma_step [OF g1 c' x3(1)])
    note s = item_status [OF f k(1) x step_toD(4,3) [OF t(1)] args _ x3(2) q, simplified]
    obtain r ts d where r: "x = Some r" "reads p ts p1" "derives GOr r ts (ps_params p) (ps_params p1) d" "hd ts = Peek p"
      using item_sound [OF f k(1,2) x s(1)] by metis
    have h: "tk_text (hd ts) \<noteq> ''*''" using r(4) k(2,3) by simp
    obtain es us where es: "reads p3 us q" "arguments es us (ps_params p1) (ps_params q)"
      "e = function_expr n (args @ map Some (r # es))"
      using s(2) r(1) step_toD(2) [OF t(1)] by auto
    have "reads p (ts @ t # us) q" using reads_trans [OF reads_trans [OF r(2) step_toD(1) [OF t(1)]] es(1)] by simp
    then show ?thesis unfolding sound.simps using argument_next [OF r(3) h t(2) es(2)] es(3) by blast
  qed
qed

lemma sound_ArgLoop:
  assumes f: "sound_fun f" and p: "good p" and eq: "ArgLoop f n args p = Some (Some e, q)" and q: "ps_status q = None"
    and args: "ps_status p = None \<Longrightarrow> list_all arg_complete args"
  shows "sound (NArgLoop n args) p e q"
proof -
  obtain b p0 where a: "Accept ''*'' p = (b, p0)" by fastforce
  show ?thesis
  proof (cases b)
    case True
    then have a': "Accept ''*'' p = (True, p0)" using a by simp
    show ?thesis by (rule sound_star [OF f p a' q args]) (use eq a' in \<open>simp_all add: ArgLoop_def\<close>)
  next
    case False
    then have a': "Accept ''*'' p = (False, p0)" using a by simp
    obtain x p1 where x: "f NOr p0 = Some (x, p1)"
      "(case Accept '')'' p1 of (True, p2) \<Rightarrow> Some (Some (function_expr n (args @ [x])), p2)
        | (False, p2) \<Rightarrow> (case Expect '','' p2 of (False, p3) \<Rightarrow> Some (None, p3)
             | (True, p3) \<Rightarrow> f (NArgLoop n (args @ [x])) p3)) = Some (Some e, q)"
      using eq a' by (auto simp: ArgLoop_def bind_eq_Some_conv)
    show ?thesis by (rule sound_argument [OF f p a' q args x])
  qed
qed

text \<open>The name at the front of a primary expression.\<close>

definition read_name :: "string \<Rightarrow> parser \<Rightarrow> string \<times> parser" where
  "read_name name p = (case Accept ''.'' p of
     (True, p1) \<Rightarrow> (case Identifier p1 of (field, p2) \<Rightarrow> (name @ ''.'' @ field, p2))
   | (False, p1) \<Rightarrow> (name, p1))"

lemma read_name_sound:
  assumes p: "step_to p0 [t] p" and t: "column_word t" and eq: "read_name (tk_text t) p = (n, q)" and q: "ps_status q = None"
  obtains ts where "named n ts" "step_to p0 ts q"
proof -
  note g = step_toD(3) [OF p]
  obtain b p1 where a: "Accept ''.'' p = (b, p1)" by fastforce
  show ?thesis
  proof (cases b)
    case False
    then have a': "Accept ''.'' p = (False, p1)" using a by simp
    then have "n = tk_text t" "q = p1" using eq by (simp_all add: read_name_def)
    then show ?thesis using that [of "[t]"] plain_name [OF t] step_to_trans [OF p Accept_stays(1) [OF g a']] by simp
  next
    case True
    then have a': "Accept ''.'' p = (True, p1)" using a by simp
    obtain d where d: "tk_text d = ''.''" "token_shape d" "step_to p [d] p1" by (rule Accept_step [OF g a']) simp_all
    have td: "tok ''.'' d" by (rule token_tok [OF d(2,1)]) simp
    have k: "tk_kind (Peek p1) = KWord"
      using eq a' q by (auto simp: read_name_def Identifier_def set_status_def split: if_splits)
    then have e: "n = tk_text t @ ''.'' @ tk_text (Peek p1)" "q = advance_token p1"
      using eq a' by (simp_all add: read_name_def Identifier_def)
    have "step_to p1 [Peek p1] q" unfolding e(2) by (rule advance_step [OF step_toD(3) [OF d(3)]]) (simp add: k)
    from step_to_trans [OF p step_to_trans [OF d(3) this]] have "step_to p0 [t, d, Peek p1] q" by simp
    then show ?thesis using that dotted_name [OF t td k] e(1) by simp
  qed
qed

lemma read_name_good: "good p \<Longrightarrow> read_name name p = (n, q) \<Longrightarrow> good q"
proof -
  assume g: "good p" and eq: "read_name name p = (n, q)"
  obtain b p1 where a: "Accept ''.'' p = (b, p1)" by fastforce
  have g1: "good p1" by (rule Accept_good [OF g a]) simp_all
  obtain field p2 where i: "Identifier p1 = (field, p2)" by fastforce
  have "good p2" using Identifier_after [OF _ i] g1 good_after [OF g1] by (simp add: good_def)
  then show "good q" using eq a i g1 by (cases b) (simp_all add: read_name_def)
qed

lemma parse_name_eq: "name \<notin> {''null'', ''true'', ''false''} \<Longrightarrow> parse_name f name p =
    (case read_name name p of (n, p2) \<Rightarrow>
     case Accept ''('' p2 of
       (False, p3) \<Rightarrow> Some (Some (column_expr n), p3)
     | (True, p3) \<Rightarrow>
         (case Accept '')'' p3 of
            (True, p4) \<Rightarrow> Some (Some (function_expr n []), p4)
          | (False, p4) \<Rightarrow> f (NArgLoop n []) p4))"
  by (simp add: parse_name_def read_name_def)

lemma sound_parse_name:
  assumes f: "sound_fun f" and p: "step_to p0 [t] p" and t: "operand KWord t"
    and eq: "parse_name f (tk_text t) p = Some (Some e, q)" and q: "ps_status q = None"
  shows "phrase_of GPrimary e p0 q False"
proof (cases "column_word t")
  case False
  then have c: "tk_text t \<in> {''null'', ''true'', ''false''}" using t by (simp add: column_word_def)
  have t': "tok (tk_text t) t" using t by (simp add: operand_def)
  from c eq have "q = p" by (auto simp: parse_name_def)
  then have r: "reads p0 [t] q" "ps_params q = ps_params p0" using step_toD(1,2) [OF p] by simp_all
  show ?thesis
  proof (cases "tk_text t = ''null''")
    case True
    then have "e = literal_expr VNull" using eq by (simp add: parse_name_def)
    then show ?thesis using r null [OF t, of "ps_params p0"] True t' unfolding phrase_of_def by auto
  next
    case False
    then have b: "tk_text t \<in> {''true'', ''false''}" using c by simp
    then have "e = literal_expr (VBoolean (tk_text t = ''true''))" using eq by (auto simp: parse_name_def)
    then show ?thesis using r boolean [OF t b, of "ps_params p0"] unfolding phrase_of_def by auto
  qed
next
  case cw: True
  obtain n p2 where n: "read_name (tk_text t) p = (n, p2)" by fastforce
  note g2 = read_name_good [OF step_toD(3) [OF p] n]
  obtain b p3 where a: "Accept ''('' p2 = (b, p3)" by fastforce
  have g3: "good p3" "ps_status p3 = ps_status p2" by (rule Accept_good [OF g2 a]; simp)+
  have eq2: "(case Accept ''('' p2 of (False, p3) \<Rightarrow> Some (Some (column_expr n), p3)
     | (True, p3) \<Rightarrow> (case Accept '')'' p3 of (True, p4) \<Rightarrow> Some (Some (function_expr n []), p4)
          | (False, p4) \<Rightarrow> f (NArgLoop n []) p4)) = Some (Some e, q)"
    using eq parse_name_eq [of "tk_text t" f p] n cw by (simp add: column_word_def)
  show ?thesis
  proof (cases b)
    case False
    then have a': "Accept ''('' p2 = (False, p3)" using a by simp
    then have e: "e = column_expr n" "q = p3" using eq2 by simp_all
    obtain ts where ts: "named n ts" "step_to p0 ts p2"
      by (rule read_name_sound [OF p cw n]) (use g3(2) e(2) q in simp_all)
    have "step_to p0 ts q" using step_to_trans [OF ts(2) Accept_stays(1) [OF g2 a']] e(2) by simp
    note r = step_toD(1,2) [OF this]
    then show ?thesis using column [OF ts(1), of "ps_params p0"] e(1) unfolding phrase_of_def by auto
  next
    case True
    then have a': "Accept ''('' p2 = (True, p3)" using a by simp
    obtain u where u: "tk_text u = ''(''" "token_shape u" "step_to p2 [u] p3" "\<not> ps_closed p3"
      by (rule Accept_step [OF g2 a']) simp_all
    have tu: "tok ''('' u" by (rule token_tok [OF u(2,1)]) simp
    obtain c p4 where c: "Accept '')'' p3 = (c, p4)" by fastforce
    show ?thesis
    proof (cases c)
      case True
      then have c': "Accept '')'' p3 = (True, p4)" using c by simp
      then have e: "e = function_expr n []" "q = p4" using eq2 a' by simp_all
      obtain v where v: "tk_text v = '')''" "token_shape v" "step_to p3 [v] p4"
        by (rule Accept_step [OF g3(1) c']) (use u(4) in simp_all)
      have tv: "tok '')'' v" by (rule token_tok [OF v(2,1)]) simp
      obtain ts where ts: "named n ts" "step_to p0 ts p2"
        by (rule read_name_sound [OF p cw n]) (use step_toD(4) [OF v(3)] g3(2) e(2) q in simp_all)
      have "step_to p0 (ts @ [u, v]) q" using step_to_trans [OF ts(2) step_to_trans [OF u(3) v(3)]] e(2) by simp
      note r = step_toD(1,2) [OF this]
      then show ?thesis using empty_call [OF ts(1) tu tv, of "ps_params p0"] e(1) unfolding phrase_of_def by auto
    next
      case False
      then have c': "Accept '')'' p3 = (False, p4)" using c by simp
      note k = Accept_stays [OF g3(1) c']
      have eq4: "f (NArgLoop n []) p4 = Some (Some e, q)" using eq2 a' c' by simp
      note S = call_sound [OF f eq4 step_toD(3) [OF k(1)], simplified]
      have st: "ps_status p2 = None" using S(3) [OF q] step_toD(4) [OF k(1)] g3(2) by simp
      obtain ts where ts: "named n ts" "step_to p0 ts p2" by (rule read_name_sound [OF p cw n st])
      obtain es us where es: "reads p4 us q" "arguments es us (ps_params p4) (ps_params q)" "e = function_expr n (map Some es)"
        using S(4) [OF q] by auto
      have h: "tk_text (hd us) \<noteq> '')''" using reads_hd [OF es(1) derives_nonempty(3) [OF es(2)]] k(3) by simp
      have d: "step_to p0 (ts @ [u]) p4" using step_to_trans [OF ts(2) step_to_trans [OF u(3) k(1)]] by simp
      have "reads p0 (ts @ u # us) q" using reads_trans [OF step_toD(1) [OF d] es(1)] by simp
      moreover have "derives GPrimary e (ts @ u # us) (ps_params p0) (ps_params q) False"
        unfolding es(3) by (rule call [OF ts(1) tu _ h]) (use es(2) step_toD(2) [OF d] in simp)
      ultimately show ?thesis unfolding phrase_of_def by blast
    qed
  qed
qed

lemma phrase_one:
  "reads p [t] q \<Longrightarrow> derives c e [t] (ps_params p) (ps_params q) b \<Longrightarrow> phrase_of c e p q b"
  unfolding phrase_of_def by blast

lemma sound_ParsePrimary:
  assumes f: "sound_fun f" and p: "good p" and eq: "ParsePrimary f p = Some (Some e, q)" and q: "ps_status q = None"
    and u: "tk_text (Peek p) \<notin> {''not'', ''-'', ''+''}"
  shows "phrase_of GPrimary e p q False"
proof -
  obtain b p1 where a: "Accept ''('' p = (b, p1)" by fastforce
  show ?thesis
  proof (cases b)
    case True
    then have a': "Accept ''('' p = (True, p1)" using a by simp
    obtain t where t: "tk_text t = ''(''" "token_shape t" "step_to p [t] p1" by (rule Accept_step [OF p a']) simp_all
    have tt: "tok ''('' t" by (rule token_tok [OF t(2,1)]) simp
    obtain x p2 where x: "f NOr p1 = Some (x, p2)"
      "(case Expect '')'' p2 of (True, p3) \<Rightarrow> Some (x, p3) | (False, p3) \<Rightarrow> Some (None, p3)) = Some (Some e, q)"
      using eq a' by (auto simp: ParsePrimary_def bind_eq_Some_conv)
    then have c: "Expect '')'' p2 = (True, q)" "x = Some e" by (auto split: prod.splits bool.splits)
    note g1 = step_toD(3) [OF t(3)]
    have g2: "good p2" using call_sound(2) [OF f x(1) g1] by simp
    have "ps_status q = ps_status p2"
      using c(1) by (auto simp: Expect_def Accept_def Let_def advance_token_def split: if_splits)
    then have s2: "ps_status p2 = None" using q by simp
    have r1: "step_to p1 [] p1" using g1 by (simp add: step_to_def)
    obtain r ts d where r: "x = Some r" "reads p1 ts p2" "derives GOr r ts (ps_params p1) (ps_params p2) d" "free_at d p2"
      "\<not> ps_closed p2"
      using item_sound [OF f r1 refl x(1) s2] by metis
    obtain v where v: "tk_text v = '')''" "token_shape v" "step_to p2 [v] q" "Peek p2 = v"
      by (rule Expect_step [OF g2 c(1)]) (use r(5) in simp_all)
    have tv: "tok '')'' v" by (rule token_tok [OF v(2,1)]) simp
    have d: "derives GOr e ts (ps_params p) (ps_params q) False"
      using r(1,3,4) v(1,4) c(2) step_toD(2) [OF t(3)] step_toD(2) [OF v(3)] by (cases d) (simp_all add: free_at_def)
    have "reads p (t # ts @ [v]) q"
      using reads_trans [OF reads_trans [OF step_toD(1) [OF t(3)] r(2)] step_toD(1) [OF v(3)]] by simp
    then show ?thesis using parens [OF tt d tv] unfolding phrase_of_def by blast
  next
    case False
    then have a': "Accept ''('' p = (False, p1)" using a by simp
    note k = Accept_stays [OF p a']
    note g1 = step_toD(3) [OF k(1)]
    define t where "t = Peek p1"
    have o: "operand (tk_kind t) t" using u k(2,3) by (simp add: operand_def t_def)
    have eq1: "(case tk_kind t of
        KNumber \<Rightarrow> (case number_literal (tk_text t) of Some v \<Rightarrow> Some (Some (literal_expr v), advance_token p1)
           | None \<Rightarrow> Some (None, set_status (OutOfRange ''invalid numeric literal'') (advance_token p1)))
      | KString \<Rightarrow> Some (Some (literal_expr (VText (tk_text t))), advance_token p1)
      | KParameter \<Rightarrow> Some (Some (parameter_expr (ps_params p1)), (advance_token p1)\<lparr>ps_params := ps_params p1 + 1\<rparr>)
      | KWord \<Rightarrow> (case Identifier p1 of (name, p2) \<Rightarrow> parse_name f name p2)
      | _ \<Rightarrow> Some (None, set_status (SyntaxError ''expected expression'') p1)) = Some (Some e, q)"
      using eq a' unfolding t_def by (simp add: ParsePrimary_def Let_def)
    have adv: "step_to p [t] (advance_token p1)" if "tk_kind t \<noteq> KEnd"
      using step_to_trans [OF k(1) advance_step [OF g1]] that by (simp add: t_def)
    note i = step_toD(2) [OF k(1)]
    show ?thesis
    proof (cases "tk_kind t")
      case KWord
      have "Identifier p1 = (tk_text t, advance_token p1)" using KWord by (simp add: Identifier_def t_def)
      then have "parse_name f (tk_text t) (advance_token p1) = Some (Some e, q)" using eq1 KWord by simp
      from sound_parse_name [OF f adv _ this q] show ?thesis using KWord o by simp
    next
      case KNumber
      then obtain v where v: "number_literal (tk_text t) = Some v" "e = literal_expr v" "q = advance_token p1"
        using eq1 by (auto split: option.splits)
      have s: "step_to p [t] q" using adv KNumber v(3) by simp
      show ?thesis
        by (rule phrase_one [OF step_toD(1) [OF s]]) (use number [OF _ v(1)] KNumber o v(2) step_toD(2) [OF s] in simp)
    next
      case KString
      then have v: "e = literal_expr (VText (tk_text t))" "q = advance_token p1" using eq1 by simp_all
      have s: "step_to p [t] q" using adv KString v(2) by simp
      show ?thesis
        by (rule phrase_one [OF step_toD(1) [OF s]]) (use str KString o v(1) step_toD(2) [OF s] in simp)
    next
      case KParameter
      then have v: "e = parameter_expr (ps_params p)" "q = (advance_token p1)\<lparr>ps_params := ps_params p + 1\<rparr>"
        using eq1 i by simp_all
      have "reads p [t] (advance_token p1)" using step_toD(1) [OF adv] KParameter by simp
      then have r: "reads p [t] q" using v(2) by (simp add: reads_def rest_def)
      show ?thesis
        by (rule phrase_one [OF r]) (use parameter [of t "ps_params p"] KParameter o v in simp)
    qed (use eq1 in simp_all)
  qed
qed

lemma sound_parse: "sound_fun (parse n)"
proof (induction n)
  case 0
  then show ?case by (simp add: sound_fun_def)
next
  case (Suc n)
  show ?case
    unfolding sound_fun_def
  proof (intro allI impI)
    fix x p e q
    assume a: "parse (Suc n) x p = Some (e, q)" and g: "good p"
      and b: "ps_status p = None \<longrightarrow> list_all arg_complete (built x)"
    have t: "after p q" "ps_status q = None \<Longrightarrow> arg_complete e"
      using total_some [OF a _ b] g by (auto simp: good_def)
    have "\<exists>d. e = Some d \<and> sound x p d q" if s: "ps_status q = None"
    proof -
      obtain d where d: "e = Some d" using t(2) [OF s] by (auto simp: arg_complete_def)
      have eq: "parse_step (parse n) x p = Some (Some d, q)" using a d by simp
      have "sound x p d q"
      proof (cases x)
        case NPrimary
        then show ?thesis using sound_ParsePrimary [OF Suc.IH g _ s, of d] eq by (simp add: parse_step_def)
      qed (use eq b sound_ParseOr [OF Suc.IH g _ s] sound_OrLoop [OF Suc.IH g _ s] sound_ParseAnd [OF Suc.IH g _ s]
          sound_AndLoop [OF Suc.IH g _ s] sound_ParseCompare [OF Suc.IH g _ s] sound_InLoop [OF Suc.IH g _ s]
          sound_ParseLike [OF Suc.IH g _ s] sound_ParseAdd [OF Suc.IH g _ s] sound_AddLoop [OF Suc.IH g _ s]
          sound_ParseMul [OF Suc.IH g _ s] sound_MulLoop [OF Suc.IH g _ s] sound_ParseUnary [OF Suc.IH g _ s]
          sound_ArgLoop [OF Suc.IH g _ s] in \<open>simp_all add: parse_step_def del: sound.simps\<close>)
      then show ?thesis using d by blast
    qed
    then show "after p q \<and> (ps_status q = None \<longrightarrow> arg_complete e \<and> (\<exists>a. e = Some a \<and> sound x p a q))"
      using t by blast
  qed
qed

lemma Expression_sound:
  assumes "good p" "Expression p = (Some e, q)" "ps_status q = None"
  obtains ts b where "reads p ts q" "derives GOr e ts (ps_params p) (ps_params q) b" "free_at b q" "good q"
proof -
  have "parser_ok p" using assms(1) by (simp add: good_def)
  then have a: "parse (parse_fuel p) NOr p = Some (Some e, q)"
    using assms(2) Expression_total [of p] by metis
  note s = sound_parse [of "parse_fuel p", unfolded sound_fun_def, rule_format, OF a assms(1)]
  have "sound NOr p e q" "after p q" using s assms(3) by auto
  then obtain b where b: "phrase_of GOr e p q b" "free_at b q" by auto
  then show ?thesis using that good_after [OF assms(1) \<open>after p q\<close>] by (auto simp: phrase_of_def)
qed

section \<open>A parenthesis behind an IN list\<close>

lemma run_none:
  "run NUnary p (None, q) \<Longrightarrow> tk_text (Peek q) \<notin> {''*'', ''/'', ''%''} \<Longrightarrow> run NMul p (None, q)"
  "run NMul p (None, q) \<Longrightarrow> tk_text (Peek q) \<notin> {''+'', ''-''} \<Longrightarrow> run NAdd p (None, q)"
  "run NAdd p (None, q) \<Longrightarrow> run NLike p (None, q)"
  "run NLike p (None, q) \<Longrightarrow> run NCompare p (None, q)"
  "run NCompare p (None, q) \<Longrightarrow> run NAnd p (None, q)"
  "run NAnd p (None, q) \<Longrightarrow> run NOr p (None, q)"
proof -
  have l: "run (NMulLoop None) q (None, q)" if "tk_text (Peek q) \<notin> {''*'', ''/'', ''%''}"
    by (rule run_from0) (use that in \<open>simp add: parse_step_def MulLoop_def Let_def\<close>)
  then show "run NUnary p (None, q) \<Longrightarrow> tk_text (Peek q) \<notin> {''*'', ''/'', ''%''} \<Longrightarrow> run NMul p (None, q)"
    using run_chain(4) by blast
  have l: "run (NAddLoop None) q (None, q)" if "tk_text (Peek q) \<notin> {''+'', ''-''}"
    by (rule run_from0) (use that in \<open>simp add: parse_step_def AddLoop_def Let_def\<close>)
  then show "run NMul p (None, q) \<Longrightarrow> tk_text (Peek q) \<notin> {''+'', ''-''} \<Longrightarrow> run NAdd p (None, q)"
    using run_chain(3) by blast
  have "run (NAndLoop None) q (None, q)" "run (NOrLoop None) q (None, q)"
    by (rule run_from0, simp add: parse_step_def AndLoop_def OrLoop_def)+
  then show "run NCompare p (None, q) \<Longrightarrow> run NAnd p (None, q)" "run NAnd p (None, q) \<Longrightarrow> run NOr p (None, q)"
    using run_chain(1,2) by blast+
  show "run NAdd p (None, q) \<Longrightarrow> run NLike p (None, q)"
    by (erule run_from1) (simp add: parse_step_def ParseLike_def)
  show "run NLike p (None, q) \<Longrightarrow> run NCompare p (None, q)"
    by (erule run_from1) (simp add: parse_step_def ParseCompare_def)
qed

lemma run_parens_fail:
  "run NOr p1 (v, p2) \<Longrightarrow> Accept ''('' p = (True, p1) \<Longrightarrow> Expect '')'' p2 = (False, p3) \<Longrightarrow> run NPrimary p (None, p3)"
  by (erule run_from1) (simp add: parse_step_def ParsePrimary_def)

lemma Expect_False:
  assumes "rest p = t # us" "tk_text t \<noteq> '')''" "\<not> ps_closed p"
  shows "Expect '')'' p = (False, set_status (SyntaxError (''expected '' @ [CHR 0x27] @ '')'' @ [CHR 0x27])) p)"
  using rest_Peek [OF assms(1)] assms(2,3) by (simp add: Expect_def Accept_def Let_def)

text \<open>An unclosed parenthesis.\<close>

lemma unclosed_fails:
  assumes p: "parser_ok p" "rest p = u # ts @ t # us" and u: "tok ''('' u" and e: "derives GOr e ts (ps_params p) j False"
    and t: "ends GOr t" "tk_text t \<noteq> ''or''" "tk_text t \<noteq> '')''"
  shows "\<exists>q. Expression p = (None, q) \<and>
    ps_status q = Some (SyntaxError (''expected '' @ [CHR 0x27] @ '')'' @ [CHR 0x27]))"
proof -
  obtain p0 where p0: "accept_unary p = (False, p0)" "moved p 0 (ps_params p) p0"
    by (rule accept_unary_False [OF p(2)]) (use u in simp_all)
  have r0: "rest p0 = u # ts @ t # us" using moved_one(1) [OF p0(2) p(2)] by simp
  obtain p1 where p1: "Accept ''('' p0 = (True, p1)" "moved p0 (Suc 0) (ps_params p0) p1"
    by (rule Accept_True [OF r0]) (use u in simp_all)
  have r1: "rest p1 = ts @ t # us" "ps_params p1 = ps_params p"
    using moved_one(2) [OF p1(2) r0] p0(2) p1(2) by (simp_all add: moved_def)
  obtain p2 where p2: "rest p2 = t # us" "\<not> ps_closed p2" "run NOr p1 (Some e, p2)"
    by (rule or_run [OF derives_parsed(1) [OF e] r1 t(1,2)]) simp_all
  let ?q = "set_status (SyntaxError (''expected '' @ [CHR 0x27] @ '')'' @ [CHR 0x27])) p2"
  have "run NPrimary p0 (None, ?q)" by (rule run_parens_fail [OF p2(3) p1(1) Expect_False [OF p2(1) t(3) p2(2)]])
  then have a: "run NUnary p (None, ?q)" by (rule run_unary(2) [OF _ p0(1)])
  have pk: "Peek ?q = t" using rest_Peek [OF p2(1)] by (simp add: Peek_def set_status_def)
  have "run NMul p (None, ?q)" by (rule run_none(1) [OF a]) (use pk t in \<open>simp add: ends_def\<close>)
  then have "run NAdd p (None, ?q)" by (rule run_none(2)) (use pk t in \<open>simp add: ends_def\<close>)
  then have "run NOr p (None, ?q)" using run_none(3-6) by blast
  from Expression_run [OF p(1) this] show ?thesis by (simp add: set_status_def)
qed

section \<open>The lexer's tokens\<close>

lemma token_shapeI: "token_ok k s \<Longrightarrow> token_shape (make_token k s i)"
  by (simp add: token_shape_def make_token_def)

lemma number_ok: "number_start (c # cs) \<Longrightarrow> token_ok KNumber (c # takeWhile number_char cs)"
proof -
  assume a: "number_start (c # cs)"
  have "number_start (c # takeWhile number_char cs)"
    using a by (cases cs) (auto simp: number_start_def number_char_def)
  moreover have "number_char c" using a by (auto simp: number_start_def number_char_def)
  moreover have "list_all number_char (takeWhile number_char cs)" by (auto simp: list_all_iff dest: set_takeWhileD)
  ultimately show ?thesis by simp
qed

lemma next_token_shape:
  assumes "next_token (c # cs) i = Inr (t, cs')"
  shows "token_shape t"
proof -
  let ?q = "c = CHR 0x27 \<or> c = CHR 0x22"
  consider (w) "word_start c" | (n) "\<not> word_start c" "number_start (c # cs)"
    | (quote) "\<not> word_start c" "\<not> number_start (c # cs)" ?q
    | (other) "\<not> word_start c" "\<not> number_start (c # cs)" "\<not> ?q" by blast
  then show ?thesis
  proof cases
    case w
    then have "t = make_token KWord (Lower (c # takeWhile word_char cs)) i" using assms by (simp add: next_token_def Let_def)
    then show ?thesis by (auto intro: token_shapeI)
  next
    case n
    then have "t = make_token KNumber (c # takeWhile number_char cs) i" using assms by (simp add: next_token_def Let_def)
    then show ?thesis using token_shapeI number_ok [OF n(2)] by blast
  next
    case quote
    then have "(\<exists>v. t = make_token KString v i) \<or> (\<exists>v. t = make_token KWord (Lower v) i)"
      using assms by (auto simp: next_token_def Let_def split: option.splits if_splits)
    then show ?thesis by (auto intro: token_shapeI)
  next
    case other
    then consider "t = make_token KParameter ''?'' i" | "two_char_op (take 2 (c # cs))" "t = make_token KOperator (take 2 (c # cs)) i"
      | "operator_char c" "t = make_token KOperator [c] i" | "punctuation_char c" "t = make_token KPunctuation [c] i"
      using assms by (simp add: next_token_def Let_def del: take_Suc_Cons split: if_splits)
    then show ?thesis by cases (auto intro!: token_shapeI simp: operator_char_def punctuation_char_def)
  qed
qed

lemma tokens_from_token_shape: "tokens_from s i = Inr ts \<Longrightarrow> list_all token_shape ts"
proof (induction s i arbitrary: ts rule: tokens_from.induct)
  case (1 i)
  then show ?case by (auto simp: tokens_from.simps token_shape_def make_token_def)
next
  case (2 c cs i)
  show ?case
  proof (cases "isspace c")
    case True
    then show ?thesis using 2(1) 2(4) by (simp add: tokens_from.simps)
  next
    case ns: False
    show ?thesis
    proof (cases "c = CHR ''-'' \<and> cs \<noteq> [] \<and> hd cs = CHR ''-''")
      case True
      then show ?thesis using 2(2) [OF ns True refl] 2(4) ns by (simp add: tokens_from.simps Let_def)
    next
      case nc: False
      with 2(4) ns obtain t rs us where t: "next_token (c # cs) i = Inr (t, rs)"
        "tokens_from rs (i + (length (c # cs) - length rs)) = Inr us" "ts = t # us"
        by (auto simp: tokens_from.simps split: sum.splits prod.splits)
      then show ?thesis using 2(3) [OF ns nc t(1) refl t(2)] next_token_shape [OF t(1)] by simp
    qed
  qed
qed

lemma Tokenize_good: "Tokenize sql = Inr ts \<Longrightarrow> good (new_parser ts)"
  using Tokenize_parser_ok [of sql ts] tokens_from_token_shape [of sql 0 ts]
  by (simp add: good_def Tokenize_def) (simp add: new_parser_def)

section \<open>The parser and the grammar\<close>

lemma parse_iff:
  assumes "good p" "ps_status p = None" "rest p = ts @ t # us" "ends GOr t" "tk_text t \<noteq> ''or''"
  shows "(\<exists>q. Expression p = (Some e, q) \<and> ps_status q = None \<and> rest q = t # us \<and> ps_params q = j) \<longleftrightarrow>
    (\<exists>b. derives GOr e ts (ps_params p) j b \<and> (b \<longrightarrow> tk_text t \<noteq> '')''))"
proof
  assume "\<exists>q. Expression p = (Some e, q) \<and> ps_status q = None \<and> rest q = t # us \<and> ps_params q = j"
  then obtain q where q: "Expression p = (Some e, q)" "ps_status q = None" "rest q = t # us" "ps_params q = j" by blast
  obtain ts' b where d: "reads p ts' q" "derives GOr e ts' (ps_params p) j b" "free_at b q"
    using Expression_sound [OF assms(1) q(1,2)] q(4) by metis
  have "ts' = ts" using d(1) assms(3) q(3) by (simp add: reads_def)
  then show "\<exists>b. derives GOr e ts (ps_params p) j b \<and> (b \<longrightarrow> tk_text t \<noteq> '')'')"
    using d(2,3) rest_Peek [OF q(3)] by (auto simp: free_at_def)
next
  assume "\<exists>b. derives GOr e ts (ps_params p) j b \<and> (b \<longrightarrow> tk_text t \<noteq> '')'')"
  then obtain b where b: "derives GOr e ts (ps_params p) j b" "b \<Longrightarrow> tk_text t \<noteq> '')''" by blast
  have "parser_ok p" using assms(1) by (simp add: good_def)
  from Expression_derives [OF this b(1) assms(3-5) b(2)]
  show "\<exists>q. Expression p = (Some e, q) \<and> ps_status q = None \<and> rest q = t # us \<and> ps_params q = j"
    using assms(2) by (auto simp: moved_def)
qed

text \<open>In particular, a text is accepted as an expression if and only if its tokens form a phrase.\<close>

lemma accepted_texts:
  assumes "Tokenize sql = Inr (ts @ [t])"
  shows "(\<exists>q. Expression (new_parser (ts @ [t])) = (Some e, q) \<and> ps_status q = None \<and> rest q = [t] \<and> ps_params q = j) \<longleftrightarrow>
    (\<exists>b. derives GOr e ts 0 j b)"
proof -
  have t: "tk_text t = []" "tk_kind t = KEnd" using Tokenize_shape [OF assms] by (auto simp: make_token_def)
  then have "ends GOr t" "tk_text t \<noteq> ''or''" "tk_text t \<noteq> '')''" by (simp_all add: ends_def)
  moreover have "rest (new_parser (ts @ [t])) = ts @ t # []" "ps_status (new_parser (ts @ [t])) = None"
    "ps_params (new_parser (ts @ [t])) = 0" by (simp_all add: rest_def new_parser_def)
  ultimately show ?thesis using parse_iff [OF Tokenize_good [OF assms], of ts t "[]" e j] by simp
qed

section \<open>Properties\<close>

text \<open>C18: the expression parser implements its grammar. On tokens of the lexer, up to a token that cannot
  go on with an expression, \<^verbatim>\<open>Parser::Expression\<close> succeeds and reads exactly these tokens into
  the tree \<open>e\<close>, counting the parameters up to \<open>j\<close>, if and only if the grammar derives \<open>e\<close> from
  them. A phrase that ends with an IN list of which only one parenthesis was read must not be
  followed by a closing parenthesis.\<close>

theorem Expression_iff_derives:
  assumes "good p" "ps_status p = None" "rest p = ts @ t # us" "ends GOr t" "tk_text t \<noteq> ''or''"
  shows "(\<exists>q. Expression p = (Some e, q) \<and> ps_status q = None \<and> rest q = t # us \<and> ps_params q = j) \<longleftrightarrow>
    (\<exists>b. derives GOr e ts (ps_params p) j b \<and> (b \<longrightarrow> tk_text t \<noteq> '')''))"
  using assms by (rule parse_iff)

text \<open>\<^verbatim>\<open>1 + 2 * 3\<close>, and the tree in which the product is an operand of the sum.\<close>

definition sum_tokens :: "Token list" where
  "sum_tokens = [make_token KNumber ''1'' 0, make_token KOperator ''+'' 2, make_token KNumber ''2'' 4,
     make_token KOperator ''*'' 6, make_token KNumber ''3'' 8]"

definition sum_tree :: expr where
  "sum_tree = Binary ''+'' (Some (literal_expr (VInteger 1)))
     (Some (Binary ''*'' (Some (literal_expr (VInteger 2))) (Some (literal_expr (VInteger 3)))))"

lemma sum_derives: "derives GOr sum_tree sum_tokens 0 0 False"
proof -
  have n: "derives GUnary (literal_expr (VInteger (of_nat k))) [make_token KNumber s i] 0 0 False"
    if "number_literal s = Some (VInteger (of_nat k))" "s \<notin> {''not'', ''-'', ''+'', ''(''}" for s k i
    using number [of "make_token KNumber s i" "VInteger (of_nat k)" 0] that
    by (intro primary) (simp add: operand_def make_token_def)
  have l: "number_literal ''1'' = Some (VInteger (of_nat 1))" "number_literal ''2'' = Some (VInteger (of_nat 2))"
    "number_literal ''3'' = Some (VInteger (of_nat 3))"
    by (simp_all add: number_literal_def stoll_def digits_value_def)
  have 1: "derives GAdd (literal_expr (VInteger 1)) [make_token KNumber ''1'' 0] 0 0 False"
    using n [OF l(1), of 0] by (intro summand factor) simp
  have 2: "derives GMul (literal_expr (VInteger 2)) [make_token KNumber ''2'' 4] 0 0 False"
    using n [OF l(2), of 4] by (intro factor) simp
  have 3: "derives GUnary (literal_expr (VInteger 3)) [make_token KNumber ''3'' 8] 0 0 False"
    using n [OF l(3), of 8] by simp
  have "derives GAdd sum_tree sum_tokens 0 0 False"
    using add [OF 1 _ multiply [OF 2 _ 3, of "make_token KOperator ''*'' 6"], of "make_token KOperator ''+'' 2"]
    by (simp add: sum_tree_def sum_tokens_def make_token_def)
  then show ?thesis by (intro disjunct conjunct comparand sum)
qed

theorem Expression_iff_derives_witness:
  "\<exists>q. Expression (new_parser (sum_tokens @ [make_token KEnd [] 9])) = (Some sum_tree, q) \<and> ps_status q = None \<and>
     rest q = [make_token KEnd [] 9] \<and> ps_params q = 0"
proof -
  let ?p = "new_parser (sum_tokens @ [make_token KEnd [] 9])"
  have g: "good ?p" by code_simp
  have p: "ps_status ?p = None" "ps_params ?p = 0" "rest ?p = sum_tokens @ make_token KEnd [] 9 # []"
    by (simp_all add: new_parser_def rest_def)
  have t: "ends GOr (make_token KEnd [] 9)" "tk_text (make_token KEnd [] 9) \<noteq> ''or''" by (simp_all add: ends_def make_token_def)
  have "\<exists>b. derives GOr sum_tree sum_tokens (ps_params ?p) 0 b \<and> (b \<longrightarrow> tk_text (make_token KEnd [] 9) \<noteq> '')'')"
    using sum_derives unfolding p(2) by blast
  then show ?thesis unfolding Expression_iff_derives [OF g p(1,3) t, symmetric] by blast
qed

text \<open>The grammar is unambiguous: a list of tokens has at most one tree.\<close>

lemma grammar_unambiguous:
  assumes "derives GOr e ts i j b" "derives GOr e' ts i j' b'"
  shows "e = e' \<and> j = j'"
proof -
  let ?t = "make_token KEnd [] 0" and ?p = "(new_parser (ts @ [make_token KEnd [] 0]))\<lparr>ps_params := i\<rparr>"
  have p: "parser_ok ?p" "rest ?p = ts @ ?t # []" "ps_params ?p = i"
    by (simp_all add: parser_ok_def new_parser_def rest_def make_token_def)
  have t: "ends GOr ?t" "tk_text ?t \<noteq> ''or''" "tk_text ?t \<noteq> '')''" by (simp_all add: ends_def make_token_def)
  obtain q q' where "Expression ?p = (Some e, q)" "moved ?p (length ts) j q" "Expression ?p = (Some e', q')" "moved ?p (length ts) j' q'"
    using Expression_derives [OF p(1) _ p(2) t(1,2) t(3)] assms p(3) by metis
  then show ?thesis by (simp add: moved_def)
qed

text \<open>The precedence is the code's and not the one of section 9 of \<^verbatim>\<open>ARCHITECTURE.md\<close>, where NOT
  binds looser than the comparisons, and LIKE is one of them: NOT takes the operand behind it alone,
  and LIKE binds tighter than a comparison. These are the only trees of such tokens.\<close>

lemma not_binds_tightest:
  assumes "tk_text n = ''not''" "derives GUnary l ts i j False" "compare_op t" "derives GAdd r us j k b"
  shows "derives GOr e (n # ts @ t # us) i m c \<Longrightarrow> e = Binary (tk_text t) (Some (unary_expr ''not'' (Some l))) (Some r)"
    and "derives GOr (Binary (tk_text t) (Some (unary_expr ''not'' (Some l))) (Some r)) (n # ts @ t # us) i k b"
proof -
  have "derives GUnary (unary_expr (tk_text n) (Some l)) (n # ts) i j False"
    using unary [OF _ assms(2), of n] assms(1) by simp
  then have "derives GLike (unary_expr ''not'' (Some l)) (n # ts) i j False"
    using assms(1) by (intro sum summand factor) simp
  from comparison [OF this assms(3,4)]
  show d: "derives GOr (Binary (tk_text t) (Some (unary_expr ''not'' (Some l))) (Some r)) (n # ts @ t # us) i k b"
    by (intro disjunct conjunct) simp
  show "e = Binary (tk_text t) (Some (unary_expr ''not'' (Some l))) (Some r)"
    if "derives GOr e (n # ts @ t # us) i m c" using grammar_unambiguous [OF that d] by simp
qed

text \<open>A phrase that has taken only one parenthesis for its IN list takes the next one as well.\<close>

lemma closed_again:
  "derives c e ts i j b \<Longrightarrow> b \<Longrightarrow> tok '')'' d \<Longrightarrow> derives c e (ts @ [d]) i j False"
  "in_list es ts i j b \<Longrightarrow> b \<Longrightarrow> tok '')'' d \<Longrightarrow> in_list es (ts @ [d]) i j False"
  "arguments es ts i j \<Longrightarrow> True"
proof (induction rule: derives_in_list_arguments.inducts)
  case (in_last e ts i j t)
  then show ?case using in_twice [of e ts i j t d] by simp
next
  case (in_op e ts i j t u es us k b)
  then show ?case using derives_in_list_arguments.in_op [of e ts i j t u es "us @ [d]" k False] by simp
qed (auto intro: derives_in_list_arguments.intros)

text \<open>Such a phrase ends with an IN list that has an element, the last one without a comma behind it.\<close>

definition closed_list :: "expr list \<Rightarrow> Token list \<Rightarrow> bool" where
  "closed_list es us \<longleftrightarrow> (\<exists>hs x ks xs c i j. es = hs @ [x] \<and> us = ks @ xs @ [c] \<and> derives GOr x xs i j False \<and> tok '')'' c)"

definition ends_in_list :: "Token list \<Rightarrow> bool" where
  "ends_in_list ts \<longleftrightarrow> (\<exists>hs t l us es i j. ts = hs @ t # l # us \<and> tok ''in'' t \<and> tok ''('' l \<and>
     in_list es us i j True \<and> closed_list es us)"

lemma ends_in_list_append:
  assumes "ends_in_list us"
  shows "ends_in_list (ts @ us)"
proof -
  obtain hs t l vs es i j where "us = hs @ t # l # vs" "tok ''in'' t" "tok ''('' l" "in_list es vs i j True" "closed_list es vs"
    using assms unfolding ends_in_list_def by blast
  then show ?thesis unfolding ends_in_list_def
    by (intro exI [of _ "ts @ hs"] exI [of _ t] exI [of _ l] exI [of _ vs] exI [of _ es] exI [of _ i] exI [of _ j]) simp
qed

lemma ends_in_list_Cons: "ends_in_list us \<Longrightarrow> ends_in_list (t # us)"
  using ends_in_list_append [of us "[t]"] by simp

lemma closed_list_append:
  assumes "closed_list es us"
  shows "closed_list (e # es) (ts @ t # us)"
proof -
  obtain hs x ks xs c i j where "es = hs @ [x]" "us = ks @ xs @ [c]" "derives GOr x xs i j False" "tok '')'' c"
    using assms unfolding closed_list_def by blast
  then show ?thesis unfolding closed_list_def
    by (intro exI [of _ "e # hs"] exI [of _ x] exI [of _ "ts @ t # ks"] exI [of _ xs] exI [of _ c] exI [of _ i] exI [of _ j]) simp
qed

lemma open_ends:
  "derives c e ts i j b \<Longrightarrow> b \<Longrightarrow> ends_in_list ts"
  "in_list es ts i j b \<Longrightarrow> b \<Longrightarrow> closed_list es ts"
  "arguments es ts i j \<Longrightarrow> True"
proof (induction rule: derives_in_list_arguments.inducts)
  case (in_op e ts i j t u es us k b)
  then show ?case unfolding ends_in_list_def
    by (intro exI [of _ ts] exI [of _ t] exI [of _ u] exI [of _ us] exI [of _ es] exI [of _ j] exI [of _ k]) simp
next
  case (in_last e ts i j t)
  then show ?case unfolding closed_list_def
    by (intro exI [of _ "[]"] exI [of _ e] exI [of _ "[]"] exI [of _ ts] exI [of _ t] exI [of _ i] exI [of _ j]) simp
qed (auto intro: ends_in_list_append ends_in_list_Cons closed_list_append)

text \<open>C20: an expression that ends with an IN list cannot be put in parentheses. Let an expression of
  the grammar stand between parentheses, before a token that can neither go on with an expression nor
  close a parenthesis. If it ends with an IN list with at least one element and without a comma behind
  the last one (the list may have any length and elements, and any expression before it), the parser
  takes the closing parenthesis for a part of the list, and then reports that it is missing. Every
  other expression is accepted between parentheses: among them those that end with an empty IN list, or
  with one that has a comma behind its last element.\<close>

theorem parenthesised_in_fails:
  assumes "parser_ok p" "rest p = u # ts @ d # t # vs" "tok ''('' u" "tok '')'' d"
    and "derives GOr e ts (ps_params p) j b"
    and "ends GOr t" "tk_text t \<noteq> ''or''" "tk_text t \<noteq> '')''"
  shows "if b
    then ends_in_list ts \<and> (\<exists>q. Expression p = (None, q) \<and>
      ps_status q = Some (SyntaxError (''expected '' @ [CHR 0x27] @ '')'' @ [CHR 0x27])))
    else \<exists>q. Expression p = (Some e, q) \<and> rest q = t # vs \<and> ps_status q = ps_status p \<and> ps_params q = j"
proof (cases b)
  case True
  have "derives GOr e (ts @ [d]) (ps_params p) j False" using closed_again(1) [OF assms(5) True assms(4)] .
  moreover have "rest p = u # (ts @ [d]) @ t # vs" using assms(2) by simp
  ultimately have "\<exists>q. Expression p = (None, q) \<and>
      ps_status q = Some (SyntaxError (''expected '' @ [CHR 0x27] @ '')'' @ [CHR 0x27]))"
    using unclosed_fails [OF assms(1) _ assms(3) _ assms(6-8)] by blast
  then show ?thesis using open_ends(1) [OF assms(5) True] True by simp
next
  case False
  have "derives GPrimary e (u # ts @ [d]) (ps_params p) j False"
    using parens [OF assms(3) _ assms(4)] assms(5) False by simp
  then have "derives GOr e (u # ts @ [d]) (ps_params p) j False"
    by (intro disjunct conjunct comparand sum summand factor primary)
  moreover have "rest p = (u # ts @ [d]) @ t # vs" using assms(2) by simp
  ultimately obtain q where q: "Expression p = (Some e, q)" "moved p (length (u # ts @ [d])) j q"
    using Expression_derives [OF assms(1) _ _ assms(6,7)] by blast
  then show ?thesis using rest_moved [OF q(2)] assms(2) False by (auto simp: moved_def)
qed

text \<open>\<^verbatim>\<open>(a in (1, 2))\<close> is refused, \<^verbatim>\<open>(a in (1, 2,))\<close> is accepted.\<close>

definition in_phrase :: "Token list" where
  "in_phrase = [make_token KWord ''a'' 1, make_token KWord ''in'' 3, make_token KPunctuation ''('' 6,
     make_token KNumber ''1'' 7, make_token KPunctuation '','' 8, make_token KNumber ''2'' 10]"

definition in_tree :: expr where
  "in_tree = function_expr ''in'' [Some (column_expr ''a''), Some (literal_expr (VInteger 1)), Some (literal_expr (VInteger 2))]"

lemma in_derives:
  "derives GOr in_tree (in_phrase @ [make_token KPunctuation '')'' 11]) 0 0 True"
  "derives GOr in_tree (in_phrase @ [make_token KPunctuation '','' 11, make_token KPunctuation '')'' 12]) 0 0 False"
proof -
  have "named ''a'' [make_token KWord ''a'' 1]"
    using plain_name [of "make_token KWord ''a'' 1"] by (simp add: column_word_def operand_def make_token_def)
  then have a: "derives GLike (column_expr ''a'') [make_token KWord ''a'' 1] 0 0 False"
    by (intro sum summand factor primary) (simp add: column)
  have n: "derives GOr (literal_expr (VInteger (of_nat k))) [make_token KNumber s i] 0 0 False"
    if "number_literal s = Some (VInteger (of_nat k))" "s \<notin> {''not'', ''-'', ''+'', ''(''}" for s k i
    using number [of "make_token KNumber s i" "VInteger (of_nat k)" 0] that
    by (intro disjunct conjunct comparand sum summand factor primary) (simp add: operand_def make_token_def)
  have l: "number_literal ''1'' = Some (VInteger (of_nat 1))" "number_literal ''2'' = Some (VInteger (of_nat 2))"
    by (simp_all add: number_literal_def stoll_def digits_value_def)
  have t: "tok ''in'' (make_token KWord ''in'' 3)" "tok ''('' (make_token KPunctuation ''('' 6)"
    "\<And>i. tok '','' (make_token KPunctuation '','' i)" "\<And>i. tok '')'' (make_token KPunctuation '')'' i)"
    "\<And>s i. s \<noteq> '')'' \<Longrightarrow> tk_text (hd [make_token KNumber s i]) \<noteq> '')''"
    by (simp_all add: make_token_def)
  note n1 = n [OF l(1), of 7] and n2 = n [OF l(2), of 10]
  have "in_list [literal_expr (VInteger 1), literal_expr (VInteger 2)] ([make_token KNumber ''1'' 7] @
      make_token KPunctuation '','' 8 # [make_token KNumber ''2'' 10] @ [make_token KPunctuation '')'' 11]) 0 0 True"
    using in_next [OF n1 t(5) t(3) in_last [OF n2 t(5) t(4)]] by simp
  from in_op [OF a t(1,2) this] show "derives GOr in_tree (in_phrase @ [make_token KPunctuation '')'' 11]) 0 0 True"
    by (intro disjunct conjunct) (simp add: in_tree_def in_phrase_def)
  have "in_list [literal_expr (VInteger 1), literal_expr (VInteger 2)] ([make_token KNumber ''1'' 7] @
      make_token KPunctuation '','' 8 # [make_token KNumber ''2'' 10] @ make_token KPunctuation '','' 11 #
      [make_token KPunctuation '')'' 12]) 0 0 False"
    using in_next [OF n1 t(5) t(3) in_next [OF n2 t(5) t(3) in_end [OF t(4)]]] by simp
  from in_op [OF a t(1,2) this]
  show "derives GOr in_tree (in_phrase @ [make_token KPunctuation '','' 11, make_token KPunctuation '')'' 12]) 0 0 False"
    by (intro disjunct conjunct) (simp add: in_tree_def in_phrase_def)
qed

theorem parenthesised_in_fails_witness:
  "(\<exists>q. Expression (new_parser (make_token KPunctuation ''('' 0 # in_phrase @
       [make_token KPunctuation '')'' 11, make_token KPunctuation '')'' 12, make_token KEnd [] 13])) = (None, q) \<and>
     ps_status q = Some (SyntaxError (''expected '' @ [CHR 0x27] @ '')'' @ [CHR 0x27]))) \<and>
   (\<exists>q. Expression (new_parser (make_token KPunctuation ''('' 0 # in_phrase @
       [make_token KPunctuation '','' 11, make_token KPunctuation '')'' 12, make_token KPunctuation '')'' 13,
        make_token KEnd [] 14])) = (Some in_tree, q) \<and> ps_status q = None)" (is "?fails \<and> ?holds")
proof -
  let ?u = "make_token KPunctuation ''('' 0"
  have t: "tok ''('' ?u" "\<And>i. tok '')'' (make_token KPunctuation '')'' i)" "\<And>i. ends GOr (make_token KEnd [] i)"
    "\<And>i. tk_text (make_token KEnd [] i) \<noteq> ''or''" "\<And>i. tk_text (make_token KEnd [] i) \<noteq> '')''"
    by (simp_all add: make_token_def ends_def)
  let ?p = "new_parser (?u # in_phrase @
       [make_token KPunctuation '')'' 11, make_token KPunctuation '')'' 12, make_token KEnd [] 13])"
  have p: "parser_ok ?p" by code_simp
  have r: "rest ?p = ?u # (in_phrase @ [make_token KPunctuation '')'' 11]) @ make_token KPunctuation '')'' 12 # make_token KEnd [] 13 # []"
    by (simp add: rest_def new_parser_def)
  have d: "derives GOr in_tree (in_phrase @ [make_token KPunctuation '')'' 11]) (ps_params ?p) 0 True"
    using in_derives(1) by (simp add: new_parser_def)
  have 1: ?fails using parenthesised_in_fails [OF p r t(1,2) d t(3-5)] by simp
  let ?p = "new_parser (?u # in_phrase @ [make_token KPunctuation '','' 11, make_token KPunctuation '')'' 12,
      make_token KPunctuation '')'' 13, make_token KEnd [] 14])"
  have p: "parser_ok ?p" by code_simp
  have r: "rest ?p = ?u # (in_phrase @ [make_token KPunctuation '','' 11, make_token KPunctuation '')'' 12]) @
      make_token KPunctuation '')'' 13 # make_token KEnd [] 14 # []"
    by (simp add: rest_def new_parser_def)
  have d: "derives GOr in_tree (in_phrase @ [make_token KPunctuation '','' 11, make_token KPunctuation '')'' 12]) (ps_params ?p) 0 False"
    using in_derives(2) by (simp add: new_parser_def)
  have "ps_status ?p = None" by (simp add: new_parser_def)
  then have 2: ?holds using parenthesised_in_fails [OF p r t(1,2) d t(3-5)] by auto
  show ?thesis using 1 2 ..
qed

end
