(* ===== verification/Spec2Isabelle.thy ===== *)
theory Spec2Isabelle
  imports Endian Key_Codec Engine B_Plus_Tree Table_Heap Catalog Transaction_Manager Sql_Front Buffer_Pool
    Lruk_Replacer Cli_Shell Common_Utils Crash_History Sql_Dml Parser_Exact
begin

text \<open>
  TupleStone is an embedded SQL engine in C++. This development models its source and proves what
  makes the parts correct. A database is one object that holds all tables in memory; statements run on
  them, a commit writes a snapshot of all tables to a write-ahead log, and opening a database reads the
  data file and replays the log. Beside this engine the repository holds a paged storage layer (disk
  manager, buffer pool, replacer), an index, a table heap, a transaction manager, a catalog and a small
  SQL front end, which the engine does not call; they are modelled as the components they are. Paths
  below are under \<^verbatim>\<open>src/\<close> of the repository.

  \<^bold>\<open>Foundations.\<close>
  \<^item> \<open>TS_Prelude\<close>: the identifier types of \<^verbatim>\<open>common/types.h\<close> as words, bytes and characters,
    \<^verbatim>\<open>cctype\<close>, runs of bytes; the collections of rewrite rules the codecs share.
  \<^item> \<open>Status\<close>: \<^verbatim>\<open>Status\<close> and \<^verbatim>\<open>StatusOr\<close> (\<^verbatim>\<open>status.h\<close>, \<^verbatim>\<open>status.cpp\<close>). A status is its
    payload pointer, \<open>None\<close> when Ok; a function that returns \<^verbatim>\<open>StatusOr\<close> gives \<open>Inl\<close> of an error
    or \<open>Inr\<close> of a value, so every early return of the code is a branch.
  \<^item> \<open>Endian\<close> (\<^verbatim>\<open>endian.h\<close>), \<open>Crc32c\<close> (\<^verbatim>\<open>crc32c.cpp\<close>), \<open>Ordered_Map\<close> (\<^verbatim>\<open>std::map\<close> as an ordered
    association list), \<open>Ieee_Double\<close> (\<^verbatim>\<open>double\<close> as its 64 bits, with exact arithmetic and one rounding),
    \<open>Common_Utils\<close> (\<^verbatim>\<open>slice.h\<close>, \<^verbatim>\<open>logger.cpp\<close>, \<^verbatim>\<open>assert.cpp\<close>).
  \<^item> \<open>Io_Env\<close>: the file system the program sees. The environment holds the contents of all files and a
    tape with the outcome of each call to come; a failing write lets any prefix of the pending bytes
    through; a crash loses what is still in a stream's buffer.

  \<^bold>\<open>Values and formats.\<close>
  \<^item> \<open>Sql_Value\<close>, \<open>Key_Codec\<close> (\<^verbatim>\<open>value.h\<close>, \<^verbatim>\<open>value.cpp\<close>): the variant, \<^verbatim>\<open>Compare\<close> with its promotion to
    double, printing; \<^verbatim>\<open>EncodeKey\<close> and \<^verbatim>\<open>DecodeKey\<close>. Compare is a total preorder on each class of
    values and exact on integers up to 2^53; the byte order of keys is the SQL order within a type, but
    for values that compare as equal and are not: integers beyond 2^53 and the two zeros.
  \<^item> \<open>Table_Codec\<close> (\<^verbatim>\<open>api/db.cpp\<close>, \<^verbatim>\<open>Writer\<close>, \<^verbatim>\<open>Reader\<close>, \<^verbatim>\<open>SerializeTables\<close>, \<^verbatim>\<open>LoadTablesBytes\<close>): a
    snapshot is read back exactly, every proper prefix and every extension is rejected, and what is
    loaded from any bytes is well formed.
  \<^item> \<open>Log_Manager\<close> (\<^verbatim>\<open>wal/log_manager.cpp\<close>): framing, the scan that stops at the first record that
    is torn or damaged behind its length field, and every operation of the log under faults.

  \<^bold>\<open>Durability.\<close> \<open>Recovery\<close> (\<^verbatim>\<open>api/db.cpp\<close>: \<^verbatim>\<open>SaveTables\<close>, \<^verbatim>\<open>PersistCommittedTables\<close>,
  \<^verbatim>\<open>RecoverCommittedTables\<close>, \<^verbatim>\<open>Database::Open\<close>, \<^verbatim>\<open>Checkpoint\<close>, \<^verbatim>\<open>Close\<close>). Opening refines, without faults, an abstract
  account of recovery from the data file and the valid part of the log. A commit is durable when nothing
  fails; when calls fail, a reopened database has the tables of the commit or those before it, with one
  exception the theorem names (\<open>torn_data\<close>): the code does not look at the flush of the new data
  file, and when that fails a damaged file can replace the old one, also under a commit that reports
  success (\<open>unflushed_save_destroys\<close>). Two more theorems state defects: a commit after a torn append is
  lost, and a file that cannot be opened is replaced by an empty database.

  \<^bold>\<open>SQL.\<close>
  \<^item> \<open>Sql_Token\<close>, \<open>Sql_Parser\<close>, \<open>Sql_Eval\<close>: \<^verbatim>\<open>Tokenize\<close>, the class \<^verbatim>\<open>Parser\<close>, \<^verbatim>\<open>Eval\<close>. Printed
    tokens are read back; the parser returns on every input, stays inside it and gives a complete tree
    unless it reports an error; evaluation without a value reports an error; logic is three-valued.
  \<^item> \<open>Sql_Grammar\<close>, \<open>Parser_Exact\<close>: the grammar of expressions as an inductive definition, and the proof
    that the parser accepts its phrases, and only these, with their trees. Its precedence is the code's,
    which is not the one of \<^verbatim>\<open>ARCHITECTURE.md\<close>: NOT binds tightest (\<open>not_binds_tightest\<close>). Which
    expressions parentheses cannot enclose is characterised: those that end with an IN list.
  \<^item> \<open>Sql_Table\<close>, \<open>Sql_Exec\<close>, \<open>Sql_Select\<close>: \<^verbatim>\<open>ValidateRow\<close>, \<^verbatim>\<open>RefreshCatalog\<close> and one definition per
    statement of \<^verbatim>\<open>ExecuteSql\<close>. A statement changes its tables also when it fails half way, as the code
    does. Every statement keeps the column constraints (locale \<open>statement\<close>), the statements' loops
    return, and SELECT computes filter, stable sort, offset, projection, distinct and limit of a
    declarative specification.
  \<^item> \<open>Sql_Dml\<close>: what UPDATE, DELETE and INSERT do to the rows of their table, also when they fail half way.
  \<^item> \<open>Engine\<close> (\<^verbatim>\<open>db.h\<close>): connections, transactions, prepared statements, result sets, and sequences
    of operations on several connections. An open transaction is invisible and rollback gives the state
    without it, the first committer wins over the writes the code counts, a commit is durable,
    constraints hold in every reachable state.
  \<^item> \<open>Crash_History\<close>: durability of whole histories. After any operations of any connections without
    faults, an operation whose calls fail costs at most itself, unless a new data file whose flush failed
    was installed, or a checkpoint removed the data file and could not replace it.
  \<^item> \<open>Cli_Shell\<close> (\<^verbatim>\<open>cli/main.cpp\<close>): the shell as a function from input lines to printed text. A session
    of SQL lines is a run of the engine, and nothing typed breaks a constraint.

  \<^bold>\<open>Storage and catalog components.\<close>
  \<^item> \<open>Disk_Manager\<close> (\<^verbatim>\<open>disk/disk_manager.cpp\<close>): header, pages with checksums, the free list. Without
    faults the allocator is a stack of free pages and reopening restores the manager; a damaged page is
    noticed. The locale \<open>page_store\<close> is what its client relies on under any faults.
  \<^item> \<open>Buffer_Pool\<close> (\<^verbatim>\<open>buffer/buffer_pool_manager.cpp\<close>): frames, page table, guards. \<open>pool_run\<close> is
    what clients do, in any order, with failing calls of the disk; it leaves out \<^verbatim>\<open>UnpinPage\<close> and two
    failures of an allocation, named there. In every run each guard shows the bytes last written to its
    page, and a flush of all pages that succeeds while no writable guard is live leaves this memory on
    the disk. Pins are counted by the live guards.
  \<^item> \<open>Lruk_Replacer\<close> (\<^verbatim>\<open>buffer/lruk_replacer.cpp\<close>): the victim has the largest backward k-distance.
  \<^item> \<open>B_Plus_Tree\<close>, \<open>Table_Heap\<close>, \<open>Catalog\<close>, \<open>Transaction_Manager\<close>: each refines its abstract
    contract: a set of pairs, a map from addresses to tuples, the history of created and dropped tables,
    and the history of begun and ended transactions, from which every snapshot is read off.
  \<^item> \<open>Sql_Front\<close> (\<^verbatim>\<open>sql/\<close>, \<^verbatim>\<open>planner/plan.cpp\<close>): the positional lexer, the statement classifier, the
    binder stub, and the printing of plans.

  \<^bold>\<open>Interfaces.\<close> \<open>buffer_field\<close>, \<open>wire_codec\<close>, \<open>std_map\<close>, \<open>statement\<close>, \<open>persistence\<close> and
  \<open>page_store\<close> are the contracts between the parts; each is interpreted on the definitions of the
  code that provides it.

  \<^bold>\<open>Bounds and fuel.\<close> The expression parser runs on \<open>parse_fuel\<close>, which its totality theorem shows
  enough for every token list; the loops of statements run on \<open>loop_fuel\<close>, one more than the tokens
  left, and \<open>statement_loops_return\<close> shows that they stop before it is used up. Other loops are
  structural or have a measure. Integers of the code are words of their width where they can wrap
  (identifiers, sequence numbers, clocks, SQL integers); sizes and counts of things in memory are
  natural numbers.

  \<^bold>\<open>Threads.\<close> Operations are atomic steps. This is what the mutexes of the storage components give;
  \<^verbatim>\<open>ExecuteSql\<close> itself runs without the mutex of the database, so two threads inside it at the same
  time are outside the model, as are writes through a page guard during a flush.

  \<^bold>\<open>Not modelled.\<close> The buffering of the disk manager's stream (its file is what the stream shows);
  the Windows branches of \<^verbatim>\<open>Sync\<close> and of the log; how \<^verbatim>\<open>vsnprintf\<close> fills a format in (what it
  returns and writes is modelled); \<^verbatim>\<open>exec/executor.h\<close>, whose only operation calls the function it was
  given; allocation failure; moves, and the destructors and copies that only manage memory.
\<close>

end
